(* ===== verification/Shrike_Prelude.thy ===== *)
theory Shrike_Prelude
  imports Main "HOL-Library.Word" "HOL-Library.Multiset" "HOL-Library.Monad_Syntax"
begin

text \<open>
  Shared vocabulary of the development: the machine-integer and byte types of the
  Rust program, the lemma collections, and the generic facts on words, lists and
  options that the component theories use.

  \<^item> a byte string (\<^verbatim>\<open>Vec<u8>\<close>, \<^verbatim>\<open>&[u8]\<close>, \<^verbatim>\<open>Bytes\<close>, \<^verbatim>\<open>BytesMut\<close>, \<^verbatim>\<open>&str\<close>)
    is a \<open>bytes\<close>, a list of 8-bit characters;
  \<^item> a byte that takes part in bit arithmetic is a \<open>u8\<close>, and the other unsigned
    integers are words of their width;
  \<^item> \<open>i64\<close> is a 64-bit word read by \<open>sint\<close>; \<open>f64\<close> is the IEEE 754 bit pattern;
  \<^item> \<open>usize\<close> is \<open>nat\<close> where it counts elements or indexes memory, and a 64-bit
    word where a client chooses its value.

  A panic is the value \<open>None\<close> of an \<open>option\<close> result. Arithmetic is that of the
  release build, which wraps around.
\<close>

unbundle bit_operations_syntax

type_synonym byte = char
type_synonym bytes = "char list"
type_synonym u8 = "8 word"
type_synonym u16 = "16 word"
type_synonym u32 = "32 word"
type_synonym u64 = "64 word"
type_synonym i64 = "64 word"
type_synonym f64 = "64 word"

named_theorems word_view \<open>reading a packed machine word by its components\<close>
named_theorems inv_intros \<open>invariant preservation, one rule per operation\<close>
named_theorems map_view \<open>what an operation does to the key-value map a structure stands for\<close>

definition byte_val :: "byte \<Rightarrow> nat" where
  "byte_val c = of_char c"

lemma byte_val_less [simp]: "byte_val c < 256"
  by (simp add: byte_val_def)

lemma byte_val_eq_iff [simp]: "byte_val c = byte_val d \<longleftrightarrow> c = d"
  by (simp add: byte_val_def of_char_eq_iff)

lemma byte_val_char_of [simp]: "byte_val (char_of n) = n mod 256"
  by (simp add: byte_val_def)

lemma char_of_byte_val [simp]: "char_of (byte_val c) = c"
  by (simp add: byte_val_def)

lemma byte_val_Char: "byte_val (Char b0 b1 b2 b3 b4 b5 b6 b7) = of_bool b0 + 2 * of_bool b1
   + 4 * of_bool b2 + 8 * of_bool b3 + 16 * of_bool b4 + 32 * of_bool b5 + 64 * of_bool b6
   + 128 * of_bool b7"
  by (simp add: byte_val_def)

subsection \<open>Words\<close>

lemma word_bit_small:
  assumes "unat (w :: 'a::len word) < 2 ^ k" and "k \<le> n"
  shows "\<not> bit w n"
proof -
  have "take_bit k (unat w) = unat w" using assms(1) by (rule take_bit_nat_eq_self)
  then have "\<not> bit (unat w) n" using assms(2) by (metis bit_take_bit_iff not_le)
  then show ?thesis by (simp add: bit_simps possible_bit_def)
qed

lemma unat_less_16_bits: "unat (w :: 'a::len word) < 16 \<Longrightarrow> 4 \<le> n \<Longrightarrow> \<not> bit w n"
  using word_bit_small [of w 4 n] by simp

lemma unat_of_nat_u64: "n < 2 ^ 64 \<Longrightarrow> unat (of_nat n :: u64) = n"
  by (simp add: unat_of_nat)

subsection \<open>Lists\<close>

lemma find_upt_Some:
  "List.find P [m..<n] = Some i \<longleftrightarrow> m \<le> i \<and> i < n \<and> P i \<and> (\<forall>j. m \<le> j \<and> j < i \<longrightarrow> \<not> P j)"
proof (induction "n - m" arbitrary: m)
  case 0
  then show ?case by auto
next
  case (Suc d)
  then have "[m..<n] = m # [Suc m..<n]" by (simp add: upt_conv_Cons)
  moreover have "List.find P [Suc m..<n] = Some i \<longleftrightarrow>
      Suc m \<le> i \<and> i < n \<and> P i \<and> (\<forall>j. Suc m \<le> j \<and> j < i \<longrightarrow> \<not> P j)"
    using Suc.hyps(1) [of "Suc m"] Suc.hyps(2) by simp
  moreover have "m < n" using Suc.hyps(2) by simp
  ultimately show ?case
    by (cases "P m") (auto simp: Suc_le_eq, metis le_neq_implies_less)
qed

lemma find_upt_None: "List.find P [m..<n] = None \<longleftrightarrow> (\<forall>i. m \<le> i \<and> i < n \<longrightarrow> \<not> P i)"
  by (auto simp: find_None_iff)

lemma find_SomeD: "List.find P xs = Some x \<Longrightarrow> P x \<and> x \<in> set xs"
  by (auto simp: find_Some_iff)

lemma nth_list_update_if: "xs[i := x] ! j = (if j = i \<and> i < length xs then x else xs ! j)"
  by (cases "i < length xs") (auto simp: nth_list_update list_update_beyond)

lemma upt_split_at: "i < n \<Longrightarrow> [0..<n] = [0..<i] @ i # [Suc i..<n]"
  using upt_add_eq_append [of 0 i "n - i"] upt_conv_Cons [of i n] by simp

end
