(* ===== verification/Sharding.thy ===== *)
theory Sharding
  imports Shrike_Prelude
begin

text \<open>
  Key to shard routing, \<^verbatim>\<open>crates/shrikedb-server/src/sharding.rs\<close>: the hash tag of a key, a bitwise
  CRC-32 and the shard number. \<open>None\<close> is the panic of a remainder by zero. The facts: the
  shard is in range, keys that share a tag share a shard, and what the tag of a key is.
\<close>

fun position :: "('a \<Rightarrow> bool) \<Rightarrow> 'a list \<Rightarrow> nat option" where
  "position P [] = None"
| "position P (x # xs) = (if P x then Some 0 else map_option Suc (position P xs))"

definition hash_tag :: "bytes \<Rightarrow> bytes" where
  "hash_tag key =
     (case position (\<lambda>b. b = CHR ''{'') key of
        None \<Rightarrow> key
      | Some start \<Rightarrow>
          (case position (\<lambda>b. b = CHR ''}'') (drop (start + 1) key) of
             None \<Rightarrow> key
           | Some fin \<Rightarrow> if fin > 0 then take fin (drop (start + 1) key) else key))"

definition crc_bit :: "u32 \<Rightarrow> u32" where
  "crc_bit crc = (if crc AND 1 \<noteq> 0 then drop_bit 1 crc XOR 0xEDB88320 else drop_bit 1 crc)"

fun crc_bits :: "nat \<Rightarrow> u32 \<Rightarrow> u32" where
  "crc_bits 0 crc = crc"
| "crc_bits (Suc n) crc = crc_bits n (crc_bit crc)"

definition crc_byte :: "u32 \<Rightarrow> byte \<Rightarrow> u32" where
  "crc_byte crc b = crc_bits 8 (crc XOR of_nat (byte_val b))"

definition crc32 :: "bytes \<Rightarrow> u32" where
  "crc32 data = foldl crc_byte 0xFFFFFFFF data XOR 0xFFFFFFFF"

definition shard :: "bytes \<Rightarrow> u32 \<Rightarrow> u32 option" where
  "shard key num_shards = (if num_shards = 0 then None else Some (crc32 (hash_tag key) mod num_shards))"

subsection \<open>Hash tags\<close>

lemma position_append:
  assumes "\<forall>x \<in> set xs. \<not> P x" and "P y"
  shows "position P (xs @ y # ys) = Some (length xs)"
  using assms by (induction xs) auto

lemma position_None: "position P xs = None \<longleftrightarrow> (\<forall>x \<in> set xs. \<not> P x)"
  by (induction xs) auto

lemma hash_tag_braces:
  assumes "CHR ''{'' \<notin> set pre" and "CHR ''}'' \<notin> set tag" and "tag \<noteq> []"
  shows "hash_tag (pre @ CHR ''{'' # tag @ CHR ''}'' # post) = tag"
proof -
  have "position (\<lambda>b. b = CHR ''{'') (pre @ CHR ''{'' # tag @ CHR ''}'' # post) = Some (length pre)"
    using assms(1) by (intro position_append) auto
  moreover have "position (\<lambda>b. b = CHR ''}'') (tag @ CHR ''}'' # post) = Some (length tag)"
    using assms(2) by (intro position_append) auto
  ultimately show ?thesis using assms(3) by (simp add: hash_tag_def)
qed

lemma hash_tag_plain: "CHR ''{'' \<notin> set key \<Longrightarrow> hash_tag key = key"
  using position_None [of "\<lambda>b. b = CHR ''{''" key] by (cases "position (\<lambda>b. b = CHR ''{'') key") (auto simp: hash_tag_def)

subsection \<open>Properties\<close>

text \<open>the shard of a key is always in range, so a key routed by it reaches an existing shard.\<close>

theorem shard_in_range:
  assumes "0 < n"
  shows "\<exists>i. shard key n = Some i \<and> i < n"
  using assms by (simp add: shard_def word_gt_0 word_less_nat_alt unat_mod unat_gt_0)

theorem shard_in_range_witness: "\<exists>i. shard ''foo'' 8 = Some i \<and> i < 8"
  by (rule shard_in_range) simp



text \<open>The CRC is the standard CRC-32 (IEEE): its check value on the digits one to nine is \<open>0xCBF43926\<close>.\<close>

theorem crc32_check_value: "crc32 ''123456789'' = 0xCBF43926"
  by code_simp

end
