(* ===== verification/Dash_Bucket.thy ===== *)
theory Dash_Bucket
  imports Shrike_Prelude
begin

text \<open>
  One bucket of the Dash hash table, \<^verbatim>\<open>crates/shrikedb-core/src/dash/bucket.rs\<close>: the packed
  slot bitmap \<open>SlotBitmap\<close> (size counter, probing mask and busy mask in one \<open>u32\<close>), the twelve
  key/value slots with their fingerprints, and the stash pointers a home bucket keeps for the
  items it overflowed into the stash buckets.

  A key or value slot is a \<^verbatim>\<open>MaybeUninit\<close>: \<open>None\<close> is uninitialised memory. \<open>bucket_inv\<close> says
  that exactly the busy slots are initialised, so no read of a busy slot is undefined.
\<close>

subsection \<open>Constants\<close>

definition NUM_SLOTS :: nat where "NUM_SLOTS = 12"
definition NUM_BUCKETS :: nat where "NUM_BUCKETS = 64"
definition NUM_STASH :: nat where "NUM_STASH = 4"
definition TOTAL_BUCKETS :: nat where "TOTAL_BUCKETS = NUM_BUCKETS + NUM_STASH"
definition FP_MASK :: u64 where "FP_MASK = 0xFF"
definition ALLOC_MASK :: u32 where "ALLOC_MASK = push_bit NUM_SLOTS 1 - 1"
definition SIZE_MASK :: u32 where "SIZE_MASK = 0xF"

lemmas dash_consts = NUM_SLOTS_def NUM_BUCKETS_def NUM_STASH_def TOTAL_BUCKETS_def

subsection \<open>The slot bitmap\<close>

type_synonym slot_bitmap = u32

definition busy :: "slot_bitmap \<Rightarrow> u32" where
  "busy bm = drop_bit 18 bm"

definition probe_mask :: "slot_bitmap \<Rightarrow> bool \<Rightarrow> u32" where
  "probe_mask bm probe =
     (let raw = drop_bit 4 bm AND ALLOC_MASK
      in if probe then raw else raw XOR ALLOC_MASK)"

definition bm_size :: "slot_bitmap \<Rightarrow> nat" where
  "bm_size bm = unat (bm AND SIZE_MASK)"

definition is_full :: "slot_bitmap \<Rightarrow> bool" where
  "is_full bm = (bm_size bm = NUM_SLOTS)"

definition trailing_zeros :: "u32 \<Rightarrow> nat" where
  "trailing_zeros w = length (takeWhile (\<lambda>i. \<not> bit w i) [0..<32])"

definition find_empty :: "slot_bitmap \<Rightarrow> nat option" where
  "find_empty bm =
     (let free = NOT (busy bm) AND ALLOC_MASK
      in if free = 0 then None else Some (trailing_zeros free))"

definition set_slot :: "slot_bitmap \<Rightarrow> nat \<Rightarrow> bool \<Rightarrow> slot_bitmap" where
  "set_slot bm index probing =
     (let b1 = bm OR push_bit (18 + index) 1;
          b2 = (if probing then b1 OR push_bit (4 + index) 1
                else b1 AND NOT (push_bit (4 + index) 1));
          sz = b2 AND SIZE_MASK
      in (b2 AND NOT SIZE_MASK) OR (sz + 1))"

definition clear_slot :: "slot_bitmap \<Rightarrow> nat \<Rightarrow> slot_bitmap" where
  "clear_slot bm index =
     (let b1 = bm AND NOT (push_bit (18 + index) 1);
          b2 = b1 AND NOT (push_bit (4 + index) 1);
          sz = b2 AND SIZE_MASK
      in (b2 AND NOT SIZE_MASK) OR (sz - 1))"

definition bm_clear :: "slot_bitmap \<Rightarrow> slot_bitmap" where
  "bm_clear bm = 0"

text \<open>The invariant of a bitmap: only the twelve real slots are busy, and the counter counts them.\<close>

definition busy_slots :: "slot_bitmap \<Rightarrow> nat set" where
  "busy_slots bm = {i. bit (busy bm) i}"

definition bitmap_inv :: "slot_bitmap \<Rightarrow> bool" where
  "bitmap_inv bm \<longleftrightarrow> busy_slots bm \<subseteq> {..<NUM_SLOTS} \<and> bm_size bm = card (busy_slots bm)"

subsection \<open>Iterating over the set bits of a mask\<close>

text \<open>
  The loop \<^verbatim>\<open>while mask != 0 { slot = mask.trailing_zeros(); ...; mask &= mask - 1 }\<close> appears in
  every traversal of a bucket. \<open>mask_slots\<close> is the sequence of \<open>slot\<close> values it visits.
\<close>

function mask_slots :: "u32 \<Rightarrow> nat list" where
  "mask_slots m = (if m = 0 then [] else trailing_zeros m # mask_slots (m AND (m - 1)))"
  by pat_completeness auto
termination
proof (relation "measure unat", goal_cases)
  case 1
  show ?case by simp
next
  case (2 m)
  have "unat (m AND (m - 1)) \<le> unat (m - 1)" by (metis word_and_le1 word_le_nat_alt)
  also have "\<dots> < unat m" using 2 by (simp add: unat_minus_one unat_gt_0)
  finally show ?case by simp
qed

declare mask_slots.simps [simp del]

subsection \<open>The bucket\<close>

record ('k, 'v) bucket =
  slots :: slot_bitmap
  fingerprints :: "u8 list"
  stash_fps :: "u8 list"
  stash_busy :: u8
  stash_pos :: u8
  stash_probe_mask :: u8
  overflow_count :: u8
  keys :: "'k option list"
  vals :: "'v option list"

definition bucket_new :: "('k, 'v) bucket" where
  "bucket_new = \<lparr>slots = 0, fingerprints = replicate NUM_SLOTS 0,
     stash_fps = replicate NUM_STASH 0, stash_busy = 0, stash_pos = 0, stash_probe_mask = 0,
     overflow_count = 0, keys = replicate NUM_SLOTS None, vals = replicate NUM_SLOTS None\<rparr>"

definition find_matching :: "('k, 'v) bucket \<Rightarrow> u8 \<Rightarrow> bool \<Rightarrow> u32" where
  "find_matching b fp probe =
     (let bz = busy (slots b); ownership = probe_mask (slots b) probe
      in foldl (\<lambda>mask i. if drop_bit i bz AND 1 \<noteq> 0 \<and> drop_bit i ownership AND 1 \<noteq> 0
                            \<and> fingerprints b ! i = fp
                         then mask OR push_bit i 1 else mask) 0 [0..<NUM_SLOTS])"

definition try_insert ::
  "('k, 'v) bucket \<Rightarrow> 'k \<Rightarrow> 'v \<Rightarrow> u8 \<Rightarrow> bool \<Rightarrow> (nat \<times> ('k, 'v) bucket) option" where
  "try_insert b key value fp probing =
     (case find_empty (slots b) of
        None \<Rightarrow> None
      | Some slot \<Rightarrow> Some (slot,
          b\<lparr>fingerprints := (fingerprints b)[slot := fp],
            keys := (keys b)[slot := Some key],
            vals := (vals b)[slot := Some value],
            slots := set_slot (slots b) slot probing\<rparr>))"

definition bucket_delete ::
  "('k, 'v) bucket \<Rightarrow> nat \<Rightarrow> ('k option \<times> 'v option) \<times> ('k, 'v) bucket" where
  "bucket_delete b slot =
     ((keys b ! slot, vals b ! slot),
      b\<lparr>slots := clear_slot (slots b) slot,
        keys := (keys b)[slot := None], vals := (vals b)[slot := None]\<rparr>)"

definition bucket_key :: "('k, 'v) bucket \<Rightarrow> nat \<Rightarrow> 'k option" where
  "bucket_key b slot = keys b ! slot"

definition bucket_value :: "('k, 'v) bucket \<Rightarrow> nat \<Rightarrow> 'v option" where
  "bucket_value b slot = vals b ! slot"

text \<open>A write through \<^verbatim>\<open>value_mut\<close>.\<close>

definition set_value :: "('k, 'v) bucket \<Rightarrow> nat \<Rightarrow> 'v \<Rightarrow> ('k, 'v) bucket" where
  "set_value b slot v = b\<lparr>vals := (vals b)[slot := Some v]\<rparr>"

definition has_stash :: "('k, 'v) bucket \<Rightarrow> bool" where
  "has_stash b = (stash_busy b AND 0x10 \<noteq> 0)"

definition has_stash_overflow :: "('k, 'v) bucket \<Rightarrow> bool" where
  "has_stash_overflow b = (overflow_count b > 0)"

definition set_stash_ptr :: "('k, 'v) bucket \<Rightarrow> u8 \<Rightarrow> u8 \<Rightarrow> bool \<Rightarrow> ('k, 'v) bucket" where
  "set_stash_ptr b stash_bucket_id fp is_probing =
     (case List.find (\<lambda>i. stash_busy b AND push_bit i 1 = 0) [0..<NUM_STASH] of
        Some i \<Rightarrow> b\<lparr>stash_fps := (stash_fps b)[i := fp],
                   stash_pos := (stash_pos b AND NOT (push_bit (i * 2) 3))
                                OR push_bit (i * 2) stash_bucket_id,
                   stash_busy := (stash_busy b OR push_bit i 1) OR 0x10,
                   stash_probe_mask := (if is_probing then stash_probe_mask b OR push_bit i 1
                                        else stash_probe_mask b AND NOT (push_bit i 1))\<rparr>
      | None \<Rightarrow> b\<lparr>overflow_count := overflow_count b + 1,
                 stash_busy := stash_busy b OR 0x10\<rparr>)"

definition clear_stash_flag_if_unused :: "('k, 'v) bucket \<Rightarrow> ('k, 'v) bucket" where
  "clear_stash_flag_if_unused b =
     (if stash_busy b AND 0x0F = 0 \<and> overflow_count b = 0
      then b\<lparr>stash_busy := stash_busy b AND NOT 0x10\<rparr> else b)"

definition unset_stash_ptr :: "('k, 'v) bucket \<Rightarrow> u8 \<Rightarrow> u8 \<Rightarrow> bool \<times> ('k, 'v) bucket" where
  "unset_stash_ptr b fp pos =
     (case List.find (\<lambda>i. stash_busy b AND push_bit i 1 \<noteq> 0 \<and> stash_fps b ! i = fp
                           \<and> drop_bit (i * 2) (stash_pos b) AND 3 = pos) [0..<NUM_STASH] of
        Some i \<Rightarrow> (True, clear_stash_flag_if_unused
                            (b\<lparr>stash_busy := stash_busy b AND NOT (push_bit i 1)\<rparr>))
      | None \<Rightarrow>
          if overflow_count b > 0
          then (True, clear_stash_flag_if_unused (b\<lparr>overflow_count := overflow_count b - 1\<rparr>))
          else (False, b))"

text \<open>
  \<^verbatim>\<open>Drop for Bucket\<close>: the key and value slots the destructor frees, in order. A \<open>None\<close> in the
  result would be a drop of uninitialised memory.
\<close>

definition bucket_drop :: "('k, 'v) bucket \<Rightarrow> ('k option \<times> 'v option) list" where
  "bucket_drop b =
     map (\<lambda>i. (keys b ! i, vals b ! i))
       (filter (\<lambda>i. drop_bit i (busy (slots b)) AND 1 = 1) [0..<NUM_SLOTS])"

subsection \<open>Placement of a hash\<close>

definition home_bucket :: "u64 \<Rightarrow> nat" where
  "home_bucket hash = unat (drop_bit 8 hash) mod NUM_BUCKETS"

definition fingerprint :: "u64 \<Rightarrow> u8" where
  "fingerprint hash = ucast (hash AND FP_MASK)"

definition next_bucket :: "nat \<Rightarrow> nat" where
  "next_bucket bid = (if bid < NUM_BUCKETS - 1 then bid + 1 else 0)"

definition prev_bucket :: "nat \<Rightarrow> nat" where
  "prev_bucket bid = (if bid > 0 then bid - 1 else NUM_BUCKETS - 1)"

subsection \<open>Reading the bitmap\<close>

lemma ALLOC_MASK_eq: "ALLOC_MASK = mask 12"
  by (simp add: ALLOC_MASK_def NUM_SLOTS_def mask_eq_exp_minus_1 push_bit_eq_mult)

lemma bit_ALLOC_MASK [simp]: "bit ALLOC_MASK i \<longleftrightarrow> i < NUM_SLOTS"
  by (auto simp: ALLOC_MASK_eq NUM_SLOTS_def bit_simps possible_bit_def)

lemma SIZE_MASK_eq: "SIZE_MASK = mask 4"
  by (simp add: SIZE_MASK_def mask_eq_exp_minus_1)

lemma bit_SIZE_MASK [simp]: "bit SIZE_MASK i \<longleftrightarrow> i < 4"
  by (auto simp: SIZE_MASK_eq bit_simps possible_bit_def)

lemma bit_busy: "bit (busy bm) i \<longleftrightarrow> bit bm (18 + i)"
  by (simp add: busy_def bit_drop_bit_eq)

lemma bit_probe_mask: "bit (probe_mask bm p) i \<longleftrightarrow> i < NUM_SLOTS \<and> (bit bm (4 + i) = p)"
  by (auto simp: probe_mask_def Let_def bit_simps)

lemma bm_size_take_bit: "bm_size bm = take_bit 4 (unat bm)"
  by (simp add: bm_size_def SIZE_MASK_eq take_bit_eq_mask [symmetric] unsigned_take_bit_eq)

lemma bm_size_less: "bm_size bm < 16"
  using take_bit_nat_less_exp [of 4 "unat bm"] by (simp add: bm_size_take_bit)

lemma trailing_zeros_least:
  assumes "bit w i" and "i < 32"
  shows "bit w (trailing_zeros w)" and "trailing_zeros w \<le> i"
    and "\<And>j. j < trailing_zeros w \<Longrightarrow> \<not> bit w j"
proof -
  let ?P = "\<lambda>i. \<not> bit w i"
  let ?t = "takeWhile ?P [0..<32]"
  have le: "length ?t \<le> i"
  proof (rule ccontr)
    assume "\<not> length ?t \<le> i"
    then have "i < length ?t" by simp
    then have "?t ! i \<in> set ?t" by (rule nth_mem)
    then have "?P (?t ! i)" by (metis (mono_tags, lifting) set_takeWhileD)
    moreover have "?t ! i = i" using \<open>i < length ?t\<close> assms(2) by (simp add: takeWhile_nth)
    ultimately show False using assms(1) by simp
  qed
  then show "trailing_zeros w \<le> i" by (simp add: trailing_zeros_def)
  have "length ?t < length [0..<32]" using le assms(2) by simp
  then have "\<not> ?P ([0..<32] ! length ?t)" by (rule nth_length_takeWhile)
  then show "bit w (trailing_zeros w)" using le assms(2) by (simp add: trailing_zeros_def)
  show "\<not> bit w j" if "j < trailing_zeros w" for j
  proof -
    have j: "j < length ?t" using that by (simp add: trailing_zeros_def)
    then have "?t ! j \<in> set ?t" by (rule nth_mem)
    then have "?P (?t ! j)" by (metis (mono_tags, lifting) set_takeWhileD)
    moreover have "?t ! j = j" using j le assms(2) by (simp add: takeWhile_nth)
    ultimately show ?thesis by simp
  qed
qed


subsection \<open>Writing the bitmap\<close>

text \<open>Both updates end by replacing the low nibble, the counter.\<close>

lemma bit_replace_nibble:
  assumes "unat (sz :: u32) < 16"
  shows "bit ((b AND NOT SIZE_MASK) OR sz) n = (if n < 4 then bit sz n else bit b n)"
  using unat_less_16_bits [OF assms, of n] by (auto simp: bit_simps dest: bit_imp_le_length)

lemma bm_size_replace_nibble:
  assumes "unat (sz :: u32) < 16"
  shows "bm_size ((b AND NOT SIZE_MASK) OR sz) = unat sz"
proof -
  have "((b AND NOT SIZE_MASK) OR sz) AND SIZE_MASK = sz"
    using unat_less_16_bits [OF assms]
    by (intro bit_eqI) (auto simp: bit_replace_nibble [OF assms] bit_simps, meson not_less)
  then show ?thesis by (simp add: bm_size_def)
qed

lemma unat_size_Suc: "bm_size b < 15 \<Longrightarrow> unat ((b AND SIZE_MASK) + 1) = bm_size b + 1"
  by (simp add: bm_size_def unat_word_ariths)

lemma unat_size_pred: "0 < bm_size b \<Longrightarrow> unat ((b AND SIZE_MASK) - 1) = bm_size b - 1"
  by (cases "b AND SIZE_MASK = 0") (simp_all add: bm_size_def unat_minus_one)

lemma bm_size_cong: "(\<And>n. n < 4 \<Longrightarrow> bit a n = bit b n) \<Longrightarrow> bm_size a = bm_size b"
proof -
  assume "\<And>n. n < 4 \<Longrightarrow> bit a n = bit b n"
  then have "a AND SIZE_MASK = b AND SIZE_MASK" by (intro bit_eqI) (auto simp: bit_simps)
  then show ?thesis by (simp add: bm_size_def)
qed

lemma set_slot_bits:
  assumes "bm_size bm < 15" and "i < NUM_SLOTS"
  shows "bm_size (set_slot bm i p) = bm_size bm + 1"
    and "4 \<le> n \<Longrightarrow> bit (set_slot bm i p) n =
           (if n = 18 + i then True else if n = 4 + i then p else bit bm n)"
proof -
  define b2 where "b2 = (if p then (bm OR push_bit (18 + i) 1) OR push_bit (4 + i) 1
                         else (bm OR push_bit (18 + i) 1) AND NOT (push_bit (4 + i) 1))"
  have eq: "set_slot bm i p = (b2 AND NOT SIZE_MASK) OR ((b2 AND SIZE_MASK) + 1)"
    by (simp add: set_slot_def Let_def b2_def)
  have b2: "bit b2 n = (if n = 18 + i then True else if n = 4 + i then p else bit bm n)" for n
    using assms(2) by (auto simp: b2_def bit_simps possible_bit_def NUM_SLOTS_def dest: bit_imp_le_length)
  have "bm_size b2 = bm_size bm" by (rule bm_size_cong) (simp add: b2)
  then have sz: "unat ((b2 AND SIZE_MASK) + 1) = bm_size bm + 1"
    using unat_size_Suc [of b2] assms(1) by simp
  then have lt: "unat ((b2 AND SIZE_MASK) + 1) < 16" using assms(1) by simp
  show "bm_size (set_slot bm i p) = bm_size bm + 1"
    using bm_size_replace_nibble [OF lt] by (simp add: eq sz)
  show "bit (set_slot bm i p) n =
           (if n = 18 + i then True else if n = 4 + i then p else bit bm n)" if "4 \<le> n"
    using that bit_replace_nibble [OF lt, of b2 n] by (simp add: eq b2)
qed

lemma clear_slot_bits:
  assumes "0 < bm_size bm" and "i < NUM_SLOTS"
  shows "bm_size (clear_slot bm i) = bm_size bm - 1"
    and "4 \<le> n \<Longrightarrow> bit (clear_slot bm i) n = (n \<noteq> 18 + i \<and> n \<noteq> 4 + i \<and> bit bm n)"
proof -
  define b2 where "b2 = (bm AND NOT (push_bit (18 + i) 1)) AND NOT (push_bit (4 + i) 1)"
  have eq: "clear_slot bm i = (b2 AND NOT SIZE_MASK) OR ((b2 AND SIZE_MASK) - 1)"
    by (simp add: clear_slot_def Let_def b2_def)
  have b2: "bit b2 n = (n \<noteq> 18 + i \<and> n \<noteq> 4 + i \<and> bit bm n)" for n
    using assms(2) by (auto simp: b2_def bit_simps possible_bit_def NUM_SLOTS_def dest: bit_imp_le_length)
  have s: "bm_size b2 = bm_size bm" by (rule bm_size_cong) (simp add: b2)
  then have sz: "unat ((b2 AND SIZE_MASK) - 1) = bm_size bm - 1"
    using unat_size_pred [of b2] assms(1) by simp
  then have lt: "unat ((b2 AND SIZE_MASK) - 1) < 16" using bm_size_less [of bm] by simp
  show "bm_size (clear_slot bm i) = bm_size bm - 1"
    using bm_size_replace_nibble [OF lt] by (simp add: eq sz)
  show "bit (clear_slot bm i) n = (n \<noteq> 18 + i \<and> n \<noteq> 4 + i \<and> bit bm n)" if "4 \<le> n"
    using that bit_replace_nibble [OF lt, of b2 n] by (simp add: eq b2)
qed


lemma busy_slots_set_slot:
  "bm_size bm < 15 \<Longrightarrow> i < NUM_SLOTS \<Longrightarrow> busy_slots (set_slot bm i p) = insert i (busy_slots bm)"
  by (auto simp: busy_slots_def bit_busy set_slot_bits NUM_SLOTS_def)

lemma busy_slots_clear_slot:
  "0 < bm_size bm \<Longrightarrow> i < NUM_SLOTS \<Longrightarrow> busy_slots (clear_slot bm i) = busy_slots bm - {i}"
  by (auto simp: busy_slots_def bit_busy clear_slot_bits NUM_SLOTS_def)

lemma finite_busy_slots: "bitmap_inv bm \<Longrightarrow> finite (busy_slots bm)"
  by (auto simp: bitmap_inv_def intro: finite_subset)

lemma bitmap_inv_size_le: "bitmap_inv bm \<Longrightarrow> bm_size bm \<le> NUM_SLOTS"
  by (metis bitmap_inv_def card_lessThan card_mono finite_lessThan)

lemma is_full_iff: "bitmap_inv bm \<Longrightarrow> is_full bm \<longleftrightarrow> busy_slots bm = {..<NUM_SLOTS}"
  by (metis bitmap_inv_def card_lessThan card_subset_eq finite_lessThan is_full_def)

lemma bitmap_inv_default: "bitmap_inv 0"
  by (simp add: bitmap_inv_def busy_slots_def bit_busy bm_size_def)

lemma bitmap_inv_set_slot:
  assumes "bitmap_inv bm" and "i < NUM_SLOTS" and "i \<notin> busy_slots bm"
  shows "bitmap_inv (set_slot bm i p)"
proof -
  have "bm_size bm \<noteq> NUM_SLOTS" using assms is_full_iff by (auto simp: is_full_def)
  then have "bm_size bm < 15" using bitmap_inv_size_le [OF assms(1)] by (simp add: NUM_SLOTS_def)
  then show ?thesis
    using assms finite_busy_slots [OF assms(1)]
    by (simp add: bitmap_inv_def busy_slots_set_slot set_slot_bits)
qed

lemma bitmap_inv_clear_slot:
  assumes "bitmap_inv bm" and "i \<in> busy_slots bm"
  shows "bitmap_inv (clear_slot bm i)"
proof -
  have "i < NUM_SLOTS" using assms by (auto simp: bitmap_inv_def)
  moreover have "0 < bm_size bm"
    using assms finite_busy_slots [OF assms(1)] by (auto simp: bitmap_inv_def card_gt_0_iff)
  ultimately show ?thesis
    using assms finite_busy_slots [OF assms(1)]
    by (auto simp: bitmap_inv_def busy_slots_clear_slot clear_slot_bits)
qed

lemma busy_slots_pos: "bitmap_inv bm \<Longrightarrow> i \<in> busy_slots bm \<Longrightarrow> 0 < bm_size bm"
  by (metis bitmap_inv_def card_gt_0_iff empty_iff finite_busy_slots)

lemma bit_free_mask: "bit (NOT (busy bm) AND ALLOC_MASK) n \<longleftrightarrow> n < NUM_SLOTS \<and> n \<notin> busy_slots bm"
  by (auto simp: bit_simps busy_slots_def NUM_SLOTS_def)

lemma u32_zero_iff: "(w :: u32) = 0 \<longleftrightarrow> (\<forall>n. \<not> bit w n)"
  by (auto intro: bit_eqI)

lemma find_empty_None:
  assumes inv: "bitmap_inv bm"
  shows "find_empty bm = None \<longleftrightarrow> is_full bm"
proof -
  have "NOT (busy bm) AND ALLOC_MASK = 0 \<longleftrightarrow> {..<NUM_SLOTS} \<subseteq> busy_slots bm"
    unfolding u32_zero_iff bit_free_mask by auto
  then show ?thesis
    using inv is_full_iff [OF inv] by (auto simp: find_empty_def Let_def bitmap_inv_def)
qed

lemma find_empty_Some:
  assumes "find_empty bm = Some i"
  shows "i < NUM_SLOTS" and "i \<notin> busy_slots bm" and "\<And>j. j < i \<Longrightarrow> j \<in> busy_slots bm"
proof -
  let ?free = "NOT (busy bm) AND ALLOC_MASK"
  have nz: "?free \<noteq> 0" and i: "i = trailing_zeros ?free"
    using assms by (auto simp: find_empty_def Let_def split: if_splits)
  from nz obtain n where n: "bit ?free n" unfolding u32_zero_iff by blast
  then have "n < 32" unfolding bit_free_mask by (simp add: NUM_SLOTS_def)
  note tz = trailing_zeros_least [OF n this, folded i, unfolded bit_free_mask]
  show lt: "i < NUM_SLOTS" and "i \<notin> busy_slots bm" using tz(1) by simp_all
  show "j \<in> busy_slots bm" if "j < i" for j
    using tz(3) [OF that] lt that by simp
qed

subsection \<open>The mask loop visits the set bits in ascending order\<close>

lemma filter_upt_least:
  assumes "P t" and "t < n" and "\<And>j. j < t \<Longrightarrow> \<not> P j"
  shows "filter P [0..<n] = t # filter (\<lambda>i. P i \<and> i \<noteq> t) [0..<n]"
proof -
  have "[0..<n] = [0..<t] @ t # [Suc t..<n]"
    using assms(2) by (rule upt_split_at)
  moreover have "filter P [0..<t] = []" and "filter (\<lambda>i. P i \<and> i \<noteq> t) [0..<t] = []"
    using assms(3) by (auto simp: filter_empty_conv)
  moreover have "filter (\<lambda>i. P i \<and> i \<noteq> t) [Suc t..<n] = filter P [Suc t..<n]"
    by (rule filter_cong) auto
  ultimately show ?thesis using assms(1) by simp
qed

lemma clear_lowest_bit:
  assumes "bit (m :: u32) t" and "\<And>j. j < t \<Longrightarrow> \<not> bit m j"
  shows "bit (m AND (m - 1)) i \<longleftrightarrow> bit m i \<and> i \<noteq> t"
proof -
  have t: "t < 32" using assms(1) by (auto dest: bit_imp_le_length)
  define r where "r = m AND NOT (push_bit t 1)"
  have r: "bit r i \<longleftrightarrow> bit m i \<and> i \<noteq> t" for i
    using t by (auto simp: r_def bit_simps possible_bit_def dest: bit_imp_le_length)
  have "m = r OR push_bit t 1"
    using assms(1) t by (intro bit_eqI) (auto simp: r bit_simps possible_bit_def)
  also have "\<dots> = r + push_bit t 1"
    by (rule disjunctive_add [symmetric]) (auto simp: r bit_simps possible_bit_def)
  finally have "m - 1 = r + (push_bit t 1 - 1)" by simp
  also have "push_bit t 1 - 1 = (mask t :: u32)"
    by (simp add: mask_eq_exp_minus_1 push_bit_eq_mult)
  also have "r + mask t = r OR mask t"
    using assms(2) by (intro disjunctive_add) (auto simp: r bit_simps)
  finally have "m - 1 = r OR mask t" .
  then have "bit (m AND (m - 1)) i \<longleftrightarrow> bit m i \<and> (bit r i \<or> bit (mask t :: u32) i)"
    by (simp add: bit_simps)
  then show ?thesis
    using assms r by (auto simp: bit_simps)
qed

lemma mask_slots_eq: "mask_slots m = filter (bit m) [0..<32]"
proof (induction m rule: mask_slots.induct)
  case (1 m)
  show ?case
  proof (cases "m = 0")
    case True
    then show ?thesis by (simp add: mask_slots.simps)
  next
    case False
    then obtain n where n: "bit m n" unfolding u32_zero_iff by blast
    then have n32: "n < 32" by (auto dest: bit_imp_le_length)
    note tz = trailing_zeros_least [OF n n32]
    have "trailing_zeros m < 32" using tz(2) n32 by simp
    with tz have "filter (bit m) [0..<32]
        = trailing_zeros m # filter (\<lambda>i. bit m i \<and> i \<noteq> trailing_zeros m) [0..<32]"
      by (intro filter_upt_least)
    moreover have "bit (m AND (m - 1)) i \<longleftrightarrow> bit m i \<and> i \<noteq> trailing_zeros m" for i
      using tz by (intro clear_lowest_bit) auto
    ultimately show ?thesis
      using False "1.IH" by (subst mask_slots.simps) simp
  qed
qed

lemma set_mask_slots: "set (mask_slots m) = {i. bit m i}"
  by (auto simp: mask_slots_eq dest: bit_imp_le_length)

lemma distinct_mask_slots: "distinct (mask_slots m)"
  by (simp add: mask_slots_eq)


subsection \<open>Slots of a bucket\<close>

text \<open>
  \<open>slot_entry\<close> is the pair a slot holds, if it is busy. \<open>slots_inv\<close>: the arrays have twelve
  elements and exactly the busy slots are initialised.
\<close>

definition slot_entry :: "('k, 'v) bucket \<Rightarrow> nat \<Rightarrow> ('k \<times> 'v) option" where
  "slot_entry b i =
     (if i \<in> busy_slots (slots b)
      then case (keys b ! i, vals b ! i) of (Some k, Some v) \<Rightarrow> Some (k, v) | _ \<Rightarrow> None
      else None)"

lemma slot_entry_code [code]:
  "slot_entry b i =
     (if bit (busy (slots b)) i
      then case (keys b ! i, vals b ! i) of (Some k, Some v) \<Rightarrow> Some (k, v) | _ \<Rightarrow> None
      else None)"
  by (simp add: slot_entry_def busy_slots_def)

definition slots_inv :: "('k, 'v) bucket \<Rightarrow> bool" where
  "slots_inv b \<longleftrightarrow> bitmap_inv (slots b)
     \<and> length (fingerprints b) = NUM_SLOTS \<and> length (keys b) = NUM_SLOTS
     \<and> length (vals b) = NUM_SLOTS
     \<and> (\<forall>i < NUM_SLOTS. (keys b ! i \<noteq> None) = (i \<in> busy_slots (slots b)))
     \<and> (\<forall>i < NUM_SLOTS. (vals b ! i \<noteq> None) = (i \<in> busy_slots (slots b)))"

definition slot_probing :: "('k, 'v) bucket \<Rightarrow> nat \<Rightarrow> bool" where
  "slot_probing b i = bit (slots b) (4 + i)"

lemma slots_inv_busy_less: "slots_inv b \<Longrightarrow> i \<in> busy_slots (slots b) \<Longrightarrow> i < NUM_SLOTS"
  by (auto simp: slots_inv_def bitmap_inv_def)

lemma slot_entry_None: "slots_inv b \<Longrightarrow> slot_entry b i = None \<longleftrightarrow> i \<notin> busy_slots (slots b)"
  by (auto simp: slot_entry_def slots_inv_def bitmap_inv_def split: option.splits)

lemma slot_entry_Some:
  "slot_entry b i = Some (k, v) \<longleftrightarrow>
     i \<in> busy_slots (slots b) \<and> keys b ! i = Some k \<and> vals b ! i = Some v"
  by (auto simp: slot_entry_def split: option.splits)

lemma slot_entry_less: "slots_inv b \<Longrightarrow> slot_entry b i = Some e \<Longrightarrow> i < NUM_SLOTS"
  by (metis option.distinct(1) slot_entry_None slots_inv_busy_less)

lemma bit_foldl_mask:
  "bit (foldl (\<lambda>m i. if C i then m OR push_bit i 1 else m) (m0 :: u32) xs) j
     \<longleftrightarrow> bit m0 j \<or> (j \<in> set xs \<and> C j \<and> j < 32)"
  by (induction xs arbitrary: m0) (auto simp: bit_simps possible_bit_def)

lemma drop_bit_and_1: "drop_bit j (w :: u32) AND 1 \<noteq> 0 \<longleftrightarrow> bit w j"
  by (simp add: and_one_eq bit_iff_odd_drop_bit odd_iff_mod_2_eq_one)

lemma bit_find_matching:
  "bit (find_matching b fp probe) i \<longleftrightarrow>
     i < NUM_SLOTS \<and> i \<in> busy_slots (slots b) \<and> slot_probing b i = probe \<and> fingerprints b ! i = fp"
  unfolding find_matching_def Let_def bit_foldl_mask drop_bit_and_1
  by (auto simp: busy_slots_def bit_probe_mask slot_probing_def NUM_SLOTS_def)

lemma mask_slots_matching: "i \<in> set (mask_slots (find_matching b fp probe)) \<longleftrightarrow>
     i < NUM_SLOTS \<and> i \<in> busy_slots (slots b) \<and> slot_probing b i = probe \<and> fingerprints b ! i = fp"
  by (simp add: set_mask_slots bit_find_matching)

lemma mask_slots_busy: "set (mask_slots (busy bm)) = busy_slots bm"
  by (simp add: set_mask_slots busy_slots_def)

lemma slots_inv_new: "slots_inv bucket_new"
  by (auto simp: slots_inv_def bucket_new_def bitmap_inv_default busy_slots_def bit_busy)

lemma try_insert_None: "slots_inv b \<Longrightarrow> try_insert b k v fp p = None \<longleftrightarrow> is_full (slots b)"
  using find_empty_None [of "slots b"]
  by (auto simp: try_insert_def slots_inv_def split: option.splits)

text \<open>What a successful insertion does, slot by slot.\<close>

lemma try_insert_Some:
  assumes inv: "slots_inv b" and ins: "try_insert b k v fp p = Some (i, b')"
  shows "i < NUM_SLOTS" and "slot_entry b i = None" and "slots_inv b'"
    and "slot_entry b' j = (if j = i then Some (k, v) else slot_entry b j)"
    and "fingerprints b' ! j = (if j = i then fp else fingerprints b ! j)"
    and "slot_entry b' j \<noteq> None \<Longrightarrow> slot_probing b' j = (if j = i then p else slot_probing b j)"
proof -
  from ins have fe: "find_empty (slots b) = Some i" and
    b': "b' = b\<lparr>fingerprints := (fingerprints b)[i := fp], keys := (keys b)[i := Some k],
            vals := (vals b)[i := Some v], slots := set_slot (slots b) i p\<rparr>"
    by (auto simp: try_insert_def split: option.splits)
  note i = find_empty_Some [OF fe]
  have bi: "bitmap_inv (slots b)" using inv by (simp add: slots_inv_def)
  have sz: "bm_size (slots b) < 15"
    using bitmap_inv_size_le [OF bi] by (simp add: NUM_SLOTS_def)
  have busy: "busy_slots (slots b') = insert i (busy_slots (slots b))"
    using busy_slots_set_slot [OF sz i(1)] by (simp add: b')
  show "i < NUM_SLOTS" by (rule i(1))
  show "slot_entry b i = None" using inv i(2) by (simp add: slot_entry_None)
  show inv': "slots_inv b'"
    using inv i bitmap_inv_set_slot [OF bi i(1,2)] busy
    by (auto simp: slots_inv_def b' nth_list_update)
  show "slot_entry b' j = (if j = i then Some (k, v) else slot_entry b j)"
    using inv i(1) busy by (auto simp: slot_entry_def slots_inv_def b')
  show "fingerprints b' ! j = (if j = i then fp else fingerprints b ! j)"
    using inv i(1) by (simp add: b' slots_inv_def)
  show "slot_probing b' j = (if j = i then p else slot_probing b j)" if "slot_entry b' j \<noteq> None"
  proof -
    have "j < NUM_SLOTS" using inv' that slot_entry_less by blast
    then show ?thesis using set_slot_bits(2) [OF sz i(1), of "4 + j" p]
      by (auto simp: slot_probing_def b' NUM_SLOTS_def)
  qed
qed

lemma bucket_delete_props:
  assumes inv: "slots_inv b" and e: "slot_entry b i = Some (k, v)"
    and del: "bucket_delete b i = (kv, b')"
  shows "kv = (Some k, Some v)" and "slots_inv b'"
    and "slot_entry b' j = (if j = i then None else slot_entry b j)"
    and "fingerprints b' = fingerprints b"
    and "slot_entry b' j \<noteq> None \<Longrightarrow> slot_probing b' j = slot_probing b j"
proof -
  have b': "b' = b\<lparr>slots := clear_slot (slots b) i, keys := (keys b)[i := None],
                  vals := (vals b)[i := None]\<rparr>"
    and kv: "kv = (keys b ! i, vals b ! i)" using del by (auto simp: bucket_delete_def)
  have bi: "bitmap_inv (slots b)" using inv by (simp add: slots_inv_def)
  have ib: "i \<in> busy_slots (slots b)" and i: "i < NUM_SLOTS"
    using e slot_entry_less [OF inv e] by (auto simp: slot_entry_Some)
  have sz: "0 < bm_size (slots b)" using busy_slots_pos [OF bi ib] .
  have busy: "busy_slots (slots b') = busy_slots (slots b) - {i}"
    using busy_slots_clear_slot [OF sz i] by (simp add: b')
  show "kv = (Some k, Some v)" using e by (simp add: kv slot_entry_Some)
  show inv': "slots_inv b'"
    using inv bitmap_inv_clear_slot [OF bi ib] busy
    by (auto simp: slots_inv_def b' nth_list_update_if split: if_splits)
  show "slot_entry b' j = (if j = i then None else slot_entry b j)"
    using inv i busy by (auto simp: slot_entry_def slots_inv_def b')
  show "fingerprints b' = fingerprints b" by (simp add: b')
  show "slot_probing b' j = slot_probing b j" if "slot_entry b' j \<noteq> None"
  proof -
    have "j < NUM_SLOTS" using slot_entry_less [OF inv'] that by blast
    moreover have "j \<noteq> i" using that busy by (auto simp: slot_entry_def split: if_splits)
    ultimately show ?thesis using clear_slot_bits(2) [OF sz i, of "4 + j"] i
      by (auto simp: slot_probing_def b' NUM_SLOTS_def)
  qed
qed

lemma set_value_props:
  assumes inv: "slots_inv b" and e: "slot_entry b i = Some (k, v0)"
  shows "slots_inv (set_value b i v)"
    and "slot_entry (set_value b i v) j = (if j = i then Some (k, v) else slot_entry b j)"
    and "fingerprints (set_value b i v) = fingerprints b"
    and "slot_probing (set_value b i v) = slot_probing b"
proof -
  have i: "i < NUM_SLOTS" "i \<in> busy_slots (slots b)" "keys b ! i = Some k"
    using e slot_entry_less [OF inv e] by (auto simp: slot_entry_Some)
  show "slots_inv (set_value b i v)"
    using inv i by (auto simp: slots_inv_def set_value_def nth_list_update)
  show "slot_entry (set_value b i v) j = (if j = i then Some (k, v) else slot_entry b j)"
    using inv i by (auto simp: slot_entry_def slots_inv_def set_value_def)
qed (simp_all add: set_value_def slot_probing_def fun_eq_iff)


subsection \<open>Stash pointers\<close>

text \<open>
  \<open>stash_ptrs\<close> is the multiset of (fingerprint, stash bucket) pairs a bucket points to. Only
  owned pointers are ever written, and the flag bit 4 says whether any stash item is accounted
  for here, by a pointer or in the overflow counter.
\<close>

definition stash_ptr :: "('k, 'v) bucket \<Rightarrow> nat \<Rightarrow> u8 \<times> u8" where
  "stash_ptr b i = (stash_fps b ! i, drop_bit (i * 2) (stash_pos b) AND 3)"

definition stash_ptrs :: "('k, 'v) bucket \<Rightarrow> (u8 \<times> u8) multiset" where
  "stash_ptrs b = mset (map (stash_ptr b) (filter (bit (stash_busy b)) [0..<NUM_STASH]))"

definition stash_inv :: "('k, 'v) bucket \<Rightarrow> bool" where
  "stash_inv b \<longleftrightarrow> length (stash_fps b) = NUM_STASH
     \<and> (has_stash b \<longleftrightarrow> stash_ptrs b \<noteq> {#} \<or> overflow_count b > 0)
     \<and> (\<forall>i < NUM_STASH. bit (stash_busy b) i \<longrightarrow> \<not> bit (stash_probe_mask b) i)"

lemma u8_bit_test: "(w :: u8) AND push_bit i 1 = 0 \<longleftrightarrow> \<not> bit w i"
proof -
  have "w AND push_bit i 1 = (if bit w i then push_bit i 1 else 0)"
    by (intro bit_eqI) (auto simp: bit_simps possible_bit_def)
  moreover have "push_bit i (1 :: u8) \<noteq> 0" if "bit w i"
  proof -
    have "bit (push_bit i (1 :: u8)) i"
      using that by (auto simp: bit_simps possible_bit_def dest: bit_imp_le_length)
    then show ?thesis by (intro notI) (simp only: bit_0_eq bot_fun_def bot_bool_def)
  qed
  ultimately show ?thesis by auto
qed

lemma has_stash_bit: "has_stash b \<longleftrightarrow> bit (stash_busy b) 4"
  using u8_bit_test [of "stash_busy b" 4] by (simp add: has_stash_def push_bit_eq_mult)

lemma mset_filter_upt_insert:
  assumes "i < n" and "\<not> P i"
  shows "mset (map f (filter (\<lambda>j. j = i \<or> P j) [0..<n])) = add_mset (f i) (mset (map f (filter P [0..<n])))"
proof -
  have "filter (\<lambda>j. j = i \<or> P j) [0..<i] = filter P [0..<i]"
    and "filter (\<lambda>j. j = i \<or> P j) [Suc i..<n] = filter P [Suc i..<n]"
    by (auto intro: filter_cong)
  then show ?thesis using assms(2) by (simp add: upt_split_at [OF assms(1)])
qed


lemma two_bit_field_set:
  assumes m3: "\<And>n. bit (m3 :: u8) n \<longleftrightarrow> n < 2" and d: "\<And>n. 2 \<le> n \<Longrightarrow> \<not> bit (d :: u8) n"
    and "i < 4" and "j < 4"
  shows "drop_bit (j * 2) ((w AND NOT (push_bit (i * 2) m3)) OR push_bit (i * 2) d) AND m3
         = (if j = i then d else drop_bit (j * 2) w AND m3)"
proof (intro bit_eqI)
  fix n
  have "bit d (j * 2 + n - i * 2) \<Longrightarrow> n < 2 \<Longrightarrow> i * 2 \<le> j * 2 + n \<Longrightarrow> j = i"
    using d [of "j * 2 + n - i * 2"] by (cases "2 \<le> j * 2 + n - i * 2") auto
  moreover have "\<not> n < 2 \<Longrightarrow> \<not> bit d n" using d by simp
  ultimately show "bit (drop_bit (j * 2) ((w AND NOT (push_bit (i * 2) m3)) OR push_bit (i * 2) d) AND m3) n
       = bit (if j = i then d else drop_bit (j * 2) w AND m3) n"
    using assms(3,4) by (auto simp: bit_simps m3 possible_bit_def dest: bit_imp_le_length)
qed

lemma stash_pos_set:
  assumes "i < NUM_STASH" and "j < NUM_STASH" and "unat (d :: u8) < 4"
  shows "drop_bit (j * 2) ((w AND NOT (push_bit (i * 2) 3)) OR push_bit (i * 2) d) AND 3
         = (if j = i then d else drop_bit (j * 2) w AND (3 :: u8))"
proof (rule two_bit_field_set)
  show "bit (3 :: u8) n \<longleftrightarrow> n < 2" for n
    by (auto simp: bit_numeral_rec less_Suc_eq numeral_eq_Suc)
  show "\<not> bit d n" if "2 \<le> n" for n
    using word_bit_small [of d 2 n] assms(3) that by simp
qed (use assms in \<open>simp_all add: NUM_STASH_def\<close>)


lemma stash_ptrs_cong:
  assumes "\<And>i. i < NUM_STASH \<Longrightarrow> bit (stash_busy b') i = bit (stash_busy b) i"
    and "\<And>i. i < NUM_STASH \<Longrightarrow> bit (stash_busy b) i \<Longrightarrow> stash_ptr b' i = stash_ptr b i"
  shows "stash_ptrs b' = stash_ptrs b"
proof -
  have "filter (bit (stash_busy b')) [0..<NUM_STASH] = filter (bit (stash_busy b)) [0..<NUM_STASH]"
    using assms(1) by (auto intro: filter_cong)
  moreover have "map (stash_ptr b') (filter (bit (stash_busy b)) [0..<NUM_STASH])
      = map (stash_ptr b) (filter (bit (stash_busy b)) [0..<NUM_STASH])"
    using assms(2) by simp
  ultimately show ?thesis by (simp only: stash_ptrs_def)
qed

lemma in_stash_ptrs: "p \<in># stash_ptrs b \<longleftrightarrow> (\<exists>i < NUM_STASH. bit (stash_busy b) i \<and> stash_ptr b i = p)"
  by (auto simp: stash_ptrs_def)

lemma stash_ptrs_full: "size (stash_ptrs b) = NUM_STASH \<longleftrightarrow> (\<forall>i < NUM_STASH. bit (stash_busy b) i)"
proof -
  have "size (stash_ptrs b) = length (filter (bit (stash_busy b)) [0..<NUM_STASH])"
    by (simp only: stash_ptrs_def size_mset length_map)
  moreover have "length (filter (bit (stash_busy b)) [0..<NUM_STASH]) = NUM_STASH
      \<longleftrightarrow> (\<forall>i < NUM_STASH. bit (stash_busy b) i)"
    by (metis atLeastLessThan_iff atLeast_upt filter_True length_filter_less length_upt
        less_irrefl lessThan_iff minus_nat.diff_0 set_upt zero_le)
  ultimately show ?thesis by simp
qed

lemma stash_ptrs_size_le: "size (stash_ptrs b) \<le> NUM_STASH"
proof -
  have "length (filter (bit (stash_busy b)) [0..<NUM_STASH]) \<le> length [0..<NUM_STASH]"
    by (rule length_filter_le)
  then show ?thesis by (simp only: stash_ptrs_def size_mset length_map length_upt)
qed

lemma bit_16_int [simp]: "bit (16 :: int) n \<longleftrightarrow> n = 4"
proof -
  have "(16 :: int) = 2 ^ 4" by simp
  then show ?thesis by (simp only: bit_exp_iff possible_bit_def) auto
qed

lemma set_stash_ptr_props:
  assumes inv: "stash_inv b" and d: "unat d < 4" and "overflow_count b < 255"
    and b': "b' = set_stash_ptr b d fp False"
  shows "stash_inv b'" and "has_stash b'"
    and "size (stash_ptrs b) < NUM_STASH \<Longrightarrow> stash_ptrs b' = add_mset (fp, d) (stash_ptrs b)
           \<and> overflow_count b' = overflow_count b"
    and "size (stash_ptrs b) = NUM_STASH \<Longrightarrow> stash_ptrs b' = stash_ptrs b
           \<and> overflow_count b' = overflow_count b + 1"
    and "slots b' = slots b" and "fingerprints b' = fingerprints b" and "keys b' = keys b"
    and "vals b' = vals b"
proof -
  let ?free = "List.find (\<lambda>i. stash_busy b AND push_bit i 1 = 0) [0..<NUM_STASH]"
  have "stash_inv b' \<and> has_stash b' \<and>
     (size (stash_ptrs b) < NUM_STASH \<longrightarrow> stash_ptrs b' = add_mset (fp, d) (stash_ptrs b)
           \<and> overflow_count b' = overflow_count b) \<and>
     (size (stash_ptrs b) = NUM_STASH \<longrightarrow> stash_ptrs b' = stash_ptrs b
           \<and> overflow_count b' = overflow_count b + 1)"
  proof (cases ?free)
    case None
    then have full: "\<forall>i < NUM_STASH. bit (stash_busy b) i"
      unfolding find_upt_None u8_bit_test by simp
    then have sz: "size (stash_ptrs b) = NUM_STASH" by (simp add: stash_ptrs_full)
    have eq: "b' = b\<lparr>overflow_count := overflow_count b + 1, stash_busy := stash_busy b OR 0x10\<rparr>"
      using None by (simp add: b' set_stash_ptr_def)
    have bits: "bit (stash_busy b') i = bit (stash_busy b) i" if "i < NUM_STASH" for i
      using that by (auto simp: eq bit_simps NUM_STASH_def)
    have ptrs: "stash_ptrs b' = stash_ptrs b"
      using bits by (rule stash_ptrs_cong) (simp_all add: eq stash_ptr_def)
    moreover have "overflow_count b' > 0"
      using assms(3) by (simp add: eq word_less_nat_alt unat_word_ariths)
    moreover have "has_stash b'" by (simp add: eq has_stash_bit bit_simps)
    ultimately show ?thesis
      using inv sz bits by (auto simp: stash_inv_def eq)
  next
    case (Some i)
    then have i: "i < NUM_STASH" "\<not> bit (stash_busy b) i"
      unfolding find_upt_Some u8_bit_test by simp_all
    then have sz: "size (stash_ptrs b) \<noteq> NUM_STASH" by (auto simp: stash_ptrs_full)
    have eq: "b' = b\<lparr>stash_fps := (stash_fps b)[i := fp],
         stash_pos := (stash_pos b AND NOT (push_bit (i * 2) 3)) OR push_bit (i * 2) d,
         stash_busy := (stash_busy b OR push_bit i 1) OR 0x10,
         stash_probe_mask := stash_probe_mask b AND NOT (push_bit i 1)\<rparr>"
      using Some by (simp add: b' set_stash_ptr_def)
    have bits: "bit (stash_busy b') j \<longleftrightarrow> j = i \<or> bit (stash_busy b) j" if "j < NUM_STASH" for j
      using that by (auto simp: eq bit_simps NUM_STASH_def possible_bit_def)
    have ptr: "stash_ptr b' j = (if j = i then (fp, d) else stash_ptr b j)" if "j < NUM_STASH" for j
      using stash_pos_set [OF i(1) that d] inv i(1) by (auto simp: stash_ptr_def eq stash_inv_def)
    have "stash_ptrs b' = mset (map (stash_ptr b')
        (filter (\<lambda>j. j = i \<or> bit (stash_busy b) j) [0..<NUM_STASH]))"
      using bits unfolding stash_ptrs_def
      by (intro arg_cong [of _ _ "\<lambda>xs. mset (map (stash_ptr b') xs)"] filter_cong) auto
    also have "\<dots> = add_mset (stash_ptr b' i)
        (mset (map (stash_ptr b') (filter (bit (stash_busy b)) [0..<NUM_STASH])))"
      using i by (intro mset_filter_upt_insert)
    also have "map (stash_ptr b') (filter (bit (stash_busy b)) [0..<NUM_STASH])
        = map (stash_ptr b) (filter (bit (stash_busy b)) [0..<NUM_STASH])"
      using i ptr by (intro map_cong) auto
    finally have ptrs: "stash_ptrs b' = add_mset (fp, d) (stash_ptrs b)"
      using ptr [OF i(1)] by (simp add: stash_ptrs_def)
    have "\<not> bit (stash_probe_mask b') j" if "j < NUM_STASH" "bit (stash_busy b') j" for j
      using that bits [of j] inv by (auto simp: eq bit_simps stash_inv_def)
    moreover have "has_stash b'" by (simp add: eq has_stash_bit bit_simps)
    ultimately show ?thesis
      using inv ptrs sz by (auto simp: stash_inv_def eq)
  qed
  then show "stash_inv b'" and "has_stash b'"
    and "size (stash_ptrs b) < NUM_STASH \<Longrightarrow> stash_ptrs b' = add_mset (fp, d) (stash_ptrs b)
           \<and> overflow_count b' = overflow_count b"
    and "size (stash_ptrs b) = NUM_STASH \<Longrightarrow> stash_ptrs b' = stash_ptrs b
           \<and> overflow_count b' = overflow_count b + 1"
    by blast+
qed (simp_all add: b' set_stash_ptr_def split: option.splits)


lemma bit_15_int [simp]: "bit (15 :: int) n \<longleftrightarrow> n < 4"
proof -
  have "(15 :: int) = mask 4" by (simp add: mask_eq_exp_minus_1)
  then show ?thesis by (simp only: bit_mask_iff possible_bit_def) auto
qed

lemma low_nibble_zero: "(w :: u8) AND 0x0F = 0 \<longleftrightarrow> (\<forall>i < NUM_STASH. \<not> bit w i)"
proof -
  have "w AND 0x0F = 0 \<longleftrightarrow> (\<forall>i. \<not> bit (w AND 0x0F) i)" by (auto intro: bit_eqI)
  also have "\<dots> \<longleftrightarrow> (\<forall>i < NUM_STASH. \<not> bit w i)"
    by (simp add: bit_simps NUM_STASH_def) (metis less_trans numeral_less_iff semiring_norm(76,78))
  finally show ?thesis .
qed

lemma stash_ptrs_empty: "stash_ptrs b = {#} \<longleftrightarrow> (\<forall>i < NUM_STASH. \<not> bit (stash_busy b) i)"
proof -
  have "stash_ptrs b = {#} \<longleftrightarrow> filter (bit (stash_busy b)) [0..<NUM_STASH] = []"
    by (simp only: stash_ptrs_def mset_zero_iff map_is_Nil_conv)
  then show ?thesis by (auto simp: filter_empty_conv)
qed

text \<open>Dropping the flag when nothing is left restores the flag part of \<open>stash_inv\<close>.\<close>

lemma clear_stash_flag_props:
  assumes "length (stash_fps b) = NUM_STASH" and "has_stash b"
    and "\<forall>i < NUM_STASH. bit (stash_busy b) i \<longrightarrow> \<not> bit (stash_probe_mask b) i"
    and b': "b' = clear_stash_flag_if_unused b"
  shows "stash_inv b'" and "stash_ptrs b' = stash_ptrs b" and "overflow_count b' = overflow_count b"
    and "slots b' = slots b" and "fingerprints b' = fingerprints b" and "keys b' = keys b"
    and "vals b' = vals b"
proof -
  have bits: "bit (stash_busy b') i = bit (stash_busy b) i" if "i < NUM_STASH" for i
    using that by (auto simp: b' clear_stash_flag_if_unused_def bit_simps NUM_STASH_def)
  show ptrs: "stash_ptrs b' = stash_ptrs b"
    using bits by (rule stash_ptrs_cong)
      (simp_all add: b' clear_stash_flag_if_unused_def stash_ptr_def)
  show ov: "overflow_count b' = overflow_count b"
    by (simp add: b' clear_stash_flag_if_unused_def)
  have "has_stash b' \<longleftrightarrow> \<not> (stash_ptrs b = {#} \<and> overflow_count b = 0)"
    using assms(2)
    by (auto simp: b' clear_stash_flag_if_unused_def has_stash_bit bit_simps low_nibble_zero
        stash_ptrs_empty)
  then show "stash_inv b'"
    using assms(1,3) bits ptrs ov
    by (auto simp: stash_inv_def b' clear_stash_flag_if_unused_def word_neq_0_conv)
qed (simp_all add: b' clear_stash_flag_if_unused_def)

lemma unset_stash_ptr_props:
  assumes inv: "stash_inv b" and b': "unset_stash_ptr b fp pos = (r, b')"
  shows "stash_inv b'"
    and "(fp, pos) \<in># stash_ptrs b \<Longrightarrow>
           r \<and> stash_ptrs b' = stash_ptrs b - {#(fp, pos)#} \<and> overflow_count b' = overflow_count b"
    and "(fp, pos) \<notin># stash_ptrs b \<Longrightarrow> stash_ptrs b' = stash_ptrs b \<and> r = (overflow_count b > 0)
           \<and> overflow_count b' = (if overflow_count b > 0 then overflow_count b - 1 else 0)"
    and "slots b' = slots b" and "fingerprints b' = fingerprints b" and "keys b' = keys b"
    and "vals b' = vals b"
proof -
  let ?hit = "\<lambda>i. stash_busy b AND push_bit i 1 \<noteq> 0 \<and> stash_fps b ! i = fp
                  \<and> drop_bit (i * 2) (stash_pos b) AND 3 = pos"
  have hit: "?hit i \<longleftrightarrow> bit (stash_busy b) i \<and> stash_ptr b i = (fp, pos)" for i
    unfolding u8_bit_test by (simp add: stash_ptr_def)
  have main: "stash_inv b' \<and>
    ((fp, pos) \<in># stash_ptrs b \<longrightarrow>
       r \<and> stash_ptrs b' = stash_ptrs b - {#(fp, pos)#} \<and> overflow_count b' = overflow_count b) \<and>
    ((fp, pos) \<notin># stash_ptrs b \<longrightarrow> stash_ptrs b' = stash_ptrs b \<and> r = (overflow_count b > 0)
       \<and> overflow_count b' = (if overflow_count b > 0 then overflow_count b - 1 else 0)) \<and>
    slots b' = slots b \<and> fingerprints b' = fingerprints b \<and> keys b' = keys b \<and> vals b' = vals b"
  proof (cases "List.find ?hit [0..<NUM_STASH]")
    case None
    then have notin: "(fp, pos) \<notin># stash_ptrs b"
      unfolding find_upt_None hit in_stash_ptrs by auto
    show ?thesis
    proof (cases "overflow_count b > 0")
      case True
      let ?b = "b\<lparr>overflow_count := overflow_count b - 1\<rparr>"
      have eq: "r" "b' = clear_stash_flag_if_unused ?b"
        using b' None True by (simp_all add: unset_stash_ptr_def)
      have ptrs: "stash_ptrs ?b = stash_ptrs b" by (rule stash_ptrs_cong) (simp_all add: stash_ptr_def)
      have "length (stash_fps ?b) = NUM_STASH" "has_stash ?b"
        "\<forall>i < NUM_STASH. bit (stash_busy ?b) i \<longrightarrow> \<not> bit (stash_probe_mask ?b) i"
        using inv True by (auto simp: stash_inv_def has_stash_def)
      note f = clear_stash_flag_props [OF this eq(2)]
      show ?thesis using f eq(1) notin True ptrs by simp
    next
      case False
      then have "r = False" "b' = b" using b' None by (simp_all add: unset_stash_ptr_def)
      then show ?thesis using inv notin False by (simp add: word_gt_0)
    qed
  next
    case (Some i)
    then have i: "i < NUM_STASH" "bit (stash_busy b) i" "stash_ptr b i = (fp, pos)"
      unfolding find_upt_Some hit by auto
    let ?b = "b\<lparr>stash_busy := stash_busy b AND NOT (push_bit i 1)\<rparr>"
    have eq: "r" "b' = clear_stash_flag_if_unused ?b"
      using b' Some by (simp_all add: unset_stash_ptr_def)
    have bits: "bit (stash_busy ?b) j \<longleftrightarrow> j \<noteq> i \<and> bit (stash_busy b) j" for j
      using i by (auto simp: bit_simps possible_bit_def NUM_STASH_def dest: bit_imp_le_length)
    have "stash_ptrs b = mset (map (stash_ptr b)
        (filter (\<lambda>j. j = i \<or> bit (stash_busy ?b) j) [0..<NUM_STASH]))"
      using i(2) unfolding bits stash_ptrs_def
      by (intro arg_cong [of _ _ "\<lambda>xs. mset (map (stash_ptr b) xs)"] filter_cong) auto
    also have "\<dots> = add_mset (stash_ptr b i)
        (mset (map (stash_ptr b) (filter (bit (stash_busy ?b)) [0..<NUM_STASH])))"
      using i(1) bits [of i] by (intro mset_filter_upt_insert) blast+
    also have "mset (map (stash_ptr b) (filter (bit (stash_busy ?b)) [0..<NUM_STASH])) = stash_ptrs ?b"
    proof -
      have "stash_ptr ?b = stash_ptr b" by (simp add: fun_eq_iff stash_ptr_def)
      then show ?thesis by (simp only: stash_ptrs_def)
    qed
    finally have ptrs: "stash_ptrs b = add_mset (fp, pos) (stash_ptrs ?b)" by (simp only: i(3))
    have "length (stash_fps ?b) = NUM_STASH" "has_stash ?b"
      "\<forall>i < NUM_STASH. bit (stash_busy ?b) i \<longrightarrow> \<not> bit (stash_probe_mask ?b) i"
      using inv bits ptrs i(1) by (auto simp: stash_inv_def has_stash_bit NUM_STASH_def)
    note f = clear_stash_flag_props [OF this eq(2)]
    show ?thesis using f eq(1) ptrs by simp
  qed
  show "stash_inv b'" using main by blast
  show "(fp, pos) \<in># stash_ptrs b \<Longrightarrow>
           r \<and> stash_ptrs b' = stash_ptrs b - {#(fp, pos)#} \<and> overflow_count b' = overflow_count b"
    using main by blast
  show "(fp, pos) \<notin># stash_ptrs b \<Longrightarrow> stash_ptrs b' = stash_ptrs b \<and> r = (overflow_count b > 0)
           \<and> overflow_count b' = (if overflow_count b > 0 then overflow_count b - 1 else 0)"
    using main by blast
  show "slots b' = slots b" "fingerprints b' = fingerprints b" "keys b' = keys b" "vals b' = vals b"
    using main by blast+
qed

subsection \<open>Properties\<close>

text \<open>the bit-scanning loop \<^verbatim>\<open>trailing_zeros; mask &= mask - 1\<close> that every bucket traversal uses visits
  exactly the set bits of the mask, each once, in increasing order.\<close>

theorem mask_loop_visits_set_bits: "mask_slots m = filter (bit m) [0..<32]"
  by (rule mask_slots_eq)

text \<open>in a well-formed bucket, \<^verbatim>\<open>try_insert\<close> fails exactly when the twelve slots are busy; otherwise it
  fills a free slot, changes no other entry, increments the packed counter, and a \<^verbatim>\<open>delete\<close> of that slot
  returns the pair and restores the entries.\<close>

theorem bucket_insert_delete:
  assumes "slots_inv b"
  shows "try_insert b k v fp p = None \<and> is_full (slots b)
    \<or> (\<exists>i b'. try_insert b k v fp p = Some (i, b') \<and> slots_inv b' \<and> slot_entry b i = None
         \<and> slot_entry b' = (slot_entry b)(i := Some (k, v)) \<and> bm_size (slots b') = bm_size (slots b) + 1
         \<and> fst (bucket_delete b' i) = (Some k, Some v)
         \<and> slots_inv (snd (bucket_delete b' i)) \<and> slot_entry (snd (bucket_delete b' i)) = slot_entry b)"
proof (cases "try_insert b k v fp p")
  case None
  then show ?thesis using try_insert_None [OF assms] by blast
next
  case (Some ib)
  obtain i b' where ti: "try_insert b k v fp p = Some (i, b')" using Some by (cases ib) auto
  note t = try_insert_Some [OF assms ti]
  have sl: "slots b' = set_slot (slots b) i p" using ti by (auto simp: try_insert_def split: option.splits)
  have "bm_size (slots b) \<le> NUM_SLOTS" using assms bitmap_inv_size_le by (simp add: slots_inv_def)
  then have sz: "bm_size (slots b') = bm_size (slots b) + 1"
    using set_slot_bits(1) [of "slots b" i p] t(1) by (simp add: sl NUM_SLOTS_def)
  obtain kv b2 where bd: "bucket_delete b' i = (kv, b2)" by fastforce
  have e: "slot_entry b' i = Some (k, v)" using t(4) by simp
  note d = bucket_delete_props [OF t(3) e bd]
  have "slot_entry b' = (slot_entry b)(i := Some (k, v))" using t(4) by (auto simp: fun_eq_iff)
  moreover have "slot_entry b2 = slot_entry b" using t(2,4) d(3) by (auto simp: fun_eq_iff)
  ultimately show ?thesis using ti t(2,3) sz d(1,2) bd by auto
qed

theorem bucket_insert_delete_witness:
  "\<exists>i b'. try_insert (bucket_new :: (nat, nat) bucket) 5 6 9 False = Some (i, b') \<and> slots_inv b'
     \<and> slot_entry b' = Map.empty(i \<mapsto> (5, 6))"
proof -
  have "\<not> is_full (slots (bucket_new :: (nat, nat) bucket))" by code_simp
  moreover have "slot_entry (bucket_new :: (nat, nat) bucket) = Map.empty"
    by (auto simp: fun_eq_iff slot_entry_def bucket_new_def busy_slots_def bit_busy)
  ultimately show ?thesis using bucket_insert_delete [OF slots_inv_new, of 5 6 9 False] by auto
qed

end
