(* ===== verification/Dash_Segment.thy ===== *)
theory Dash_Segment
  imports Dash_Bucket "HOL-Library.Product_Lexorder"
begin

text \<open>
  One segment of the Dash hash table, \<^verbatim>\<open>crates/shrikedb-core/src/dash/segment.rs\<close>: 64 regular
  buckets and 4 stash buckets. A key lives in its home bucket (owned), in the next bucket
  (probing), or in a stash bucket, in which case the home bucket accounts for it by a stash
  pointer or in its overflow counter.

  \<open>seg_inv\<close> is the invariant: slots well formed, every item where \<open>find\<close> looks for it, keys
  unique, and the stash accounting exact. \<open>seg_find_iff\<close> is the correctness of \<open>find\<close>;
  \<open>insert_new\<close>, \<open>set_value\<close> and \<open>delete\<close> are shown to keep the invariant and to change exactly one
  item; for \<open>delete\<close> of a stash item this needs \<open>next_clean\<close>, a condition on the neighbouring
  bucket, because the code also unsets a stash pointer there.
\<close>

record ('k, 'v) segment =
  buckets :: "('k, 'v) bucket list"
  local_depth :: u8
  item_count :: nat

record segment_pos =
  bucket_idx :: nat
  slot_idx :: nat

definition mk_pos :: "nat \<Rightarrow> nat \<Rightarrow> segment_pos" where
  "mk_pos b i = \<lparr>bucket_idx = b, slot_idx = i\<rparr>"

definition segment_new :: "u8 \<Rightarrow> ('k, 'v) segment" where
  "segment_new depth =
     \<lparr>buckets = replicate TOTAL_BUCKETS bucket_new, local_depth = depth, item_count = 0\<rparr>"

text \<open>\<^verbatim>\<open>eq(bucket.key(slot))\<close>; an uninitialised slot would be undefined behaviour, which
  \<open>slots_inv\<close> excludes for the slots this is applied to.\<close>

definition key_matches :: "('k \<Rightarrow> bool) \<Rightarrow> ('k, 'v) bucket \<Rightarrow> nat \<Rightarrow> bool" where
  "key_matches eq b slot = (case bucket_key b slot of None \<Rightarrow> False | Some k \<Rightarrow> eq k)"

definition find_in_bucket ::
  "('k, 'v) segment \<Rightarrow> nat \<Rightarrow> u8 \<Rightarrow> bool \<Rightarrow> ('k \<Rightarrow> bool) \<Rightarrow> nat option" where
  "find_in_bucket s bidx fp probe eq =
     (let bucket = buckets s ! bidx
      in List.find (key_matches eq bucket) (mask_slots (find_matching bucket fp probe)))"

fun stash_ptr_loop ::
  "('k, 'v) segment \<Rightarrow> ('k, 'v) bucket \<Rightarrow> u8 \<Rightarrow> bool \<Rightarrow> ('k \<Rightarrow> bool) \<Rightarrow> nat list \<Rightarrow> segment_pos option" where
  "stash_ptr_loop s bucket fp probe eq [] = None"
| "stash_ptr_loop s bucket fp probe eq (i # is) =
     (if stash_busy bucket AND push_bit i 1 = 0 then stash_ptr_loop s bucket fp probe eq is
      else if stash_fps bucket ! i \<noteq> fp then stash_ptr_loop s bucket fp probe eq is
      else if (drop_bit i (stash_probe_mask bucket) AND 1 \<noteq> 0) \<noteq> probe
        then stash_ptr_loop s bucket fp probe eq is
      else
        let stash_bid = unat (drop_bit (i * 2) (stash_pos bucket) AND 3);
            stash_idx = NUM_BUCKETS + stash_bid;
            stash = buckets s ! stash_idx
        in case List.find (\<lambda>slot. fingerprints stash ! slot = fp \<and> key_matches eq stash slot)
                  (mask_slots (busy (slots stash))) of
             Some slot \<Rightarrow> Some (mk_pos stash_idx slot)
           | None \<Rightarrow> stash_ptr_loop s bucket fp probe eq is)"

definition find_in_stash_via_ptrs ::
  "('k, 'v) segment \<Rightarrow> nat \<Rightarrow> u8 \<Rightarrow> bool \<Rightarrow> ('k \<Rightarrow> bool) \<Rightarrow> segment_pos option" where
  "find_in_stash_via_ptrs s bidx fp probe eq =
     stash_ptr_loop s (buckets s ! bidx) fp probe eq [0..<NUM_STASH]"

fun stash_scan :: "('k, 'v) segment \<Rightarrow> u8 \<Rightarrow> ('k \<Rightarrow> bool) \<Rightarrow> nat list \<Rightarrow> segment_pos option" where
  "stash_scan s fp eq [] = None"
| "stash_scan s fp eq (i # is) =
     (case find_in_bucket s (NUM_BUCKETS + i) fp False eq of
        Some slot \<Rightarrow> Some (mk_pos (NUM_BUCKETS + i) slot)
      | None \<Rightarrow> stash_scan s fp eq is)"

definition seg_find :: "('k, 'v) segment \<Rightarrow> u64 \<Rightarrow> ('k \<Rightarrow> bool) \<Rightarrow> segment_pos option" where
  "seg_find s hash eq =
     (let home = home_bucket hash; fp = fingerprint hash; nxt = next_bucket home
      in case find_in_bucket s home fp False eq of
           Some slot \<Rightarrow> Some (mk_pos home slot)
         | None \<Rightarrow>
        (case find_in_bucket s nxt fp True eq of
           Some slot \<Rightarrow> Some (mk_pos nxt slot)
         | None \<Rightarrow>
         if \<not> has_stash (buckets s ! home) then None
         else if has_stash_overflow (buckets s ! home) then stash_scan s fp eq [0..<NUM_STASH]
         else (case find_in_stash_via_ptrs s home fp False eq of
                 Some pos \<Rightarrow> Some pos
               | None \<Rightarrow> find_in_stash_via_ptrs s nxt fp True eq)))"

definition upd_bucket :: "('k, 'v) segment \<Rightarrow> nat \<Rightarrow> ('k, 'v) bucket \<Rightarrow> ('k, 'v) segment" where
  "upd_bucket s i b = s\<lparr>buckets := (buckets s)[i := b]\<rparr>"

definition has_capacity :: "('k, 'v) segment \<Rightarrow> bool" where
  "has_capacity s = (item_count s < NUM_BUCKETS * NUM_SLOTS + NUM_STASH * NUM_SLOTS)"

text \<open>
  \<^verbatim>\<open>insert_new\<close>: \<open>None\<close> is the panic of \<^verbatim>\<open>try_insert(...).unwrap()\<close>, \<open>Inl\<close> is \<^verbatim>\<open>Err((key, value))\<close>,
  \<open>Inr\<close> is \<^verbatim>\<open>Ok(pos)\<close> with the new segment.
\<close>

definition insert_at ::
  "('k, 'v) segment \<Rightarrow> nat \<Rightarrow> 'k \<Rightarrow> 'v \<Rightarrow> u8 \<Rightarrow> bool \<Rightarrow> (segment_pos \<times> ('k, 'v) segment) option" where
  "insert_at s bidx key value fp probing =
     (case try_insert (buckets s ! bidx) key value fp probing of
        None \<Rightarrow> None
      | Some (slot, b) \<Rightarrow>
          Some (mk_pos bidx slot, (upd_bucket s bidx b)\<lparr>item_count := item_count s + 1\<rparr>))"

definition insert_new ::
  "('k, 'v) segment \<Rightarrow> 'k \<Rightarrow> 'v \<Rightarrow> u64 \<Rightarrow> (('k \<times> 'v) + (segment_pos \<times> ('k, 'v) segment)) option" where
  "insert_new s key value hash =
     (let home = home_bucket hash; nxt = next_bucket home; fp = fingerprint hash
      in if \<not> is_full (slots (buckets s ! home))
         then map_option Inr (insert_at s home key value fp False)
         else if \<not> is_full (slots (buckets s ! nxt))
         then map_option Inr (insert_at s nxt key value fp True)
         else
           (case List.find (\<lambda>i. \<not> is_full (slots (buckets s ! (NUM_BUCKETS + i)))) [0..<NUM_STASH] of
              Some i \<Rightarrow>
                map_option (\<lambda>(pos, s'). Inr (pos,
                    upd_bucket s' home (set_stash_ptr (buckets s' ! home) (of_nat i) fp False)))
                  (insert_at s (NUM_BUCKETS + i) key value fp False)
            | None \<Rightarrow> Some (Inl (key, value))))"

text \<open>
  The older \<^verbatim>\<open>insert\<close> with its \<^verbatim>\<open>insert_unique\<close>, whose fallback is \<^verbatim>\<open>unreachable!()\<close>: it panics
  when the home bucket is full.
\<close>

definition insert_unique ::
  "('k, 'v) segment \<Rightarrow> 'k \<Rightarrow> 'v \<Rightarrow> u64 \<Rightarrow> (('k \<times> 'v) + (segment_pos \<times> ('k, 'v) segment)) option" where
  "insert_unique s key value hash =
     map_option Inr (insert_at s (home_bucket hash) key value (fingerprint hash) False)"

definition seg_set_value :: "('k, 'v) segment \<Rightarrow> segment_pos \<Rightarrow> 'v \<Rightarrow> ('k, 'v) segment" where
  "seg_set_value s pos v =
     upd_bucket s (bucket_idx pos) (set_value (buckets s ! bucket_idx pos) (slot_idx pos) v)"

definition seg_insert ::
  "('k, 'v) segment \<Rightarrow> 'k \<Rightarrow> 'v \<Rightarrow> u64 \<Rightarrow> ('k \<Rightarrow> bool)
     \<Rightarrow> (('k \<times> 'v) + (segment_pos \<times> ('k, 'v) segment)) option" where
  "seg_insert s key value hash eq =
     (case seg_find s hash eq of
        Some pos \<Rightarrow> Some (Inr (pos, seg_set_value s pos value))
      | None \<Rightarrow> insert_unique s key value hash)"

definition unset_at :: "('k, 'v) segment \<Rightarrow> nat \<Rightarrow> u8 \<Rightarrow> u8 \<Rightarrow> ('k, 'v) segment" where
  "unset_at s bidx fp stash_id =
     upd_bucket s bidx (snd (unset_stash_ptr (buckets s ! bidx) fp stash_id))"

definition unset_stash_ptrs :: "('k, 'v) segment \<Rightarrow> nat \<Rightarrow> u64 \<Rightarrow> ('k, 'v) segment" where
  "unset_stash_ptrs s bidx hash =
     (if bidx \<ge> NUM_BUCKETS
      then let home = home_bucket hash; fp = fingerprint hash;
               stash_id = of_nat (bidx - NUM_BUCKETS);
               s1 = unset_at s home fp stash_id;
               nxt = next_bucket home
           in unset_at s1 nxt fp stash_id
      else s)"

definition seg_delete ::
  "('k, 'v) segment \<Rightarrow> segment_pos \<Rightarrow> u64 \<Rightarrow> ('k option \<times> 'v option) \<times> ('k, 'v) segment" where
  "seg_delete s pos hash =
     (let (kv, b) = bucket_delete (buckets s ! bucket_idx pos) (slot_idx pos);
          s1 = upd_bucket s (bucket_idx pos) b;
          s2 = unset_stash_ptrs s1 (bucket_idx pos) hash
      in (kv, s2\<lparr>item_count := item_count s2 - 1\<rparr>))"

text \<open>\<^verbatim>\<open>iter\<close>: the sequence of \<open>(bucket, slot, key, value)\<close> the callback receives.\<close>

definition bucket_iter :: "nat \<Rightarrow> ('k, 'v) bucket \<Rightarrow> (nat \<times> nat \<times> 'k \<times> 'v) list" where
  "bucket_iter bid b =
     List.map_filter (\<lambda>i. map_option (\<lambda>(k, v). (bid, i, k, v)) (slot_entry b i))
       (mask_slots (busy (slots b)))"

definition seg_iter :: "('k, 'v) segment \<Rightarrow> (nat \<times> nat \<times> 'k \<times> 'v) list" where
  "seg_iter s = concat (map (\<lambda>bid. bucket_iter bid (buckets s ! bid)) [0..<TOTAL_BUCKETS])"

text \<open>\<^verbatim>\<open>iter_mut\<close>: every occupied slot, in the order of \<open>seg_iter\<close>, receives the value that the callback leaves in
  it. A slot is written on its own visit only, so the values the callback sees are those of the start.\<close>

definition write_item ::
  "(nat \<Rightarrow> nat \<Rightarrow> 'k \<Rightarrow> 'v \<Rightarrow> 'v) \<Rightarrow> nat \<times> nat \<times> 'k \<times> 'v \<Rightarrow> ('k, 'v) segment \<Rightarrow> ('k, 'v) segment" where
  "write_item cb x s = (case x of (bid, slot, k, v) \<Rightarrow> seg_set_value s (mk_pos bid slot) (cb bid slot k v))"

definition seg_iter_mut :: "(nat \<Rightarrow> nat \<Rightarrow> 'k \<Rightarrow> 'v \<Rightarrow> 'v) \<Rightarrow> ('k, 'v) segment \<Rightarrow> ('k, 'v) segment" where
  "seg_iter_mut cb s = fold (write_item cb) (seg_iter s) s"

text \<open>
  \<^verbatim>\<open>split\<close>: move the items whose new depth bit is set to \<open>dest\<close>. An item refused by both segments
  is dropped, as in the code; \<open>None\<close> is a panic.
\<close>

definition split_move ::
  "('k, 'v) segment \<times> ('k, 'v) segment \<Rightarrow> nat \<times> nat \<times> u64
     \<Rightarrow> (('k, 'v) segment \<times> ('k, 'v) segment) option" where
  "split_move sd mv =
     (case (sd, mv) of ((src, dest), (bid, slot, hash)) \<Rightarrow>
        let (kv, b) = bucket_delete (buckets src ! bid) slot;
            s1 = (upd_bucket src bid b)\<lparr>item_count := item_count src - 1\<rparr>;
            s2 = unset_stash_ptrs s1 bid hash
        in case kv of
             (Some k, Some v) \<Rightarrow>
               (case insert_new dest k v hash of
                  None \<Rightarrow> None
                | Some (Inr (_, dest')) \<Rightarrow> Some (s2, dest')
                | Some (Inl (k, v)) \<Rightarrow>
                    (case insert_new s2 k v hash of
                       None \<Rightarrow> None
                     | Some (Inr (_, s3)) \<Rightarrow> Some (s3, dest)
                     | Some (Inl _) \<Rightarrow> Some (s2, dest)))
           | _ \<Rightarrow> None)"

fun split_moves ::
  "('k, 'v) segment \<times> ('k, 'v) segment \<Rightarrow> (nat \<times> nat \<times> u64) list
     \<Rightarrow> (('k, 'v) segment \<times> ('k, 'v) segment) option" where
  "split_moves sd [] = Some sd"
| "split_moves sd (m # ms) = (case split_move sd m of None \<Rightarrow> None | Some sd' \<Rightarrow> split_moves sd' ms)"

definition seg_split ::
  "('k, 'v) segment \<Rightarrow> ('k, 'v) segment \<Rightarrow> ('k \<Rightarrow> u64)
     \<Rightarrow> (('k, 'v) segment \<times> ('k, 'v) segment) option" where
  "seg_split src dest hash_fn =
     (let src1 = src\<lparr>local_depth := local_depth src + 1\<rparr>;
          dest1 = dest\<lparr>local_depth := local_depth src1\<rparr>;
          split_bit = 64 - unat (local_depth src1);
          to_move = [(bid, slot, hash_fn k). (bid, slot, k, v) \<leftarrow> seg_iter src1,
                       drop_bit split_bit (hash_fn k) AND 1 = 1]
      in split_moves (src1, dest1) (rev (sort to_move)))"

subsection \<open>The items of a segment\<close>

definition seg_items :: "('k, 'v) segment \<Rightarrow> (nat \<times> nat \<times> 'k \<times> 'v) set" where
  "seg_items s = {(b, i, k, v). b < TOTAL_BUCKETS \<and> slot_entry (buckets s ! b) i = Some (k, v)}"

lemma set_map_filter_iff: "y \<in> set (List.map_filter g xs) \<longleftrightarrow> (\<exists>x \<in> set xs. g x = Some y)"
  by (auto simp: List.map_filter_def image_iff)

lemma set_bucket_iter:
  "set (bucket_iter bid b) = {(b', i, k, v). b' = bid \<and> slot_entry b i = Some (k, v)}"
proof -
  have "slot_entry b i = Some (k, v) \<Longrightarrow> i \<in> set (mask_slots (busy (slots b)))" for i k v
    by (auto simp: mask_slots_busy slot_entry_Some)
  then show ?thesis by (auto simp: bucket_iter_def set_map_filter_iff)
qed

lemma distinct_bucket_iter: "distinct (bucket_iter bid b)"
  unfolding bucket_iter_def List.map_filter_def distinct_map
  by (auto simp: distinct_mask_slots inj_on_def)

lemma set_seg_iter: "set (seg_iter s) = seg_items s"
  by (auto simp: seg_iter_def seg_items_def set_bucket_iter)

lemma distinct_concat_tagged:
  assumes "\<And>i. i \<in> set xs \<Longrightarrow> distinct (f i)" and "\<And>i x. i \<in> set xs \<Longrightarrow> x \<in> set (f i) \<Longrightarrow> tag x = i"
    and "distinct xs"
  shows "distinct (concat (map f xs))"
  using assms
proof (induction xs)
  case (Cons a xs)
  have "x \<notin> set (concat (map f xs))" if "x \<in> set (f a)" for x
  proof
    assume "x \<in> set (concat (map f xs))"
    then obtain i where "i \<in> set xs" "x \<in> set (f i)" by auto
    then have "a = i" using Cons.prems(2) [of a x] Cons.prems(2) [of i x] that by simp
    then show False using Cons.prems(3) \<open>i \<in> set xs\<close> by simp
  qed
  then have "set (f a) \<inter> set (concat (map f xs)) = {}" by blast
  moreover have "distinct (concat (map f xs))" using Cons.prems by (intro Cons.IH) auto
  ultimately show ?case using Cons.prems(1) by simp
qed simp

lemma distinct_seg_iter: "distinct (seg_iter s)"
  unfolding seg_iter_def
  by (rule distinct_concat_tagged [where tag = fst]) (auto simp: distinct_bucket_iter set_bucket_iter)

lemma mset_seg_iter: "mset (seg_iter s) = mset_set (seg_items s)"
  by (metis distinct_seg_iter mset_set_set set_seg_iter)

lemma finite_seg_items [simp]: "finite (seg_items s)"
  by (metis List.finite_set set_seg_iter)

lemma mset_seg_iter_insert:
  "seg_items s' = insert x (seg_items s) \<Longrightarrow> x \<notin> seg_items s \<Longrightarrow>
     mset (seg_iter s') = add_mset x (mset (seg_iter s))"
  by (simp add: mset_seg_iter)

lemma mset_seg_iter_remove:
  "seg_items s' = seg_items s - {x} \<Longrightarrow> x \<in> seg_items s \<Longrightarrow>
     mset (seg_iter s) = add_mset x (mset (seg_iter s'))"
  by (simp add: mset_seg_iter mset_set.remove)

subsection \<open>The invariants\<close>

text \<open>The stash pointers the home bucket \<open>h\<close> should hold: one per item of \<open>h\<close> in the stash.\<close>

definition stash_refs :: "('k \<Rightarrow> u64) \<Rightarrow> ('k, 'v) segment \<Rightarrow> nat \<Rightarrow> (u8 \<times> u8) multiset" where
  "stash_refs hf s h =
     {#(fingerprint (hf k), of_nat (b - NUM_BUCKETS)).
        (b, i, k, v) \<in># {#(b, i, k, v) \<in># mset (seg_iter s). NUM_BUCKETS \<le> b \<and> home_bucket (hf k) = h#}#}"

definition item_ok :: "('k \<Rightarrow> u64) \<Rightarrow> ('k, 'v) segment \<Rightarrow> nat \<times> nat \<times> 'k \<times> 'v \<Rightarrow> bool" where
  "item_ok hf s x = (case x of (b, i, k, v) \<Rightarrow>
     fingerprints (buckets s ! b) ! i = fingerprint (hf k) \<and>
     (if b < NUM_BUCKETS
      then b = (if slot_probing (buckets s ! b) i then next_bucket (home_bucket (hf k))
                else home_bucket (hf k))
      else \<not> slot_probing (buckets s ! b) i))"

text \<open>
  \<open>seg_safe\<close> holds of every segment the code can build: every busy slot is initialised, every
  item is in one of its three places, stash pointers point to items, and the counters are bounded
  by what they count. \<open>seg_inv\<close> adds what lookups rely on: no key is stored twice and every stash
  item is accounted for in its home bucket.
\<close>

definition seg_shape :: "('k, 'v) segment \<Rightarrow> bool" where
  "seg_shape s \<longleftrightarrow> length (buckets s) = TOTAL_BUCKETS
     \<and> (\<forall>b < TOTAL_BUCKETS. slots_inv (buckets s ! b)) \<and> (\<forall>b < NUM_BUCKETS. stash_inv (buckets s ! b))"

definition refs_sound :: "('k \<Rightarrow> u64) \<Rightarrow> ('k, 'v) segment \<Rightarrow> nat \<Rightarrow> bool" where
  "refs_sound hf s h \<longleftrightarrow> stash_ptrs (buckets s ! h) \<subseteq># stash_refs hf s h
     \<and> size (stash_ptrs (buckets s ! h)) + unat (overflow_count (buckets s ! h)) \<le> size (stash_refs hf s h)"

definition refs_complete :: "('k \<Rightarrow> u64) \<Rightarrow> ('k, 'v) segment \<Rightarrow> nat \<Rightarrow> bool" where
  "refs_complete hf s h \<longleftrightarrow> size (stash_refs hf s h)
     \<le> size (stash_ptrs (buckets s ! h)) + unat (overflow_count (buckets s ! h))"

definition seg_safe :: "('k \<Rightarrow> u64) \<Rightarrow> ('k, 'v) segment \<Rightarrow> bool" where
  "seg_safe hf s \<longleftrightarrow> seg_shape s \<and> (\<forall>x \<in> seg_items s. item_ok hf s x)
     \<and> (\<forall>h < NUM_BUCKETS. refs_sound hf s h) \<and> item_count s = length (seg_iter s)"

definition keys_unique :: "('k, 'v) segment \<Rightarrow> bool" where
  "keys_unique s \<longleftrightarrow> (\<forall>b i k v b' i' v'. (b, i, k, v) \<in> seg_items s \<longrightarrow> (b', i', k, v') \<in> seg_items s
     \<longrightarrow> b = b' \<and> i = i')"

definition seg_inv :: "('k \<Rightarrow> u64) \<Rightarrow> ('k, 'v) segment \<Rightarrow> bool" where
  "seg_inv hf s \<longleftrightarrow> seg_safe hf s \<and> keys_unique s \<and> (\<forall>h < NUM_BUCKETS. refs_complete hf s h)"

lemma home_bucket_less [simp]: "home_bucket h < NUM_BUCKETS"
  by (simp add: home_bucket_def NUM_BUCKETS_def)

lemma next_bucket_less [simp]: "b < NUM_BUCKETS \<Longrightarrow> next_bucket b < NUM_BUCKETS"
  by (simp add: next_bucket_def NUM_BUCKETS_def)

lemma next_bucket_neq [simp]: "b < NUM_BUCKETS \<Longrightarrow> next_bucket b \<noteq> b"
  by (simp add: next_bucket_def NUM_BUCKETS_def)

lemma bucket_less_total [simp]: "b < NUM_BUCKETS \<Longrightarrow> b < TOTAL_BUCKETS"
  by (simp add: TOTAL_BUCKETS_def)

lemma seg_shapeD:
  assumes "seg_shape s"
  shows "length (buckets s) = TOTAL_BUCKETS" and "b < TOTAL_BUCKETS \<Longrightarrow> slots_inv (buckets s ! b)"
    and "b < NUM_BUCKETS \<Longrightarrow> stash_inv (buckets s ! b)"
  using assms by (auto simp: seg_shape_def)

lemma seg_safeD:
  assumes "seg_safe hf s"
  shows "seg_shape s" and "x \<in> seg_items s \<Longrightarrow> item_ok hf s x"
    and "h < NUM_BUCKETS \<Longrightarrow> refs_sound hf s h" and "item_count s = length (seg_iter s)"
  using assms by (auto simp: seg_safe_def)

lemma seg_itemsD:
  assumes "seg_shape s" and "(b, i, k, v) \<in> seg_items s"
  shows "b < TOTAL_BUCKETS" and "i < NUM_SLOTS" and "slot_entry (buckets s ! b) i = Some (k, v)"
    and "i \<in> busy_slots (slots (buckets s ! b))" and "bucket_key (buckets s ! b) i = Some k"
    and "bucket_value (buckets s ! b) i = Some v"
  using assms slot_entry_less [OF seg_shapeD(2) [OF assms(1)]]
  by (auto simp: seg_items_def slot_entry_Some bucket_key_def bucket_value_def)

lemma busy_item:
  assumes "seg_shape s" and "b < TOTAL_BUCKETS" and "i \<in> busy_slots (slots (buckets s ! b))"
  obtains k v where "(b, i, k, v) \<in> seg_items s" and "bucket_key (buckets s ! b) i = Some k"
proof -
  obtain k v where "slot_entry (buckets s ! b) i = Some (k, v)"
    using slot_entry_None [OF seg_shapeD(2) [OF assms(1,2)]] assms(3) by fastforce
  then show ?thesis using that assms(2) by (auto simp: seg_items_def bucket_key_def slot_entry_Some)
qed

lemma card_stash_positions: "card ({NUM_BUCKETS..<TOTAL_BUCKETS} \<times> {..<NUM_SLOTS}) = 48"
  by (simp add: dash_consts)

lemma size_stash_refs:
  assumes "seg_shape s"
  shows "size (stash_refs hf s h) \<le> 48"
proof -
  let ?X = "{x \<in> seg_items s. case x of (b, i, k, v) \<Rightarrow> NUM_BUCKETS \<le> b \<and> home_bucket (hf k) = h}"
  let ?pos = "\<lambda>(b :: nat, i :: nat, k :: 'a, v :: 'b). (b, i)"
  have "size (stash_refs hf s h) = card ?X"
    by (simp add: stash_refs_def mset_seg_iter filter_mset_mset_set)
  also have "\<dots> = card (?pos ` ?X)"
    by (rule card_image [symmetric]) (auto simp: inj_on_def seg_items_def)
  also have "\<dots> \<le> card ({NUM_BUCKETS..<TOTAL_BUCKETS} \<times> {..<NUM_SLOTS})"
    using seg_itemsD [OF assms] by (intro card_mono) auto
  finally show ?thesis by (simp only: card_stash_positions)
qed

subsection \<open>Lookup\<close>

definition seg_hit :: "('k, 'v) segment \<Rightarrow> ('k \<Rightarrow> bool) \<Rightarrow> segment_pos \<Rightarrow> bool" where
  "seg_hit s eq pos \<longleftrightarrow> (\<exists>k v. (bucket_idx pos, slot_idx pos, k, v) \<in> seg_items s \<and> eq k)"

lemma mk_pos_sel [simp]: "bucket_idx (mk_pos b i) = b" "slot_idx (mk_pos b i) = i"
  by (simp_all add: mk_pos_def)

lemma mk_pos_idem [simp]: "mk_pos (bucket_idx pos) (slot_idx pos) = pos"
  by (simp add: mk_pos_def)

lemma find_in_bucket_Some:
  assumes "seg_shape s" and "b < TOTAL_BUCKETS" and "find_in_bucket s b fp p eq = Some i"
  shows "seg_hit s eq (mk_pos b i)"
proof -
  have i: "i \<in> busy_slots (slots (buckets s ! b))" "key_matches eq (buckets s ! b) i"
    using find_SomeD [OF assms(3) [unfolded find_in_bucket_def Let_def]]
    by (simp_all add: mask_slots_matching)
  then show ?thesis using busy_item [OF assms(1,2) i(1)] unfolding seg_hit_def by (metis key_matches_def mk_pos_sel option.simps(5))
qed

lemma find_in_bucket_hit:
  assumes "seg_shape s" and "(b, i, k, v) \<in> seg_items s" and "eq k"
    and "slot_probing (buckets s ! b) i = p" and "fingerprints (buckets s ! b) ! i = fp"
  shows "find_in_bucket s b fp p eq \<noteq> None"
proof -
  have "i \<in> set (mask_slots (find_matching (buckets s ! b) fp p))"
    using seg_itemsD [OF assms(1,2)] assms(4,5) by (simp add: mask_slots_matching)
  moreover have "key_matches eq (buckets s ! b) i"
    using seg_itemsD [OF assms(1,2)] assms(3) by (simp add: key_matches_def)
  ultimately show ?thesis unfolding find_in_bucket_def Let_def find_None_iff by blast
qed

lemma unat_and_3_less: "unat ((w :: u8) AND 3) < 4"
proof -
  have "w AND 3 \<le> 3" by (rule word_and_le1)
  then show ?thesis by (simp add: word_le_nat_alt)
qed

lemma stash_idx_less [simp]: "i < NUM_STASH \<Longrightarrow> NUM_BUCKETS + i < TOTAL_BUCKETS"
  by (simp add: TOTAL_BUCKETS_def)

lemma stash_ptr_loop_Some:
  assumes "seg_shape s" and "stash_ptr_loop s bk fp p eq is = Some pos"
  shows "seg_hit s eq pos"
  using assms(2)
proof (induction "is")
  case (Cons i "is")
  define d where "d = unat (drop_bit (i * 2) (stash_pos bk) AND 3)"
  let ?st = "buckets s ! (NUM_BUCKETS + d)"
  let ?find = "List.find (\<lambda>slot. fingerprints ?st ! slot = fp \<and> key_matches eq ?st slot)
      (mask_slots (busy (slots ?st)))"
  have d: "NUM_BUCKETS + d < TOTAL_BUCKETS"
    using unat_and_3_less by (simp add: d_def dash_consts)
  have found: "seg_hit s eq (mk_pos (NUM_BUCKETS + d) j)" if "?find = Some j" for j
  proof -
    have "j \<in> set (mask_slots (busy (slots ?st)))" "key_matches eq ?st j"
      using find_SomeD [OF that] by simp_all
    then show ?thesis
      using busy_item [OF assms(1) d, of j] unfolding seg_hit_def
      by (metis key_matches_def mask_slots_busy mk_pos_sel option.simps(5))
  qed
  show ?case
    using Cons found by (auto simp: Let_def d_def [symmetric] split: if_splits option.splits)
qed simp

lemma stash_scan_Some:
  assumes "seg_shape s" and "stash_scan s fp eq is = Some pos" and "\<forall>i \<in> set is. i < NUM_STASH"
  shows "seg_hit s eq pos"
  using assms(2,3)
proof (induction "is")
  case (Cons i "is")
  show ?case
  proof (cases "find_in_bucket s (NUM_BUCKETS + i) fp False eq")
    case (Some j)
    then have "pos = mk_pos (NUM_BUCKETS + i) j" using Cons.prems by simp
    then show ?thesis
      using find_in_bucket_Some [OF assms(1) _ Some] Cons.prems by simp
  qed (use Cons in simp)
qed simp

lemma seg_find_sound:
  assumes shape: "seg_shape s" and found: "seg_find s hash eq = Some pos"
  shows "seg_hit s eq pos"
proof -
  let ?h = "home_bucket hash" and ?fp = "fingerprint hash"
  consider (home) j where "pos = mk_pos ?h j" "find_in_bucket s ?h ?fp False eq = Some j"
    | (nxt) j where "pos = mk_pos (next_bucket ?h) j" "find_in_bucket s (next_bucket ?h) ?fp True eq = Some j"
    | (scan) "stash_scan s ?fp eq [0..<NUM_STASH] = Some pos"
    | (ptrs) bk p where "stash_ptr_loop s bk ?fp p eq [0..<NUM_STASH] = Some pos"
    using found unfolding seg_find_def Let_def find_in_stash_via_ptrs_def
    by (auto split: option.splits if_splits)
  then show ?thesis
  proof cases
    case home
    then show ?thesis using find_in_bucket_Some [OF shape _ home(2)] by simp
  next
    case nxt
    then show ?thesis using find_in_bucket_Some [OF shape _ nxt(2)] by simp
  next
    case scan
    then show ?thesis by (rule stash_scan_Some [OF shape]) simp
  next
    case ptrs
    then show ?thesis by (rule stash_ptr_loop_Some [OF shape])
  qed
qed

lemma stash_scan_hit:
  assumes "seg_shape s" and "(NUM_BUCKETS + i, j, k, v) \<in> seg_items s" and "eq k"
    and "\<not> slot_probing (buckets s ! (NUM_BUCKETS + i)) j"
    and "fingerprints (buckets s ! (NUM_BUCKETS + i)) ! j = fp" and "i \<in> set is"
  shows "stash_scan s fp eq is \<noteq> None"
  using assms(6) find_in_bucket_hit [OF assms(1,2), of eq False fp] assms(3) assms(4,5)
  by (induction "is") (auto split: option.splits)

lemma u8_low_bit: "drop_bit i (w :: u8) AND 1 \<noteq> 0 \<longleftrightarrow> bit w i"
  by (simp add: and_one_eq bit_iff_odd_drop_bit odd_iff_mod_2_eq_one)

lemma stash_ptr_loop_hit:
  assumes "seg_shape s" and "(NUM_BUCKETS + d, j, k, v) \<in> seg_items s" and "eq k"
    and "fingerprints (buckets s ! (NUM_BUCKETS + d)) ! j = fp" and "d < NUM_STASH"
    and "i \<in> set is" and "bit (stash_busy bk) i" and "stash_ptr bk i = (fp, of_nat d)"
    and "\<not> bit (stash_probe_mask bk) i"
  shows "stash_ptr_loop s bk fp False eq is \<noteq> None"
  using assms(6)
proof (induction "is")
  case (Cons a "is")
  let ?st = "buckets s ! (NUM_BUCKETS + d)"
  have "j \<in> set (mask_slots (busy (slots ?st)))" "key_matches eq ?st j"
    using seg_itemsD [OF assms(1,2)] assms(3) by (simp_all add: mask_slots_busy key_matches_def)
  then have found: "List.find (\<lambda>slot. fingerprints ?st ! slot = fp \<and> key_matches eq ?st slot)
      (mask_slots (busy (slots ?st))) \<noteq> None"
    using assms(4) unfolding find_None_iff by blast
  show ?case
  proof (cases "a = i")
    case True
    have "stash_fps bk ! i = fp" "unat (drop_bit (i * 2) (stash_pos bk) AND 3) = d"
      using assms(5,8) by (auto simp: stash_ptr_def NUM_STASH_def unat_of_nat)
    then show ?thesis
      using True found assms(7,9) u8_bit_test [of "stash_busy bk" i] u8_low_bit [of i "stash_probe_mask bk"]
      by (auto simp: Let_def split: option.splits)
  next
    case False
    then show ?thesis using Cons by (simp add: Let_def split: option.splits)
  qed
qed simp

lemma stash_refs_mem:
  assumes "(b, i, k, v) \<in> seg_items s" and "NUM_BUCKETS \<le> b"
  shows "(fingerprint (hf k), of_nat (b - NUM_BUCKETS)) \<in># stash_refs hf s (home_bucket (hf k))"
  using assms by (force simp: stash_refs_def mset_seg_iter)

lemma seg_find_complete:
  assumes inv: "seg_inv hf s" and x: "(b, i, k, v) \<in> seg_items s" and "eq k"
  shows "seg_find s (hf k) eq \<noteq> None"
proof (cases "b < NUM_BUCKETS")
  let ?h = "home_bucket (hf k)" and ?fp = "fingerprint (hf k)"
  note safe = inv [unfolded seg_inv_def, THEN conjunct1]
  note shape = seg_safeD(1) [OF safe]
  have ok: "item_ok hf s (b, i, k, v)" by (rule seg_safeD(2) [OF safe x])
  {
    case True
    note hit = find_in_bucket_hit [OF shape x, of eq "slot_probing (buckets s ! b) i" ?fp, OF \<open>eq k\<close> refl]
    show ?thesis
      using True ok hit by (auto simp: item_ok_def seg_find_def Let_def split: if_splits option.splits)
  next
    case False
    define d where "d = b - NUM_BUCKETS"
    have d: "b = NUM_BUCKETS + d" "d < NUM_STASH"
      using False seg_itemsD(1) [OF shape x] by (simp_all add: d_def TOTAL_BUCKETS_def)
    have probe: "\<not> slot_probing (buckets s ! b) i" and fp: "fingerprints (buckets s ! b) ! i = ?fp"
      using ok False by (simp_all add: item_ok_def)
    let ?B = "buckets s ! ?h"
    have mem: "(?fp, of_nat d) \<in># stash_refs hf s ?h"
      using stash_refs_mem [OF x, of hf] False by (simp add: d_def)
    have sub: "stash_ptrs ?B \<subseteq># stash_refs hf s ?h"
      using seg_safeD(3) [OF safe, of ?h] by (simp add: refs_sound_def)
    have cpl: "size (stash_refs hf s ?h) \<le> size (stash_ptrs ?B) + unat (overflow_count ?B)"
      using inv by (simp add: seg_inv_def refs_complete_def)
    have si: "stash_inv ?B" by (rule seg_shapeD(3) [OF shape]) simp
    have "has_stash ?B"
      using si mem cpl by (cases "overflow_count ?B = 0") (auto simp: stash_inv_def word_gt_0)
    moreover have "stash_scan s ?fp eq [0..<NUM_STASH] \<noteq> None"
      using stash_scan_hit [of s d i k v eq ?fp "[0..<NUM_STASH]"] shape x \<open>eq k\<close> probe fp d by simp
    moreover have "find_in_stash_via_ptrs s ?h ?fp False eq \<noteq> None" if "\<not> has_stash_overflow ?B"
    proof -
      have "stash_ptrs ?B = stash_refs hf s ?h"
        using that cpl sub mset_subset_size [of "stash_ptrs ?B" "stash_refs hf s ?h"]
        by (auto simp: has_stash_overflow_def word_gt_0 subset_mset.le_less)
      then obtain p where "p < NUM_STASH" "bit (stash_busy ?B) p" "stash_ptr ?B p = (?fp, of_nat d)"
        using mem by (metis in_stash_ptrs)
      then show ?thesis
        using stash_ptr_loop_hit [of s d i k v eq ?fp p "[0..<NUM_STASH]" ?B] shape x \<open>eq k\<close> fp d si
        by (simp add: find_in_stash_via_ptrs_def stash_inv_def)
    qed
    ultimately show ?thesis by (auto simp: seg_find_def Let_def split: option.splits)
  }
qed

lemma seg_find_iff:
  assumes inv: "seg_inv hf s"
  shows "seg_find s (hf k) (\<lambda>k'. k' = k) = Some pos \<longleftrightarrow>
           (\<exists>v. (bucket_idx pos, slot_idx pos, k, v) \<in> seg_items s)"
proof
  have shape: "seg_shape s" using inv by (simp add: seg_inv_def seg_safe_def)
  show "seg_find s (hf k) (\<lambda>k'. k' = k) = Some pos \<Longrightarrow>
      \<exists>v. (bucket_idx pos, slot_idx pos, k, v) \<in> seg_items s"
    using seg_find_sound [OF shape] unfolding seg_hit_def by blast
  assume "\<exists>v. (bucket_idx pos, slot_idx pos, k, v) \<in> seg_items s"
  then obtain v where v: "(bucket_idx pos, slot_idx pos, k, v) \<in> seg_items s" by blast
  obtain pos' where pos': "seg_find s (hf k) (\<lambda>k'. k' = k) = Some pos'"
    using seg_find_complete [OF inv v, of "\<lambda>k'. k' = k"] by blast
  then obtain v' where "(bucket_idx pos', slot_idx pos', k, v') \<in> seg_items s"
    using seg_find_sound [OF shape] unfolding seg_hit_def by blast
  then have "bucket_idx pos = bucket_idx pos'" "slot_idx pos = slot_idx pos'"
    using inv v unfolding seg_inv_def keys_unique_def by blast+
  then show "seg_find s (hf k) (\<lambda>k'. k' = k) = Some pos" using pos' by simp
qed

lemma seg_find_None:
  assumes inv: "seg_inv hf s"
  shows "seg_find s (hf k) (\<lambda>k'. k' = k) = None \<longleftrightarrow> (\<forall>b i v. (b, i, k, v) \<notin> seg_items s)"
proof -
  have shape: "seg_shape s" using inv by (simp add: seg_inv_def seg_safe_def)
  have "seg_find s (hf k) (\<lambda>k'. k' = k) \<noteq> None" if "(b, i, k, v) \<in> seg_items s" for b i v
    by (rule seg_find_complete [OF inv that]) simp
  moreover have "\<exists>b i v. (b, i, k, v) \<in> seg_items s" if "seg_find s (hf k) (\<lambda>k'. k' = k) = Some pos" for pos
    using seg_find_sound [OF shape that] unfolding seg_hit_def by blast
  ultimately show ?thesis by (metis option.exhaust)
qed

subsection \<open>Updating one bucket\<close>

text \<open>The slot operations leave the stash metadata alone, and the stash operations leave the slots alone.\<close>

definition same_stash :: "('k, 'v) bucket \<Rightarrow> ('k, 'v) bucket \<Rightarrow> bool" where
  "same_stash b b' \<longleftrightarrow> stash_ptrs b' = stash_ptrs b \<and> overflow_count b' = overflow_count b
     \<and> (stash_inv b' \<longleftrightarrow> stash_inv b)"

definition same_slots :: "('k, 'v) bucket \<Rightarrow> ('k, 'v) bucket \<Rightarrow> bool" where
  "same_slots b b' \<longleftrightarrow> slots b' = slots b \<and> fingerprints b' = fingerprints b \<and> keys b' = keys b
     \<and> vals b' = vals b"

lemma same_stash_fields:
  assumes "stash_fps b' = stash_fps b" and "stash_busy b' = stash_busy b" and "stash_pos b' = stash_pos b"
    and "stash_probe_mask b' = stash_probe_mask b" and "overflow_count b' = overflow_count b"
  shows "same_stash b b'"
proof -
  have "stash_ptr b' = stash_ptr b" using assms by (simp add: stash_ptr_def fun_eq_iff)
  then have "stash_ptrs b' = stash_ptrs b" using assms by (simp only: stash_ptrs_def)
  then show ?thesis using assms by (simp add: same_stash_def stash_inv_def has_stash_def)
qed

lemma try_insert_same_stash: "try_insert b k v fp p = Some (i, b') \<Longrightarrow> same_stash b b'"
  by (rule same_stash_fields) (auto simp: try_insert_def split: option.splits)

lemma bucket_delete_same_stash: "bucket_delete b i = (kv, b') \<Longrightarrow> same_stash b b'"
  by (rule same_stash_fields) (auto simp: bucket_delete_def)

lemma set_value_same_stash: "same_stash b (set_value b i v)"
  by (rule same_stash_fields) (auto simp: set_value_def)

lemma same_slots_entry:
  assumes "same_slots b b'"
  shows "slot_entry b' = slot_entry b" and "slot_probing b' = slot_probing b"
    and "slots_inv b' \<longleftrightarrow> slots_inv b" and "fingerprints b' = fingerprints b"
  using assms by (simp_all add: same_slots_def slot_entry_def slot_probing_def slots_inv_def fun_eq_iff)

lemma buckets_upd: "buckets (upd_bucket s b x) ! c = (if c = b \<and> b < length (buckets s) then x else buckets s ! c)"
  by (simp add: upd_bucket_def nth_list_update_if)

lemma length_upd [simp]: "length (buckets (upd_bucket s b x)) = length (buckets s)"
  by (simp add: upd_bucket_def)

lemma item_count_upd [simp]: "item_count (upd_bucket s b x) = item_count s"
  by (simp add: upd_bucket_def)

lemma seg_items_count [simp]: "seg_items (s\<lparr>item_count := n\<rparr>) = seg_items s"
  and seg_shape_count [simp]: "seg_shape (s\<lparr>item_count := n\<rparr>) = seg_shape s"
  and item_ok_count [simp]: "item_ok hf (s\<lparr>item_count := n\<rparr>) = item_ok hf s"
  by (simp_all add: seg_items_def seg_shape_def item_ok_def fun_eq_iff)

lemma seg_iter_count [simp]: "seg_iter (s\<lparr>item_count := n\<rparr>) = seg_iter s"
  by (simp add: seg_iter_def)

lemma stash_refs_cong: "seg_items s' = seg_items s \<Longrightarrow> stash_refs hf s' h = stash_refs hf s h"
  by (simp add: stash_refs_def mset_seg_iter)

lemma length_iter_cong: "seg_items s' = seg_items s \<Longrightarrow> length (seg_iter s') = length (seg_iter s)"
  by (metis mset_seg_iter size_mset)

lemma slot_update_shape:
  assumes "seg_shape s" and "b < TOTAL_BUCKETS" and "slots_inv b'" and "same_stash (buckets s ! b) b'"
  shows "seg_shape (upd_bucket s b b')"
  using assms by (auto simp: seg_shape_def buckets_upd same_stash_def)

lemma stash_update:
  assumes "seg_shape s" and "h < NUM_BUCKETS" and ss: "same_slots (buckets s ! h) b'" and "stash_inv b'"
  shows "seg_shape (upd_bucket s h b')" and "seg_items (upd_bucket s h b') = seg_items s"
    and "item_ok hf (upd_bucket s h b') = item_ok hf s"
  using assms same_slots_entry [OF ss]
  by (auto simp: seg_shape_def buckets_upd seg_items_def item_ok_def fun_eq_iff split: if_splits)

text \<open>An insertion into a bucket that has room.\<close>

lemma insert_at_None:
  assumes "seg_shape s" and "b < TOTAL_BUCKETS"
  shows "insert_at s b k v fp p = None \<longleftrightarrow> is_full (slots (buckets s ! b))"
  using try_insert_None [OF seg_shapeD(2) [OF assms]]
  by (auto simp: insert_at_def split: option.splits prod.splits)

lemma insert_at_Some:
  assumes shape: "seg_shape s" and b: "b < TOTAL_BUCKETS" and ins: "insert_at s b k v fp p = Some (pos, s')"
  shows "bucket_idx pos = b" and "(b, slot_idx pos, k', v') \<notin> seg_items s"
    and "seg_shape s'" and "seg_items s' = insert (b, slot_idx pos, k, v) (seg_items s)"
    and "item_count s' = item_count s + 1"
    and "c < TOTAL_BUCKETS \<Longrightarrow> same_stash (buckets s ! c) (buckets s' ! c)"
    and "x \<in> seg_items s \<Longrightarrow> item_ok hf s x \<Longrightarrow> item_ok hf s' x"
    and "fingerprints (buckets s' ! b) ! slot_idx pos = fp" and "slot_probing (buckets s' ! b) (slot_idx pos) = p"
proof -
  from ins obtain i b' where ti: "try_insert (buckets s ! b) k v fp p = Some (i, b')"
    and pos: "pos = mk_pos b i" and s': "s' = (upd_bucket s b b')\<lparr>item_count := item_count s + 1\<rparr>"
    by (auto simp: insert_at_def split: option.splits)
  note len = seg_shapeD(1) [OF shape]
  note props = try_insert_Some [OF seg_shapeD(2) [OF shape b] ti]
  note stash = try_insert_same_stash [OF ti]
  show "bucket_idx pos = b" by (simp add: pos)
  show "(b, slot_idx pos, k', v') \<notin> seg_items s" using props(2) by (simp add: pos seg_items_def)
  show "seg_shape s'" unfolding s' seg_shape_count by (rule slot_update_shape [OF shape b props(3) stash])
  show "seg_items s' = insert (b, slot_idx pos, k, v) (seg_items s)"
    using b len props(2,4) by (auto simp: pos s' seg_items_def buckets_upd split: if_splits)
  show "item_count s' = item_count s + 1" by (simp add: s')
  show "same_stash (buckets s ! c) (buckets s' ! c)" if "c < TOTAL_BUCKETS"
    using stash b len by (simp add: s' buckets_upd) (simp add: same_stash_def)
  show "item_ok hf s' x" if "x \<in> seg_items s" "item_ok hf s x"
    using that b len props(2,4,5,6) by (auto simp: s' item_ok_def seg_items_def buckets_upd split: if_splits)
  show "fingerprints (buckets s' ! b) ! slot_idx pos = fp" "slot_probing (buckets s' ! b) (slot_idx pos) = p"
    using b len props(4,5,6) [of i] by (simp_all add: pos s' buckets_upd)
qed

lemma stash_refs_insert:
  assumes "seg_items s' = insert (b, i, k, v) (seg_items s)" and "(b, i, k, v) \<notin> seg_items s"
  shows "stash_refs hf s' h = (if NUM_BUCKETS \<le> b \<and> home_bucket (hf k) = h
     then add_mset (fingerprint (hf k), of_nat (b - NUM_BUCKETS)) (stash_refs hf s h) else stash_refs hf s h)"
  using mset_seg_iter_insert [OF assms] by (simp add: stash_refs_def)

lemma length_iter_insert:
  assumes "seg_items s' = insert x (seg_items s)" and "x \<notin> seg_items s"
  shows "length (seg_iter s') = length (seg_iter s) + 1"
  using mset_seg_iter_insert [OF assms] by (metis Suc_eq_plus1 size_add_mset size_mset)

lemma refs_cong:
  assumes "same_stash (buckets s ! h) (buckets s' ! h)" and "stash_refs hf s' h = stash_refs hf s h"
  shows "refs_sound hf s' h = refs_sound hf s h" and "refs_complete hf s' h = refs_complete hf s h"
  using assms by (simp_all add: refs_sound_def refs_complete_def same_stash_def)

lemma keys_unique_insert:
  assumes "keys_unique s" and "seg_items s' = insert (b, i, k, v) (seg_items s)"
    and "\<forall>b i v. (b, i, k, v) \<notin> seg_items s"
  shows "keys_unique s'"
  using assms unfolding keys_unique_def by (simp only: insert_iff prod.inject) blast

text \<open>Placement in a regular bucket: home bucket (owned) or next bucket (probing).\<close>

lemma insert_regular:
  assumes safe: "seg_safe hf s" and ins: "insert_at s b k v (fingerprint (hf k)) p = Some (pos, s')"
    and b: "b = (if p then next_bucket (home_bucket (hf k)) else home_bucket (hf k))"
  shows "seg_safe hf s'" and "seg_items s' = insert (bucket_idx pos, slot_idx pos, k, v) (seg_items s)"
    and "(bucket_idx pos, slot_idx pos, k', v') \<notin> seg_items s"
    and "h < NUM_BUCKETS \<Longrightarrow> refs_complete hf s' h = refs_complete hf s h"
proof -
  note shape = seg_safeD(1) [OF safe]
  have bl: "b < NUM_BUCKETS" by (simp add: b)
  note bt = bucket_less_total [OF bl]
  note pr = insert_at_Some [OF shape bt ins]
  have refs: "stash_refs hf s' h = stash_refs hf s h" for h
    using stash_refs_insert [OF pr(4,2)] bl by simp
  have st: "same_stash (buckets s ! h) (buckets s' ! h)" if "h < NUM_BUCKETS" for h
    using pr(6) bucket_less_total [OF that] .
  have new: "item_ok hf s' (b, slot_idx pos, k, v)"
    using bl b pr(8,9) by (auto simp: item_ok_def)
  show "seg_safe hf s'"
    unfolding seg_safe_def
    using pr(3,4,5) new pr(7) seg_safeD [OF safe] refs_cong(1) [OF st refs]
      length_iter_insert [OF pr(4,2)] by auto
  show "seg_items s' = insert (bucket_idx pos, slot_idx pos, k, v) (seg_items s)" using pr(1,4) by simp
  show "(bucket_idx pos, slot_idx pos, k', v') \<notin> seg_items s" using pr(1,2) by simp
  show "refs_complete hf s' h = refs_complete hf s h" if "h < NUM_BUCKETS"
    by (rule refs_cong(2) [OF st [OF that] refs])
qed

text \<open>Placement in a stash bucket, with the pointer or the overflow count set in the home bucket.\<close>

lemma overflow_count_bound:
  assumes "seg_safe hf s" and "h < NUM_BUCKETS"
  shows "unat (overflow_count (buckets s ! h)) \<le> 48"
  using seg_safeD(3) [OF assms] size_stash_refs [OF seg_safeD(1) [OF assms(1)], of hf h]
  by (simp add: refs_sound_def)

lemma set_stash_ptr_same_slots: "same_slots b (set_stash_ptr b d fp p)"
  by (simp add: same_slots_def set_stash_ptr_def split: option.splits)

lemma insert_stash:
  assumes safe: "seg_safe hf s" and d: "d < NUM_STASH"
    and ins: "insert_at s (NUM_BUCKETS + d) k v (fingerprint (hf k)) False = Some (pos, s1)"
    and s': "s' = upd_bucket s1 (home_bucket (hf k))
               (set_stash_ptr (buckets s1 ! home_bucket (hf k)) (of_nat d) (fingerprint (hf k)) False)"
  shows "seg_safe hf s'" and "seg_items s' = insert (bucket_idx pos, slot_idx pos, k, v) (seg_items s)"
    and "(bucket_idx pos, slot_idx pos, k', v') \<notin> seg_items s"
    and "h < NUM_BUCKETS \<Longrightarrow> refs_complete hf s h \<Longrightarrow> refs_complete hf s' h"
proof -
  let ?h = "home_bucket (hf k)" and ?fp = "fingerprint (hf k)"
  let ?B = "buckets s1 ! ?h" and ?B' = "set_stash_ptr (buckets s1 ! ?h) (of_nat d) ?fp False"
  note shape = seg_safeD(1) [OF safe]
  note pr = insert_at_Some [OF shape stash_idx_less [OF d] ins]
  note len1 = seg_shapeD(1) [OF pr(3)]
  have st: "same_stash (buckets s ! c) (buckets s1 ! c)" if "c < NUM_BUCKETS" for c
    using pr(6) bucket_less_total [OF that] .
  have ov: "overflow_count ?B < 255"
    using overflow_count_bound [OF safe home_bucket_less, of "hf k"] st [OF home_bucket_less]
    by (simp add: same_stash_def word_less_nat_alt)
  have dd: "unat (of_nat d :: u8) = d" using d by (simp add: unat_of_nat NUM_STASH_def)
  have d4: "unat (of_nat d :: u8) < 4" using d dd by (simp add: NUM_STASH_def)
  note sp = set_stash_ptr_props [OF seg_shapeD(3) [OF pr(3) home_bucket_less] d4 ov refl, of ?fp]
  note su = stash_update [OF pr(3) home_bucket_less set_stash_ptr_same_slots sp(1), folded s']
  have refs: "stash_refs hf s' c = (if c = ?h then add_mset (?fp, of_nat d) (stash_refs hf s c)
                                    else stash_refs hf s c)" for c
    using stash_refs_cong [OF su(2)] stash_refs_insert [OF pr(4,2), of hf c] by auto
  have B'h: "buckets s' ! ?h = ?B'" and B'o: "c \<noteq> ?h \<Longrightarrow> buckets s' ! c = buckets s1 ! c" for c
    using len1 by (simp_all add: s' buckets_upd)
  have sound: "refs_sound hf s' c" and cpl: "refs_complete hf s c \<Longrightarrow> refs_complete hf s' c"
    if c: "c < NUM_BUCKETS" for c
  proof -
    have "refs_sound hf s' c \<and> (refs_complete hf s c \<longrightarrow> refs_complete hf s' c)"
    proof (cases "c = ?h")
      case True
      have "size (stash_ptrs ?B) < NUM_STASH \<or> size (stash_ptrs ?B) = NUM_STASH"
        using stash_ptrs_size_le [of ?B] by linarith
      moreover have "unat (overflow_count ?B + 1) = unat (overflow_count ?B) + 1"
        using ov by (simp add: unat_word_ariths word_less_nat_alt)
      ultimately show ?thesis
        using True sp(3,4) st [OF c] seg_safeD(3) [OF safe c]
        by (auto simp: refs_sound_def refs_complete_def refs B'h same_stash_def intro: subset_mset.le_add_same_cancel1 subset_mset.trans)
    next
      case False
      then have "same_stash (buckets s ! c) (buckets s' ! c)" "stash_refs hf s' c = stash_refs hf s c"
        using st [OF c] B'o refs by auto
      then show ?thesis using refs_cong seg_safeD(3) [OF safe c] by blast
    qed
    then show "refs_sound hf s' c" and "refs_complete hf s c \<Longrightarrow> refs_complete hf s' c" by blast+
  qed
  have new: "item_ok hf s1 (NUM_BUCKETS + d, slot_idx pos, k, v)"
    using pr(8,9) by (auto simp: item_ok_def)
  have "item_count s' = item_count s1" by (simp add: s')
  then show "seg_safe hf s'"
    unfolding seg_safe_def su
    using su(1) sound pr(4,5,7) new seg_safeD [OF safe] length_iter_insert [OF pr(4,2)]
      length_iter_cong [OF su(2)] by auto
  show "seg_items s' = insert (bucket_idx pos, slot_idx pos, k, v) (seg_items s)" using pr(1,4) su(2) by simp
  show "(bucket_idx pos, slot_idx pos, k', v') \<notin> seg_items s" using pr(1,2) by simp
  show "refs_complete hf s h \<Longrightarrow> refs_complete hf s' h" if "h < NUM_BUCKETS" by (rule cpl [OF that])
qed

lemma same_stash_refl [simp]: "same_stash b b"
  by (simp add: same_stash_def)

subsection \<open>\<open>insert_new\<close>\<close>

lemma is_full_total: "seg_shape s \<Longrightarrow> b < TOTAL_BUCKETS \<Longrightarrow>
   \<not> is_full (slots (buckets s ! b)) \<Longrightarrow> \<exists>pos s'. insert_at s b k v fp p = Some (pos, s')"
  using insert_at_None [of s b k v fp p] by (cases "insert_at s b k v fp p") auto

text \<open>The five outcomes of \<open>insert_new\<close>, with no panic among them.\<close>

lemma insert_new_cases:
  assumes shape: "seg_shape s"
  obtains (home) pos s' where "insert_at s (home_bucket hash) k v (fingerprint hash) False = Some (pos, s')"
      and "insert_new s k v hash = Some (Inr (pos, s'))"
  | (nxt) pos s' where "insert_at s (next_bucket (home_bucket hash)) k v (fingerprint hash) True = Some (pos, s')"
      and "insert_new s k v hash = Some (Inr (pos, s'))"
  | (stash) d pos s1 where "d < NUM_STASH"
      and "insert_at s (NUM_BUCKETS + d) k v (fingerprint hash) False = Some (pos, s1)"
      and "insert_new s k v hash = Some (Inr (pos, upd_bucket s1 (home_bucket hash)
             (set_stash_ptr (buckets s1 ! home_bucket hash) (of_nat d) (fingerprint hash) False)))"
  | (full) "insert_new s k v hash = Some (Inl (k, v))" and "is_full (slots (buckets s ! home_bucket hash))"
      and "is_full (slots (buckets s ! next_bucket (home_bucket hash)))"
      and "\<forall>d < NUM_STASH. is_full (slots (buckets s ! (NUM_BUCKETS + d)))"
proof -
  let ?h = "home_bucket hash"
  consider "\<not> is_full (slots (buckets s ! ?h))"
    | "is_full (slots (buckets s ! ?h))" "\<not> is_full (slots (buckets s ! next_bucket ?h))"
    | d where "is_full (slots (buckets s ! ?h))" "is_full (slots (buckets s ! next_bucket ?h))"
        "List.find (\<lambda>i. \<not> is_full (slots (buckets s ! (NUM_BUCKETS + i)))) [0..<NUM_STASH] = Some d"
    | "is_full (slots (buckets s ! ?h))" "is_full (slots (buckets s ! next_bucket ?h))"
        "List.find (\<lambda>i. \<not> is_full (slots (buckets s ! (NUM_BUCKETS + i)))) [0..<NUM_STASH] = None"
    by (metis option.exhaust)
  then show thesis
  proof cases
    case 1
    then show thesis using is_full_total [OF shape, of ?h k v "fingerprint hash" False] home
      by (auto simp: insert_new_def Let_def)
  next
    case 2
    then show thesis using is_full_total [OF shape, of "next_bucket ?h" k v "fingerprint hash" True] nxt
      by (auto simp: insert_new_def Let_def)
  next
    case 3
    then have d: "d < NUM_STASH" "\<not> is_full (slots (buckets s ! (NUM_BUCKETS + d)))"
      by (auto simp: find_upt_Some)
    then show thesis
      using is_full_total [OF shape stash_idx_less [OF d(1)], of k v "fingerprint hash" False] stash 3
      by (auto simp: insert_new_def Let_def)
  next
    case 4
    then have "\<forall>d < NUM_STASH. is_full (slots (buckets s ! (NUM_BUCKETS + d)))"
      by (simp add: find_upt_None)
    moreover have "insert_new s k v hash = Some (Inl (k, v))" using 4 by (simp add: insert_new_def Let_def)
    ultimately show thesis using full 4(1,2) by blast
  qed
qed

lemma insert_new_no_panic: "seg_shape s \<Longrightarrow> insert_new s k v hash \<noteq> None"
  by (erule insert_new_cases [of s hash k v]) auto

lemma insert_new_Inl:
  assumes "seg_shape s" and "insert_new s k v hash = Some (Inl kv)"
  shows "kv = (k, v)"
  using assms(2) by (cases rule: insert_new_cases [OF assms(1), of hash k v]) auto

lemma insert_new_safe:
  assumes safe: "seg_safe hf s" and ins: "insert_new s k v (hf k) = Some (Inr (pos, s'))"
  shows "seg_safe hf s'" and "seg_items s' = insert (bucket_idx pos, slot_idx pos, k, v) (seg_items s)"
    and "(bucket_idx pos, slot_idx pos, k', v') \<notin> seg_items s"
    and "h < NUM_BUCKETS \<Longrightarrow> refs_complete hf s h \<Longrightarrow> refs_complete hf s' h"
proof -
  note shape = seg_safeD(1) [OF safe]
  have "seg_safe hf s' \<and> seg_items s' = insert (bucket_idx pos, slot_idx pos, k, v) (seg_items s)
    \<and> (bucket_idx pos, slot_idx pos, k', v') \<notin> seg_items s
    \<and> (h < NUM_BUCKETS \<longrightarrow> refs_complete hf s h \<longrightarrow> refs_complete hf s' h)"
    using shape
  proof (cases rule: insert_new_cases [where hash = "hf k" and k = k and v = v])
    case (home pos1 s1)
    then show ?thesis using ins insert_regular [OF safe home(1)] by simp
  next
    case (nxt pos1 s1)
    then show ?thesis using ins insert_regular [OF safe nxt(1)] by simp
  next
    case (stash d pos1 s1)
    then show ?thesis using ins insert_stash [OF safe stash(1,2) refl] by simp
  qed (use ins in simp)
  then show "seg_safe hf s'" and "seg_items s' = insert (bucket_idx pos, slot_idx pos, k, v) (seg_items s)"
    and "(bucket_idx pos, slot_idx pos, k', v') \<notin> seg_items s"
    and "h < NUM_BUCKETS \<Longrightarrow> refs_complete hf s h \<Longrightarrow> refs_complete hf s' h" by blast+
qed

lemma insert_new_inv [inv_intros]:
  assumes inv: "seg_inv hf s" and ins: "insert_new s k v (hf k) = Some (Inr (pos, s'))"
    and fresh: "\<forall>b i v. (b, i, k, v) \<notin> seg_items s"
  shows "seg_inv hf s'"
proof -
  have safe: "seg_safe hf s" using inv by (simp add: seg_inv_def)
  note pr = insert_new_safe [OF safe ins]
  have "keys_unique s'"
    using keys_unique_insert [OF _ pr(2) fresh] inv by (simp add: seg_inv_def)
  then show ?thesis using pr(1,4) inv by (simp add: seg_inv_def)
qed

lemma seg_items_new [simp]: "seg_items (segment_new d) = {}"
  by (auto simp: seg_items_def segment_new_def bucket_new_def slot_entry_def busy_slots_def bit_busy)

lemma stash_ptrs_new: "stash_ptrs bucket_new = {#}"
  unfolding stash_ptrs_empty by (simp add: bucket_new_def)

lemma overflow_count_new: "overflow_count bucket_new = 0"
  by (simp add: bucket_new_def)

lemma seg_inv_new [inv_intros]: "seg_inv hf (segment_new d)"
proof -
  have B: "buckets (segment_new d) ! b = bucket_new" if "b < TOTAL_BUCKETS" for b
    using that by (simp add: segment_new_def)
  have "stash_inv bucket_new"
    unfolding stash_inv_def stash_ptrs_new by (simp add: bucket_new_def has_stash_def)
  moreover have "seg_iter (segment_new d) = []"
    using set_seg_iter [of "segment_new d"] by simp
  ultimately show ?thesis
    by (auto simp: seg_inv_def seg_safe_def seg_shape_def B slots_inv_new keys_unique_def refs_sound_def
        refs_complete_def stash_ptrs_new stash_refs_def overflow_count_new) (auto simp: segment_new_def)
qed

subsection \<open>Writing a value in place\<close>

lemma seg_set_value_props:
  assumes shape: "seg_shape s" and x: "(bucket_idx pos, slot_idx pos, k, v0) \<in> seg_items s"
    and s': "s' = seg_set_value s pos v"
  shows "seg_shape s'" and "seg_items s' = insert (bucket_idx pos, slot_idx pos, k, v)
           (seg_items s - {(bucket_idx pos, slot_idx pos, k, v0)})"
    and "item_count s' = item_count s"
    and "c < TOTAL_BUCKETS \<Longrightarrow> same_stash (buckets s ! c) (buckets s' ! c)"
    and "item_ok hf s' (b, i, k', v') = item_ok hf s (b, i, k', v'')"
proof -
  let ?b = "bucket_idx pos" and ?i = "slot_idx pos"
  note d = seg_itemsD [OF shape x] and len = seg_shapeD(1) [OF shape]
  note sv = set_value_props [OF seg_shapeD(2) [OF shape d(1)] d(3), of v]
  have s'': "s' = upd_bucket s ?b (set_value (buckets s ! ?b) ?i v)" by (simp add: s' seg_set_value_def)
  show "seg_shape s'"
    unfolding s'' by (rule slot_update_shape [OF shape d(1) sv(1) set_value_same_stash])
  show "seg_items s' = insert (?b, ?i, k, v) (seg_items s - {(?b, ?i, k, v0)})"
    using d(1,3) len sv(2) by (auto simp: s'' seg_items_def buckets_upd split: if_splits)
  show "item_count s' = item_count s" by (simp add: s'')
  show "same_stash (buckets s ! c) (buckets s' ! c)" if "c < TOTAL_BUCKETS"
    using d(1) len by (simp add: s'' buckets_upd set_value_same_stash)
  show "item_ok hf s' (b, i, k', v') = item_ok hf s (b, i, k', v'')"
    using sv(3,4) by (auto simp: item_ok_def s'' buckets_upd)
qed

lemma seg_set_value_refs:
  assumes shape: "seg_shape s" and x: "(bucket_idx pos, slot_idx pos, k, v0) \<in> seg_items s"
  shows "stash_refs hf (seg_set_value s pos v) h = stash_refs hf s h"
    and "length (seg_iter (seg_set_value s pos v)) = length (seg_iter s)"
proof -
  let ?b = "bucket_idx pos" and ?i = "slot_idx pos" and ?I = "seg_items s"
  let ?rest = "mset_set (?I - {(?b, ?i, k, v0)})"
  note pr = seg_set_value_props [OF shape x refl, where v = v]
  have "(?b, ?i, k, v) \<notin> ?I - {(?b, ?i, k, v0)}" using x by (auto simp: seg_items_def)
  then have new: "mset (seg_iter (seg_set_value s pos v)) = add_mset (?b, ?i, k, v) ?rest"
    by (simp add: mset_seg_iter pr(2))
  have old: "mset (seg_iter s) = add_mset (?b, ?i, k, v0) ?rest"
    using mset_set.remove [OF finite_seg_items x] by (simp add: mset_seg_iter)
  show "stash_refs hf (seg_set_value s pos v) h = stash_refs hf s h"
    unfolding stash_refs_def new old by simp
  show "length (seg_iter (seg_set_value s pos v)) = length (seg_iter s)"
    by (metis new old size_add_mset size_mset)
qed

lemma seg_set_value_safe [inv_intros]:
  assumes safe: "seg_safe hf s" and x: "(bucket_idx pos, slot_idx pos, k, v0) \<in> seg_items s"
  shows "seg_safe hf (seg_set_value s pos v)"
proof -
  let ?s = "seg_set_value s pos v"
  note shape = seg_safeD(1) [OF safe]
  note pr = seg_set_value_props [OF shape x refl, where v = v] and re = seg_set_value_refs [OF shape x]
  have "item_ok hf ?s y" if "y \<in> seg_items ?s" for y
  proof -
    obtain b i k' v' where y: "y = (b, i, k', v')" by (cases y) auto
    then have "\<exists>v''. (b, i, k', v'') \<in> seg_items s" using that x pr(2) by auto
    then obtain v'' where "item_ok hf s (b, i, k', v'')" using seg_safeD(2) [OF safe] by blast
    then show ?thesis using pr(5) [of hf b i k' v' v''] by (simp add: y)
  qed
  moreover have "refs_sound hf ?s h" if "h < NUM_BUCKETS" for h
    using refs_cong(1) [OF pr(4) [OF bucket_less_total [OF that]] re(1)] seg_safeD(3) [OF safe that] by blast
  ultimately show ?thesis
    unfolding seg_safe_def using pr(1,3) re(2) seg_safeD(4) [OF safe] by simp
qed

lemma seg_set_value_inv [inv_intros]:
  assumes inv: "seg_inv hf s" and x: "(bucket_idx pos, slot_idx pos, k, v0) \<in> seg_items s"
  shows "seg_inv hf (seg_set_value s pos v)"
proof -
  let ?s = "seg_set_value s pos v"
  have safe: "seg_safe hf s" and uniq: "keys_unique s" using inv by (simp_all add: seg_inv_def)
  note shape = seg_safeD(1) [OF safe]
  note pr = seg_set_value_props [OF shape x refl, where v = v] and re = seg_set_value_refs [OF shape x]
  have "\<exists>v. (b, i, k', v) \<in> seg_items s" if "(b, i, k', v') \<in> seg_items ?s" for b i k' v'
    using that x pr(2) by auto
  then have "keys_unique ?s" using uniq unfolding keys_unique_def by metis
  moreover have "refs_complete hf ?s h" if "h < NUM_BUCKETS" for h
    using refs_cong(2) [OF pr(4) [OF bucket_less_total [OF that]] re(1)] inv that
    unfolding seg_inv_def by blast
  ultimately show ?thesis using seg_set_value_safe [OF safe x] by (simp add: seg_inv_def)
qed

definition rewritten :: "(nat \<Rightarrow> nat \<Rightarrow> 'k \<Rightarrow> 'v \<Rightarrow> 'v) \<Rightarrow> nat \<times> nat \<times> 'k \<times> 'v \<Rightarrow> nat \<times> nat \<times> 'k \<times> 'v" where
  "rewritten cb x = (case x of (b, i, k, v) \<Rightarrow> (b, i, k, cb b i k v))"

lemma write_item_step:
  assumes safe: "seg_safe hf s" and x: "x \<in> seg_items s"
  shows "seg_safe hf (write_item cb x s)" and "seg_inv hf s \<Longrightarrow> seg_inv hf (write_item cb x s)"
    and "seg_items (write_item cb x s) = insert (rewritten cb x) (seg_items s - {x})"
    and "length (seg_iter (write_item cb x s)) = length (seg_iter s)"
proof -
  obtain b i k v where e: "x = (b, i, k, v)" by (cases x) auto
  have y: "(bucket_idx (mk_pos b i), slot_idx (mk_pos b i), k, v) \<in> seg_items s" using x by (simp add: e mk_pos_def)
  note shape = seg_safeD(1) [OF safe]
  show "seg_safe hf (write_item cb x s)" using seg_set_value_safe [OF safe y] by (simp add: write_item_def e)
  show "seg_inv hf (write_item cb x s)" if "seg_inv hf s" using seg_set_value_inv [OF that y] by (simp add: write_item_def e)
  show "seg_items (write_item cb x s) = insert (rewritten cb x) (seg_items s - {x})"
    using seg_set_value_props(2) [OF shape y refl] by (simp add: write_item_def rewritten_def e mk_pos_def)
  show "length (seg_iter (write_item cb x s)) = length (seg_iter s)"
    using seg_set_value_refs(2) [OF shape y] by (simp add: write_item_def e)
qed

lemma write_items:
  assumes "seg_safe hf s" and "distinct xs" and "set xs \<subseteq> seg_items s"
  shows "seg_safe hf (fold (write_item cb) xs s) \<and> (seg_inv hf s \<longrightarrow> seg_inv hf (fold (write_item cb) xs s))
    \<and> seg_items (fold (write_item cb) xs s) = seg_items s - set xs \<union> rewritten cb ` set xs
    \<and> length (seg_iter (fold (write_item cb) xs s)) = length (seg_iter s)"
  using assms
proof (induction xs arbitrary: s)
  case (Cons x xs)
  have x: "x \<in> seg_items s" using Cons.prems(3) by simp
  note w = write_item_step [OF Cons.prems(1) x, where cb = cb]
  have "rewritten cb x \<in> seg_items s \<Longrightarrow> rewritten cb x = x"
    using x by (auto simp: seg_items_def rewritten_def)
  then have new: "rewritten cb x \<notin> set xs" using Cons.prems(2,3) by auto
  have sub: "set xs \<subseteq> seg_items (write_item cb x s)" using Cons.prems(2,3) by (auto simp: w(3))
  from Cons.IH [OF w(1) _ sub] Cons.prems(2) w(2,4) new show ?case by (auto simp: w(3))
qed simp

lemma seg_iter_mut_props:
  assumes "seg_safe hf s"
  shows "seg_safe hf (seg_iter_mut cb s)" and "seg_inv hf s \<Longrightarrow> seg_inv hf (seg_iter_mut cb s)"
    and "seg_items (seg_iter_mut cb s) = rewritten cb ` seg_items s"
    and "length (seg_iter (seg_iter_mut cb s)) = length (seg_iter s)"
  using write_items [OF assms distinct_seg_iter, where cb = cb] by (simp_all add: seg_iter_mut_def set_seg_iter)

subsection \<open>\<open>delete\<close>\<close>

text \<open>
  \<open>next_clean\<close>: the second \<^verbatim>\<open>unset_stash_ptr\<close> of a deletion finds nothing to unset in the next
  bucket. It always holds for items outside the stash.
\<close>

definition next_clean :: "('k, 'v) segment \<Rightarrow> segment_pos \<Rightarrow> u64 \<Rightarrow> bool" where
  "next_clean s pos hash \<longleftrightarrow> bucket_idx pos < NUM_BUCKETS \<or>
     \<not> fst (unset_stash_ptr (buckets s ! next_bucket (home_bucket hash)) (fingerprint hash)
            (of_nat (bucket_idx pos - NUM_BUCKETS)))"

lemma unset_stash_ptr_same_slots: "same_slots b (snd (unset_stash_ptr b fp d))"
  by (simp add: same_slots_def unset_stash_ptr_def clear_stash_flag_if_unused_def split: option.splits)

lemma unset_at_props:
  assumes shape: "seg_shape s" and h: "h < NUM_BUCKETS" and s': "s' = unset_at s h fp d"
  shows "seg_shape s'" and "seg_items s' = seg_items s" and "item_ok hf s' = item_ok hf s"
    and "item_count s' = item_count s" and "c \<noteq> h \<Longrightarrow> buckets s' ! c = buckets s ! c"
    and "buckets s' ! h = snd (unset_stash_ptr (buckets s ! h) fp d)"
proof -
  have "stash_inv (snd (unset_stash_ptr (buckets s ! h) fp d))"
    using unset_stash_ptr_props(1) [OF seg_shapeD(3) [OF shape h]] by (metis prod.collapse)
  note su = stash_update [OF shape h unset_stash_ptr_same_slots this]
  show "seg_shape s'" "seg_items s' = seg_items s" "item_ok hf s' = item_ok hf s"
    using su by (simp_all add: s' unset_at_def)
  show "item_count s' = item_count s" by (simp add: s' unset_at_def)
  show "c \<noteq> h \<Longrightarrow> buckets s' ! c = buckets s ! c" "buckets s' ! h = snd (unset_stash_ptr (buckets s ! h) fp d)"
    using h seg_shapeD(1) [OF shape] by (simp_all add: s' unset_at_def buckets_upd)
qed

text \<open>Unsetting the reference of an item that has just left the stash keeps the accounting, and
  unsetting a reference elsewhere never breaks the sound half of it.\<close>

lemma unset_own_ref:
  assumes si: "stash_inv b" and sub: "stash_ptrs b \<subseteq># add_mset (fp, d) R"
    and le: "size (stash_ptrs b) + unat (overflow_count b) \<le> size R + 1"
    and b': "b' = snd (unset_stash_ptr b fp d)"
  shows "stash_ptrs b' \<subseteq># R" and "size (stash_ptrs b') + unat (overflow_count b') \<le> size R"
    and "size R + 1 \<le> size (stash_ptrs b) + unat (overflow_count b) \<Longrightarrow>
           size R \<le> size (stash_ptrs b') + unat (overflow_count b')"
proof -
  obtain r where u: "unset_stash_ptr b fp d = (r, b')" using b' by (metis prod.collapse)
  note up = unset_stash_ptr_props [OF si u]
  have "stash_ptrs b' \<subseteq># R \<and> size (stash_ptrs b') + unat (overflow_count b') \<le> size R \<and>
    (size R + 1 \<le> size (stash_ptrs b) + unat (overflow_count b) \<longrightarrow>
           size R \<le> size (stash_ptrs b') + unat (overflow_count b'))"
  proof (cases "(fp, d) \<in># stash_ptrs b")
    case True
    then obtain P where P: "stash_ptrs b = add_mset (fp, d) P" by (metis insert_DiffM)
    then show ?thesis using up(2) True sub le by auto
  next
    case False
    then have subR: "stash_ptrs b \<subseteq># R"
      using sub by (metis add_mset_remove_trivial diff_single_trivial mset_subset_eq_insertD
          subset_eq_diff_conv add_mset_add_single)
    have "size (stash_ptrs b) \<le> size R" using subR by (rule size_mset_mono)
    moreover have "unat (overflow_count b - 1) = unat (overflow_count b) - 1" "0 < unat (overflow_count b)"
      if "overflow_count b > 0" using that by (auto simp: unat_minus_one word_gt_0 unat_gt_0)
    moreover have "unat (overflow_count b) = 0" if "\<not> overflow_count b > 0"
      using that by (simp add: word_gt_0)
    ultimately show ?thesis using up(3) [OF False] subR le by (cases "overflow_count b > 0") auto
  qed
  then show "stash_ptrs b' \<subseteq># R" and "size (stash_ptrs b') + unat (overflow_count b') \<le> size R"
    and "size R + 1 \<le> size (stash_ptrs b) + unat (overflow_count b) \<Longrightarrow>
           size R \<le> size (stash_ptrs b') + unat (overflow_count b')" by blast+
qed

lemma unset_foreign_ref:
  assumes si: "stash_inv b" and sub: "stash_ptrs b \<subseteq># R"
    and le: "size (stash_ptrs b) + unat (overflow_count b) \<le> size R"
    and b': "b' = snd (unset_stash_ptr b fp d)"
  shows "stash_ptrs b' \<subseteq># R" and "size (stash_ptrs b') + unat (overflow_count b') \<le> size R"
    and "\<not> fst (unset_stash_ptr b fp d) \<Longrightarrow> b' = b"
proof -
  obtain r where u: "unset_stash_ptr b fp d = (r, b')" using b' by (metis prod.collapse)
  note up = unset_stash_ptr_props [OF si u]
  have ov: "unat (overflow_count b - 1) \<le> unat (overflow_count b)" if "overflow_count b > 0"
    using that by (auto simp: unat_minus_one word_gt_0)
  have "stash_ptrs b' \<subseteq># stash_ptrs b \<and> overflow_count b' \<le> overflow_count b"
    using up(2,3) ov by (cases "(fp, d) \<in># stash_ptrs b") (auto simp: word_le_nat_alt)
  then show "stash_ptrs b' \<subseteq># R" "size (stash_ptrs b') + unat (overflow_count b') \<le> size R"
    using sub le size_mset_mono [of "stash_ptrs b'" "stash_ptrs b"]
    by (auto simp: word_le_nat_alt intro: subset_mset.order_trans)
  show "\<not> fst (unset_stash_ptr b fp d) \<Longrightarrow> b' = b"
    unfolding b' by (auto simp: unset_stash_ptr_def split: option.splits if_splits)
qed

text \<open>Removing the item itself, before the stash references are touched.\<close>

lemma remove_slot_props:
  assumes shape: "seg_shape s" and x: "(b, i, k, v) \<in> seg_items s"
    and del: "bucket_delete (buckets s ! b) i = (kv, b')" and s': "s' = upd_bucket s b b'"
  shows "kv = (Some k, Some v)" and "seg_shape s'" and "seg_items s' = seg_items s - {(b, i, k, v)}"
    and "item_count s' = item_count s"
    and "c < TOTAL_BUCKETS \<Longrightarrow> same_stash (buckets s ! c) (buckets s' ! c)"
    and "y \<in> seg_items s' \<Longrightarrow> item_ok hf s y \<Longrightarrow> item_ok hf s' y"
proof -
  note d = seg_itemsD [OF shape x] and len = seg_shapeD(1) [OF shape]
  note bd = bucket_delete_props [OF seg_shapeD(2) [OF shape d(1)] d(3) del]
  note st = bucket_delete_same_stash [OF del]
  show "kv = (Some k, Some v)" by (rule bd(1))
  show "seg_shape s'" unfolding s' by (rule slot_update_shape [OF shape d(1) bd(2) st])
  show "seg_items s' = seg_items s - {(b, i, k, v)}"
    using d(1,3) len bd(3) by (auto simp: s' seg_items_def buckets_upd split: if_splits)
  show "item_count s' = item_count s" by (simp add: s')
  show "same_stash (buckets s ! c) (buckets s' ! c)" if "c < TOTAL_BUCKETS"
    using st d(1) len by (simp add: s' buckets_upd)
  show "item_ok hf s' y" if "y \<in> seg_items s'" "item_ok hf s y"
    using that d(1) len bd(3,4,5) by (auto simp: s' seg_items_def item_ok_def buckets_upd split: if_splits)
qed

lemma stash_refs_remove:
  assumes "seg_items s' = seg_items s - {(b, i, k, v)}" and "(b, i, k, v) \<in> seg_items s"
  shows "stash_refs hf s h = (if NUM_BUCKETS \<le> b \<and> home_bucket (hf k) = h
     then add_mset (fingerprint (hf k), of_nat (b - NUM_BUCKETS)) (stash_refs hf s' h) else stash_refs hf s' h)"
  using mset_seg_iter_remove [OF assms] by (simp add: stash_refs_def)

lemma length_iter_remove:
  assumes "seg_items s' = seg_items s - {x}" and "x \<in> seg_items s"
  shows "length (seg_iter s) = length (seg_iter s') + 1"
  using mset_seg_iter_remove [OF assms] by (metis Suc_eq_plus1 size_add_mset size_mset)

lemma unset_stash_ptrs_props:
  assumes shape: "seg_shape s" and s': "s' = unset_stash_ptrs s b hash"
  shows "seg_shape s'" and "seg_items s' = seg_items s" and "item_ok hf s' = item_ok hf s"
    and "item_count s' = item_count s"
    and "b < NUM_BUCKETS \<Longrightarrow> s' = s"
    and "NUM_BUCKETS \<le> b \<Longrightarrow> buckets s' ! c =
           (if c = home_bucket hash \<or> c = next_bucket (home_bucket hash)
            then snd (unset_stash_ptr (buckets s ! c) (fingerprint hash) (of_nat (b - NUM_BUCKETS)))
            else buckets s ! c)"
proof -
  let ?h = "home_bucket hash" and ?fp = "fingerprint hash" and ?d = "of_nat (b - NUM_BUCKETS) :: u8"
  define s1 where "s1 = unset_at s ?h ?fp ?d"
  note p1 = unset_at_props [OF shape home_bucket_less s1_def]
  note p2 = unset_at_props [OF p1(1) next_bucket_less [OF home_bucket_less] refl]
  have eq: "s' = (if b < NUM_BUCKETS then s else unset_at s1 (next_bucket ?h) ?fp ?d)"
    by (simp add: s' unset_stash_ptrs_def Let_def s1_def)
  show "seg_shape s'" "seg_items s' = seg_items s" "item_ok hf s' = item_ok hf s"
    "item_count s' = item_count s" "b < NUM_BUCKETS \<Longrightarrow> s' = s"
    using shape p1(1-4) p2(1-4) by (simp_all add: eq)
  show "NUM_BUCKETS \<le> b \<Longrightarrow> buckets s' ! c =
           (if c = ?h \<or> c = next_bucket ?h then snd (unset_stash_ptr (buckets s ! c) ?fp ?d)
            else buckets s ! c)"
    using p1(5,6) p2(5,6) next_bucket_neq [OF home_bucket_less, of hash, THEN not_sym] by (auto simp: eq)
qed

lemma fst_unset:
  assumes "stash_inv b"
  shows "fst (unset_stash_ptr b fp d) \<longleftrightarrow> (fp, d) \<in># stash_ptrs b \<or> overflow_count b > 0"
proof -
  obtain r b' where u: "unset_stash_ptr b fp d = (r, b')" by fastforce
  show ?thesis
    using unset_stash_ptr_props(2,3) [OF assms u] by (cases "(fp, d) \<in># stash_ptrs b") (auto simp: u)
qed

lemma same_stash_unset:
  "same_stash b b' \<Longrightarrow> stash_inv b \<Longrightarrow> fst (unset_stash_ptr b' fp d) \<longleftrightarrow> fst (unset_stash_ptr b fp d)"
  by (simp add: fst_unset same_stash_def)

text \<open>
  A deletion removes exactly the item at \<open>pos\<close> and keeps \<open>seg_safe\<close>; when \<open>next_clean\<close> holds it
  also keeps the accounting complete.
\<close>

lemma seg_delete_refs:
  assumes safe: "seg_safe hf s" and x: "(b, i, k, v) \<in> seg_items s" and h: "h < NUM_BUCKETS"
    and del: "bucket_delete (buckets s ! b) i = (kv, b')"
    and s2: "s2 = unset_stash_ptrs (upd_bucket s b b') b (hf k)"
  shows "refs_sound hf s2 h"
    and "next_clean s (mk_pos b i) (hf k) \<Longrightarrow> refs_complete hf s h \<Longrightarrow> refs_complete hf s2 h"
proof -
  let ?s1 = "upd_bucket s b b'" and ?fp = "fingerprint (hf k)" and ?d = "of_nat (b - NUM_BUCKETS) :: u8"
  note shape = seg_safeD(1) [OF safe]
  note r = remove_slot_props [OF shape x del refl]
  note u = unset_stash_ptrs_props [OF r(2) s2]
  have st: "same_stash (buckets s ! h) (buckets ?s1 ! h)" using r(5) bucket_less_total [OF h] .
  have si: "stash_inv (buckets ?s1 ! h)" by (rule seg_shapeD(3) [OF r(2) h])
  have sound: "refs_sound hf s h" by (rule seg_safeD(3) [OF safe h])
  have refs: "stash_refs hf s h = (if NUM_BUCKETS \<le> b \<and> home_bucket (hf k) = h
     then add_mset (?fp, ?d) (stash_refs hf s2 h) else stash_refs hf s2 h)"
    using stash_refs_remove [OF r(3) x, of hf h] stash_refs_cong [OF u(2), of hf h] by simp
  consider (own) "NUM_BUCKETS \<le> b" "home_bucket (hf k) = h"
    | (nxt) "NUM_BUCKETS \<le> b" "next_bucket (home_bucket (hf k)) = h" "home_bucket (hf k) \<noteq> h"
    | (other) "buckets s2 ! h = buckets ?s1 ! h" "\<not> (NUM_BUCKETS \<le> b \<and> home_bucket (hf k) = h)"
    using u(5,6) by (metis not_le)
  then have "refs_sound hf s2 h \<and>
    (next_clean s (mk_pos b i) (hf k) \<longrightarrow> refs_complete hf s h \<longrightarrow> refs_complete hf s2 h)"
  proof cases
    case own
    then have B: "buckets s2 ! h = snd (unset_stash_ptr (buckets ?s1 ! h) ?fp ?d)" using u(6) by simp
    then show ?thesis
      using unset_own_ref [OF si _ _ B] sound st refs own
      by (simp add: refs_sound_def refs_complete_def same_stash_def)
  next
    case nxt
    then have B: "buckets s2 ! h = snd (unset_stash_ptr (buckets ?s1 ! h) ?fp ?d)" using u(6) by simp
    have clean: "\<not> fst (unset_stash_ptr (buckets ?s1 ! h) ?fp ?d)" if "next_clean s (mk_pos b i) (hf k)"
      using that nxt same_stash_unset [OF st seg_shapeD(3) [OF shape h]] by (simp add: next_clean_def)
    show ?thesis
      using unset_foreign_ref [OF si _ _ B] sound st refs nxt clean
      by (auto simp: refs_sound_def refs_complete_def same_stash_def)
  next
    case other
    then show ?thesis using refs_cong [OF _, of s h s2 hf] st sound refs by simp
  qed
  then show "refs_sound hf s2 h"
    and "next_clean s (mk_pos b i) (hf k) \<Longrightarrow> refs_complete hf s h \<Longrightarrow> refs_complete hf s2 h" by blast+
qed

lemma seg_delete_safe:
  assumes safe: "seg_safe hf s" and x: "(bucket_idx pos, slot_idx pos, k, v) \<in> seg_items s"
    and del: "seg_delete s pos (hf k) = (kv, s')"
  shows "kv = (Some k, Some v)" and "seg_safe hf s'"
    and "seg_items s' = seg_items s - {(bucket_idx pos, slot_idx pos, k, v)}"
    and "next_clean s pos (hf k) \<Longrightarrow> h < NUM_BUCKETS \<Longrightarrow> refs_complete hf s h \<Longrightarrow> refs_complete hf s' h"
proof -
  let ?b = "bucket_idx pos" and ?i = "slot_idx pos"
  obtain b' where bd: "bucket_delete (buckets s ! ?b) ?i = (kv, b')"
    and s': "s' = (unset_stash_ptrs (upd_bucket s ?b b') ?b (hf k))\<lparr>item_count :=
               item_count (unset_stash_ptrs (upd_bucket s ?b b') ?b (hf k)) - 1\<rparr>"
    using del by (auto simp: seg_delete_def Let_def split: prod.splits)
  define s2 where "s2 = unset_stash_ptrs (upd_bucket s ?b b') ?b (hf k)"
  have s'2: "s' = s2\<lparr>item_count := item_count s2 - 1\<rparr>" by (simp add: s' s2_def)
  note r = remove_slot_props [OF seg_safeD(1) [OF safe] x bd refl]
  note u = unset_stash_ptrs_props [OF r(2) s2_def] and refs = seg_delete_refs [OF safe x _ bd s2_def]
  have rc: "refs_sound hf s' h = refs_sound hf s2 h" "refs_complete hf s' h = refs_complete hf s2 h" for h
    by (simp_all add: s'2 refs_sound_def refs_complete_def stash_refs_def)
  show "kv = (Some k, Some v)" by (rule r(1))
  show items: "seg_items s' = seg_items s - {(?b, ?i, k, v)}" using r(3) u(2) by (simp add: s'2)
  have "item_ok hf s' y" if "y \<in> seg_items s'" for y
    using that r(3) r(6) [of y hf] u(2,3) seg_safeD(2) [OF safe, of y] by (simp add: s'2)
  moreover have "item_count s' = length (seg_iter s')"
    using length_iter_remove [OF items x] r(4) u(4) seg_safeD(4) [OF safe] by (simp add: s'2)
  ultimately show "seg_safe hf s'"
    unfolding seg_safe_def using u(1) refs(1) rc(1) by (simp add: s'2)
  show "refs_complete hf s' h" if "next_clean s pos (hf k)" "h < NUM_BUCKETS" "refs_complete hf s h"
    using refs(2) that rc(2) by simp
qed

lemma seg_delete_inv [inv_intros]:
  assumes inv: "seg_inv hf s" and x: "(bucket_idx pos, slot_idx pos, k, v) \<in> seg_items s"
    and del: "seg_delete s pos (hf k) = (kv, s')" and clean: "next_clean s pos (hf k)"
  shows "seg_inv hf s'"
proof -
  have safe: "seg_safe hf s" using inv by (simp add: seg_inv_def)
  note d = seg_delete_safe [OF safe x del]
  have "keys_unique s'" using inv d(3) unfolding seg_inv_def keys_unique_def by blast
  then show ?thesis using d(2,4) clean inv unfolding seg_inv_def by blast
qed

subsection \<open>A deletion that hides another key\<close>

text \<open>
  Without \<open>next_clean\<close> the second \<^verbatim>\<open>unset_stash_ptr\<close> of \<^verbatim>\<open>delete\<close> drops a pointer of the
  neighbouring bucket. Buckets 0, 1 and 2 are filled; key \<open>0x120\<close> (home 1) and key \<open>0x020\<close>
  (home 0) share fingerprint \<open>0x20\<close> and both go to stash bucket 0.
\<close>

fun insert_all :: "(u64, nat) segment \<Rightarrow> u64 list \<Rightarrow> (u64, nat) segment option" where
  "insert_all s [] = Some s"
| "insert_all s (h # hs) =
     (case insert_new s h 0 h of Some (Inr (_, s')) \<Rightarrow> insert_all s' hs | _ \<Rightarrow> None)"

definition crowded_keys :: "u64 list" where
  "crowded_keys = map of_nat ([0..<12] @ [0x100..<0x10C] @ [0x200..<0x20C] @ [0x120, 0x020])"

text \<open>Where \<open>0x120\<close> is found before the deletion of \<open>0x020\<close>, where after, and whether the
  segment still stores it.\<close>

definition crowded_observe :: "(u64, nat) segment \<Rightarrow> (u64, nat) segment \<Rightarrow> segment_pos option \<times> segment_pos option \<times> bool" where
  "crowded_observe s s' =
     (seg_find s 0x120 (\<lambda>k. k = 0x120), seg_find s' 0x120 (\<lambda>k. k = 0x120),
      list_ex (\<lambda>(b, i, k, v). k = 0x120) (seg_iter s'))"

definition crowded_try :: "(u64, nat) segment \<Rightarrow> segment_pos \<Rightarrow> segment_pos option \<times> segment_pos option \<times> bool" where
  "crowded_try s pos = crowded_observe s (snd (seg_delete s pos 0x020))"

definition crowded_delete :: "(segment_pos option \<times> segment_pos option \<times> bool) option" where
  "crowded_delete =
     (case insert_all (segment_new 1) crowded_keys of
        None \<Rightarrow> None
      | Some s \<Rightarrow> map_option (crowded_try s) (seg_find s 0x020 (\<lambda>k. k = 0x020)))"

subsection \<open>\<open>split\<close>\<close>

definition seg_kvs :: "('k, 'v) segment \<Rightarrow> ('k \<times> 'v) multiset" where
  "seg_kvs s = {#(k, v). (b, i, k, v) \<in># mset (seg_iter s)#}"

lemma seg_kvs_insert:
  "seg_items s' = insert (b, i, k, v) (seg_items s) \<Longrightarrow> (b, i, k, v) \<notin> seg_items s \<Longrightarrow>
     seg_kvs s' = add_mset (k, v) (seg_kvs s)"
  by (simp add: seg_kvs_def mset_seg_iter_insert)

lemma seg_kvs_remove:
  "seg_items s' = seg_items s - {(b, i, k, v)} \<Longrightarrow> (b, i, k, v) \<in> seg_items s \<Longrightarrow>
     seg_kvs s = add_mset (k, v) (seg_kvs s')"
  by (simp add: seg_kvs_def mset_seg_iter_remove)

lemma insert_new_room:
  assumes safe: "seg_safe hf s" and b: "b < TOTAL_BUCKETS" and room: "slot_entry (buckets s ! b) i = None"
    and i: "i < NUM_SLOTS"
    and place: "b < NUM_BUCKETS \<longrightarrow> b = home_bucket (hf k) \<or> b = next_bucket (home_bucket (hf k))"
  shows "\<exists>pos s'. insert_new s k v (hf k) = Some (Inr (pos, s'))"
proof -
  note shape = seg_safeD(1) [OF safe]
  have si: "slots_inv (buckets s ! b)" by (rule seg_shapeD(2) [OF shape b])
  then have nf: "\<not> is_full (slots (buckets s ! b))"
    using room i slot_entry_None [OF si] by (auto simp: is_full_iff slots_inv_def)
  have st: "NUM_BUCKETS \<le> b \<Longrightarrow> \<exists>d < NUM_STASH. b = NUM_BUCKETS + d"
    using b by (intro exI [of _ "b - NUM_BUCKETS"]) (simp add: TOTAL_BUCKETS_def)
  show ?thesis
    using shape
  proof (cases rule: insert_new_cases [where hash = "hf k" and k = k and v = v])
    case full
    then show ?thesis using nf st place by (metis not_less)
  qed auto
qed

lemma unset_stash_ptrs_count:
  "unset_stash_ptrs (s\<lparr>item_count := n\<rparr>) b h = (unset_stash_ptrs s b h)\<lparr>item_count := n\<rparr>"
  and item_count_unset: "item_count (unset_stash_ptrs s b h) = item_count s"
  by (simp_all add: unset_stash_ptrs_def unset_at_def upd_bucket_def Let_def)

lemma split_move_delete:
  assumes "seg_delete src (mk_pos b i) h = (kv, s2)"
  shows "split_move (src, dest) (b, i, h) =
    (case kv of
       (Some k, Some v) \<Rightarrow>
         (case insert_new dest k v h of
            None \<Rightarrow> None
          | Some (Inr (_, dest')) \<Rightarrow> Some (s2, dest')
          | Some (Inl (k, v)) \<Rightarrow>
              (case insert_new s2 k v h of
                 None \<Rightarrow> None
               | Some (Inr (_, s3)) \<Rightarrow> Some (s3, dest)
               | Some (Inl _) \<Rightarrow> Some (s2, dest)))
     | _ \<Rightarrow> None)"
proof -
  obtain b' where bd: "bucket_delete (buckets src ! b) i = (kv, b')"
    and s2: "unset_stash_ptrs ((upd_bucket src b b')\<lparr>item_count := item_count src - 1\<rparr>) b h = s2"
    using assms
    by (auto simp: seg_delete_def Let_def unset_stash_ptrs_count item_count_unset split: prod.splits)
  show ?thesis by (simp only: split_move_def prod.case bd Let_def s2)
qed

text \<open>
  One move keeps both segments safe and loses nothing: an item the destination refuses goes back
  into the slot it has just left, so the branch that drops it is never taken.
\<close>

lemma removed_slot_free:
  assumes "seg_items s' = seg_items s - {(b, i, k, v)}" and "(b, i, k, v) \<in> seg_items s"
  shows "slot_entry (buckets s' ! b) i = None"
proof -
  have "(b, i, k', v') \<notin> seg_items s'" for k' v' using assms by (auto simp: seg_items_def)
  then show ?thesis
    using assms(2) by (cases "slot_entry (buckets s' ! b) i") (auto simp: seg_items_def)
qed

lemma split_move_safe:
  assumes src: "seg_safe hf src" and dest: "seg_safe hf dest" and x: "(b, i, k, v) \<in> seg_items src"
  shows "\<exists>src' dest'. split_move (src, dest) (b, i, hf k) = Some (src', dest')
    \<and> seg_safe hf src' \<and> seg_safe hf dest' \<and> seg_kvs src' + seg_kvs dest' = seg_kvs src + seg_kvs dest
    \<and> seg_items src - {(b, i, k, v)} \<subseteq> seg_items src'"
proof -
  let ?pos = "mk_pos b i"
  obtain kv s2 where del: "seg_delete src ?pos (hf k) = (kv, s2)" by fastforce
  note d = seg_delete_safe [OF src _ del, simplified, OF x] and mv = split_move_delete [OF del, of dest]
  have kvs: "seg_kvs src = add_mset (k, v) (seg_kvs s2)" by (rule seg_kvs_remove [OF d(3) x])
  consider pos dest' where "insert_new dest k v (hf k) = Some (Inr (pos, dest'))"
    | "insert_new dest k v (hf k) = Some (Inl (k, v))"
    using seg_safeD(1) [OF dest]
    by (cases rule: insert_new_cases [where hash = "hf k" and k = k and v = v]) auto
  then show ?thesis
  proof cases
    case 1
    note n = insert_new_safe [OF dest 1]
    show ?thesis using mv 1 d(1,2,3) n(1) kvs seg_kvs_insert [OF n(2,3)] by simp
  next
    case 2
    note sd = seg_itemsD [OF seg_safeD(1) [OF src] x]
    have "b < NUM_BUCKETS \<longrightarrow> b = home_bucket (hf k) \<or> b = next_bucket (home_bucket (hf k))"
      using seg_safeD(2) [OF src x] by (auto simp: item_ok_def split: if_splits)
    then obtain pos s3 where ins: "insert_new s2 k v (hf k) = Some (Inr (pos, s3))"
      using insert_new_room [OF d(2) sd(1) removed_slot_free [OF d(3) x] sd(2)] by blast
    note n = insert_new_safe [OF d(2) ins]
    show ?thesis using mv 2 ins d(1,3) n(1,2) dest kvs seg_kvs_insert [OF n(2,3)] by auto
  qed
qed

lemma split_moves_safe:
  assumes "seg_safe hf src" and "seg_safe hf dest" and "distinct ms"
    and "\<And>b i h. (b, i, h) \<in> set ms \<Longrightarrow> \<exists>k v. (b, i, k, v) \<in> seg_items src \<and> h = hf k"
  shows "\<exists>src' dest'. split_moves (src, dest) ms = Some (src', dest')
    \<and> seg_safe hf src' \<and> seg_safe hf dest' \<and> seg_kvs src' + seg_kvs dest' = seg_kvs src + seg_kvs dest"
  using assms
proof (induction ms arbitrary: src dest)
  case (Cons m ms)
  obtain b i h where m: "m = (b, i, h)" by (cases m) auto
  then obtain k v where x: "(b, i, k, v) \<in> seg_items src" and h: "h = hf k" using Cons.prems(4) [of b i h] by auto
  obtain src1 dest1 where mv: "split_move (src, dest) m = Some (src1, dest1)" "seg_safe hf src1"
    "seg_safe hf dest1" "seg_kvs src1 + seg_kvs dest1 = seg_kvs src + seg_kvs dest"
    "seg_items src - {(b, i, k, v)} \<subseteq> seg_items src1"
    using split_move_safe [OF Cons.prems(1,2) x] unfolding m h by blast
  have "\<exists>k v. (b', i', k, v) \<in> seg_items src1 \<and> h' = hf k" if mem: "(b', i', h') \<in> set ms" for b' i' h'
  proof -
    obtain k' v' where y: "(b', i', k', v') \<in> seg_items src" "h' = hf k'"
      using Cons.prems(4) [of b' i' h'] mem by auto
    have "(b', i', k', v') \<noteq> (b, i, k, v)" using Cons.prems(3) mem y(2) h by (auto simp: m)
    then show ?thesis using y mv(5) by blast
  qed
  moreover have "distinct ms" using Cons.prems(3) by simp
  ultimately have "\<exists>src' dest'. split_moves (src1, dest1) ms = Some (src', dest')
    \<and> seg_safe hf src' \<and> seg_safe hf dest' \<and> seg_kvs src' + seg_kvs dest' = seg_kvs src1 + seg_kvs dest1"
    by (intro Cons.IH [OF mv(2,3)])
  then show ?case using mv(1,4) by simp
qed simp

lemma seg_safe_depth [simp]: "seg_safe hf (s\<lparr>local_depth := d\<rparr>) = seg_safe hf s"
  and seg_kvs_depth [simp]: "seg_kvs (s\<lparr>local_depth := d\<rparr>) = seg_kvs s"
  and seg_iter_depth [simp]: "seg_iter (s\<lparr>local_depth := d\<rparr>) = seg_iter s"
  by (simp_all add: seg_safe_def seg_shape_def seg_items_def item_ok_def refs_sound_def stash_refs_def
      seg_iter_def seg_kvs_def)

lemma distinct_map_filter_inj:
  "distinct xs \<Longrightarrow> inj_on f (set xs) \<Longrightarrow> distinct (map f (filter P xs))"
  by (auto simp: distinct_map intro: inj_on_subset)

lemma seg_split_safe:
  assumes "seg_safe hf src" and "seg_safe hf dest"
  shows "\<exists>src' dest'. seg_split src dest hf = Some (src', dest')
    \<and> seg_safe hf src' \<and> seg_safe hf dest' \<and> seg_kvs src' + seg_kvs dest' = seg_kvs src + seg_kvs dest"
proof -
  let ?src = "src\<lparr>local_depth := local_depth src + 1\<rparr>"
  let ?dest = "dest\<lparr>local_depth := local_depth src + 1\<rparr>"
  let ?P = "\<lambda>(b, i, k, v). drop_bit (64 - unat (local_depth src + 1)) (hf k) AND 1 = 1"
  let ?f = "\<lambda>(b :: nat, i :: nat, k, v :: 'b). (b, i, hf k)"
  define ms where "ms = map ?f (filter ?P (seg_iter src))"
  have "concat (map (\<lambda>(b, i, k, v). if drop_bit (64 - unat (local_depth src + 1)) (hf k) AND 1 = 1
      then [(b, i, hf k)] else []) xs) = map ?f (filter ?P xs)" for xs :: "(nat \<times> nat \<times> 'a \<times> 'b) list"
    by (induction xs) auto
  then have eq: "seg_split src dest hf = split_moves (?src, ?dest) (rev (sort ms))"
    by (simp add: seg_split_def Let_def ms_def)
  have "distinct ms"
    unfolding ms_def by (rule distinct_map_filter_inj [OF distinct_seg_iter])
      (auto simp: inj_on_def set_seg_iter seg_items_def)
  moreover have "\<exists>k v. (b, i, k, v) \<in> seg_items ?src \<and> h = hf k" if "(b, i, h) \<in> set ms" for b i h
    using that set_seg_iter [of src] by (auto simp: ms_def seg_items_def)
  ultimately have "\<exists>src' dest'. split_moves (?src, ?dest) (rev (sort ms)) = Some (src', dest')
    \<and> seg_safe hf src' \<and> seg_safe hf dest' \<and> seg_kvs src' + seg_kvs dest' = seg_kvs ?src + seg_kvs ?dest"
    by (intro split_moves_safe) (use assms in simp_all)
  then show ?thesis by (simp add: eq)
qed

lemma seg_safe_new: "seg_safe hf (segment_new d)"
  using seg_inv_new [of hf d] unfolding seg_inv_def by blast

subsection \<open>Properties\<close>

definition demo_segment :: "(u64, nat) segment" where
  "demo_segment = (case insert_new (segment_new 1) 7 1 7 of Some (Inr (_, s)) \<Rightarrow> s | _ \<Rightarrow> segment_new 1)"

lemma demo_segment_insert: "\<exists>pos. insert_new (segment_new 1) 7 1 7 = Some (Inr (pos, demo_segment))"
proof -
  have "(case insert_new (segment_new 1 :: (u64, nat) segment) 7 1 7 of Some (Inr _) \<Rightarrow> True | _ \<Rightarrow> False)" by code_simp
  then show ?thesis by (auto simp: demo_segment_def split: option.splits sum.splits)
qed

lemma demo_segment_inv: "seg_inv (\<lambda>k. k) demo_segment"
proof -
  obtain pos where p: "insert_new (segment_new 1) 7 1 7 = Some (Inr (pos, demo_segment))"
    using demo_segment_insert by blast
  show ?thesis by (rule insert_new_inv [OF seg_inv_new, where hf = "\<lambda>k. k" and k = 7]) (use p in auto)
qed

text \<open>C22: in a well-formed segment, \<^verbatim>\<open>find\<close> returns a position exactly when the key is stored there, wherever
  the key lies (home bucket, next bucket, stash through a pointer, or stash through the overflow scan).\<close>

theorem segment_find_correct:
  assumes "seg_inv hf s"
  shows "seg_find s (hf k) (\<lambda>k'. k' = k) = Some pos \<longleftrightarrow> (\<exists>v. (bucket_idx pos, slot_idx pos, k, v) \<in> seg_items s)"
  by (rule seg_find_iff [OF assms])

theorem segment_find_correct_witness:
  "\<exists>pos v. seg_find demo_segment 7 (\<lambda>k'. k' = 7) = Some pos \<and> (bucket_idx pos, slot_idx pos, 7, v) \<in> seg_items demo_segment"
proof -
  have "seg_find demo_segment 7 (\<lambda>k'. k' = 7) \<noteq> None" by code_simp
  then show ?thesis using segment_find_correct [OF demo_segment_inv, of 7] by blast
qed

text \<open>C23: \<^verbatim>\<open>insert_new\<close> never panics; it gives the pair back exactly when the home bucket, the next bucket and
  all four stash buckets are full, and otherwise stores the new item at the position it returns, keeps
  every other item and re-establishes the invariant.\<close>

theorem segment_insert_new_correct:
  assumes "seg_inv hf s" and "\<forall>b i v. (b, i, k, v) \<notin> seg_items s"
  shows "(insert_new s k v (hf k) = Some (Inl (k, v)) \<and> is_full (slots (buckets s ! home_bucket (hf k)))
           \<and> is_full (slots (buckets s ! next_bucket (home_bucket (hf k))))
           \<and> (\<forall>d < NUM_STASH. is_full (slots (buckets s ! (NUM_BUCKETS + d)))))
       \<or> (\<exists>pos s'. insert_new s k v (hf k) = Some (Inr (pos, s')) \<and> seg_inv hf s'
           \<and> seg_items s' = insert (bucket_idx pos, slot_idx pos, k, v) (seg_items s))"
proof -
  have safe: "seg_safe hf s" using assms(1) by (simp add: seg_inv_def)
  have "\<exists>pos s'. insert_new s k v (hf k) = Some (Inr (pos, s')) \<and> seg_inv hf s'
           \<and> seg_items s' = insert (bucket_idx pos, slot_idx pos, k, v) (seg_items s)"
    if "insert_new s k v (hf k) = Some (Inr p)" for p
    using that insert_new_inv [OF assms(1) _ assms(2)] insert_new_safe(2) [OF safe] by (cases p) blast
  note ok = this
  show ?thesis
    using seg_safeD(1) [OF safe]
  proof (cases rule: insert_new_cases [where hash = "hf k" and k = k and v = v])
    case full
    then show ?thesis by blast
  qed (use ok in blast)+
qed

theorem segment_insert_new_correct_witness:
  "\<exists>pos s'. insert_new (segment_new 1) 7 (1 :: nat) 7 = Some (Inr (pos, s')) \<and> seg_inv (\<lambda>k. k) s'
     \<and> seg_items s' = {(bucket_idx pos, slot_idx pos, 7, 1)}"
proof -
  obtain pos where p: "insert_new (segment_new 1) 7 1 7 = Some (Inr (pos, demo_segment))"
    using demo_segment_insert by blast
  have "\<forall>b i v. (b, i, 7, v) \<notin> seg_items (segment_new 1 :: (u64, nat) segment)" by simp
  then show ?thesis
    using segment_insert_new_correct [OF seg_inv_new, where hf = "\<lambda>k. k" and k = 7 and v = "1 :: nat" and d1 = 1] p by auto
qed

text \<open>\<^verbatim>\<open>delete\<close> returns the stored pair and removes exactly that item; it always keeps the segment safe,
  and keeps it fully searchable when the clean-up of the next bucket has nothing to unset.\<close>

theorem segment_delete_correct:
  assumes "seg_inv hf s" and "(bucket_idx pos, slot_idx pos, k, v) \<in> seg_items s"
    and "seg_delete s pos (hf k) = (kv, s')"
  shows "kv = (Some k, Some v) \<and> seg_items s' = seg_items s - {(bucket_idx pos, slot_idx pos, k, v)}
    \<and> seg_safe hf s' \<and> (next_clean s pos (hf k) \<longrightarrow> seg_inv hf s')"
proof -
  have safe: "seg_safe hf s" using assms(1) by (simp add: seg_inv_def)
  show ?thesis using seg_delete_safe [OF safe assms(2,3)] seg_delete_inv [OF assms] by blast
qed

theorem segment_delete_correct_witness:
  "\<exists>pos s'. seg_delete demo_segment pos 7 = ((Some 7, Some 1), s') \<and> seg_items s' = {} \<and> seg_inv (\<lambda>k. k) s'"
proof -
  obtain pos where p: "insert_new (segment_new 1) 7 1 7 = Some (Inr (pos, demo_segment))"
    using demo_segment_insert by blast
  have items: "seg_items demo_segment = {(bucket_idx pos, slot_idx pos, 7, 1)}"
    using insert_new_safe(2) [of "\<lambda>k. k" "segment_new 1" 7 1 pos demo_segment, OF seg_safe_new p] by simp
  have "list_all (\<lambda>(b, i, k, v). b < NUM_BUCKETS) (seg_iter demo_segment)" by code_simp
  then have clean: "next_clean demo_segment pos 7"
    using items set_seg_iter [of demo_segment] by (auto simp: list_all_iff next_clean_def)
  obtain kv s' where d: "seg_delete demo_segment pos 7 = (kv, s')" by fastforce
  have "(bucket_idx pos, slot_idx pos, 7, 1) \<in> seg_items demo_segment" using items by simp
  note c = segment_delete_correct [OF demo_segment_inv this d]
  then show ?thesis using items clean d by auto
qed


text \<open>\<^verbatim>\<open>split\<close> never panics and never loses an item: afterwards source and destination together hold
  exactly the items they held before. In particular the branch that drops an item both refuse is dead.\<close>

theorem segment_split_conserves:
  assumes "seg_safe hf src" and "seg_safe hf dest"
  shows "\<exists>src' dest'. seg_split src dest hf = Some (src', dest') \<and> seg_safe hf src' \<and> seg_safe hf dest'
    \<and> seg_kvs src' + seg_kvs dest' = seg_kvs src + seg_kvs dest"
  by (rule seg_split_safe [OF assms])

theorem segment_split_conserves_witness:
  "\<exists>src' dest'. seg_split demo_segment (segment_new 1) (\<lambda>k. k) = Some (src', dest')
    \<and> seg_kvs src' + seg_kvs dest' = {#(7, 1)#}"
proof -
  have "seg_kvs demo_segment = {#(7, 1)#}" by code_simp
  moreover have "seg_kvs (segment_new 1 :: (u64, nat) segment) = {#}" by code_simp
  ultimately show ?thesis
    using segment_split_conserves [of "\<lambda>k. k" demo_segment "segment_new 1"] demo_segment_inv seg_safe_new
    by (auto simp: seg_inv_def)
qed

text \<open>the older \<^verbatim>\<open>insert_unique\<close> panics (\<^verbatim>\<open>unreachable!()\<close>) exactly when the home bucket is full, although
  the next bucket or the stash may have room; its documentation promises \<^verbatim>\<open>Err\<close>.\<close>

theorem segment_insert_unique_panics:
  assumes "seg_shape s"
  shows "insert_unique s k v hash = None \<longleftrightarrow> is_full (slots (buckets s ! home_bucket hash))"
  using insert_at_None [OF assms, of "home_bucket hash"] by (simp add: insert_unique_def)

theorem segment_insert_unique_panics_witness:
  "insert_unique (segment_new 1 :: (u64, nat) segment) 7 1 7 = None
     \<longleftrightarrow> is_full (slots (buckets (segment_new 1 :: (u64, nat) segment) ! home_bucket 7))"
  by (rule segment_insert_unique_panics [OF seg_safeD(1) [OF seg_safe_new]])

end
