(* ===== verification/Dash_Table.thy ===== *)
theory Dash_Table
  imports Dash_Segment
begin

text \<open>
  The hash table, \<^verbatim>\<open>crates/shrikedb-core/src/dash/table.rs\<close> and \<^verbatim>\<open>dash/cursor.rs\<close>: a vector of
  segments selected by the high bits of the hash, doubled and rebuilt by \<^verbatim>\<open>grow\<close> when a segment
  refuses an item. The hasher (\<^verbatim>\<open>ahash\<close>, a third-party crate) is the field \<open>hash_builder\<close>, an
  arbitrary function: nothing is assumed of it.

  \<open>tbl_safe\<close> is kept by every operation, \<open>tbl_inv\<close> by every operation but a \<^verbatim>\<open>remove\<close> that meets the
  stash defect of \<open>next_clean\<close>. Under \<open>tbl_inv\<close> the table is the finite map \<open>tbl_map\<close>; the locale
  \<open>kv_table\<close> states that contract and the table is an interpretation of it.
\<close>

subsection \<open>Cursor\<close>

datatype cursor = Cursor u64

definition cursor_DONE :: cursor where "cursor_DONE = Cursor 0"

definition cursor_new :: "u64 \<Rightarrow> cursor" where "cursor_new v = Cursor v"

fun cursor_value :: "cursor \<Rightarrow> u64" where "cursor_value (Cursor v) = v"

definition cursor_is_done :: "cursor \<Rightarrow> bool" where "cursor_is_done c = (cursor_value c = 0)"

subsection \<open>The table\<close>

record ('k, 'v) dash_table =
  segments :: "('k, 'v) segment list"
  tbl_size :: nat
  hash_builder :: "'k \<Rightarrow> u64"

definition tbl_with_hasher :: "('k \<Rightarrow> u64) \<Rightarrow> ('k, 'v) dash_table" where
  "tbl_with_hasher hf = \<lparr>segments = replicate 4 (segment_new 1), tbl_size = 0, hash_builder = hf\<rparr>"

definition tbl_len :: "('k, 'v) dash_table \<Rightarrow> nat" where
  "tbl_len t = tbl_size t"

definition tbl_is_empty :: "('k, 'v) dash_table \<Rightarrow> bool" where
  "tbl_is_empty t = (tbl_size t = 0)"

definition tbl_version :: "('k, 'v) dash_table \<Rightarrow> u64" where
  "tbl_version t = of_nat (tbl_size t)"

definition hash_key :: "('k, 'v) dash_table \<Rightarrow> 'k \<Rightarrow> u64" where
  "hash_key t key = hash_builder t key"

definition seg_id :: "('k, 'v) dash_table \<Rightarrow> u64 \<Rightarrow> nat" where
  "seg_id t hash = unat (drop_bit 48 hash) mod length (segments t)"

definition upd_seg :: "('k, 'v) dash_table \<Rightarrow> nat \<Rightarrow> ('k, 'v) segment \<Rightarrow> ('k, 'v) dash_table" where
  "upd_seg t sid s = t\<lparr>segments := (segments t)[sid := s]\<rparr>"

definition tbl_find :: "('k, 'v) dash_table \<Rightarrow> 'k \<Rightarrow> 'v option" where
  "tbl_find t key =
     (let hash = hash_key t key; sid = seg_id t hash; seg = segments t ! sid
      in case seg_find seg hash (\<lambda>k. k = key) of
           None \<Rightarrow> None
         | Some pos \<Rightarrow> bucket_value (buckets seg ! bucket_idx pos) (slot_idx pos))"

text \<open>\<^verbatim>\<open>find_mut\<close> followed by a write \<^verbatim>\<open>*v = f(v)\<close> through the reference it returns.\<close>

definition tbl_find_mut :: "('k, 'v) dash_table \<Rightarrow> 'k \<Rightarrow> ('v \<Rightarrow> 'v) \<Rightarrow> ('k, 'v) dash_table option" where
  "tbl_find_mut t key f =
     (let hash = hash_key t key; sid = seg_id t hash; seg = segments t ! sid
      in case seg_find seg hash (\<lambda>k. k = key) of
           None \<Rightarrow> None
         | Some pos \<Rightarrow>
             (case bucket_value (buckets seg ! bucket_idx pos) (slot_idx pos) of
                None \<Rightarrow> None
              | Some v \<Rightarrow> Some (upd_seg t sid (seg_set_value seg pos (f v)))))"

text \<open>\<^verbatim>\<open>grow\<close>: empty every segment, then insert everything into twice as many fresh ones. \<open>None\<close> is the
  panic \<^verbatim>\<open>item lost during grow\<close>.\<close>

fun drain_items ::
  "('k, 'v) segment \<Rightarrow> (nat \<times> nat \<times> u64) list \<Rightarrow> ('k \<times> 'v \<times> u64) list option" where
  "drain_items seg [] = Some []"
| "drain_items seg ((bid, slot, hash) # ps) =
     (if drop_bit slot (busy (slots (buckets seg ! bid))) AND 1 = 0 then drain_items seg ps
      else case seg_delete seg (mk_pos bid slot) hash of
             ((Some k, Some v), seg') \<Rightarrow> map_option ((#) (k, v, hash)) (drain_items seg' ps)
           | _ \<Rightarrow> None)"

definition drain_segment :: "('k \<Rightarrow> u64) \<Rightarrow> ('k, 'v) segment \<Rightarrow> ('k \<times> 'v \<times> u64) list option" where
  "drain_segment hf seg =
     drain_items seg (rev (sort (map (\<lambda>(bid, slot, k, v). (bid, slot, hf k)) (seg_iter seg))))"

fun drain_all :: "('k \<Rightarrow> u64) \<Rightarrow> ('k, 'v) segment list \<Rightarrow> ('k \<times> 'v \<times> u64) list option" where
  "drain_all hf [] = Some []"
| "drain_all hf (seg # segs) =
     (case drain_segment hf seg of
        None \<Rightarrow> None
      | Some xs \<Rightarrow> map_option (\<lambda>ys. xs @ ys) (drain_all hf segs))"

text \<open>One \<^verbatim>\<open>insert_new\<close> into the segment of the hash.\<close>

definition tbl_try_insert ::
  "('k, 'v) dash_table \<Rightarrow> 'k \<Rightarrow> 'v \<Rightarrow> u64 \<Rightarrow> (('k \<times> 'v) + ('k, 'v) dash_table) option" where
  "tbl_try_insert t key value hash =
     (let sid = seg_id t hash
      in case insert_new (segments t ! sid) key value hash of
           None \<Rightarrow> None
         | Some (Inl kv) \<Rightarrow> Some (Inl kv)
         | Some (Inr (_, seg)) \<Rightarrow> Some (Inr ((upd_seg t sid seg)\<lparr>tbl_size := tbl_size t + 1\<rparr>)))"

fun reinsert_all ::
  "('k, 'v) dash_table \<Rightarrow> ('k \<times> 'v \<times> u64) list \<Rightarrow> ('k, 'v) dash_table option" where
  "reinsert_all t [] = Some t"
| "reinsert_all t ((k, v, hash) # xs) =
     (case tbl_try_insert t k v hash of Some (Inr t') \<Rightarrow> reinsert_all t' xs | _ \<Rightarrow> None)"

definition tbl_grow :: "('k, 'v) dash_table \<Rightarrow> ('k, 'v) dash_table option" where
  "tbl_grow t =
     (case drain_all (hash_builder t) (segments t) of
        None \<Rightarrow> None
      | Some items \<Rightarrow>
          let new_count = length (segments t) * 2
          in reinsert_all (t\<lparr>segments := replicate new_count (segment_new 1), tbl_size := 0\<rparr>) items)"

text \<open>\<^verbatim>\<open>insert_no_dup\<close>: the counter is the \<^verbatim>\<open>for _ in 0..10\<close>; running out of it is a panic.\<close>

fun insert_no_dup_loop ::
  "nat \<Rightarrow> ('k, 'v) dash_table \<Rightarrow> 'k \<Rightarrow> 'v \<Rightarrow> u64 \<Rightarrow> ('k, 'v) dash_table option" where
  "insert_no_dup_loop 0 t key value hash = None"
| "insert_no_dup_loop (Suc n) t key value hash =
     (case tbl_try_insert t key value hash of
        None \<Rightarrow> None
      | Some (Inr t') \<Rightarrow> Some t'
      | Some (Inl (k, v)) \<Rightarrow>
          (case tbl_grow t of None \<Rightarrow> None | Some t' \<Rightarrow> insert_no_dup_loop n t' k v hash))"

definition insert_no_dup ::
  "('k, 'v) dash_table \<Rightarrow> 'k \<Rightarrow> 'v \<Rightarrow> u64 \<Rightarrow> ('k, 'v) dash_table option" where
  "insert_no_dup t key value hash = insert_no_dup_loop 10 t key value hash"

definition tbl_insert ::
  "('k, 'v) dash_table \<Rightarrow> 'k \<Rightarrow> 'v \<Rightarrow> ('v option \<times> ('k, 'v) dash_table) option" where
  "tbl_insert t key value =
     (let hash = hash_key t key; sid = seg_id t hash; seg = segments t ! sid
      in case seg_find seg hash (\<lambda>k. k = key) of
           Some pos \<Rightarrow>
             (let old = bucket_value (buckets seg ! bucket_idx pos) (slot_idx pos)
              in Some (old, upd_seg t sid (seg_set_value seg pos value)))
         | None \<Rightarrow>
             (case tbl_try_insert t key value hash of
                None \<Rightarrow> None
              | Some (Inr t') \<Rightarrow> Some (None, t')
              | Some (Inl (k, v)) \<Rightarrow>
                  (case tbl_grow t of
                     None \<Rightarrow> None
                   | Some t' \<Rightarrow> map_option (Pair None) (insert_no_dup t' k v hash))))"

definition tbl_remove :: "('k, 'v) dash_table \<Rightarrow> 'k \<Rightarrow> 'v option \<times> ('k, 'v) dash_table" where
  "tbl_remove t key =
     (let hash = hash_key t key; sid = seg_id t hash; seg = segments t ! sid
      in case seg_find seg hash (\<lambda>k. k = key) of
           None \<Rightarrow> (None, t)
         | Some pos \<Rightarrow>
             (let ((_, v), seg') = seg_delete seg pos hash
              in (v, (upd_seg t sid seg')\<lparr>tbl_size := tbl_size t - 1\<rparr>)))"

definition tbl_contains :: "('k, 'v) dash_table \<Rightarrow> 'k \<Rightarrow> bool" where
  "tbl_contains t key = (tbl_find t key \<noteq> None)"

definition tbl_clear :: "('k, 'v) dash_table \<Rightarrow> ('k, 'v) dash_table" where
  "tbl_clear t = t\<lparr>segments := replicate 4 (segment_new 1), tbl_size := 0\<rparr>"

definition tbl_iter :: "('k, 'v) dash_table \<Rightarrow> ('k \<times> 'v) list" where
  "tbl_iter t = concat (map (\<lambda>seg. map (\<lambda>(b, i, k, v). (k, v)) (seg_iter seg)) (segments t))"

text \<open>\<^verbatim>\<open>iter_mut\<close> followed by a write \<^verbatim>\<open>*v = f(k, v)\<close> through every reference it returns.\<close>

definition tbl_iter_mut :: "('k \<Rightarrow> 'v \<Rightarrow> 'v) \<Rightarrow> ('k, 'v) dash_table \<Rightarrow> ('k, 'v) dash_table" where
  "tbl_iter_mut f t = t\<lparr>segments := map (seg_iter_mut (\<lambda>bid slot. f)) (segments t)\<rparr>"

text \<open>\<^verbatim>\<open>scan\<close>: \<^verbatim>\<open>start + count\<close> is a wrapping \<^verbatim>\<open>usize\<close> addition; \<^verbatim>\<open>entries[start..end]\<close> panics
  (\<open>None\<close>) when \<open>start > end\<close>.\<close>

definition tbl_scan ::
  "('k, 'v) dash_table \<Rightarrow> cursor \<Rightarrow> u64 \<Rightarrow> (('k \<times> 'v) list \<times> cursor) option" where
  "tbl_scan t cursor cnt =
     (let start = unat (cursor_value cursor); entries = tbl_iter t; total = length entries
      in if start \<ge> total then Some ([], cursor_DONE)
         else let fin = min (unat (cursor_value cursor + cnt)) total
              in if start > fin then None
                 else Some (take (fin - start) (drop start entries),
                            if fin \<ge> total then cursor_DONE else cursor_new (of_nat fin)))"

text \<open>\<^verbatim>\<open>retain\<close>; the callback returns the value it leaves in the slot and whether to keep the entry.\<close>

definition retain_positions :: "('k, 'v) dash_table \<Rightarrow> (nat \<times> nat \<times> nat \<times> u64) list" where
  "retain_positions t =
     concat (map (\<lambda>(sid, seg). map (\<lambda>(b, i, k, v). (sid, b, i, hash_builder t k)) (seg_iter seg))
       (enumerate 0 (segments t)))"

fun retain_loop ::
  "('k \<Rightarrow> 'v \<Rightarrow> 'v \<times> bool) \<Rightarrow> ('k, 'v) dash_table \<Rightarrow> (nat \<times> nat \<times> nat \<times> u64) list \<Rightarrow> nat
     \<Rightarrow> nat \<times> ('k, 'v) dash_table" where
  "retain_loop pred t [] removed = (removed, t)"
| "retain_loop pred t ((sid, bid, slot, hash) # ps) removed =
     (let seg = segments t ! sid
      in case slot_entry (buckets seg ! bid) slot of
           None \<Rightarrow> retain_loop pred t ps removed
         | Some (k, v) \<Rightarrow>
             (let (v', keep) = pred k v; seg1 = seg_set_value seg (mk_pos bid slot) v'
              in if keep then retain_loop pred (upd_seg t sid seg1) ps removed
                 else retain_loop pred
                        ((upd_seg t sid (snd (seg_delete seg1 (mk_pos bid slot) hash)))
                           \<lparr>tbl_size := tbl_size t - 1\<rparr>) ps (removed + 1)))"

definition tbl_retain ::
  "('k \<Rightarrow> 'v \<Rightarrow> 'v \<times> bool) \<Rightarrow> ('k, 'v) dash_table \<Rightarrow> nat \<times> ('k, 'v) dash_table" where
  "tbl_retain pred t = retain_loop pred t (rev (retain_positions t)) 0"

definition tbl_random_entry :: "('k, 'v) dash_table \<Rightarrow> ('k \<times> 'v) option" where
  "tbl_random_entry t = (case tbl_iter t of [] \<Rightarrow> None | e # _ \<Rightarrow> Some e)"

subsection \<open>Invariants and abstraction\<close>

definition routed :: "('k, 'v) dash_table \<Rightarrow> nat \<Rightarrow> bool" where
  "routed t sid \<longleftrightarrow> (\<forall>b i k v. (b, i, k, v) \<in> seg_items (segments t ! sid) \<longrightarrow>
     seg_id t (hash_builder t k) = sid)"

definition tbl_safe :: "('k, 'v) dash_table \<Rightarrow> bool" where
  "tbl_safe t \<longleftrightarrow> segments t \<noteq> []
     \<and> (\<forall>sid < length (segments t). seg_safe (hash_builder t) (segments t ! sid) \<and> routed t sid)
     \<and> tbl_size t = length (tbl_iter t)"

definition tbl_inv :: "('k, 'v) dash_table \<Rightarrow> bool" where
  "tbl_inv t \<longleftrightarrow> tbl_safe t \<and> (\<forall>sid < length (segments t). seg_inv (hash_builder t) (segments t ! sid))"

definition tbl_map :: "('k, 'v) dash_table \<Rightarrow> 'k \<rightharpoonup> 'v" where
  "tbl_map t = map_of (tbl_iter t)"

text \<open>What a \<^verbatim>\<open>remove\<close> of \<open>key\<close> needs to leave every other key reachable.\<close>

definition tbl_removable :: "('k, 'v) dash_table \<Rightarrow> 'k \<Rightarrow> bool" where
  "tbl_removable t key =
     (let hash = hash_key t key; seg = segments t ! seg_id t hash
      in case seg_find seg hash (\<lambda>k. k = key) of None \<Rightarrow> True | Some pos \<Rightarrow> next_clean seg pos hash)"

text \<open>A segment with fewer than 72 items (home, next and stash buckets) never refuses one.\<close>

definition tbl_has_room :: "('k, 'v) dash_table \<Rightarrow> 'k \<Rightarrow> bool" where
  "tbl_has_room t key \<longleftrightarrow> tbl_find t key \<noteq> None
     \<or> item_count (segments t ! seg_id t (hash_key t key)) < 2 * NUM_SLOTS + NUM_STASH * NUM_SLOTS"

subsection \<open>The entries of a table\<close>

definition seg_pairs :: "('k, 'v) segment \<Rightarrow> ('k \<times> 'v) list" where
  "seg_pairs s = map (\<lambda>(b, i, k, v). (k, v)) (seg_iter s)"

lemma tbl_iter_pairs: "tbl_iter t = concat (map seg_pairs (segments t))"
  by (simp add: tbl_iter_def seg_pairs_def [abs_def])

lemma mset_seg_pairs: "mset (seg_pairs s) = seg_kvs s"
  by (simp add: seg_pairs_def seg_kvs_def)

lemma set_seg_pairs: "(k, v) \<in> set (seg_pairs s) \<longleftrightarrow> (\<exists>b i. (b, i, k, v) \<in> seg_items s)"
  by (force simp: seg_pairs_def set_seg_iter)

lemma mset_tbl_iter: "mset (tbl_iter t) = sum_list (map seg_kvs (segments t))"
  by (simp add: tbl_iter_pairs mset_concat comp_def mset_seg_pairs)

lemma tbl_safeD:
  assumes "tbl_safe t"
  shows "segments t \<noteq> []" and "sid < length (segments t) \<Longrightarrow> seg_safe (hash_builder t) (segments t ! sid)"
    and "sid < length (segments t) \<Longrightarrow> (b, i, k, v) \<in> seg_items (segments t ! sid) \<Longrightarrow>
           seg_id t (hash_builder t k) = sid"
    and "tbl_size t = length (tbl_iter t)"
  using assms unfolding tbl_safe_def routed_def by blast+

lemma seg_id_less: "segments t \<noteq> [] \<Longrightarrow> seg_id t h < length (segments t)"
  by (simp add: seg_id_def)

lemma tbl_invD:
  assumes "tbl_inv t"
  shows "tbl_safe t" and "sid < length (segments t) \<Longrightarrow> seg_inv (hash_builder t) (segments t ! sid)"
    and "seg_inv (hash_builder t) (segments t ! seg_id t h)"
  using assms seg_id_less [of t h] by (auto simp: tbl_inv_def tbl_safe_def)

lemma set_tbl_iter:
  assumes "tbl_safe t"
  shows "(k, v) \<in> set (tbl_iter t) \<longleftrightarrow>
    (\<exists>b i. (b, i, k, v) \<in> seg_items (segments t ! seg_id t (hash_builder t k)))"
proof -
  have "(k, v) \<in> set (tbl_iter t) \<longleftrightarrow> (\<exists>sid < length (segments t). (k, v) \<in> set (seg_pairs (segments t ! sid)))"
    by (simp add: tbl_iter_pairs) (metis in_set_conv_nth)
  also have "\<dots> \<longleftrightarrow> (\<exists>b i. (b, i, k, v) \<in> seg_items (segments t ! seg_id t (hash_builder t k)))"
    using tbl_safeD(3) [OF assms] seg_id_less [OF tbl_safeD(1) [OF assms]] by (metis set_seg_pairs)
  finally show ?thesis .
qed

lemma tbl_iter_functional:
  assumes inv: "tbl_inv t" and "(k, v) \<in> set (tbl_iter t)" and "(k, v') \<in> set (tbl_iter t)"
  shows "v = v'"
proof -
  let ?s = "segments t ! seg_id t (hash_builder t k)"
  obtain b i b' i' where x: "(b, i, k, v) \<in> seg_items ?s" "(b', i', k, v') \<in> seg_items ?s"
    using assms(2,3) set_tbl_iter [OF tbl_invD(1) [OF inv]] by blast
  then have "b = b' \<and> i = i'" using tbl_invD(3) [OF inv] unfolding seg_inv_def keys_unique_def by blast
  then show ?thesis using x by (simp add: seg_items_def)
qed

lemma tbl_map_iter: "tbl_inv t \<Longrightarrow> tbl_map t k = Some v \<longleftrightarrow> (k, v) \<in> set (tbl_iter t)"
  unfolding tbl_map_def
  by (metis map_of_SomeD map_of_eq_None_iff option.exhaust fst_conv image_eqI tbl_iter_functional)

lemma tbl_map_items:
  assumes "tbl_inv t"
  shows "tbl_map t k = Some v \<longleftrightarrow>
    (\<exists>b i. (b, i, k, v) \<in> seg_items (segments t ! seg_id t (hash_builder t k)))"
  using tbl_map_iter [OF assms] set_tbl_iter [OF tbl_invD(1) [OF assms]] by blast

lemma tbl_map_None:
  assumes "tbl_inv t"
  shows "tbl_map t k = None \<longleftrightarrow>
    (\<forall>b i v. (b, i, k, v) \<notin> seg_items (segments t ! seg_id t (hash_builder t k)))"
  using tbl_map_items [OF assms, of k] by (metis not_Some_eq)

text \<open>Lookup is the map.\<close>

lemma tbl_find_pos:
  assumes inv: "tbl_inv t" and f: "seg_find (segments t ! seg_id t (hash_key t k)) (hash_key t k) (\<lambda>k'. k' = k) = Some pos"
  obtains v where "(bucket_idx pos, slot_idx pos, k, v) \<in> seg_items (segments t ! seg_id t (hash_key t k))"
    and "bucket_value (buckets (segments t ! seg_id t (hash_key t k)) ! bucket_idx pos) (slot_idx pos) = Some v"
    and "tbl_map t k = Some v"
proof -
  let ?s = "segments t ! seg_id t (hash_builder t k)"
  have hk: "hash_key t k = hash_builder t k" by (simp add: hash_key_def)
  obtain v where v: "(bucket_idx pos, slot_idx pos, k, v) \<in> seg_items ?s"
    using f [unfolded hk] seg_find_iff [OF tbl_invD(3) [OF inv]] by blast
  have "seg_shape ?s" using tbl_invD(3) [OF inv] by (simp add: seg_inv_def seg_safe_def)
  then have "bucket_value (buckets ?s ! bucket_idx pos) (slot_idx pos) = Some v" using v by (rule seg_itemsD(6))
  moreover have "tbl_map t k = Some v" using v tbl_map_items [OF inv] by blast
  ultimately show thesis using that v by (simp add: hk)
qed

lemma tbl_find_None_pos:
  assumes inv: "tbl_inv t"
  shows "seg_find (segments t ! seg_id t (hash_key t k)) (hash_key t k) (\<lambda>k'. k' = k) = None \<longleftrightarrow> tbl_map t k = None"
  unfolding hash_key_def tbl_map_None [OF inv] by (rule seg_find_None [OF tbl_invD(3) [OF inv]])

lemma tbl_find_map [map_view]:
  assumes inv: "tbl_inv t"
  shows "tbl_find t k = tbl_map t k"
proof (cases "seg_find (segments t ! seg_id t (hash_key t k)) (hash_key t k) (\<lambda>k'. k' = k)")
  case None
  moreover have "tbl_map t k = None" using None tbl_find_None_pos [OF inv] by blast
  ultimately show ?thesis by (simp add: tbl_find_def Let_def)
next
  case (Some pos)
  then obtain v where "bucket_value (buckets (segments t ! seg_id t (hash_key t k)) ! bucket_idx pos) (slot_idx pos) = Some v"
    and "tbl_map t k = Some v" by (rule tbl_find_pos [OF inv])
  then show ?thesis using Some by (simp add: tbl_find_def Let_def)
qed

subsection \<open>Replacing one segment\<close>

lemma upd_seg_sel [simp]:
  "segments (upd_seg t sid s) = (segments t)[sid := s]" "hash_builder (upd_seg t sid s) = hash_builder t"
  "tbl_size (upd_seg t sid s) = tbl_size t"
  by (simp_all add: upd_seg_def)

lemma seg_id_upd [simp]: "seg_id (upd_seg t sid s) = seg_id t"
  "seg_id (t\<lparr>tbl_size := n\<rparr>) = seg_id t"
  by (simp_all add: seg_id_def fun_eq_iff)

lemma tbl_iter_size [simp]: "tbl_iter (t\<lparr>tbl_size := n\<rparr>) = tbl_iter t"
  by (simp add: tbl_iter_def)

lemma sum_list_list_update:
  fixes xs :: "'a :: cancel_comm_monoid_add list"
  assumes "i < length xs"
  shows "sum_list (xs[i := x]) + xs ! i = sum_list xs + x"
  using assms
proof (induction xs arbitrary: i)
  case (Cons a xs)
  then show ?case by (cases i) (simp_all add: ac_simps)
qed simp

lemma mset_tbl_iter_upd:
  assumes "sid < length (segments t)"
  shows "mset (tbl_iter (upd_seg t sid s)) + seg_kvs (segments t ! sid) = mset (tbl_iter t) + seg_kvs s"
  using sum_list_list_update [of sid "map seg_kvs (segments t)" "seg_kvs s"] assms
  by (simp add: mset_tbl_iter map_update)

text \<open>The whole table stays safe when one segment is replaced by a safe one that holds only keys
  routed to it, and the size is adjusted by the same amount.\<close>

lemma tbl_upd_safe:
  assumes safe: "tbl_safe t" and sid: "sid < length (segments t)" and s: "seg_safe (hash_builder t) s"
    and route: "\<And>b i k v. (b, i, k, v) \<in> seg_items s \<Longrightarrow> seg_id t (hash_builder t k) = sid"
    and n: "n + size (seg_kvs (segments t ! sid)) = tbl_size t + size (seg_kvs s)"
  shows "tbl_safe ((upd_seg t sid s)\<lparr>tbl_size := n\<rparr>)"
proof -
  let ?t = "(upd_seg t sid s)\<lparr>tbl_size := n\<rparr>"
  have "length (tbl_iter ?t) = n"
    using arg_cong [OF mset_tbl_iter_upd [OF sid, of s], of size] n tbl_safeD(4) [OF safe] by simp
  moreover have "seg_safe (hash_builder t) (segments ?t ! c) \<and> routed ?t c" if "c < length (segments t)" for c
    using that s route tbl_safeD(2,3) [OF safe, of c]
    by (cases "c = sid") (auto simp: routed_def)
  ultimately show ?thesis using tbl_safeD(1) [OF safe] by (simp add: tbl_safe_def)
qed

lemma tbl_upd_inv:
  assumes inv: "tbl_inv t" and sid: "sid < length (segments t)" and s: "seg_inv (hash_builder t) s"
    and safe: "tbl_safe ((upd_seg t sid s)\<lparr>tbl_size := n\<rparr>)"
  shows "tbl_inv ((upd_seg t sid s)\<lparr>tbl_size := n\<rparr>)"
  unfolding tbl_inv_def using safe s tbl_invD(2) [OF inv] by (simp add: nth_list_update_if)

lemma option_eqI: "(\<And>w. x = Some w \<longleftrightarrow> y = Some w) \<Longrightarrow> x = y"
  by (metis not_Some_eq)

lemma tbl_map_upd:
  assumes inv: "tbl_inv t" and inv': "tbl_inv ((upd_seg t sid s)\<lparr>tbl_size := n\<rparr>)"
    and sid: "sid < length (segments t)"
  shows "tbl_map ((upd_seg t sid s)\<lparr>tbl_size := n\<rparr>) k = Some v \<longleftrightarrow>
    (if seg_id t (hash_builder t k) = sid then \<exists>b i. (b, i, k, v) \<in> seg_items s else tbl_map t k = Some v)"
  using tbl_map_items [OF inv', of k v] tbl_map_items [OF inv, of k v] sid by (auto simp: nth_list_update)

lemma upd_seg_tbl_size: "upd_seg t sid s = (upd_seg t sid s)\<lparr>tbl_size := tbl_size t\<rparr>"
  by (simp add: upd_seg_def)

subsection \<open>Writing a value, inserting, removing\<close>

lemma size_seg_kvs: "size (seg_kvs s) = length (seg_iter s)"
  by (simp add: seg_kvs_def)

lemma set_value_table:
  assumes inv: "tbl_inv t" and h: "h = hash_builder t k"
    and x: "(bucket_idx pos, slot_idx pos, k, v0) \<in> seg_items (segments t ! seg_id t h)"
    and t': "t' = upd_seg t (seg_id t h) (seg_set_value (segments t ! seg_id t h) pos v)"
  shows "tbl_inv t'" and "tbl_map t' = (tbl_map t)(k \<mapsto> v)"
proof -
  let ?sid = "seg_id t h" and ?s = "segments t ! seg_id t h"
  note safe = tbl_invD(1) [OF inv]
  have sid: "?sid < length (segments t)" by (rule seg_id_less [OF tbl_safeD(1) [OF safe]])
  have shape: "seg_shape ?s" by (rule seg_safeD(1) [OF tbl_safeD(2) [OF safe sid]])
  note items = seg_set_value_props(2) [OF shape x refl, of v]
  note sinv = seg_set_value_inv [OF tbl_invD(3) [OF inv] x, of v]
  have tt: "t' = (upd_seg t ?sid (seg_set_value ?s pos v))\<lparr>tbl_size := tbl_size t\<rparr>"
    using t' upd_seg_tbl_size by simp
  have "tbl_safe t'"
    unfolding tt using sinv items tbl_safeD(3) [OF safe sid] x seg_set_value_refs(2) [OF shape x, of v]
    by (intro tbl_upd_safe [OF safe sid]) (auto simp: seg_inv_def size_seg_kvs)
  then show inv': "tbl_inv t'" unfolding tt by (rule tbl_upd_inv [OF inv sid sinv])
  note mu = tbl_map_upd [OF inv inv' [unfolded tt] sid, folded tt]
  have "tbl_map t' k = Some v" unfolding mu using items h by auto
  moreover have "tbl_map t' k' = Some w \<longleftrightarrow> tbl_map t k' = Some w" if "k' \<noteq> k" for k' w
    unfolding mu tbl_map_items [OF inv] using that items by auto
  ultimately show "tbl_map t' = (tbl_map t)(k \<mapsto> v)"
    by (intro ext) (metis fun_upd_apply option_eqI)
qed

lemma try_insert_unfold:
  "tbl_try_insert t k v h = Some (Inr t') \<longleftrightarrow> (\<exists>pos s. insert_new (segments t ! seg_id t h) k v h = Some (Inr (pos, s))
     \<and> t' = (upd_seg t (seg_id t h) s)\<lparr>tbl_size := tbl_size t + 1\<rparr>)"
  "tbl_try_insert t k v h = Some (Inl kv) \<longleftrightarrow> insert_new (segments t ! seg_id t h) k v h = Some (Inl kv)"
  "tbl_try_insert t k v h = None \<longleftrightarrow> insert_new (segments t ! seg_id t h) k v h = None"
  by (auto simp: tbl_try_insert_def Let_def split: option.splits sum.splits)

lemma try_insert_safe:
  assumes safe: "tbl_safe t" and ins: "tbl_try_insert t k v (hash_builder t k) = Some (Inr t')"
  shows "tbl_safe t'" and "hash_builder t' = hash_builder t" and "length (segments t') = length (segments t)"
    and "mset (tbl_iter t') = add_mset (k, v) (mset (tbl_iter t))"
proof -
  let ?h = "hash_builder t k" and ?sid = "seg_id t (hash_builder t k)"
  have sid: "?sid < length (segments t)" by (rule seg_id_less [OF tbl_safeD(1) [OF safe]])
  obtain pos s where i: "insert_new (segments t ! ?sid) k v ?h = Some (Inr (pos, s))"
    and t': "t' = (upd_seg t ?sid s)\<lparr>tbl_size := tbl_size t + 1\<rparr>"
    using ins unfolding try_insert_unfold by blast
  note n = insert_new_safe [OF tbl_safeD(2) [OF safe sid] i]
  have kvs: "seg_kvs s = add_mset (k, v) (seg_kvs (segments t ! ?sid))" by (rule seg_kvs_insert [OF n(2,3)])
  show "tbl_safe t'"
    unfolding t' using n(1,2) kvs tbl_safeD(3) [OF safe sid] by (intro tbl_upd_safe [OF safe sid]) auto
  show "hash_builder t' = hash_builder t" "length (segments t') = length (segments t)" by (simp_all add: t')
  show "mset (tbl_iter t') = add_mset (k, v) (mset (tbl_iter t))"
    using mset_tbl_iter_upd [OF sid, of s] kvs by (simp add: t')
qed

lemma try_insert_inv:
  assumes inv: "tbl_inv t" and ins: "tbl_try_insert t k v (hash_builder t k) = Some (Inr t')"
    and fresh: "tbl_map t k = None"
  shows "tbl_inv t'" and "tbl_map t' = (tbl_map t)(k \<mapsto> v)"
proof -
  let ?h = "hash_builder t k" and ?sid = "seg_id t (hash_builder t k)"
  note safe = tbl_invD(1) [OF inv]
  have sid: "?sid < length (segments t)" by (rule seg_id_less [OF tbl_safeD(1) [OF safe]])
  obtain pos s where i: "insert_new (segments t ! ?sid) k v ?h = Some (Inr (pos, s))"
    and t': "t' = (upd_seg t ?sid s)\<lparr>tbl_size := tbl_size t + 1\<rparr>"
    using ins unfolding try_insert_unfold by blast
  have "seg_inv (hash_builder t) s"
    using insert_new_inv [OF tbl_invD(3) [OF inv] i] fresh tbl_map_None [OF inv] by blast
  then show inv': "tbl_inv t'"
    unfolding t' using try_insert_safe(1) [OF safe ins, unfolded t'] by (intro tbl_upd_inv [OF inv sid])
  have "tbl_map t' k' = Some w \<longleftrightarrow> (k', w) = (k, v) \<or> tbl_map t k' = Some w" for k' w
    using tbl_map_iter [OF inv'] tbl_map_iter [OF inv] try_insert_safe(4) [OF safe ins]
    by (metis insert_iff set_mset_add_mset_insert set_mset_mset)
  then show "tbl_map t' = (tbl_map t)(k \<mapsto> v)"
    using fresh by (intro ext option_eqI) (auto)
qed

subsection \<open>Keys are distinct, and the size counts them\<close>

lemma keys_uniqueD:
  assumes "keys_unique s" and "(b, i, k, v) \<in> seg_items s" and "(b', i', k, v') \<in> seg_items s"
  shows "b = b' \<and> i = i' \<and> v = v'"
proof -
  have "b = b' \<and> i = i'" using assms unfolding keys_unique_def by blast
  then show ?thesis using assms(2,3) by (simp add: seg_items_def)
qed

lemma distinct_seg_keys:
  assumes "keys_unique s"
  shows "distinct (map fst (seg_pairs s))"
proof -
  have "inj_on (\<lambda>(b, i, k, v). k) (seg_items s)"
    using keys_uniqueD [OF assms] by (intro inj_onI) auto
  then have "distinct (map (\<lambda>(b, i, k, v). k) (seg_iter s))"
    by (simp add: distinct_map distinct_seg_iter set_seg_iter)
  then show ?thesis by (simp add: seg_pairs_def comp_def case_prod_unfold)
qed

lemma distinct_tbl_keys:
  assumes inv: "tbl_inv t"
  shows "distinct (map fst (tbl_iter t))"
proof -
  have "tbl_iter t = concat (map (\<lambda>i. seg_pairs (segments t ! i)) [0..<length (segments t)])"
    unfolding tbl_iter_pairs by (intro arg_cong [of _ _ concat] nth_equalityI) simp_all
  then have "map fst (tbl_iter t) = concat (map (\<lambda>i. map fst (seg_pairs (segments t ! i))) [0..<length (segments t)])"
    by (simp add: map_concat comp_def)
  moreover have "distinct (concat (map (\<lambda>i. map fst (seg_pairs (segments t ! i))) [0..<length (segments t)]))"
  proof (rule distinct_concat_tagged [where tag = "\<lambda>k. seg_id t (hash_builder t k)"])
    fix i
    assume i: "i \<in> set [0..<length (segments t)]"
    then show "distinct (map fst (seg_pairs (segments t ! i)))"
      using tbl_invD(2) [OF inv, of i] by (intro distinct_seg_keys) (simp add: seg_inv_def)
    fix k
    assume "k \<in> set (map fst (seg_pairs (segments t ! i)))"
    then show "seg_id t (hash_builder t k) = i"
      using i tbl_safeD(3) [OF tbl_invD(1) [OF inv], of i] by (auto simp: set_seg_pairs)
  qed simp
  ultimately show ?thesis by simp
qed

lemma tbl_size_card:
  assumes inv: "tbl_inv t"
  shows "finite (dom (tbl_map t))" and "tbl_size t = card (dom (tbl_map t))"
proof -
  have d: "dom (tbl_map t) = set (map fst (tbl_iter t))" by (simp add: tbl_map_def dom_map_of_conv_image_fst)
  then show "finite (dom (tbl_map t))" by simp
  show "tbl_size t = card (dom (tbl_map t))"
    unfolding d distinct_card [OF distinct_tbl_keys [OF inv]]
    using tbl_safeD(4) [OF tbl_invD(1) [OF inv]] by simp
qed

subsection \<open>\<open>grow\<close>\<close>

lemma drain_items_safe:
  assumes "seg_safe hf s" and "distinct ps"
    and "\<And>b i h. (b, i, h) \<in> set ps \<Longrightarrow> \<exists>k v. (b, i, k, v) \<in> seg_items s \<and> h = hf k"
  shows "\<exists>xs rest. drain_items s ps = Some xs \<and> length xs = length ps \<and> (\<forall>(k, v, h) \<in> set xs. h = hf k)
    \<and> seg_kvs s = mset (map (\<lambda>(k, v, h). (k, v)) xs) + rest"
  using assms
proof (induction ps arbitrary: s)
  case (Cons p ps)
  obtain b i h where p: "p = (b, i, h)" by (cases p) auto
  then obtain k v where x: "(b, i, k, v) \<in> seg_items s" and h: "h = hf k" using Cons.prems(3) [of b i h] by auto
  obtain kv s' where del: "seg_delete s (mk_pos b i) (hf k) = (kv, s')" by fastforce
  note d = seg_delete_safe [OF Cons.prems(1) _ del, simplified, OF x]
  have "\<exists>k v. (b', i', k, v) \<in> seg_items s' \<and> h' = hf k" if mem: "(b', i', h') \<in> set ps" for b' i' h'
  proof -
    obtain k' v' where y: "(b', i', k', v') \<in> seg_items s" "h' = hf k'"
      using Cons.prems(3) [of b' i' h'] mem by auto
    have "(b', i', k', v') \<noteq> (b, i, k, v)" using Cons.prems(2) mem y(2) h by (auto simp: p)
    then show ?thesis using y d(3) by blast
  qed
  then obtain xs rest where ih: "drain_items s' ps = Some xs" "length xs = length ps" "\<forall>(k, v, h) \<in> set xs. h = hf k"
    "seg_kvs s' = mset (map (\<lambda>(k, v, h). (k, v)) xs) + rest"
    using Cons.IH [OF d(2)] Cons.prems(2) by auto
  have "drop_bit i (busy (slots (buckets s ! b))) AND 1 \<noteq> 0"
    using seg_itemsD(4) [OF seg_safeD(1) [OF Cons.prems(1)] x] unfolding drop_bit_and_1 by (simp add: busy_slots_def)
  then have "drain_items s (p # ps) = Some ((k, v, h) # xs)" using ih(1) del d(1) by (simp add: p h)
  moreover have "seg_kvs s = mset (map (\<lambda>(k, v, h). (k, v)) ((k, v, h) # xs)) + rest"
    using seg_kvs_remove [OF d(3) x] ih(4) by simp
  ultimately show ?case using ih(2,3) h by auto
qed auto

lemma drain_segment_safe:
  assumes "seg_safe hf s"
  shows "\<exists>xs. drain_segment hf s = Some xs \<and> (\<forall>(k, v, h) \<in> set xs. h = hf k)
    \<and> mset (map (\<lambda>(k, v, h). (k, v)) xs) = seg_kvs s"
proof -
  let ?f = "\<lambda>(b :: nat, i :: nat, k, v :: 'b). (b, i, hf k)"
  let ?ps = "rev (sort (map ?f (seg_iter s)))"
  have "distinct (map ?f (seg_iter s))"
    unfolding distinct_map by (auto simp: distinct_seg_iter set_seg_iter inj_on_def seg_items_def)
  moreover have "\<exists>k v. (b, i, k, v) \<in> seg_items s \<and> h = hf k" if "(b, i, h) \<in> set ?ps" for b i h
    using that by (auto simp: set_seg_iter)
  ultimately obtain xs rest where xs: "drain_items s ?ps = Some xs" "length xs = length ?ps"
    "\<forall>(k, v, h) \<in> set xs. h = hf k" "seg_kvs s = mset (map (\<lambda>(k, v, h). (k, v)) xs) + rest"
    using drain_items_safe [OF assms, of ?ps] by auto
  have "size (seg_kvs s) = length xs" using xs(2) by (simp add: size_seg_kvs)
  then have "rest = {#}" using arg_cong [OF xs(4), of size] by simp
  then show ?thesis using xs by (simp add: drain_segment_def)
qed

lemma drain_all_safe:
  assumes "\<forall>s \<in> set segs. seg_safe hf s"
  shows "\<exists>xs. drain_all hf segs = Some xs \<and> (\<forall>(k, v, h) \<in> set xs. h = hf k)
    \<and> mset (map (\<lambda>(k, v, h). (k, v)) xs) = sum_list (map seg_kvs segs)"
  using assms
proof (induction segs)
  case (Cons s segs)
  obtain xs where xs: "drain_segment hf s = Some xs" "\<forall>(k, v, h) \<in> set xs. h = hf k"
    "mset (map (\<lambda>(k, v, h). (k, v)) xs) = seg_kvs s"
    using drain_segment_safe [of hf s] Cons.prems by auto
  obtain ys where ys: "drain_all hf segs = Some ys" "\<forall>(k, v, h) \<in> set ys. h = hf k"
    "mset (map (\<lambda>(k, v, h). (k, v)) ys) = sum_list (map seg_kvs segs)"
    using Cons by auto
  have "drain_all hf (s # segs) = Some (xs @ ys)" using xs(1) ys(1) by simp
  moreover have "\<forall>(k, v, h) \<in> set (xs @ ys). h = hf k" using xs(2) ys(2) by auto
  moreover have "mset (map (\<lambda>(k, v, h). (k, v)) (xs @ ys)) = sum_list (map seg_kvs (s # segs))"
    using xs(3) ys(3) by simp
  ultimately show ?case by blast
qed simp

lemma reinsert_all_safe:
  assumes "tbl_safe t" and "\<forall>(k, v, h) \<in> set xs. h = hash_builder t k" and "reinsert_all t xs = Some t'"
  shows "tbl_safe t' \<and> hash_builder t' = hash_builder t \<and> length (segments t') = length (segments t)
    \<and> mset (tbl_iter t') = mset (tbl_iter t) + mset (map (\<lambda>(k, v, h). (k, v)) xs)"
  using assms
proof (induction xs arbitrary: t)
  case (Cons x xs)
  obtain k v where x: "x = (k, v, hash_builder t k)" using Cons.prems(2) by (cases x) auto
  obtain t1 where t1: "tbl_try_insert t k v (hash_builder t k) = Some (Inr t1)" "reinsert_all t1 xs = Some t'"
    using Cons.prems(3) by (auto simp: x split: option.splits sum.splits)
  note ts = try_insert_safe [OF Cons.prems(1) t1(1)]
  have "\<forall>(k, v, h) \<in> set xs. h = hash_builder t1 k" using Cons.prems(2) by (auto simp: ts(2))
  then show ?case using Cons.IH [OF ts(1) _ t1(2)] ts(2-4) by (simp add: x)
qed simp

lemma reinsert_all_inv:
  assumes "tbl_inv t" and "\<forall>(k, v, h) \<in> set xs. h = hash_builder t k" and "reinsert_all t xs = Some t'"
    and "distinct (map fst xs)" and "\<forall>k \<in> set (map fst xs). tbl_map t k = None"
  shows "tbl_inv t'"
  using assms
proof (induction xs arbitrary: t)
  case (Cons x xs)
  obtain k v where x: "x = (k, v, hash_builder t k)" using Cons.prems(2) by (cases x) auto
  obtain t1 where t1: "tbl_try_insert t k v (hash_builder t k) = Some (Inr t1)" "reinsert_all t1 xs = Some t'"
    using Cons.prems(3) by (auto simp: x split: option.splits sum.splits)
  have "tbl_map t k = None" using Cons.prems(5) by (simp add: x)
  note ti = try_insert_inv [OF Cons.prems(1) t1(1) this]
  have "hash_builder t1 = hash_builder t" by (rule try_insert_safe(2) [OF tbl_invD(1) [OF Cons.prems(1)] t1(1)])
  then have "\<forall>(k, v, h) \<in> set xs. h = hash_builder t1 k" using Cons.prems(2) by auto
  moreover have "\<forall>k \<in> set (map fst xs). tbl_map t1 k = None"
    using Cons.prems(4,5) ti(2) by (auto simp: x)
  ultimately show ?case using Cons.IH [OF ti(1) _ t1(2)] Cons.prems(4) by simp
qed simp

lemma seg_pairs_new: "seg_pairs (segment_new d) = []"
  using set_seg_iter [of "segment_new d"] by (simp add: seg_pairs_def)

lemma tbl_iter_fresh: "tbl_iter (t\<lparr>segments := replicate n (segment_new 1)\<rparr>) = []"
  by (simp add: tbl_iter_pairs seg_pairs_new)

lemma tbl_inv_fresh:
  assumes "n > 0"
  shows "tbl_inv (t\<lparr>segments := replicate n (segment_new 1), tbl_size := 0\<rparr>)"
  using assms
  by (simp add: tbl_inv_def tbl_safe_def routed_def tbl_iter_fresh seg_inv_new seg_safe_new)

text \<open>When \<open>grow\<close> returns, it has kept every entry and doubled the number of segments.\<close>

lemma tbl_grow_safe:
  assumes safe: "tbl_safe t" and g: "tbl_grow t = Some t'"
  shows "tbl_safe t'" and "hash_builder t' = hash_builder t"
    and "length (segments t') = 2 * length (segments t)" and "mset (tbl_iter t') = mset (tbl_iter t)"
    and "tbl_inv t \<Longrightarrow> tbl_inv t'"
proof -
  let ?n = "length (segments t) * 2"
  let ?t0 = "t\<lparr>segments := replicate ?n (segment_new 1), tbl_size := 0\<rparr>"
  have "\<forall>s \<in> set (segments t). seg_safe (hash_builder t) s"
    using tbl_safeD(2) [OF safe] by (metis in_set_conv_nth)
  then obtain xs where xs: "drain_all (hash_builder t) (segments t) = Some xs"
    "\<forall>(k, v, h) \<in> set xs. h = hash_builder t k"
    "mset (map (\<lambda>(k, v, h). (k, v)) xs) = mset (tbl_iter t)"
    using drain_all_safe unfolding mset_tbl_iter by blast
  have r: "reinsert_all ?t0 xs = Some t'" using g xs(1) by (simp add: tbl_grow_def Let_def)
  have inv0: "tbl_inv ?t0" using tbl_safeD(1) [OF safe] by (intro tbl_inv_fresh) simp
  have hb: "\<forall>(k, v, h) \<in> set xs. h = hash_builder ?t0 k" using xs(2) by simp
  note rs = reinsert_all_safe [OF tbl_invD(1) [OF inv0] hb r]
  show "tbl_safe t'" "hash_builder t' = hash_builder t" "length (segments t') = 2 * length (segments t)"
    "mset (tbl_iter t') = mset (tbl_iter t)"
    using rs xs(3) by (auto simp: tbl_iter_fresh)
  show "tbl_inv t'" if inv: "tbl_inv t"
  proof (rule reinsert_all_inv [OF inv0 hb r])
    have "mset (map fst xs) = mset (map fst (tbl_iter t))"
      using arg_cong [OF xs(3), of "image_mset fst"]
      by (simp add: multiset.map_comp comp_def case_prod_unfold)
    then show "distinct (map fst xs)" using distinct_tbl_keys [OF inv] by (metis mset_eq_imp_distinct_iff)
    show "\<forall>k \<in> set (map fst xs). tbl_map ?t0 k = None" by (simp add: tbl_map_def tbl_iter_fresh)
  qed
qed

lemma tbl_map_cong:
  assumes "tbl_inv t" and "tbl_inv t'" and "mset (tbl_iter t') = mset (tbl_iter t)"
  shows "tbl_map t' = tbl_map t"
  using tbl_map_iter [OF assms(1)] tbl_map_iter [OF assms(2)] mset_eq_setD [OF assms(3)]
  by (intro ext option_eqI) blast

lemma tbl_seg_shape: "tbl_safe t \<Longrightarrow> seg_shape (segments t ! seg_id t h)"
  by (meson seg_id_less seg_safeD(1) tbl_safeD(1,2))

lemma try_insert_Inl: "tbl_safe t \<Longrightarrow> tbl_try_insert t k v h = Some (Inl kv) \<Longrightarrow> kv = (k, v)"
  unfolding try_insert_unfold by (rule insert_new_Inl [OF tbl_seg_shape])

lemma try_insert_no_panic: "tbl_safe t \<Longrightarrow> tbl_try_insert t k v h \<noteq> None"
  unfolding try_insert_unfold by (rule insert_new_no_panic [OF tbl_seg_shape])

lemma no_dup_loop_step:
  assumes "tbl_safe t" and "insert_no_dup_loop (Suc n) t k v h = Some t'"
  shows "(\<exists>t1. tbl_try_insert t k v h = Some (Inr t1) \<and> t' = t1)
    \<or> (\<exists>t1. tbl_grow t = Some t1 \<and> insert_no_dup_loop n t1 k v h = Some t')"
  using assms(2) by (auto split: option.splits sum.splits dest!: try_insert_Inl [OF assms(1)])

lemma no_dup_loop_safe:
  assumes "tbl_safe t" and "insert_no_dup_loop n t k v (hash_builder t k) = Some t'"
  shows "tbl_safe t' \<and> hash_builder t' = hash_builder t \<and> mset (tbl_iter t') = add_mset (k, v) (mset (tbl_iter t))"
  using assms
proof (induction n arbitrary: t)
  case (Suc n)
  note safe = Suc.prems(1)
  let ?h = "hash_builder t k"
  consider t1 where "tbl_try_insert t k v ?h = Some (Inr t1)" "t' = t1"
    | t1 where "tbl_grow t = Some t1" "insert_no_dup_loop n t1 k v ?h = Some t'"
    using no_dup_loop_step [OF safe Suc.prems(2)] by blast
  then show ?case
  proof cases
    case 1
    then show ?thesis using try_insert_safe [OF safe 1(1)] by simp
  next
    case 2
    note g = tbl_grow_safe [OF safe 2(1)]
    show ?thesis using Suc.IH [OF g(1)] 2(2) g(2,4) by simp
  qed
qed simp

lemma no_dup_loop_inv:
  assumes "tbl_inv t" and "tbl_map t k = None" and "insert_no_dup_loop n t k v (hash_builder t k) = Some t'"
  shows "tbl_inv t' \<and> tbl_map t' = (tbl_map t)(k \<mapsto> v)"
  using assms
proof (induction n arbitrary: t)
  case (Suc n)
  note safe = tbl_invD(1) [OF Suc.prems(1)]
  let ?h = "hash_builder t k"
  consider t1 where "tbl_try_insert t k v ?h = Some (Inr t1)" "t' = t1"
    | t1 where "tbl_grow t = Some t1" "insert_no_dup_loop n t1 k v ?h = Some t'"
    using no_dup_loop_step [OF safe Suc.prems(3)] by blast
  then show ?case
  proof cases
    case 1
    then show ?thesis using try_insert_inv [OF Suc.prems(1) 1(1) Suc.prems(2)] by simp
  next
    case 2
    note g = tbl_grow_safe [OF safe 2(1)]
    have m: "tbl_map t1 = tbl_map t" by (rule tbl_map_cong [OF Suc.prems(1) g(5) [OF Suc.prems(1)] g(4)])
    show ?thesis using Suc.IH [OF g(5) [OF Suc.prems(1)]] Suc.prems(2) 2(2) g(2) m by simp
  qed
qed simp

subsection \<open>\<open>insert\<close>, \<open>find_mut\<close>, \<open>remove\<close>\<close>

lemma tbl_insert_inv [inv_intros]:
  assumes inv: "tbl_inv t" and ins: "tbl_insert t k v = Some (old, t')"
  shows "tbl_inv t'" and "tbl_map t' = (tbl_map t)(k \<mapsto> v)" and "old = tbl_map t k"
proof -
  note safe = tbl_invD(1) [OF inv]
  let ?h = "hash_key t k"
  have hk: "?h = hash_builder t k" by (simp add: hash_key_def)
  have "tbl_inv t' \<and> tbl_map t' = (tbl_map t)(k \<mapsto> v) \<and> old = tbl_map t k"
  proof (cases "seg_find (segments t ! seg_id t ?h) ?h (\<lambda>k'. k' = k)")
    case (Some pos)
    then obtain v0 where v0: "(bucket_idx pos, slot_idx pos, k, v0) \<in> seg_items (segments t ! seg_id t ?h)"
      "bucket_value (buckets (segments t ! seg_id t ?h) ! bucket_idx pos) (slot_idx pos) = Some v0"
      "tbl_map t k = Some v0" by (rule tbl_find_pos [OF inv])
    have t': "t' = upd_seg t (seg_id t ?h) (seg_set_value (segments t ! seg_id t ?h) pos v)" and old: "old = Some v0"
      using ins Some v0(2) unfolding tbl_insert_def Let_def by auto
    show ?thesis using set_value_table [OF inv hk v0(1) t'] v0(3) old by simp
  next
    case None
    then have fresh: "tbl_map t k = None" using tbl_find_None_pos [OF inv] by blast
    consider "old = None" "tbl_try_insert t k v ?h = Some (Inr t')"
      | t1 where "old = None" "tbl_grow t = Some t1" "insert_no_dup t1 k v ?h = Some t'"
      using ins None
      by (auto simp: tbl_insert_def Let_def split: option.splits sum.splits dest!: try_insert_Inl [OF safe])
    then show ?thesis
    proof cases
      case 1
      then show ?thesis using try_insert_inv [OF inv _ fresh] fresh by (simp add: hk)
    next
      case 2
      note g = tbl_grow_safe [OF safe 2(2)]
      have "tbl_map t1 = tbl_map t" by (rule tbl_map_cong [OF inv g(5) [OF inv] g(4)])
      then show ?thesis
        using no_dup_loop_inv [OF g(5) [OF inv]] 2 g(2) fresh by (simp add: insert_no_dup_def hk)
    qed
  qed
  then show "tbl_inv t'" and "tbl_map t' = (tbl_map t)(k \<mapsto> v)" and "old = tbl_map t k" by blast+
qed

lemma tbl_find_mut_inv:
  assumes inv: "tbl_inv t"
  shows "tbl_find_mut t k f = None \<longleftrightarrow> tbl_map t k = None"
    and "tbl_find_mut t k f = Some t' \<Longrightarrow>
      tbl_inv t' \<and> (\<exists>v. tbl_map t k = Some v \<and> tbl_map t' = (tbl_map t)(k \<mapsto> f v))"
proof -
  let ?h = "hash_key t k"
  have hk: "?h = hash_builder t k" by (simp add: hash_key_def)
  have "(tbl_find_mut t k f = None \<longleftrightarrow> tbl_map t k = None) \<and> (tbl_find_mut t k f = Some t' \<longrightarrow>
      tbl_inv t' \<and> (\<exists>v. tbl_map t k = Some v \<and> tbl_map t' = (tbl_map t)(k \<mapsto> f v)))"
  proof (cases "seg_find (segments t ! seg_id t ?h) ?h (\<lambda>k'. k' = k)")
    case (Some pos)
    then obtain v0 where v0: "(bucket_idx pos, slot_idx pos, k, v0) \<in> seg_items (segments t ! seg_id t ?h)"
      "bucket_value (buckets (segments t ! seg_id t ?h) ! bucket_idx pos) (slot_idx pos) = Some v0"
      "tbl_map t k = Some v0" by (rule tbl_find_pos [OF inv])
    then show ?thesis
      using Some set_value_table [OF inv hk v0(1) refl, of "f v0"] by (auto simp: tbl_find_mut_def Let_def)
  next
    case None
    then have "tbl_map t k = None" using tbl_find_None_pos [OF inv] by blast
    then show ?thesis using None by (simp add: tbl_find_mut_def Let_def)
  qed
  then show "tbl_find_mut t k f = None \<longleftrightarrow> tbl_map t k = None"
    and "tbl_find_mut t k f = Some t' \<Longrightarrow>
      tbl_inv t' \<and> (\<exists>v. tbl_map t k = Some v \<and> tbl_map t' = (tbl_map t)(k \<mapsto> f v))" by blast+
qed

lemma tbl_remove_found:
  assumes safe: "tbl_safe t" and h: "h = hash_builder t k"
    and x: "(bucket_idx pos, slot_idx pos, k, v) \<in> seg_items (segments t ! seg_id t h)"
    and del: "seg_delete (segments t ! seg_id t h) pos h = (kv, s')"
    and t': "t' = (upd_seg t (seg_id t h) s')\<lparr>tbl_size := tbl_size t - 1\<rparr>"
  shows "tbl_safe t'" and "mset (tbl_iter t) = add_mset (k, v) (mset (tbl_iter t'))"
    and "tbl_inv t \<Longrightarrow> next_clean (segments t ! seg_id t h) pos h \<Longrightarrow> tbl_inv t' \<and> tbl_map t' = (tbl_map t)(k := None)"
proof -
  let ?s = "segments t ! seg_id t h"
  have sid: "seg_id t h < length (segments t)" by (rule seg_id_less [OF tbl_safeD(1) [OF safe]])
  have del': "seg_delete ?s pos (hash_builder t k) = (kv, s')" using del h by simp
  note d = seg_delete_safe [OF tbl_safeD(2) [OF safe sid] x del']
  have kvs: "seg_kvs ?s = add_mset (k, v) (seg_kvs s')" by (rule seg_kvs_remove [OF d(3) x])
  show iter: "mset (tbl_iter t) = add_mset (k, v) (mset (tbl_iter t'))"
    using mset_tbl_iter_upd [OF sid, of s'] kvs by (simp add: t')
  then have "length (tbl_iter t) = length (tbl_iter t') + 1" by (metis Suc_eq_plus1 size_add_mset size_mset)
  then have "tbl_size t - 1 + size (seg_kvs ?s) = tbl_size t + size (seg_kvs s')"
    using kvs tbl_safeD(4) [OF safe] by simp
  then show safe': "tbl_safe t'"
    unfolding t' using d(2,3) tbl_safeD(3) [OF safe sid] by (intro tbl_upd_safe [OF safe sid]) auto
  assume inv: "tbl_inv t" and clean: "next_clean ?s pos h"
  have "seg_inv (hash_builder t) s'"
    using seg_delete_inv [OF tbl_invD(3) [OF inv] x del'] clean h by simp
  then have inv': "tbl_inv t'"
    unfolding t' using safe' [unfolded t'] by (intro tbl_upd_inv [OF inv sid])
  have "tbl_map t' k = None"
  proof -
    have "mset (map fst (tbl_iter t)) = mset (k # map fst (tbl_iter t'))"
      using arg_cong [OF iter, of "image_mset fst"] by simp
    then have "distinct (k # map fst (tbl_iter t'))"
      using distinct_tbl_keys [OF inv] mset_eq_imp_distinct_iff by blast
    then show ?thesis by (simp add: tbl_map_def map_of_eq_None_iff)
  qed
  moreover have "tbl_map t' k' = Some w \<longleftrightarrow> tbl_map t k' = Some w" if "k' \<noteq> k" for k' w
    unfolding tbl_map_iter [OF inv'] tbl_map_iter [OF inv] using that arg_cong [OF iter, of set_mset] by auto
  ultimately show "tbl_inv t' \<and> tbl_map t' = (tbl_map t)(k := None)"
    using inv' by (intro conjI ext) (simp, metis fun_upd_apply option_eqI)
qed

lemma tbl_remove_absent:
  "tbl_inv t \<Longrightarrow> tbl_map t k = None \<Longrightarrow> tbl_remove t k = (None, t)"
  using tbl_find_None_pos [of t k] by (simp add: tbl_remove_def Let_def)

lemma tbl_remove_inv [inv_intros]:
  assumes inv: "tbl_inv t" and clean: "tbl_removable t k" and rem: "tbl_remove t k = (old, t')"
  shows "tbl_inv t'" and "tbl_map t' = (tbl_map t)(k := None)" and "old = tbl_map t k"
proof -
  let ?h = "hash_key t k"
  have hk: "?h = hash_builder t k" by (simp add: hash_key_def)
  have "tbl_inv t' \<and> tbl_map t' = (tbl_map t)(k := None) \<and> old = tbl_map t k"
  proof (cases "seg_find (segments t ! seg_id t ?h) ?h (\<lambda>k'. k' = k)")
    case None
    then have fresh: "tbl_map t k = None" using tbl_find_None_pos [OF inv] by blast
    then show ?thesis using tbl_remove_absent [OF inv fresh] rem inv by auto
  next
    case (Some pos)
    then obtain v where v: "(bucket_idx pos, slot_idx pos, k, v) \<in> seg_items (segments t ! seg_id t ?h)"
      "tbl_map t k = Some v" by (rule tbl_find_pos [OF inv])
    obtain kv s' where del: "seg_delete (segments t ! seg_id t ?h) pos ?h = (kv, s')" by fastforce
    have sid: "seg_id t ?h < length (segments t)"
      by (rule seg_id_less [OF tbl_safeD(1) [OF tbl_invD(1) [OF inv]]])
    have "kv = (Some k, Some v)"
      using seg_delete_safe(1) [OF tbl_safeD(2) [OF tbl_invD(1) [OF inv] sid] v(1)] del hk by simp
    then have t': "t' = (upd_seg t (seg_id t ?h) s')\<lparr>tbl_size := tbl_size t - 1\<rparr>" and old: "old = Some v"
      using rem Some del unfolding tbl_remove_def Let_def by auto
    have "next_clean (segments t ! seg_id t ?h) pos ?h" using clean Some by (simp add: tbl_removable_def Let_def)
    then show ?thesis using tbl_remove_found(3) [OF tbl_invD(1) [OF inv] hk v(1) del t' inv] v(2) old by simp
  qed
  then show "tbl_inv t'" and "tbl_map t' = (tbl_map t)(k := None)" and "old = tbl_map t k" by blast+
qed

text \<open>\<open>insert\<close> and \<open>remove\<close> keep \<open>tbl_safe\<close> with no condition at all.\<close>

lemma find_hit_item:
  assumes "tbl_safe t" and "seg_find (segments t ! seg_id t (hash_builder t k)) (hash_builder t k) (\<lambda>k'. k' = k) = Some pos"
  obtains v where "(bucket_idx pos, slot_idx pos, k, v) \<in> seg_items (segments t ! seg_id t (hash_builder t k))"
  using seg_find_sound [OF tbl_seg_shape [OF assms(1)] assms(2)] unfolding seg_hit_def by blast

lemma set_value_table_safe:
  assumes safe: "tbl_safe t" and h: "h = hash_builder t k"
    and x: "(bucket_idx pos, slot_idx pos, k, v0) \<in> seg_items (segments t ! seg_id t h)"
  shows "tbl_safe (upd_seg t (seg_id t h) (seg_set_value (segments t ! seg_id t h) pos v))"
proof -
  let ?s = "segments t ! seg_id t h"
  have sid: "seg_id t h < length (segments t)" by (rule seg_id_less [OF tbl_safeD(1) [OF safe]])
  note shape = seg_safeD(1) [OF tbl_safeD(2) [OF safe sid]]
  note items = seg_set_value_props(2) [OF shape x refl, of v]
  show ?thesis
    using seg_set_value_safe [OF tbl_safeD(2) [OF safe sid] x] items tbl_safeD(3) [OF safe sid] x
      seg_set_value_refs(2) [OF shape x, of v]
    by (subst upd_seg_tbl_size, intro tbl_upd_safe [OF safe sid]) (auto simp: size_seg_kvs)
qed

lemma tbl_insert_safe [inv_intros]:
  assumes safe: "tbl_safe t" and ins: "tbl_insert t k v = Some (old, t')"
  shows "tbl_safe t'"
proof (cases "seg_find (segments t ! seg_id t (hash_builder t k)) (hash_builder t k) (\<lambda>k'. k' = k)")
  case (Some pos)
  then obtain v0 where "(bucket_idx pos, slot_idx pos, k, v0) \<in> seg_items (segments t ! seg_id t (hash_builder t k))"
    by (rule find_hit_item [OF safe])
  then show ?thesis
    using set_value_table_safe [OF safe refl] ins Some unfolding tbl_insert_def Let_def hash_key_def by auto
next
  case None
  consider "tbl_try_insert t k v (hash_builder t k) = Some (Inr t')"
    | t1 where "tbl_grow t = Some t1" "insert_no_dup t1 k v (hash_builder t k) = Some t'"
    using ins None
    by (auto simp: tbl_insert_def Let_def hash_key_def split: option.splits sum.splits
        dest!: try_insert_Inl [OF safe])
  then show ?thesis
  proof cases
    case 1
    then show ?thesis by (rule try_insert_safe(1) [OF safe])
  next
    case 2
    note g = tbl_grow_safe [OF safe 2(1)]
    show ?thesis using no_dup_loop_safe [OF g(1)] 2(2) g(2) by (simp add: insert_no_dup_def)
  qed
qed

lemma tbl_remove_safe [inv_intros]:
  assumes safe: "tbl_safe t" and rem: "tbl_remove t k = (old, t')"
  shows "tbl_safe t'"
proof (cases "seg_find (segments t ! seg_id t (hash_builder t k)) (hash_builder t k) (\<lambda>k'. k' = k)")
  case (Some pos)
  then obtain v where v: "(bucket_idx pos, slot_idx pos, k, v) \<in> seg_items (segments t ! seg_id t (hash_builder t k))"
    by (rule find_hit_item [OF safe])
  obtain kv s' where del: "seg_delete (segments t ! seg_id t (hash_builder t k)) pos (hash_builder t k) = (kv, s')"
    by fastforce
  have "t' = (upd_seg t (seg_id t (hash_builder t k)) s')\<lparr>tbl_size := tbl_size t - 1\<rparr>"
    using rem Some del unfolding tbl_remove_def Let_def hash_key_def by (auto split: prod.splits)
  then show ?thesis by (rule tbl_remove_found(1) [OF safe refl v del])
qed (use rem safe in \<open>simp add: tbl_remove_def Let_def hash_key_def\<close>)

subsection \<open>When an insertion cannot fail\<close>

lemma full_bucket_items:
  assumes "seg_shape s" and "b < TOTAL_BUCKETS" and "is_full (slots (buckets s ! b))" and "i < NUM_SLOTS"
  shows "(b, i) \<in> (\<lambda>(b, i, k, v). (b, i)) ` seg_items s"
proof -
  have "i \<in> busy_slots (slots (buckets s ! b))"
    using seg_shapeD(2) [OF assms(1,2)] assms(3,4) by (simp add: slots_inv_def is_full_iff)
  then show ?thesis using busy_item [OF assms(1,2)] by (metis (no_types, lifting) case_prod_conv image_eqI)
qed

lemma insert_new_not_full:
  assumes safe: "seg_safe hf s" and n: "item_count s < 2 * NUM_SLOTS + NUM_STASH * NUM_SLOTS"
  shows "\<exists>pos s'. insert_new s k v h = Some (Inr (pos, s'))"
  using seg_safeD(1) [OF safe]
proof (cases rule: insert_new_cases [where hash = h and k = k and v = v])
  case full
  note shape = seg_safeD(1) [OF safe]
  let ?bs = "{home_bucket h, next_bucket (home_bucket h)} \<union> {NUM_BUCKETS..<TOTAL_BUCKETS}"
  let ?pos = "(\<lambda>(b, i, k, v). (b, i)) ` seg_items s"
  have "is_full (slots (buckets s ! b)) \<and> b < TOTAL_BUCKETS" if "b \<in> ?bs" for b
  proof (cases "NUM_BUCKETS \<le> b")
    case True
    then have "b = NUM_BUCKETS + (b - NUM_BUCKETS)" "b < TOTAL_BUCKETS"
      using that home_bucket_less [of h] next_bucket_less [OF home_bucket_less, of h] by (auto dest: bucket_less_total)
    then show ?thesis using full(4) by (metis TOTAL_BUCKETS_def add_less_cancel_left)
  qed (use that full in auto)
  then have "?bs \<times> {..<NUM_SLOTS} \<subseteq> ?pos" using full_bucket_items [OF shape] by blast
  then have "card (?bs \<times> {..<NUM_SLOTS}) \<le> card ?pos" by (intro card_mono) simp_all
  also have "\<dots> \<le> card (seg_items s)" by (rule card_image_le) simp
  also have "\<dots> = item_count s"
    using seg_safeD(4) [OF safe] mset_seg_iter [of s] by (metis size_mset size_mset_set)
  finally have "card ?bs * NUM_SLOTS \<le> item_count s" by (simp add: card_cartesian_product)
  moreover have "card ?bs = 2 + NUM_STASH"
  proof (subst card_Un_disjoint)
    show "{home_bucket h, next_bucket (home_bucket h)} \<inter> {NUM_BUCKETS..<TOTAL_BUCKETS} = {}"
      using home_bucket_less [of h] next_bucket_less [OF home_bucket_less, of h]
      by (auto simp del: home_bucket_less next_bucket_less)
    show "card {home_bucket h, next_bucket (home_bucket h)} + card {NUM_BUCKETS..<TOTAL_BUCKETS} = 2 + NUM_STASH"
      using next_bucket_neq [OF home_bucket_less, of h, THEN not_sym] by (simp add: TOTAL_BUCKETS_def)
  qed simp_all
  ultimately show ?thesis using n by (simp add: add_mult_distrib)
qed auto

lemma tbl_insert_total:
  assumes inv: "tbl_inv t" and room: "tbl_has_room t k"
  shows "\<exists>t'. tbl_insert t k v = Some (tbl_map t k, t')"
proof -
  let ?h = "hash_key t k"
  have "\<exists>old t'. tbl_insert t k v = Some (old, t')"
  proof (cases "seg_find (segments t ! seg_id t ?h) ?h (\<lambda>k'. k' = k)")
    case (Some pos)
    then show ?thesis by (simp add: tbl_insert_def Let_def)
  next
    case None
    then have "tbl_find t k = None" by (simp add: tbl_find_def Let_def)
    then have n: "item_count (segments t ! seg_id t ?h) < 2 * NUM_SLOTS + NUM_STASH * NUM_SLOTS"
      using room by (simp add: tbl_has_room_def)
    have "seg_safe (hash_builder t) (segments t ! seg_id t ?h)"
      using tbl_invD(3) [OF inv, of ?h] by (simp add: seg_inv_def)
    then obtain pos s' where "insert_new (segments t ! seg_id t ?h) k v ?h = Some (Inr (pos, s'))"
      using insert_new_not_full [OF _ n] by blast
    then show ?thesis using None by (simp add: tbl_insert_def Let_def tbl_try_insert_def)
  qed
  then show ?thesis using tbl_insert_inv(3) [OF inv] by blast
qed

lemma tbl_clear_inv [inv_intros]: "tbl_inv (tbl_clear t)"
  and tbl_clear_map [map_view]: "tbl_map (tbl_clear t) = Map.empty"
  by (simp_all add: tbl_clear_def tbl_inv_fresh tbl_map_def tbl_iter_fresh)

lemma tbl_new_inv [inv_intros]: "tbl_inv (tbl_with_hasher hf)"
  and tbl_new_map [map_view]: "tbl_map (tbl_with_hasher hf) = Map.empty"
proof -
  have "tbl_with_hasher hf = (tbl_with_hasher hf)\<lparr>segments := replicate 4 (segment_new 1), tbl_size := 0\<rparr>"
    by (simp add: tbl_with_hasher_def)
  then show "tbl_inv (tbl_with_hasher hf)" by (metis tbl_inv_fresh zero_less_numeral)
  show "tbl_map (tbl_with_hasher hf) = Map.empty"
    by (simp add: tbl_with_hasher_def tbl_map_def tbl_iter_pairs seg_pairs_new)
qed

subsection \<open>\<open>scan\<close>\<close>

lemma tbl_scan_step:
  assumes "start < length (tbl_iter t)" and "start + unat cnt < 2 ^ 64"
  shows "tbl_scan t (Cursor (of_nat start)) cnt =
    Some (take (unat cnt) (drop start (tbl_iter t)),
          if start + unat cnt \<ge> length (tbl_iter t) then cursor_DONE else Cursor (of_nat (start + unat cnt)))"
proof -
  have s: "unat (of_nat start :: u64) = start"
    using assms(2) by (intro unat_of_nat_u64) simp
  have "unat ((of_nat start :: u64) + cnt) = start + unat cnt"
    using assms(2) s by (simp add: unat_add_lem [THEN iffD1])
  then show ?thesis
    using assms(1) s by (auto simp: tbl_scan_def Let_def cursor_new_def min_def)
qed

text \<open>The loop of a client that follows the cursor until it is 0.\<close>

fun scan_from :: "nat \<Rightarrow> ('k, 'v) dash_table \<Rightarrow> cursor \<Rightarrow> u64 \<Rightarrow> ('k \<times> 'v) list option" where
  "scan_from 0 t c cnt = None"
| "scan_from (Suc n) t c cnt =
     (case tbl_scan t c cnt of
        None \<Rightarrow> None
      | Some (xs, c') \<Rightarrow> if cursor_is_done c' then Some xs else map_option ((@) xs) (scan_from n t c' cnt))"

lemma scan_from_drop:
  assumes "0 < cnt" and "length (tbl_iter t) + unat cnt < 2 ^ 64" and "start < length (tbl_iter t)"
    and "length (tbl_iter t) - start \<le> n"
  shows "scan_from n t (Cursor (of_nat start)) cnt = Some (drop start (tbl_iter t))"
  using assms(3,4)
proof (induction n arbitrary: start)
  case (Suc n)
  let ?e = "start + unat cnt"
  have c: "0 < unat cnt" using assms(1) by (simp add: unat_gt_0 word_gt_0)
  note step = tbl_scan_step [OF Suc.prems(1), of cnt]
  show ?case
  proof (cases "?e \<ge> length (tbl_iter t)")
    case True
    then show ?thesis using step assms(2) Suc.prems(1) by (simp add: cursor_is_done_def cursor_DONE_def)
  next
    case False
    then have "unat (of_nat ?e :: u64) = ?e" using assms(2) by (intro unat_of_nat_u64) simp
    then have "\<not> cursor_is_done (Cursor (of_nat ?e))" using c by (auto simp: cursor_is_done_def)
    moreover have "scan_from n t (Cursor (of_nat ?e)) cnt = Some (drop ?e (tbl_iter t))"
      using False Suc.prems c by (intro Suc.IH) auto
    moreover have "take (unat cnt) (drop start (tbl_iter t)) @ drop ?e (tbl_iter t) = drop start (tbl_iter t)"
      by (metis add.commute append_take_drop_id drop_drop)
    ultimately show ?thesis using step assms(2) False by simp
  qed
qed simp


subsection \<open>The contract of a key-value table\<close>

text \<open>
  What the database relies on. \<open>tmap\<close> is the abstraction; \<open>insert\<close> may panic (\<open>None\<close>) unless
  \<open>room\<close>, \<open>remove\<close> keeps the contract when \<open>removable\<close>.
\<close>

locale kv_table =
  fixes inv :: "'t \<Rightarrow> bool" and tmap :: "'t \<Rightarrow> 'k \<rightharpoonup> 'v"
    and find :: "'t \<Rightarrow> 'k \<Rightarrow> 'v option" and ins :: "'t \<Rightarrow> 'k \<Rightarrow> 'v \<Rightarrow> ('v option \<times> 't) option"
    and rem :: "'t \<Rightarrow> 'k \<Rightarrow> 'v option \<times> 't" and clear :: "'t \<Rightarrow> 't" and len :: "'t \<Rightarrow> nat"
    and iter :: "'t \<Rightarrow> ('k \<times> 'v) list"
    and room :: "'t \<Rightarrow> 'k \<Rightarrow> bool" and removable :: "'t \<Rightarrow> 'k \<Rightarrow> bool"
  assumes find_map: "inv t \<Longrightarrow> find t k = tmap t k"
    and ins_map: "inv t \<Longrightarrow> ins t k v = Some (old, t') \<Longrightarrow>
          inv t' \<and> tmap t' = (tmap t)(k \<mapsto> v) \<and> old = tmap t k"
    and ins_total: "inv t \<Longrightarrow> room t k \<Longrightarrow> ins t k v \<noteq> None"
    and rem_map: "inv t \<Longrightarrow> removable t k \<Longrightarrow> rem t k = (old, t') \<Longrightarrow>
          inv t' \<and> tmap t' = (tmap t)(k := None) \<and> old = tmap t k"
    and rem_absent: "inv t \<Longrightarrow> tmap t k = None \<Longrightarrow> rem t k = (None, t)"
    and clear_map: "inv (clear t) \<and> tmap (clear t) = Map.empty"
    and len_card: "inv t \<Longrightarrow> len t = card (dom (tmap t))"
    and iter_map: "inv t \<Longrightarrow> set (iter t) = {(k, v). tmap t k = Some v} \<and> distinct (map fst (iter t))"
begin

lemma find_after_ins:
  assumes "inv t" and "ins t k v = Some (old, t')"
  shows "find t' k' = (if k' = k then Some v else find t k')"
  using ins_map [OF assms] assms(1) by (simp add: find_map)

lemma find_after_rem:
  assumes "inv t" and "removable t k" and "rem t k = (old, t')"
  shows "find t' k' = (if k' = k then None else find t k')"
  using rem_map [OF assms] assms(1) by (simp add: find_map)

lemma ins_rem_absent:
  assumes "inv t" and "find t k = None" and "ins t k v = Some (old, t')" and "removable t' k" and "rem t' k = (w, t'')"
  shows "w = Some v \<and> tmap t'' = tmap t"
proof -
  have i: "inv t'" "tmap t' = (tmap t)(k \<mapsto> v)" using ins_map [OF assms(1,3)] by blast+
  then have "w = Some v" "tmap t'' = ((tmap t)(k \<mapsto> v))(k := None)" using rem_map [OF i(1) assms(4,5)] by auto
  then show ?thesis using assms(1,2) find_map by (auto simp: fun_eq_iff)
qed

lemma len_after_ins:
  assumes "inv t" and "finite (dom (tmap t))" and "ins t k v = Some (old, t')"
  shows "len t' = (if find t k = None then len t + 1 else len t)"
  using ins_map [OF assms(1,3)] assms(1,2) by (auto simp: len_card find_map card_insert_if insert_absorb domIff)

end

interpretation dash: kv_table tbl_inv tbl_map tbl_find tbl_insert tbl_remove tbl_clear tbl_len tbl_iter
  tbl_has_room tbl_removable
proof
  show "tbl_inv t \<Longrightarrow> tbl_find t k = tbl_map t k" for t :: "('k, 'v) dash_table" and k
    by (rule tbl_find_map)
  show "tbl_inv t' \<and> tbl_map t' = (tbl_map t)(k \<mapsto> v) \<and> old = tbl_map t k"
    if "tbl_inv t" "tbl_insert t k v = Some (old, t')" for t t' :: "('k, 'v) dash_table" and k v old
    using tbl_insert_inv [OF that] by blast
  show "tbl_insert t k v \<noteq> None" if "tbl_inv t" "tbl_has_room t k" for t :: "('k, 'v) dash_table" and k v
    using tbl_insert_total [OF that, of v] by auto
  show "tbl_inv t' \<and> tbl_map t' = (tbl_map t)(k := None) \<and> old = tbl_map t k"
    if "tbl_inv t" "tbl_removable t k" "tbl_remove t k = (old, t')" for t t' :: "('k, 'v) dash_table" and k old
    using tbl_remove_inv [OF that] by blast
  show "tbl_inv t \<Longrightarrow> tbl_map t k = None \<Longrightarrow> tbl_remove t k = (None, t)" for t :: "('k, 'v) dash_table" and k
    by (rule tbl_remove_absent)
  show "tbl_inv (tbl_clear t) \<and> tbl_map (tbl_clear t) = Map.empty" for t :: "('k, 'v) dash_table"
    by (simp add: tbl_clear_inv tbl_clear_map)
  show "tbl_inv t \<Longrightarrow> tbl_len t = card (dom (tbl_map t))" for t :: "('k, 'v) dash_table"
    by (simp add: tbl_len_def tbl_size_card)
  show "tbl_inv t \<Longrightarrow> set (tbl_iter t) = {(k, v). tbl_map t k = Some v} \<and> distinct (map fst (tbl_iter t))"
    for t :: "('k, 'v) dash_table"
    using tbl_map_iter [of t] distinct_tbl_keys [of t] by auto
qed

subsection \<open>\<open>retain\<close>\<close>

definition retained :: "('k \<Rightarrow> 'v \<Rightarrow> 'v \<times> bool) \<Rightarrow> ('k \<times> 'v) multiset \<Rightarrow> ('k \<times> 'v) multiset" where
  "retained pred M = {#(k, fst (pred k v)). (k, v) \<in># {#(k, v) \<in># M. snd (pred k v)#}#}"

lemma retain_positions_eq:
  "retain_positions t = map (\<lambda>(sid, b, i, k, v). (sid, b, i, hash_builder t k))
     (concat (map (\<lambda>sid. map (Pair sid) (seg_iter (segments t ! sid))) [0..<length (segments t)]))"
proof -
  have "enumerate 0 (segments t) = map (\<lambda>sid. (sid, segments t ! sid)) [0..<length (segments t)]"
    by (intro nth_equalityI) (simp_all add: nth_enumerate_eq)
  then show ?thesis by (simp add: retain_positions_def map_concat comp_def case_prod_unfold)
qed

lemma mset_exchange:
  fixes A :: "'a multiset"
  assumes "A + S = T + S'" and "S' + p = S + q"
  shows "A + p = T + q"
proof -
  have "(A + p) + S = (A + S) + p" by (simp only: ac_simps)
  also have "\<dots> = T + (S' + p)" by (simp only: assms(1) add.assoc)
  also have "\<dots> = (T + q) + S" by (simp only: assms(2) ac_simps)
  finally show ?thesis by (rule add_right_imp_eq)
qed

text \<open>One step of the loop at an occupied position.\<close>

lemma retain_step:
  assumes safe: "tbl_safe t" and sid: "sid < length (segments t)" and x: "(b, i, k, v) \<in> seg_items (segments t ! sid)"
    and ps: "retain_loop pred t ((sid, b, i, hash_builder t k) # ps) n = (m, t')"
  obtains t1 where "tbl_safe t1" and "hash_builder t1 = hash_builder t" and "length (segments t1) = length (segments t)"
    and "mset (tbl_iter t1) + {#(k, v)#} = mset (tbl_iter t) + retained pred {#(k, v)#}"
    and "\<And>c y. c < length (segments t) \<Longrightarrow> y \<in> seg_items (segments t ! c) \<Longrightarrow> (c, y) \<noteq> (sid, b, i, k, v)
           \<Longrightarrow> y \<in> seg_items (segments t1 ! c)"
    and "retain_loop pred t1 ps (n + of_bool (\<not> snd (pred k v))) = (m, t')"
proof -
  let ?s = "segments t ! sid" and ?pos = "mk_pos b i"
  define v' keep s1 where "v' = fst (pred k v)" and "keep = snd (pred k v)" and "s1 = seg_set_value ?s ?pos v'"
  have pr: "pred k v = (v', keep)" by (simp add: v'_def keep_def)
  have sid': "seg_id t (hash_builder t k) = sid" by (rule tbl_safeD(3) [OF safe sid x])
  have x': "(bucket_idx ?pos, slot_idx ?pos, k, v) \<in> seg_items (segments t ! seg_id t (hash_builder t k))"
    using x sid' by simp
  have t1: "tbl_safe (upd_seg t sid s1)" using set_value_table_safe [OF safe refl x', of v'] sid' by (simp add: s1_def)
  have shape: "seg_shape ?s" by (rule seg_safeD(1) [OF tbl_safeD(2) [OF safe sid]])
  have items: "seg_items s1 = insert (b, i, k, v') (seg_items ?s - {(b, i, k, v)})"
    using seg_set_value_props(2) [OF shape _ refl, of ?pos k v v'] x by (simp add: s1_def)
  have se: "slot_entry (buckets ?s ! b) i = Some (k, v)" by (rule seg_itemsD(3) [OF shape x])
  have new: "(b, i, k, v') \<notin> seg_items ?s - {(b, i, k, v)}" using x by (auto simp: seg_items_def)
  then have kvs1: "seg_kvs s1 + {#(k, v)#} = seg_kvs ?s + {#(k, v')#}"
    using x by (simp add: seg_kvs_def mset_seg_iter items mset_set.remove [OF finite_seg_items x])
  have it1: "mset (tbl_iter (upd_seg t sid s1)) + {#(k, v)#} = mset (tbl_iter t) + {#(k, v')#}"
    by (rule mset_exchange [OF mset_tbl_iter_upd [OF sid, of s1] kvs1])
  show thesis
  proof (cases keep)
    case True
    show thesis
    proof (rule that [of "upd_seg t sid s1"])
      show "mset (tbl_iter (upd_seg t sid s1)) + {#(k, v)#} = mset (tbl_iter t) + retained pred {#(k, v)#}"
        using it1 True by (simp add: retained_def pr)
      show "y \<in> seg_items (segments (upd_seg t sid s1) ! c)"
        if "c < length (segments t)" "y \<in> seg_items (segments t ! c)" "(c, y) \<noteq> (sid, b, i, k, v)" for c y
        using that items sid by (auto simp: nth_list_update_if)
      show "retain_loop pred (upd_seg t sid s1) ps (n + of_bool (\<not> snd (pred k v))) = (m, t')"
        using ps True by (simp add: se pr s1_def Let_def)
    qed (simp_all add: t1)
  next
    case False
    obtain kv s2 where del: "seg_delete s1 ?pos (hash_builder t k) = (kv, s2)" by fastforce
    define t2 where "t2 = (upd_seg (upd_seg t sid s1) sid s2)\<lparr>tbl_size := tbl_size t - 1\<rparr>"
    have y: "(bucket_idx ?pos, slot_idx ?pos, k, v') \<in> seg_items (segments (upd_seg t sid s1) ! seg_id (upd_seg t sid s1) (hash_builder t k))"
      using items sid sid' by simp
    have del': "seg_delete (segments (upd_seg t sid s1) ! seg_id (upd_seg t sid s1) (hash_builder t k)) ?pos (hash_builder t k) = (kv, s2)"
      using del sid sid' by simp
    have t2: "t2 = (upd_seg (upd_seg t sid s1) (seg_id (upd_seg t sid s1) (hash_builder t k)) s2)
        \<lparr>tbl_size := tbl_size (upd_seg t sid s1) - 1\<rparr>" using sid' by (simp add: t2_def)
    note rf = tbl_remove_found [OF t1 _ y del' t2, simplified]
    have "seg_items s2 = seg_items s1 - {(b, i, k, v')}"
      using seg_delete_safe(3) [OF tbl_safeD(2) [OF t1, of sid], of ?pos k v' kv s2] del sid items by simp
    then have items2: "seg_items s2 = seg_items ?s - {(b, i, k, v)}" using items new by blast
    have t2': "t2 = (upd_seg t sid s2)\<lparr>tbl_size := tbl_size t - 1\<rparr>" by (simp add: t2_def upd_seg_def)
    show thesis
    proof (rule that [of t2])
      show "tbl_safe t2" by (rule rf(1))
      show "mset (tbl_iter t2) + {#(k, v)#} = mset (tbl_iter t) + retained pred {#(k, v)#}"
        using it1 rf(2) False by (simp add: retained_def pr)
      show "y \<in> seg_items (segments t2 ! c)"
        if "c < length (segments t)" "y \<in> seg_items (segments t ! c)" "(c, y) \<noteq> (sid, b, i, k, v)" for c y
        using that items2 sid by (auto simp: t2' nth_list_update_if)
      show "retain_loop pred t2 ps (n + of_bool (\<not> snd (pred k v))) = (m, t')"
        using ps False del by (simp add: se pr s1_def Let_def t2')
    qed (simp_all add: t2_def)
  qed
qed

lemma retained_add: "retained pred (M + N) = retained pred M + retained pred N"
  by (simp add: retained_def)

definition entry_of :: "nat \<times> nat \<times> nat \<times> 'k \<times> 'v \<Rightarrow> 'k \<times> 'v" where
  "entry_of q = snd (snd (snd q))"

lemma entry_of_simp [simp]: "entry_of (sid, b, i, k, v) = (k, v)"
  by (simp add: entry_of_def)

lemma retain_loop_spec:
  assumes "tbl_safe t" and "distinct qs"
    and "\<forall>(sid, x) \<in> set qs. sid < length (segments t) \<and> x \<in> seg_items (segments t ! sid)"
    and "retain_loop pred t (map (\<lambda>(sid, b, i, k, v). (sid, b, i, hash_builder t k)) qs) n = (m, t')"
  shows "tbl_safe t' \<and> mset (tbl_iter t') + mset (map entry_of qs)
     = mset (tbl_iter t) + retained pred (mset (map entry_of qs))
     \<and> m = n + size (filter_mset (\<lambda>(k, v). \<not> snd (pred k v)) (mset (map entry_of qs)))"
  using assms
proof (induction qs arbitrary: t n)
  case Nil
  then show ?case by (simp add: retained_def)
next
  case (Cons q qs)
  obtain sid b i k v where q: "q = (sid, b, i, k, v)" by (cases q) auto
  have sid: "sid < length (segments t)" and x: "(b, i, k, v) \<in> seg_items (segments t ! sid)"
    using Cons.prems(3) by (simp_all add: q)
  have ps: "retain_loop pred t ((sid, b, i, hash_builder t k) #
      map (\<lambda>(sid, b, i, k, v). (sid, b, i, hash_builder t k)) qs) n = (m, t')" using Cons.prems(4) by (simp add: q)
  obtain t1 where t1: "tbl_safe t1" "hash_builder t1 = hash_builder t" "length (segments t1) = length (segments t)"
    "mset (tbl_iter t1) + {#(k, v)#} = mset (tbl_iter t) + retained pred {#(k, v)#}"
    "\<And>c y. c < length (segments t) \<Longrightarrow> y \<in> seg_items (segments t ! c) \<Longrightarrow> (c, y) \<noteq> (sid, b, i, k, v)
           \<Longrightarrow> y \<in> seg_items (segments t1 ! c)"
    "retain_loop pred t1 (map (\<lambda>(sid, b, i, k, v). (sid, b, i, hash_builder t k)) qs)
       (n + of_bool (\<not> snd (pred k v))) = (m, t')"
    by (rule retain_step [OF Cons.prems(1) sid x ps], rule that, assumption+)
  have mem: "\<forall>(c, y) \<in> set qs. c < length (segments t1) \<and> y \<in> seg_items (segments t1 ! c)"
  proof (intro ballI, clarify)
    fix c y
    assume "(c, y) \<in> set qs"
    then show "c < length (segments t1) \<and> y \<in> seg_items (segments t1 ! c)"
      using Cons.prems(2,3) t1(3) t1(5) [of c y] q by auto
  qed
  let ?M = "mset (map entry_of qs)"
  note ih = Cons.IH [OF t1(1) _ mem t1(6) [folded t1(2)]]
  have "mset (tbl_iter t') + ?M + {#(k, v)#} = mset (tbl_iter t1) + {#(k, v)#} + retained pred ?M"
    using ih Cons.prems(2) by (simp add: ac_simps)
  also have "\<dots> = mset (tbl_iter t) + (retained pred {#(k, v)#} + retained pred ?M)"
    by (simp only: t1(4) add.assoc)
  finally have "mset (tbl_iter t') + add_mset (k, v) ?M = mset (tbl_iter t) + retained pred (add_mset (k, v) ?M)"
    using retained_add [of pred "{#(k, v)#}" ?M] by simp
  moreover have "tbl_safe t'" "m = n + of_bool (\<not> snd (pred k v)) + size {#(k, v) \<in># ?M. \<not> snd (pred k v)#}"
    using ih Cons.prems(2) by simp_all
  ultimately show ?case by (simp add: q)
qed

lemma tbl_retain_spec:
  assumes safe: "tbl_safe t" and r: "tbl_retain pred t = (m, t')"
  shows "tbl_safe t'" and "mset (tbl_iter t') = retained pred (mset (tbl_iter t))"
    and "m = size {#(k, v) \<in># mset (tbl_iter t). \<not> snd (pred k v)#}"
proof -
  define qs where "qs = rev (concat (map (\<lambda>sid. map (Pair sid) (seg_iter (segments t ! sid))) [0..<length (segments t)]))"
  have "distinct (concat (map (\<lambda>sid. map (Pair sid) (seg_iter (segments t ! sid))) [0..<length (segments t)]))"
    by (rule distinct_concat_tagged [where tag = fst]) (auto simp: distinct_map distinct_seg_iter inj_on_def)
  then have d: "distinct qs" by (simp add: qs_def)
  have mem: "\<forall>(sid, x) \<in> set qs. sid < length (segments t) \<and> x \<in> seg_items (segments t ! sid)"
    by (auto simp: qs_def set_seg_iter)
  have "tbl_iter t = concat (map (\<lambda>i. seg_pairs (segments t ! i)) [0..<length (segments t)])"
    unfolding tbl_iter_pairs by (intro arg_cong [of _ _ concat] nth_equalityI) simp_all
  then have eq: "map entry_of (rev qs) = tbl_iter t"
    by (simp add: qs_def map_concat comp_def seg_pairs_def case_prod_unfold entry_of_def)
  have it: "mset (map entry_of qs) = mset (tbl_iter t)"
    unfolding eq [symmetric] by (simp only: mset_map mset_rev)
  have "retain_loop pred t (map (\<lambda>(sid, b, i, k, v). (sid, b, i, hash_builder t k)) qs) 0 = (m, t')"
    using r by (simp add: tbl_retain_def retain_positions_eq qs_def rev_map)
  note rl = retain_loop_spec [OF safe d mem this, unfolded it]
  show "tbl_safe t'" and "mset (tbl_iter t') = retained pred (mset (tbl_iter t))"
    and "m = size {#(k, v) \<in># mset (tbl_iter t). \<not> snd (pred k v)#}"
    using rl by (auto simp: add.commute)
qed

subsection \<open>Writing to every entry\<close>

lemma tbl_iter_mut_sel [simp]:
  "hash_builder (tbl_iter_mut f t) = hash_builder t" "length (segments (tbl_iter_mut f t)) = length (segments t)"
  "tbl_size (tbl_iter_mut f t) = tbl_size t" "seg_id (tbl_iter_mut f t) = seg_id t"
  "sid < length (segments t) \<Longrightarrow> segments (tbl_iter_mut f t) ! sid = seg_iter_mut (\<lambda>bid slot. f) (segments t ! sid)"
  by (simp_all add: tbl_iter_mut_def seg_id_def fun_eq_iff)

lemma tbl_iter_mut_items:
  assumes "tbl_safe t" and "sid < length (segments t)"
  shows "(b, i, k, v) \<in> seg_items (segments (tbl_iter_mut f t) ! sid)
    \<longleftrightarrow> (\<exists>w. (b, i, k, w) \<in> seg_items (segments t ! sid) \<and> v = f k w)"
  using seg_iter_mut_props(3) [OF tbl_safeD(2) [OF assms], of "\<lambda>bid slot. f"] assms(2)
  by (force simp: rewritten_def image_iff)

lemma tbl_iter_mut_safe [inv_intros]:
  assumes safe: "tbl_safe t"
  shows "tbl_safe (tbl_iter_mut f t)"
proof -
  let ?t = "tbl_iter_mut f t"
  have len: "length (seg_iter (segments ?t ! sid)) = length (seg_iter (segments t ! sid))" if "sid < length (segments t)" for sid
    using seg_iter_mut_props(4) [OF tbl_safeD(2) [OF safe that]] that by simp
  have "map (length \<circ> seg_pairs) (segments ?t) = map (length \<circ> seg_pairs) (segments t)"
    by (intro nth_equalityI) (simp_all add: seg_pairs_def len del: tbl_iter_mut_sel(5))
  then have "length (tbl_iter ?t) = length (tbl_iter t)" by (simp add: tbl_iter_pairs length_concat comp_def)
  moreover have "routed ?t sid" if "sid < length (segments t)" for sid
    using tbl_safeD(3) [OF safe that] by (auto simp: routed_def tbl_iter_mut_items [OF safe that] simp del: tbl_iter_mut_sel(5))
  ultimately show ?thesis
    using tbl_safeD(1,4) [OF safe] seg_iter_mut_props(1) [OF tbl_safeD(2) [OF safe]] tbl_iter_mut_sel(2) [of f t]
    unfolding tbl_safe_def by (metis length_0_conv tbl_iter_mut_sel(1,3,5))
qed

lemma tbl_iter_mut_inv [inv_intros]: "tbl_inv t \<Longrightarrow> tbl_inv (tbl_iter_mut f t)"
  unfolding tbl_inv_def by (auto intro: tbl_iter_mut_safe seg_iter_mut_props(2) [OF tbl_safeD(2)])

lemma tbl_iter_mut_map:
  assumes inv: "tbl_inv t"
  shows "tbl_map (tbl_iter_mut f t) k = map_option (f k) (tbl_map t k)"
proof (rule option_eqI)
  fix v
  have sid: "seg_id t (hash_builder t k) < length (segments t)" by (rule seg_id_less [OF tbl_safeD(1) [OF tbl_invD(1) [OF inv]]])
  show "tbl_map (tbl_iter_mut f t) k = Some v \<longleftrightarrow> map_option (f k) (tbl_map t k) = Some v"
    using tbl_map_items [OF tbl_iter_mut_inv [OF inv], of f k v] tbl_iter_mut_items [OF tbl_invD(1) [OF inv] sid, of _ _ k v f]
      tbl_map_items [OF inv, of k] by auto
qed

subsection \<open>Every table a program can build\<close>

text \<open>The calls that change a table, in any order and with any arguments.\<close>

inductive tbl_step :: "('k, 'v) dash_table \<Rightarrow> ('k, 'v) dash_table \<Rightarrow> bool" where
  step_insert: "tbl_insert t k v = Some (old, t') \<Longrightarrow> tbl_step t t'"
| step_remove: "tbl_remove t k = (old, t') \<Longrightarrow> tbl_step t t'"
| step_write: "tbl_find_mut t k f = Some t' \<Longrightarrow> tbl_step t t'"
| step_retain: "tbl_retain pred t = (n, t') \<Longrightarrow> tbl_step t t'"
| step_write_all: "tbl_step t (tbl_iter_mut f t)"
| step_clear: "tbl_step t (tbl_clear t)"

inductive tbl_reachable :: "('k \<Rightarrow> u64) \<Rightarrow> ('k, 'v) dash_table \<Rightarrow> bool" for hf where
  reach_new: "tbl_reachable hf (tbl_with_hasher hf)"
| reach_step: "tbl_reachable hf t \<Longrightarrow> tbl_step t t' \<Longrightarrow> tbl_reachable hf t'"

lemma tbl_find_mut_safe [inv_intros]:
  assumes safe: "tbl_safe t" and w: "tbl_find_mut t k f = Some t'"
  shows "tbl_safe t'"
proof (cases "seg_find (segments t ! seg_id t (hash_builder t k)) (hash_builder t k) (\<lambda>k'. k' = k)")
  case (Some pos)
  then obtain v where "(bucket_idx pos, slot_idx pos, k, v) \<in> seg_items (segments t ! seg_id t (hash_builder t k))"
    by (rule find_hit_item [OF safe])
  then show ?thesis
    using w Some set_value_table_safe [OF safe refl]
    by (auto simp: tbl_find_mut_def Let_def hash_key_def split: option.splits)
qed (use w in \<open>simp add: tbl_find_mut_def Let_def hash_key_def\<close>)

lemma tbl_step_safe: "tbl_step t t' \<Longrightarrow> tbl_safe t \<Longrightarrow> tbl_safe t'"
proof (induction rule: tbl_step.induct)
  case (step_insert t k v old t')
  from step_insert(2,1) show ?case by (rule tbl_insert_safe)
next
  case (step_remove t k old t')
  from step_remove(2,1) show ?case by (rule tbl_remove_safe)
next
  case (step_write t k f t')
  from step_write(2,1) show ?case by (rule tbl_find_mut_safe)
next
  case (step_retain pred t n t')
  from step_retain(2,1) show ?case by (rule tbl_retain_spec(1))
next
  case (step_write_all t f)
  then show ?case by (rule tbl_iter_mut_safe)
next
  case (step_clear t)
  show ?case by (rule tbl_invD(1) [OF tbl_clear_inv])
qed

lemma tbl_reachable_safe: "tbl_reachable hf t \<Longrightarrow> tbl_safe t"
  by (induction rule: tbl_reachable.induct) (auto intro: tbl_step_safe tbl_invD(1) [OF tbl_new_inv])

lemma tbl_find_sound:
  assumes safe: "tbl_safe t" and f: "tbl_find t k = Some v"
  shows "(k, v) \<in> set (tbl_iter t)"
proof -
  let ?s = "segments t ! seg_id t (hash_builder t k)"
  obtain pos where pos: "seg_find ?s (hash_builder t k) (\<lambda>k'. k' = k) = Some pos"
    and bv: "bucket_value (buckets ?s ! bucket_idx pos) (slot_idx pos) = Some v"
    using f by (auto simp: tbl_find_def Let_def hash_key_def split: option.splits)
  obtain v' where x: "(bucket_idx pos, slot_idx pos, k, v') \<in> seg_items ?s"
    using pos by (rule find_hit_item [OF safe])
  then have "v' = v" using seg_itemsD(6) [OF tbl_seg_shape [OF safe] x] bv by simp
  then show ?thesis using x set_tbl_iter [OF safe] by blast
qed

text \<open>A whole program: operations on one table, in sequence. \<open>None\<close> is a panic.\<close>

datatype ('k, 'v) tbl_op = Op_insert 'k 'v | Op_remove 'k | Op_write 'k "'v \<Rightarrow> 'v" | Op_write_all "'k \<Rightarrow> 'v \<Rightarrow> 'v" | Op_clear

fun tbl_run :: "('k, 'v) tbl_op list \<Rightarrow> ('k, 'v) dash_table \<Rightarrow> ('k, 'v) dash_table option" where
  "tbl_run [] t = Some t"
| "tbl_run (Op_insert k v # ops) t = Option.bind (tbl_insert t k v) (\<lambda>(_, t'). tbl_run ops t')"
| "tbl_run (Op_remove k # ops) t = tbl_run ops (snd (tbl_remove t k))"
| "tbl_run (Op_write k f # ops) t = tbl_run ops (case tbl_find_mut t k f of None \<Rightarrow> t | Some t' \<Rightarrow> t')"
| "tbl_run (Op_write_all f # ops) t = tbl_run ops (tbl_iter_mut f t)"
| "tbl_run (Op_clear # ops) t = tbl_run ops (tbl_clear t)"

fun map_run :: "('k, 'v) tbl_op list \<Rightarrow> ('k \<rightharpoonup> 'v) \<Rightarrow> 'k \<rightharpoonup> 'v" where
  "map_run [] m = m"
| "map_run (Op_insert k v # ops) m = map_run ops (m(k \<mapsto> v))"
| "map_run (Op_remove k # ops) m = map_run ops (m(k := None))"
| "map_run (Op_write k f # ops) m = map_run ops (m(k := map_option f (m k)))"
| "map_run (Op_write_all f # ops) m = map_run ops (\<lambda>k. map_option (f k) (m k))"
| "map_run (Op_clear # ops) m = map_run ops Map.empty"

fun no_remove :: "('k, 'v) tbl_op list \<Rightarrow> bool" where
  "no_remove [] = True"
| "no_remove (Op_remove k # ops) = False"
| "no_remove (_ # ops) = no_remove ops"

fun all_removable :: "('k, 'v) tbl_op list \<Rightarrow> ('k, 'v) dash_table \<Rightarrow> bool" where
  "all_removable [] t = True"
| "all_removable (Op_insert k v # ops) t = (case tbl_insert t k v of None \<Rightarrow> True | Some (_, t') \<Rightarrow> all_removable ops t')"
| "all_removable (Op_remove k # ops) t = (tbl_removable t k \<and> all_removable ops (snd (tbl_remove t k)))"
| "all_removable (Op_write k f # ops) t = all_removable ops (case tbl_find_mut t k f of None \<Rightarrow> t | Some t' \<Rightarrow> t')"
| "all_removable (Op_write_all f # ops) t = all_removable ops (tbl_iter_mut f t)"
| "all_removable (Op_clear # ops) t = all_removable ops (tbl_clear t)"

lemma tbl_run_map:
  assumes "tbl_inv t" and "all_removable ops t" and "tbl_run ops t = Some t'"
  shows "tbl_inv t' \<and> tbl_map t' = map_run ops (tbl_map t)"
  using assms
proof (induction ops arbitrary: t)
  case (Cons op ops)
  show ?case
  proof (cases op)
    case (Op_insert k v)
    then obtain old t1 where ins: "tbl_insert t k v = Some (old, t1)" "tbl_run ops t1 = Some t'"
      using Cons.prems(3) by (auto simp: bind_eq_Some_conv)
    then show ?thesis
      using Cons.IH [of t1] Cons.prems(2) tbl_insert_inv [OF Cons.prems(1) ins(1)] Op_insert
      by (simp add: fun_upd_def)
  next
    case (Op_remove k)
    obtain old t1 where rem: "tbl_remove t k = (old, t1)" by fastforce
    have "tbl_removable t k" using Cons.prems(2) Op_remove by simp
    then show ?thesis
      using Cons.IH [of t1] Cons.prems(2,3) tbl_remove_inv [OF Cons.prems(1) _ rem] rem Op_remove
      by (simp add: fun_upd_def)
  next
    case (Op_write k f)
    let ?t = "case tbl_find_mut t k f of None \<Rightarrow> t | Some t' \<Rightarrow> t'"
    have "tbl_inv ?t \<and> tbl_map ?t = (tbl_map t)(k := map_option f (tbl_map t k))"
      using tbl_find_mut_inv [OF Cons.prems(1), of k f] Cons.prems(1) by (cases "tbl_find_mut t k f") (auto simp: fun_upd_idem)
    then show ?thesis using Cons.IH [of ?t] Cons.prems(2,3) Op_write by (simp add: fun_upd_def)
  next
    case (Op_write_all f)
    have "tbl_map (tbl_iter_mut f t) = (\<lambda>k. map_option (f k) (tbl_map t k))" by (rule ext) (rule tbl_iter_mut_map [OF Cons.prems(1)])
    then show ?thesis using Cons.IH [OF tbl_iter_mut_inv [OF Cons.prems(1)]] Cons.prems(2,3) Op_write_all by simp
  next
    case Op_clear
    then show ?thesis
      using Cons.IH [OF tbl_clear_inv [of t]] Cons.prems(2,3) by (simp add: tbl_clear_map)
  qed
qed simp

lemma no_remove_removable: "no_remove ops \<Longrightarrow> all_removable ops t"
  by (induction ops arbitrary: t rule: no_remove.induct) (auto split: option.splits)

subsection \<open>Properties\<close>

text \<open>The witnesses' table: two keys inserted into a fresh table whose hasher is the identity.\<close>

definition demo_table :: "(u64, nat) dash_table" where
  "demo_table = tbl_with_hasher (\<lambda>k. k)"

lemma demo_inv: "tbl_inv demo_table"
  by (simp add: demo_table_def tbl_new_inv)

lemma demo_room: "tbl_has_room demo_table k"
  by (simp add: tbl_has_room_def demo_table_def tbl_with_hasher_def seg_id_def segment_new_def dash_consts)

lemma demo_insert: "\<exists>t'. tbl_insert demo_table k v = Some (None, t') \<and> tbl_inv t' \<and> tbl_map t' = [k \<mapsto> v]"
proof -
  obtain t' where t': "tbl_insert demo_table k v = Some (tbl_map demo_table k, t')"
    using tbl_insert_total [OF demo_inv demo_room] by blast
  then show ?thesis
    using tbl_insert_inv [OF demo_inv t'] by (auto simp: demo_table_def tbl_new_map)
qed

text \<open>a successful insertion changes the table as a map update does: the new key is found with
  the new value, every other key keeps its value, the old value is returned, and the invariant holds
  again, also when the insertion had to grow the table.\<close>

theorem table_insert_correct:
  assumes "tbl_inv t" and "tbl_insert t k v = Some (old, t')"
  shows "tbl_inv t' \<and> old = tbl_find t k \<and> (\<forall>k'. tbl_find t' k' = (if k' = k then Some v else tbl_find t k'))"
  using tbl_insert_inv [OF assms] dash.find_after_ins [OF assms] assms(1) by (simp add: tbl_find_map)

theorem table_insert_correct_witness:
  "\<exists>t'. tbl_insert demo_table 7 1 = Some (None, t') \<and> tbl_find t' 7 = Some 1 \<and> tbl_find t' 8 = tbl_find demo_table 8"
proof -
  obtain t' where t': "tbl_insert demo_table 7 1 = Some (None, t')" using demo_insert by blast
  show ?thesis using table_insert_correct [OF demo_inv t'] t' by auto
qed

text \<open>an insertion returns, and does not panic, whenever the segment of the key holds fewer than
  72 items (twelve slots in the home bucket, twelve in the next and 48 in the stash), or the key is
  already present.\<close>

theorem table_insert_returns:
  assumes "tbl_inv t" and "tbl_has_room t k"
  shows "\<exists>t'. tbl_insert t k v = Some (tbl_find t k, t') \<and> tbl_inv t'"
proof -
  obtain t' where "tbl_insert t k v = Some (tbl_map t k, t')" using tbl_insert_total [OF assms] by blast
  then show ?thesis using tbl_insert_inv(1) [OF assms(1)] tbl_find_map [OF assms(1)] by metis
qed

theorem table_insert_returns_witness:
  "\<exists>t'. tbl_insert demo_table 7 (1 :: nat) = Some (tbl_find demo_table 7, t') \<and> tbl_inv t'"
  by (rule table_insert_returns [OF demo_inv demo_room])

text \<open>a removal whose stash clean-up meets nothing in the next bucket removes exactly the key, returns
  its value and leaves every other key findable.\<close>

theorem table_remove_correct:
  assumes "tbl_inv t" and "tbl_removable t k" and "tbl_remove t k = (old, t')"
  shows "tbl_inv t' \<and> old = tbl_find t k \<and> (\<forall>k'. tbl_find t' k' = (if k' = k then None else tbl_find t k'))"
  using tbl_remove_inv [OF assms] dash.find_after_rem [OF assms] assms(1) by (simp add: tbl_find_map)

theorem table_remove_correct_witness:
  "tbl_inv (snd (tbl_remove demo_table 7)) \<and> fst (tbl_remove demo_table 7) = None"
proof -
  have e: "tbl_map demo_table 7 = None" by (simp add: demo_table_def tbl_new_map)
  have r: "tbl_remove demo_table 7 = (None, demo_table)" by (rule tbl_remove_absent [OF demo_inv e])
  have "tbl_removable demo_table 7"
    using tbl_find_None_pos [OF demo_inv, of 7] e by (simp add: tbl_removable_def Let_def)
  then show ?thesis using table_remove_correct [OF demo_inv _ r] r by simp
qed

text \<open>C21: whatever calls a program makes, in any order and with any hasher, the table stays memory safe
  (exactly the busy slots are initialised, every item lies in one of its three places, the size counts
  the entries), and any value a lookup returns is an entry of the table.\<close>

theorem table_reachable_safe:
  assumes "tbl_reachable hf t"
  shows "tbl_safe t \<and> (\<forall>k v. tbl_find t k = Some v \<longrightarrow> (k, v) \<in> set (tbl_iter t)) \<and> tbl_len t = length (tbl_iter t)"
  using tbl_reachable_safe [OF assms] tbl_find_sound tbl_safeD(4) by (auto simp: tbl_len_def)

theorem table_reachable_safe_witness:
  "\<exists>t'. tbl_step demo_table t' \<and> tbl_safe t' \<and> tbl_len t' = length (tbl_iter t')"
proof -
  obtain t' where "tbl_insert demo_table 7 1 = Some (None, t')" using demo_insert by blast
  then have "tbl_step demo_table t'" by (rule step_insert)
  moreover have "tbl_reachable (\<lambda>k. k) demo_table" unfolding demo_table_def by (rule reach_new)
  ultimately show ?thesis using table_reachable_safe [of "\<lambda>k. k" t'] reach_step by blast
qed

text \<open>C1: a whole sequence of insertions, removals, writes in place (to one key or to all entries) and clears that does not
  panic computes what the same sequence computes on a finite map, provided every removal in it is a clean one.\<close>

theorem table_refines_map:
  assumes "tbl_run ops (tbl_with_hasher hf) = Some t" and "all_removable ops (tbl_with_hasher hf)"
  shows "tbl_find t = map_run ops Map.empty \<and> tbl_len t = card (dom (map_run ops Map.empty))"
proof -
  have "tbl_inv t \<and> tbl_map t = map_run ops Map.empty"
    using tbl_run_map [OF tbl_new_inv assms(2,1)] by (simp add: tbl_new_map)
  then show ?thesis using dash.len_card [of t] by (auto simp: tbl_find_map)
qed

theorem table_refines_map_witness:
  "\<exists>t. tbl_run [Op_insert 7 1] demo_table = Some t \<and> tbl_find t = [7 \<mapsto> 1] \<and> tbl_len t = 1"
proof -
  obtain t where "tbl_insert demo_table 7 1 = Some (None, t)" using demo_insert by blast
  then have t: "tbl_run [Op_insert 7 1] (tbl_with_hasher (\<lambda>k. k)) = Some t" by (simp add: demo_table_def)
  have ar: "all_removable [Op_insert 7 1] (tbl_with_hasher (\<lambda>k. k))" by (rule no_remove_removable) simp
  show ?thesis using table_refines_map [OF t ar] t by (simp add: demo_table_def)
qed

text \<open>growing the table, when it returns, doubles the segments and keeps every entry.\<close>

theorem table_grow_correct:
  assumes "tbl_inv t" and "tbl_grow t = Some t'"
  shows "tbl_inv t' \<and> length (segments t') = 2 * length (segments t) \<and> tbl_find t' = tbl_find t
    \<and> mset (tbl_iter t') = mset (tbl_iter t)"
proof -
  note g = tbl_grow_safe [OF tbl_invD(1) [OF assms(1)] assms(2)]
  have "tbl_map t' = tbl_map t" by (rule tbl_map_cong [OF assms(1) g(5) [OF assms(1)] g(4)])
  then show ?thesis using g assms(1) by (auto simp: tbl_find_map)
qed

theorem table_grow_correct_witness:
  "\<exists>t'. tbl_grow demo_table = Some t' \<and> length (segments t') = 8 \<and> tbl_find t' 3 = tbl_find demo_table 3"
proof -
  have "tbl_grow demo_table \<noteq> None" by code_simp
  then obtain t' where t': "tbl_grow demo_table = Some t'" by blast
  then show ?thesis
    using table_grow_correct [OF demo_inv t'] by (auto simp: demo_table_def tbl_with_hasher_def)
qed



text \<open>\<^verbatim>\<open>retain\<close> keeps exactly the entries its predicate accepts, with the values the predicate leaves,
  counts the ones it drops, and keeps the table safe.\<close>

theorem table_retain_correct:
  assumes "tbl_safe t" and "tbl_retain pred t = (m, t')"
  shows "tbl_safe t' \<and> mset (tbl_iter t') = retained pred (mset (tbl_iter t))
    \<and> m + tbl_len t' = tbl_len t"
proof -
  note r = tbl_retain_spec [OF assms]
  have "size (retained pred M) + size {#(k, v) \<in># M. \<not> snd (pred k v)#} = size M" for M
    by (induction M) (auto simp: retained_def)
  then have "length (tbl_iter t') + m = length (tbl_iter t)" using r(2,3) by (metis size_mset)
  then show ?thesis using r tbl_safeD(4) [OF assms(1)] tbl_safeD(4) [OF r(1)] by (simp add: tbl_len_def)
qed

theorem table_retain_correct_witness:
  "\<exists>t m t'. tbl_find t (7 :: u64) = Some (1 :: nat) \<and> tbl_retain (\<lambda>k v. (v, False)) t = (m, t') \<and> tbl_safe t' \<and> m + tbl_len t' = tbl_len t"
proof -
  obtain t where t: "tbl_insert demo_table 7 1 = Some (None, t)" "tbl_inv t" "tbl_map t = [7 \<mapsto> 1]"
    using demo_insert by blast
  obtain m t' where r: "tbl_retain (\<lambda>k v. (v, False)) t = (m, t')" by fastforce
  have "tbl_find t 7 = Some 1" using tbl_find_map [OF t(2)] t(3) by simp
  then show ?thesis using table_retain_correct [OF tbl_invD(1) [OF t(2)] r] r by blast
qed

text \<open>\<^verbatim>\<open>scan\<close> panics when the cursor plus the count wraps around \<^verbatim>\<open>usize\<close> and the cursor lies inside the
  table: the end of the slice lies before its start.\<close>

theorem table_scan_overflow_panics:
  assumes "0 < start" and "start < length (tbl_iter t)" and "start < 2 ^ 64"
  shows "tbl_scan t (Cursor (of_nat start)) (- 1) = None"
proof -
  have s: "unat (of_nat start :: u64) = start" using assms(3) by (rule unat_of_nat_u64)
  have "of_nat start \<noteq> (0 :: u64)" using s assms(1) by auto
  then have "unat ((of_nat start :: u64) - 1) = start - 1" using s by (simp add: unat_minus_one)
  then show ?thesis using s assms by (simp add: tbl_scan_def Let_def)
qed

theorem table_scan_overflow_panics_witness:
  "\<exists>t. tbl_run [Op_insert 7 1, Op_insert 8 2] demo_table = Some t \<and> tbl_scan t (Cursor 1) (- 1) = None"
proof -
  have "map_option (\<lambda>t. length (tbl_iter t)) (tbl_run [Op_insert 7 1, Op_insert 8 2] demo_table) = Some 2"
    by code_simp
  then obtain t where t: "tbl_run [Op_insert 7 1, Op_insert 8 2] demo_table = Some t" "length (tbl_iter t) = 2"
    by auto
  then show ?thesis using table_scan_overflow_panics [of 1 t] by simp
qed

end
