(* ===== verification/Rust_Std.thy ===== *)
theory Rust_Std
  imports Shrike_Prelude
begin

text \<open>
  The pieces of the Rust standard library the program uses on byte strings: decimal printing
  (\<^verbatim>\<open>to_string\<close>) and parsing (\<^verbatim>\<open>str::parse\<close>) of integers, UTF-8 validation
  (\<^verbatim>\<open>std::str::from_utf8\<close>) and \<^verbatim>\<open>str::trim\<close>. A Rust \<^verbatim>\<open>str\<close> is the list of its UTF-8 bytes.
  The main fact is the round trip: parsing what was printed gives the number back, and a
  printed number is valid UTF-8 that \<^verbatim>\<open>trim\<close> leaves alone.
\<close>

subsection \<open>Printing\<close>

definition digit :: "nat \<Rightarrow> byte" where
  "digit d = char_of (48 + d)"

fun show_nat :: "nat \<Rightarrow> bytes" where
  "show_nat n = (if n < 10 then [digit n] else show_nat (n div 10) @ [digit (n mod 10)])"

declare show_nat.simps [simp del]

definition show_int :: "int \<Rightarrow> bytes" where
  "show_int i = (if i < 0 then CHR ''-'' # show_nat (nat (- i)) else show_nat (nat i))"

text \<open>\<^verbatim>\<open>i64::to_string\<close>, \<^verbatim>\<open>u64::to_string\<close>.\<close>

definition i64_to_string :: "i64 \<Rightarrow> bytes" where
  "i64_to_string n = show_int (sint n)"

definition u64_to_string :: "u64 \<Rightarrow> bytes" where
  "u64_to_string n = show_nat (unat n)"

subsection \<open>Parsing\<close>

definition is_digit :: "byte \<Rightarrow> bool" where
  "is_digit c = (48 \<le> byte_val c \<and> byte_val c \<le> 57)"

fun parse_digits :: "bytes \<Rightarrow> nat \<Rightarrow> nat option" where
  "parse_digits [] acc = Some acc"
| "parse_digits (c # cs) acc =
     (if is_digit c then parse_digits cs (10 * acc + (byte_val c - 48)) else None)"

text \<open>
  \<^verbatim>\<open>from_str_radix(_, 10)\<close>: an optional sign (\<^verbatim>\<open>-\<close> only for signed types), at least one digit, digits
  only, and the value in range. The accumulator is unbounded here and the range is checked at
  the end: the code overflows exactly when the value is out of range, and both give \<^verbatim>\<open>Err\<close>.
\<close>

definition parse_nat :: "bytes \<Rightarrow> nat option" where
  "parse_nat s = (if s = [] then None else parse_digits s 0)"

definition parse_int :: "bytes \<Rightarrow> int option" where
  "parse_int s =
     (case s of
        [] \<Rightarrow> None
      | c # cs \<Rightarrow>
          if c = CHR ''-'' then map_option (\<lambda>n. - int n) (parse_nat cs)
          else if c = CHR ''+'' then map_option int (parse_nat cs)
          else map_option int (parse_nat s))"

definition parse_i64 :: "bytes \<Rightarrow> i64 option" where
  "parse_i64 s =
     (case parse_int s of
        None \<Rightarrow> None
      | Some i \<Rightarrow> if - (2 ^ 63) \<le> i \<and> i < 2 ^ 63 then Some (word_of_int i) else None)"

definition parse_unsigned :: "nat \<Rightarrow> bytes \<Rightarrow> nat option" where
  "parse_unsigned bound s =
     (case (case s of c # cs \<Rightarrow> if c = CHR ''+'' then parse_nat cs else parse_nat s | [] \<Rightarrow> None) of
        None \<Rightarrow> None
      | Some n \<Rightarrow> if n < bound then Some n else None)"

definition parse_u64 :: "bytes \<Rightarrow> u64 option" where
  "parse_u64 s = map_option of_nat (parse_unsigned (2 ^ 64) s)"

definition parse_u16 :: "bytes \<Rightarrow> u16 option" where
  "parse_u16 s = map_option of_nat (parse_unsigned (2 ^ 16) s)"

subsection \<open>UTF-8\<close>

definition cont_byte :: "byte \<Rightarrow> bool" where
  "cont_byte c = (0x80 \<le> byte_val c \<and> byte_val c \<le> 0xBF)"

definition between :: "nat \<Rightarrow> nat \<Rightarrow> byte \<Rightarrow> bool" where
  "between lo hi c = (lo \<le> byte_val c \<and> byte_val c \<le> hi)"

text \<open>The length of the well-formed sequence at the head of a byte string, 0 if there is none.\<close>

definition utf8_head :: "bytes \<Rightarrow> nat" where
  "utf8_head s =
     (case s of
        [] \<Rightarrow> 0
      | a # r \<Rightarrow>
         if byte_val a < 0x80 then 1
         else if between 0xC2 0xDF a
           then (case r of b # _ \<Rightarrow> if cont_byte b then 2 else 0 | _ \<Rightarrow> 0)
         else if between 0xE0 0xEF a
           then (case r of b # c # _ \<Rightarrow>
                   if (if a = CHR 0xE0 then between 0xA0 0xBF b
                       else if a = CHR 0xED then between 0x80 0x9F b else cont_byte b) \<and> cont_byte c
                   then 3 else 0
                 | _ \<Rightarrow> 0)
         else if between 0xF0 0xF4 a
           then (case r of b # c # d # _ \<Rightarrow>
                   if (if a = CHR 0xF0 then between 0x90 0xBF b
                       else if a = CHR 0xF4 then between 0x80 0x8F b else cont_byte b)
                      \<and> cont_byte c \<and> cont_byte d
                   then 4 else 0
                 | _ \<Rightarrow> 0)
         else 0)"

function utf8_valid :: "bytes \<Rightarrow> bool" where
  "utf8_valid s =
     (if s = [] then True else if utf8_head s = 0 then False else utf8_valid (drop (utf8_head s) s))"
  by pat_completeness auto
termination by (relation "measure length") auto

declare utf8_valid.simps [simp del]

text \<open>\<^verbatim>\<open>std::str::from_utf8(b).ok()\<close>.\<close>

definition from_utf8 :: "bytes \<Rightarrow> bytes option" where
  "from_utf8 b = (if utf8_valid b then Some b else None)"

subsection \<open>White space\<close>

text \<open>The encodings of the code points with the Unicode property White\_Space.\<close>

definition ws_seqs :: "bytes list" where
  "ws_seqs = map (\<lambda>b. [char_of b]) [0x09, 0x0A, 0x0B, 0x0C, 0x0D, 0x20 :: nat]
     @ [[CHR 0xC2, CHR 0x85], [CHR 0xC2, CHR 0xA0], [CHR 0xE1, CHR 0x9A, CHR 0x80]]
     @ map (\<lambda>b. [CHR 0xE2, CHR 0x80, char_of b]) ([0x80..<0x8B] @ [0xA8, 0xA9, 0xAF :: nat])
     @ [[CHR 0xE2, CHR 0x81, CHR 0x9F], [CHR 0xE3, CHR 0x80, CHR 0x80]]"

definition strip_prefix :: "bytes list \<Rightarrow> bytes \<Rightarrow> bytes option" where
  "strip_prefix seqs s =
     (case List.find (\<lambda>p. p \<noteq> [] \<and> take (length p) s = p) seqs of
        Some p \<Rightarrow> Some (drop (length p) s)
      | None \<Rightarrow> None)"

lemma strip_prefix_shorter: "strip_prefix seqs s = Some r \<Longrightarrow> length r < length s"
  by (auto simp: strip_prefix_def dest!: find_SomeD split: option.splits)
     (metis append_take_drop_id length_drop length_greater_0_conv list.size(3) min_less_iff_conj
       diff_less length_take take_eq_Nil)

function trim_seqs :: "bytes list \<Rightarrow> bytes \<Rightarrow> bytes" where
  "trim_seqs seqs s = (case strip_prefix seqs s of None \<Rightarrow> s | Some r \<Rightarrow> trim_seqs seqs r)"
  by pat_completeness auto
termination by (relation "measure (\<lambda>(seqs, s). length s)") (auto dest: strip_prefix_shorter)

declare trim_seqs.simps [simp del]

definition trim_start :: "bytes \<Rightarrow> bytes" where
  "trim_start s = trim_seqs ws_seqs s"

definition trim_end :: "bytes \<Rightarrow> bytes" where
  "trim_end s = rev (trim_seqs (map rev ws_seqs) (rev s))"

definition trim :: "bytes \<Rightarrow> bytes" where
  "trim s = trim_end (trim_start s)"

subsection \<open>Round trips\<close>

lemma is_digit_digit [simp]: "d < 10 \<Longrightarrow> is_digit (digit d)"
  by (simp add: is_digit_def digit_def)

lemma byte_val_digit [simp]: "d < 10 \<Longrightarrow> byte_val (digit d) = 48 + d"
  by (simp add: digit_def)

lemma parse_digits_append:
  "parse_digits (xs @ ys) acc = Option.bind (parse_digits xs acc) (parse_digits ys)"
  by (induction xs arbitrary: acc) auto

lemma parse_digits_show: "parse_digits (show_nat n) 0 = Some n"
proof (induction n rule: less_induct)
  case (less n)
  show ?case
  proof (cases "n < 10")
    case True
    then show ?thesis by (simp add: show_nat.simps [of n])
  next
    case False
    then show ?thesis
      using less [of "n div 10"] by (simp add: show_nat.simps [of n] parse_digits_append)
  qed
qed

lemma show_nat_digits: "c \<in> set (show_nat n) \<Longrightarrow> is_digit c"
proof (induction n rule: less_induct)
  case (less n)
  show ?case
  proof (cases "n < 10")
    case False
    then show ?thesis using less.IH [of "n div 10"] less.prems by (auto simp: show_nat.simps [of n])
  qed (use less.prems in \<open>simp add: show_nat.simps [of n]\<close>)
qed

lemma show_nat_nonempty [simp]: "show_nat n \<noteq> []"
  by (simp add: show_nat.simps [of n])

lemma parse_nat_show [simp]: "parse_nat (show_nat n) = Some n"
  by (simp add: parse_nat_def parse_digits_show)

lemma show_nat_head: "hd (show_nat n) \<noteq> CHR ''-''" "hd (show_nat n) \<noteq> CHR ''+''"
  using show_nat_digits [of "hd (show_nat n)" n] by (auto simp: is_digit_def byte_val_Char)

lemma parse_int_show: "parse_int (show_int i) = Some i"
proof (cases "i < 0")
  case True
  then show ?thesis by (simp add: parse_int_def show_int_def)
next
  case False
  obtain c cs where s: "show_nat (nat i) = c # cs" by (metis neq_Nil_conv show_nat_nonempty)
  then have "c \<noteq> CHR ''-''" "c \<noteq> CHR ''+''" using show_nat_head [of "nat i"] by auto
  then show ?thesis using False parse_nat_show [of "nat i"] by (simp add: parse_int_def show_int_def s)
qed

lemma sint_range: "- (2 ^ 63) \<le> sint (n :: i64)" "sint (n :: i64) < 2 ^ 63"
  using sint_ge [of n] sint_lt [of n] by simp_all

lemma parse_i64_show [simp]: "parse_i64 (i64_to_string n) = Some n"
  using sint_range [of n] by (simp add: parse_i64_def i64_to_string_def parse_int_show)

lemma parse_u64_show [simp]: "parse_u64 (u64_to_string n) = Some n"
proof -
  obtain c cs where s: "show_nat (unat n) = c # cs" by (metis neq_Nil_conv show_nat_nonempty)
  then have "c \<noteq> CHR ''+''" using show_nat_head [of "unat n"] by auto
  moreover have "unat n < 2 ^ 64" using unsigned_less [of n] by simp
  ultimately show ?thesis
    using parse_nat_show [of "unat n"] s
    by (simp add: parse_u64_def parse_unsigned_def u64_to_string_def)
qed

definition plain_byte :: "byte \<Rightarrow> bool" where
  "plain_byte c = (is_digit c \<or> c = CHR ''-'')"

lemma utf8_valid_ascii: "\<forall>c \<in> set s. byte_val c < 0x80 \<Longrightarrow> utf8_valid s"
proof (induction s)
  case (Cons c s)
  then show ?case by (simp add: utf8_valid.simps [of "c # s"] utf8_head_def)
qed (simp add: utf8_valid.simps)

lemma plain_byte_ascii: "plain_byte c \<Longrightarrow> byte_val c < 0x80"
  by (auto simp: plain_byte_def is_digit_def byte_val_Char)

definition starts_non_plain :: "bytes \<Rightarrow> bool" where
  "starts_non_plain p = (case p of [] \<Rightarrow> False | a # _ \<Rightarrow> \<not> plain_byte a)"

lemma ws_seqs_non_plain:
  "list_all starts_non_plain ws_seqs" "list_all starts_non_plain (map rev ws_seqs)"
  by code_simp+

lemma trim_seqs_plain:
  assumes "list_all starts_non_plain seqs" and "\<forall>c \<in> set s. plain_byte c"
  shows "trim_seqs seqs s = s"
proof -
  have "\<not> (take (length p) s = p)" if "p \<in> set seqs" for p
    using assms that by (cases s; cases p) (auto simp: list_all_iff starts_non_plain_def)
  then have "List.find (\<lambda>p. p \<noteq> [] \<and> take (length p) s = p) seqs = None" by (auto simp: find_None_iff)
  then have "strip_prefix seqs s = None" by (simp add: strip_prefix_def)
  then show ?thesis by (simp add: trim_seqs.simps [of seqs s])
qed

lemma trim_plain: "\<forall>c \<in> set s. plain_byte c \<Longrightarrow> trim s = s"
  using trim_seqs_plain [OF ws_seqs_non_plain(1)] trim_seqs_plain [OF ws_seqs_non_plain(2), of "rev s"]
  by (simp add: trim_def trim_start_def trim_end_def)

lemma show_int_plain: "c \<in> set (show_int i) \<Longrightarrow> plain_byte c"
  using show_nat_digits [of c] by (auto simp: show_int_def plain_byte_def split: if_splits)

lemma i64_to_string_plain: "\<forall>c \<in> set (i64_to_string n). plain_byte c"
  using show_int_plain by (auto simp: i64_to_string_def)

subsection \<open>Splitting at white space\<close>

definition emit_word :: "bytes \<Rightarrow> bytes list" where
  "emit_word w = (if w = [] then [] else [w])"

function split_ws :: "bytes \<Rightarrow> bytes \<Rightarrow> bytes list" where
  "split_ws w s =
     (case strip_prefix ws_seqs s of
        Some r \<Rightarrow> emit_word w @ split_ws [] r
      | None \<Rightarrow> (case s of [] \<Rightarrow> emit_word w | c # cs \<Rightarrow> split_ws (w @ [c]) cs))"
  by pat_completeness auto
termination by (relation "measure (\<lambda>(w, s). length s)") (auto dest: strip_prefix_shorter)

declare split_ws.simps [simp del]

text \<open>\<^verbatim>\<open>str::split_whitespace\<close>: the maximal non-empty runs without white space.\<close>

definition split_whitespace :: "bytes \<Rightarrow> bytes list" where
  "split_whitespace s = split_ws [] s"

lemma split_ws_nonempty: "w \<in> set (split_ws v s) \<Longrightarrow> w \<noteq> []"
proof (induction v s rule: split_ws.induct)
  case (1 v s)
  then show ?case
    by (subst (asm) (3) split_ws.simps) (auto simp: emit_word_def split: option.splits list.splits if_splits)
qed

text \<open>\<^verbatim>\<open>[u8]::eq_ignore_ascii_case\<close> and \<^verbatim>\<open>to_ascii_uppercase\<close>.\<close>

definition to_ascii_uppercase :: "byte \<Rightarrow> byte" where
  "to_ascii_uppercase c = (if 97 \<le> byte_val c \<and> byte_val c \<le> 122 then char_of (byte_val c - 32) else c)"

definition ascii_upper :: "bytes \<Rightarrow> bytes" where
  "ascii_upper s = map to_ascii_uppercase s"

definition eq_ignore_ascii_case :: "bytes \<Rightarrow> bytes \<Rightarrow> bool" where
  "eq_ignore_ascii_case a b = (ascii_upper a = ascii_upper b)"

definition starts_non_graphic :: "bytes \<Rightarrow> bool" where
  "starts_non_graphic p = (case p of [] \<Rightarrow> False | a # _ \<Rightarrow> \<not> between 0x21 0x7E a)"

lemma ws_seqs_non_graphic: "list_all starts_non_graphic ws_seqs"
  by code_simp

lemma split_ws_graphic:
  assumes "between 0x21 0x7E c"
  shows "split_ws w (c # s) = split_ws (w @ [c]) s"
proof -
  have "\<not> (take (length p) (c # s) = p)" if "p \<in> set ws_seqs" for p
    using ws_seqs_non_graphic that assms by (cases p) (auto simp: list_all_iff starts_non_graphic_def)
  then have "List.find (\<lambda>p. p \<noteq> [] \<and> take (length p) (c # s) = p) ws_seqs = None"
    by (auto simp: find_None_iff)
  then have "strip_prefix ws_seqs (c # s) = None" by (simp add: strip_prefix_def)
  then show ?thesis by (simp add: split_ws.simps [of w "c # s"])
qed

lemma split_ws_space:
  assumes "c = CHR '' '' \<or> c = CHR 0x0A"
  shows "split_ws w (c # s) = emit_word w @ split_ws [] s"
proof -
  have "strip_prefix ws_seqs (c # s) = Some s"
    using assms by (elim disjE) (simp_all add: strip_prefix_def ws_seqs_def char_of_def bit_0)
  then show ?thesis by (simp add: split_ws.simps [of w "c # s"])
qed

lemma split_ws_Nil: "split_ws w [] = emit_word w"
  by (simp add: split_ws.simps [of w "[]"] strip_prefix_def ws_seqs_def)

lemmas split_ws_eval = split_ws_Nil split_ws_graphic split_ws_space between_def byte_val_Char emit_word_def

subsection \<open>Length of a printed integer\<close>

lemma show_nat_length: "n < 10 ^ Suc k \<Longrightarrow> length (show_nat n) \<le> Suc k"
proof (induction k arbitrary: n)
  case 0
  then show ?case by (simp add: show_nat.simps [of n])
next
  case (Suc k)
  have "n div 10 < 10 ^ Suc k" using Suc.prems by (simp add: less_mult_imp_div_less mult.commute)
  then show ?case using Suc.IH [of "n div 10"] by (simp add: show_nat.simps [of n])
qed

lemma i64_to_string_length: "length (i64_to_string n) \<le> 20"
proof -
  have "nat (- sint n) < 10 ^ Suc 18" "nat (sint n) < 10 ^ Suc 18" using sint_range [of n] by simp_all
  then have "length (show_nat (nat (- sint n))) \<le> Suc 18" "length (show_nat (nat (sint n))) \<le> Suc 18"
    using show_nat_length [of _ 18] by blast+
  then show ?thesis by (simp add: i64_to_string_def show_int_def)
qed

end
