(* ===== verification/Compact_Obj.thy ===== *)
theory Compact_Obj
  imports Rust_Std "HOL-Library.FSet" "HOL-Library.Finite_Map"
begin

text \<open>
  Keys and values, \<^verbatim>\<open>crates/shrikedb-core/src/compact_obj.rs\<close>: the inline/heap key encoding and the
  value variants with their string and integer views. \<^verbatim>\<open>as_float\<close> needs decimal floating point
  parsing and is not modelled.

  The facts: key encoding is injective and reversible, so the byte-wise \<^verbatim>\<open>PartialEq\<close> and \<^verbatim>\<open>Hash\<close> of
  the code agree with equality of the encoded keys; the integer encoding of a value is lossless
  and chosen exactly for canonical decimal numbers in the \<^verbatim>\<open>i64\<close> range.
\<close>

definition INLINE_LEN :: nat where "INLINE_LEN = 15"

datatype prime_key = Inline bytes u8 | Heap bytes

definition prime_key_new :: "bytes \<Rightarrow> prime_key" where
  "prime_key_new data =
     (if length data \<le> INLINE_LEN
      then Inline (data @ replicate (INLINE_LEN - length data) (CHR 0x00)) (of_nat (length data))
      else Heap data)"

fun key_as_bytes :: "prime_key \<Rightarrow> bytes" where
  "key_as_bytes (Inline data len) = take (unat len) data"
| "key_as_bytes (Heap b) = b"

definition prime_key_eq :: "prime_key \<Rightarrow> prime_key \<Rightarrow> bool" where
  "prime_key_eq a b = (key_as_bytes a = key_as_bytes b)"

text \<open>\<^verbatim>\<open>Hash for PrimeKey\<close>: the hash of the bytes, for a given hasher.\<close>

definition prime_key_hash :: "(bytes \<Rightarrow> u64) \<Rightarrow> prime_key \<Rightarrow> u64" where
  "prime_key_hash h k = h (key_as_bytes k)"

text \<open>
  Values. A \<^verbatim>\<open>HashSet\<close> is a finite set and a \<^verbatim>\<open>HashMap\<close> a finite map (their iteration order is
  unspecified); a sorted set keeps its score map and the ordered entries of its \<^verbatim>\<open>BTreeMap\<close>.
\<close>

record sorted_set_entry =
  score :: f64
  member :: bytes

datatype prime_value =
    PV_String bytes
  | PV_Integer i64
  | PV_List "bytes list"
  | PV_Set "bytes fset"
  | PV_Hash "(bytes, bytes) fmap"
  | PV_ZSet "(bytes, f64) fmap" "sorted_set_entry list"

fun type_name :: "prime_value \<Rightarrow> bytes" where
  "type_name (PV_String _) = ''string''"
| "type_name (PV_Integer _) = ''string''"
| "type_name (PV_List _) = ''list''"
| "type_name (PV_Set _) = ''set''"
| "type_name (PV_Hash _) = ''hash''"
| "type_name (PV_ZSet _ _) = ''zset''"

fun value_as_bytes :: "prime_value \<Rightarrow> bytes" where
  "value_as_bytes (PV_String s) = s"
| "value_as_bytes (PV_Integer n) = i64_to_string n"
| "value_as_bytes _ = []"

fun as_integer :: "prime_value \<Rightarrow> i64 option" where
  "as_integer (PV_Integer n) = Some n"
| "as_integer (PV_String s) = Option.bind (from_utf8 s) (\<lambda>s. parse_i64 (trim s))"
| "as_integer _ = None"

fun value_strlen :: "prime_value \<Rightarrow> nat" where
  "value_strlen (PV_String s) = length s"
| "value_strlen (PV_Integer n) = length (i64_to_string n)"
| "value_strlen _ = 0"

fun is_string :: "prime_value \<Rightarrow> bool" where
  "is_string (PV_String _) = True"
| "is_string (PV_Integer _) = True"
| "is_string _ = False"

fun ensure_string :: "prime_value \<Rightarrow> prime_value" where
  "ensure_string (PV_Integer n) = PV_String (i64_to_string n)"
| "ensure_string v = v"

definition from_bytes :: "bytes \<Rightarrow> prime_value" where
  "from_bytes data =
     (case from_utf8 data of
        None \<Rightarrow> PV_String data
      | Some s \<Rightarrow>
          (case parse_i64 (trim s) of
             None \<Rightarrow> PV_String data
           | Some n \<Rightarrow> if i64_to_string n = data then PV_Integer n else PV_String data))"

subsection \<open>Keys\<close>

lemma key_as_bytes_new [simp]: "key_as_bytes (prime_key_new data) = data"
  by (simp add: prime_key_new_def INLINE_LEN_def unat_of_nat)

lemma prime_key_new_inj [simp]: "prime_key_new a = prime_key_new b \<longleftrightarrow> a = b"
  by (metis key_as_bytes_new)

lemma prime_key_eq_new: "prime_key_eq (prime_key_new a) (prime_key_new b) \<longleftrightarrow> prime_key_new a = prime_key_new b"
  by (simp add: prime_key_eq_def)

subsection \<open>Values\<close>

lemma value_as_bytes_from_bytes [simp]: "value_as_bytes (from_bytes data) = data"
  by (auto simp: from_bytes_def split: option.splits)

lemma is_string_from_bytes [simp]: "is_string (from_bytes data)"
  by (auto simp: from_bytes_def split: option.splits)

lemma from_utf8_show: "from_utf8 (i64_to_string n) = Some (i64_to_string n)"
  using utf8_valid_ascii [of "i64_to_string n"] i64_to_string_plain [of n] plain_byte_ascii
  by (auto simp: from_utf8_def)

lemma from_bytes_show [simp]: "from_bytes (i64_to_string n) = PV_Integer n"
  by (simp add: from_bytes_def from_utf8_show trim_plain i64_to_string_plain)

lemma from_bytes_integer_iff: "from_bytes data = PV_Integer n \<longleftrightarrow> data = i64_to_string n"
  by (metis from_bytes_show value_as_bytes.simps(2) value_as_bytes_from_bytes)

lemma as_integer_from_show [simp]: "as_integer (from_bytes (i64_to_string n)) = Some n"
  by simp

lemma value_as_bytes_ensure_string: "is_string v \<Longrightarrow> ensure_string v = PV_String (value_as_bytes v)"
  by (cases v) auto

lemma value_strlen_bytes: "value_strlen v = length (value_as_bytes v)"
  by (cases v) auto

lemma as_integer_ensure_string: "is_string v \<Longrightarrow> as_integer (ensure_string v) = as_integer v"
  by (cases v) (simp_all add: from_utf8_show trim_plain i64_to_string_plain)

subsection \<open>Properties\<close>

text \<open>C25: a key is recovered from its encoding, inline or on the heap, and the byte-wise equality and hash the
  code defines for keys coincide with equality and hashing of the original byte strings.\<close>

theorem prime_key_faithful:
  "key_as_bytes (prime_key_new a) = a
   \<and> (prime_key_eq (prime_key_new a) (prime_key_new b) \<longleftrightarrow> a = b)
   \<and> prime_key_hash h (prime_key_new a) = h a
   \<and> (\<exists>d. prime_key_new a = Heap d) = (15 < length a)"
  by (simp add: prime_key_eq_new prime_key_hash_def) (simp add: prime_key_new_def INLINE_LEN_def)

text \<open>the value encoding is lossless, and the compact integer form is chosen exactly for the canonical
  decimal form of an \<^verbatim>\<open>i64\<close> (no sign \<^verbatim>\<open>+\<close>, no leading zeros, no white space); reading it back as an integer
  gives the number.\<close>

theorem value_encoding_lossless:
  "value_as_bytes (from_bytes data) = data
   \<and> (from_bytes data = PV_Integer n \<longleftrightarrow> data = i64_to_string n)
   \<and> as_integer (from_bytes (i64_to_string n)) = Some n
   \<and> value_strlen (from_bytes data) = length data
   \<and> ensure_string (from_bytes data) = PV_String data"
  by (simp add: from_bytes_integer_iff value_strlen_bytes value_as_bytes_ensure_string del: from_bytes_show)

end
