(* ===== verification/Glob_Match.thy ===== *)
theory Glob_Match
  imports Rust_Std
begin

text \<open>
  \<^verbatim>\<open>glob_match_str\<close> of \<^verbatim>\<open>crates/shrikedb-server/src/db_slice.rs\<close>: the backtracking matcher behind
  \<^verbatim>\<open>KEYS\<close> and \<^verbatim>\<open>SCAN MATCH\<close>. The loop is a \<open>partial_function\<close>; \<open>glob_loop_total\<close> shows that it returns on
  every input. For patterns without character classes and inputs without asterisks it decides
  the usual meaning of a glob pattern (\<open>glob_spec\<close>). The code compares the pattern byte with the input
  byte before it looks for a wildcard, so an asterisk in the input breaks that equivalence.
\<close>

subsection \<open>The matcher\<close>

text \<open>The body of a character class, from the byte after the bracket to the closing bracket.\<close>

function class_loop :: "bytes \<Rightarrow> byte \<Rightarrow> nat \<Rightarrow> bool \<Rightarrow> nat \<times> bool" where
  "class_loop p c pi matched =
     (if pi < length p \<and> p ! pi \<noteq> CHR '']''
      then if pi + 2 < length p \<and> p ! (pi + 1) = CHR ''-''
           then class_loop p c (pi + 3)
                  (matched \<or> (byte_val (p ! pi) \<le> byte_val c \<and> byte_val c \<le> byte_val (p ! (pi + 2))))
           else class_loop p c (pi + 1) (matched \<or> c = p ! pi)
      else (pi, matched))"
  by pat_completeness auto
termination by (relation "measure (\<lambda>(p, c, pi, m). length p - pi)") auto

declare class_loop.simps [simp del]

definition class_match :: "bytes \<Rightarrow> byte \<Rightarrow> nat \<Rightarrow> nat \<times> bool \<times> bool" where
  "class_match p c pi0 =
     (let pi1 = pi0 + 1;
          negate = (pi1 < length p \<and> p ! pi1 = CHR ''^'');
          pi2 = (if negate then pi1 + 1 else pi1);
          (pi3, matched) = class_loop p c pi2 False
      in (if pi3 < length p then pi3 + 1 else pi3, matched, negate))"

text \<open>One iteration: pattern index, input index and the last asterisk with the input index it was met at
  (\<^verbatim>\<open>star_pi == usize::MAX\<close> is \<open>None\<close>). \<open>Stop pi\<close> leaves the loop, \<open>Mismatch\<close> is \<^verbatim>\<open>return false\<close>.\<close>

datatype glob_next = Stop nat | Mismatch | Go nat nat "(nat \<times> nat) option"

definition glob_back :: "(nat \<times> nat) option \<Rightarrow> glob_next" where
  "glob_back star = (case star of Some (sp, si) \<Rightarrow> Go sp (si + 1) (Some (sp, si + 1)) | None \<Rightarrow> Mismatch)"

definition glob_iter :: "bytes \<Rightarrow> bytes \<Rightarrow> nat \<Rightarrow> nat \<Rightarrow> (nat \<times> nat) option \<Rightarrow> glob_next" where
  "glob_iter p s pi ii star =
     (if ii < length s
      then if pi < length p \<and> (p ! pi = CHR ''?'' \<or> p ! pi = s ! ii) then Go (pi + 1) (ii + 1) star
           else if pi < length p \<and> p ! pi = CHR ''*'' then Go (pi + 1) ii (Some (pi, ii))
           else if pi < length p \<and> p ! pi = CHR ''[''
           then (case class_match p (s ! ii) pi of
                   (pi', matched, negate) \<Rightarrow>
                     if matched = negate then glob_back star else Go pi' (ii + 1) star)
           else glob_back star
      else Stop pi)"

text \<open>After the loop, trailing asterisks are skipped.\<close>

definition skip_stars :: "bytes \<Rightarrow> nat \<Rightarrow> nat" where
  "skip_stars p pi = pi + length (takeWhile (\<lambda>c. c = CHR ''*'') (drop pi p))"

partial_function (option) glob_loop ::
  "bytes \<Rightarrow> bytes \<Rightarrow> nat \<Rightarrow> nat \<Rightarrow> (nat \<times> nat) option \<Rightarrow> bool option" where
  "glob_loop p s pi ii star =
     (case glob_iter p s pi ii star of
        Stop pi' \<Rightarrow> Some (skip_stars p pi' = length p)
      | Mismatch \<Rightarrow> Some False
      | Go pi' ii' star' \<Rightarrow> glob_loop p s pi' ii' star')"

declare glob_loop.simps [code]

definition glob_match_str :: "bytes \<Rightarrow> bytes \<Rightarrow> bool option" where
  "glob_match_str p s = glob_loop p s 0 0 None"

definition glob_match :: "bytes \<Rightarrow> bytes \<Rightarrow> bool option" where
  "glob_match p input = (case from_utf8 input of None \<Rightarrow> Some False | Some s \<Rightarrow> glob_match_str p s)"

subsection \<open>Termination\<close>

lemma class_loop_ge: "pi \<le> fst (class_loop p c pi m)"
proof (induction p c pi m rule: class_loop.induct)
  case (1 p c pi m)
  then show ?case by (simp add: class_loop.simps [of p c pi m]) force
qed

lemma class_match_gt: "class_match p c pi = (pi', m, n) \<Longrightarrow> pi < pi'"
  using class_loop_ge [of _ p c False]
  by (auto simp: class_match_def Let_def split: prod.splits if_splits)
     (metis Suc_le_lessD fst_conv le_SucI le_imp_less_Suc le_trans lessI less_imp_le_nat less_trans)+

definition glob_state :: "bytes \<Rightarrow> bytes \<Rightarrow> nat \<Rightarrow> nat \<Rightarrow> (nat \<times> nat) option \<Rightarrow> bool" where
  "glob_state p s pi ii star \<longleftrightarrow>
     (case star of None \<Rightarrow> True
      | Some (sp, si) \<Rightarrow> sp < length p \<and> si \<le> ii \<and> sp \<le> pi \<and> (sp = pi \<longrightarrow> si = ii))"

definition glob_measure :: "bytes \<Rightarrow> bytes \<Rightarrow> nat \<times> nat \<times> (nat \<times> nat) option \<Rightarrow> nat \<times> nat \<times> nat" where
  "glob_measure p s x = (case x of (pi, ii, star) \<Rightarrow>
     (case star of None \<Rightarrow> length p + 1 | Some (sp, si) \<Rightarrow> length p - sp,
      case star of None \<Rightarrow> 0 | Some (sp, si) \<Rightarrow> length s - si,
      (length s - ii) + (length p - pi)))"

definition glob_rel :: "bytes \<Rightarrow> bytes \<Rightarrow> ((nat \<times> nat \<times> (nat \<times> nat) option) \<times> (nat \<times> nat \<times> (nat \<times> nat) option)) set" where
  "glob_rel p s = inv_image (less_than <*lex*> less_than <*lex*> less_than) (glob_measure p s)"

lemma wf_glob_rel: "wf (glob_rel p s)"
  unfolding glob_rel_def by (intro wf_inv_image wf_lex_prod wf_less_than)

lemma glob_back_Go:
  "glob_back star = Go a b c \<longleftrightarrow> (\<exists>sp si. star = Some (sp, si) \<and> a = sp \<and> b = si + 1 \<and> c = Some (sp, si + 1))"
  by (auto simp: glob_back_def split: option.splits)

lemma glob_iter_decreases:
  assumes st: "glob_state p s pi ii star" and go: "glob_iter p s pi ii star = Go pi' ii' star'"
  shows "((pi', ii', star'), (pi, ii, star)) \<in> glob_rel p s" and "glob_state p s pi' ii' star'"
proof -
  have lt: "ii < length s" using go by (auto simp: glob_iter_def split: if_splits)
  consider (adv) "pi < pi'" "ii' = ii + 1" "star' = star"
    | (met) "pi < length p" "pi' = pi + 1" "ii' = ii" "star' = Some (pi, ii)"
    | (again) sp si where "star = Some (sp, si)" "pi' = sp" "ii' = si + 1" "star' = Some (sp, si + 1)"
    using go unfolding glob_iter_def
    by (auto simp: glob_back_Go split: if_splits prod.splits dest: class_match_gt)
  then have "((pi', ii', star'), (pi, ii, star)) \<in> glob_rel p s \<and> glob_state p s pi' ii' star'"
  proof cases
    case adv
    then show ?thesis using lt st by (auto simp: glob_rel_def glob_measure_def glob_state_def split: option.splits)
  next
    case met
    then show ?thesis using st by (auto simp: glob_rel_def glob_measure_def glob_state_def split: option.splits)
  next
    case again
    then show ?thesis using lt st by (auto simp: glob_rel_def glob_measure_def glob_state_def)
  qed
  then show "((pi', ii', star'), (pi, ii, star)) \<in> glob_rel p s" and "glob_state p s pi' ii' star'" by blast+
qed

lemma glob_loop_total: "glob_state p s pi ii star \<Longrightarrow> \<exists>r. glob_loop p s pi ii star = Some r"
proof (induction "(pi, ii, star)" arbitrary: pi ii star rule: wf_induct_rule [OF wf_glob_rel [of p s]])
  case 1
  show ?case
    using 1 glob_iter_decreases [OF 1(2)]
    by (cases "glob_iter p s pi ii star") (auto simp: glob_loop.simps [of p s pi ii star])
qed

subsection \<open>The meaning of a pattern\<close>

fun glob_spec :: "bytes \<Rightarrow> bytes \<Rightarrow> bool" where
  "glob_spec [] s = (s = [])"
| "glob_spec (c # p) [] = (c = CHR ''*'' \<and> glob_spec p [])"
| "glob_spec (c # p) (d # s) =
     (if c = CHR ''*'' then glob_spec p (d # s) \<or> glob_spec (c # p) s
      else (c = CHR ''?'' \<or> c = d) \<and> glob_spec p s)"

lemma glob_spec_star: "glob_spec (CHR ''*'' # p) s \<longleftrightarrow> (\<exists>j \<le> length s. glob_spec p (drop j s))"
proof (induction s)
  case (Cons d s)
  have "(\<exists>j \<le> length (d # s). glob_spec p (drop j (d # s))) \<longleftrightarrow>
      glob_spec p (d # s) \<or> (\<exists>j \<le> length s. glob_spec p (drop j s))"
  proof
    assume "\<exists>j \<le> length (d # s). glob_spec p (drop j (d # s))"
    then obtain j where "j \<le> length (d # s)" "glob_spec p (drop j (d # s))" by blast
    then show "glob_spec p (d # s) \<or> (\<exists>j \<le> length s. glob_spec p (drop j s))" by (cases j) auto
  next
    assume "glob_spec p (d # s) \<or> (\<exists>j \<le> length s. glob_spec p (drop j s))"
    then show "\<exists>j \<le> length (d # s). glob_spec p (drop j (d # s))"
      by (metis Suc_le_mono drop0 drop_Suc_Cons length_Cons zero_le)
  qed
  then show ?case using Cons by simp
qed simp

lemma glob_spec_segment:
  assumes "CHR ''*'' \<notin> set q" and "glob_spec (q @ p) s"
  shows "length q \<le> length s \<and> glob_spec p (drop (length q) s)"
  using assms
proof (induction q arbitrary: s)
  case (Cons c q)
  then show ?case by (cases s) auto
qed simp

lemma glob_spec_empty: "glob_spec p [] \<longleftrightarrow> (\<forall>c \<in> set p. c = CHR ''*'')"
  by (induction p) auto

text \<open>What the loop still has to decide: the rest against the rest, or one of the later starting points of
  the last asterisk.\<close>

definition glob_alt :: "bytes \<Rightarrow> bytes \<Rightarrow> (nat \<times> nat) option \<Rightarrow> bool" where
  "glob_alt p s star = (case star of None \<Rightarrow> False
     | Some (sp, si) \<Rightarrow> \<exists>j. si < j \<and> j \<le> length s \<and> glob_spec (drop (sp + 1) p) (drop j s))"

definition glob_val :: "bytes \<Rightarrow> bytes \<Rightarrow> nat \<Rightarrow> nat \<Rightarrow> (nat \<times> nat) option \<Rightarrow> bool" where
  "glob_val p s pi ii star \<longleftrightarrow> glob_spec (drop pi p) (drop ii s) \<or> glob_alt p s star"

text \<open>Between the last asterisk and the current position the pattern has no asterisk and has consumed one input
  byte each.\<close>

definition glob_inv :: "bytes \<Rightarrow> bytes \<Rightarrow> nat \<Rightarrow> nat \<Rightarrow> (nat \<times> nat) option \<Rightarrow> bool" where
  "glob_inv p s pi ii star \<longleftrightarrow> pi \<le> length p \<and> ii \<le> length s \<and>
     (case star of None \<Rightarrow> True
      | Some (sp, si) \<Rightarrow> sp < length p \<and> p ! sp = CHR ''*'' \<and>
          (sp = pi \<and> si = ii \<or> sp < pi \<and> ii = si + (pi - sp - 1)
             \<and> CHR ''*'' \<notin> set (take (pi - sp - 1) (drop (sp + 1) p))))"

lemma glob_inv_state: "glob_inv p s pi ii star \<Longrightarrow> glob_state p s pi ii star"
  by (auto simp: glob_inv_def glob_state_def split: option.splits)

lemma drop_star: "sp < length p \<Longrightarrow> p ! sp = CHR ''*'' \<Longrightarrow>
  glob_spec (drop sp p) (drop i s) \<longleftrightarrow> (\<exists>j. i \<le> j \<and> j \<le> length s \<and> glob_spec (drop (sp + 1) p) (drop j s))"
  if "i \<le> length s"
proof -
  assume "sp < length p" "p ! sp = CHR ''*''"
  then have "drop sp p = CHR ''*'' # drop (sp + 1) p" by (metis Cons_nth_drop_Suc Suc_eq_plus1)
  then have "glob_spec (drop sp p) (drop i s) \<longleftrightarrow> (\<exists>j \<le> length s - i. glob_spec (drop (sp + 1) p) (drop (i + j) s))"
    by (simp add: glob_spec_star add.commute)
  also have "\<dots> \<longleftrightarrow> (\<exists>j. i \<le> j \<and> j \<le> length s \<and> glob_spec (drop (sp + 1) p) (drop j s))"
    using that by (metis add_diff_inverse_nat diff_le_mono le_add1 le_diff_conv2 not_less add.commute)
  finally show ?thesis .
qed

text \<open>A later starting point of an earlier asterisk is absorbed by the current one.\<close>

lemma glob_alt_absorbed:
  assumes inv: "glob_inv p s pi ii star" and alt: "glob_alt p s star" and pi: "pi < length p" "p ! pi = CHR ''*''"
  shows "glob_spec (drop pi p) (drop ii s)"
proof -
  obtain sp si j where star: "star = Some (sp, si)" and j: "si < j" "j \<le> length s" "glob_spec (drop (sp + 1) p) (drop j s)"
    using alt by (auto simp: glob_alt_def split: option.splits)
  have ii: "ii \<le> length s" using inv by (simp add: glob_inv_def)
  show ?thesis
  proof (cases "sp = pi")
    case True
    then have "si = ii" using inv star by (auto simp: glob_inv_def)
    then show ?thesis unfolding drop_star [OF ii pi] using j True by (intro exI [of _ j]) simp
  next
    case False
    define n where "n = pi - sp - 1"
    have sp: "sp < pi" "ii = si + n" "CHR ''*'' \<notin> set (take n (drop (sp + 1) p))"
      using inv star False by (auto simp: glob_inv_def n_def)
    have "drop (sp + 1) p = take n (drop (sp + 1) p) @ drop pi p"
      using sp(1) append_take_drop_id [of n "drop (sp + 1) p"] by (simp add: n_def)
    moreover have "length (take n (drop (sp + 1) p)) = n" using sp(1) pi(1) by (simp add: n_def)
    ultimately have seg: "n \<le> length (drop j s)" "glob_spec (drop pi p) (drop n (drop j s))"
      using glob_spec_segment [OF sp(3), of "drop pi p" "drop j s"] j(3) by simp_all
    have jn: "j + n \<le> length s" using seg(1) j(2) by simp
    have "glob_spec (drop pi p) (drop (j + n) s)" using seg(2) by (simp add: add.commute)
    then obtain l where "j + n \<le> l" "l \<le> length s" "glob_spec (drop (pi + 1) p) (drop l s)"
      using drop_star [OF jn pi] by auto
    then show ?thesis unfolding drop_star [OF ii pi] using sp(2) j(1) by (intro exI [of _ l]) simp
  qed
qed

lemma length_takeWhile_all: "length (takeWhile P xs) = length xs \<longleftrightarrow> (\<forall>x \<in> set xs. P x)"
  by (induction xs) auto

lemma skip_stars_all:
  assumes "pi \<le> length p"
  shows "skip_stars p pi = length p \<longleftrightarrow> (\<forall>c \<in> set (drop pi p). c = CHR ''*'')"
proof -
  let ?t = "takeWhile (\<lambda>c. c = CHR ''*'') (drop pi p)"
  have "skip_stars p pi = length p \<longleftrightarrow> length ?t = length (drop pi p)"
    using assms by (auto simp: skip_stars_def)
  also have "\<dots> \<longleftrightarrow> (\<forall>c \<in> set (drop pi p). c = CHR ''*'')"
    by (rule length_takeWhile_all)
  finally show ?thesis .
qed

lemma glob_stop:
  assumes inv: "glob_inv p s pi ii star" and fin: "\<not> ii < length s"
  shows "glob_val p s pi ii star \<longleftrightarrow> skip_stars p pi = length p"
proof -
  have ii: "ii = length s" and pi: "pi \<le> length p" using inv fin by (simp_all add: glob_inv_def)
  have "\<not> glob_alt p s star"
  proof
    assume "glob_alt p s star"
    then obtain sp si j where star: "star = Some (sp, si)" and j: "si < j" "j \<le> length s" "glob_spec (drop (sp + 1) p) (drop j s)"
      by (auto simp: glob_alt_def split: option.splits)
    define n where "n = pi - sp - 1"
    have sp: "sp < pi" "ii = si + n" "CHR ''*'' \<notin> set (take n (drop (sp + 1) p))"
      using inv star j ii by (auto simp: glob_inv_def n_def)
    have "drop (sp + 1) p = take n (drop (sp + 1) p) @ drop pi p"
      using sp(1) append_take_drop_id [of n "drop (sp + 1) p"] by (simp add: n_def)
    moreover have "length (take n (drop (sp + 1) p)) = n" using sp(1) pi by (simp add: n_def)
    ultimately have "n \<le> length (drop j s)"
      using glob_spec_segment [OF sp(3), of "drop pi p" "drop j s"] j(3) by simp
    then show False using j sp(2) ii by simp
  qed
  then show ?thesis using ii by (simp add: glob_val_def glob_spec_empty skip_stars_all [OF pi])
qed

lemma glob_mismatch:
  assumes "glob_inv p s pi ii star" and "ii < length s" and "\<not> (pi < length p \<and> (p ! pi = CHR ''?'' \<or> p ! pi = s ! ii))"
    and "\<not> (pi < length p \<and> p ! pi = CHR ''*'')"
  shows "\<not> glob_spec (drop pi p) (drop ii s)"
proof (cases "pi < length p")
  case True
  then have "drop pi p = p ! pi # drop (pi + 1) p" by (simp add: Cons_nth_drop_Suc)
  moreover have "drop ii s = s ! ii # drop (ii + 1) s" using assms(2) by (simp add: Cons_nth_drop_Suc)
  ultimately show ?thesis using assms(3,4) True by simp
next
  case False
  then have "drop pi p = []" by simp
  then show ?thesis using assms(2) by simp
qed

lemma glob_iter_val:
  assumes inv: "glob_inv p s pi ii star" and p: "CHR ''['' \<notin> set p" and s: "CHR ''*'' \<notin> set s"
    and go: "glob_iter p s pi ii star = Go pi' ii' star'"
  shows "glob_inv p s pi' ii' star' \<and> glob_val p s pi' ii' star' = glob_val p s pi ii star"
proof -
  have ii: "ii < length s" using go by (auto simp: glob_iter_def split: if_splits)
  have dii: "drop ii s = s ! ii # drop (ii + 1) s" using ii by (simp add: Cons_nth_drop_Suc)
  have nb: "\<not> (pi < length p \<and> p ! pi = CHR ''['')" using p by (metis nth_mem)
  have sne: "s ! ii \<noteq> CHR ''*''" using s ii by (metis nth_mem)
  show ?thesis
  proof (cases "pi < length p \<and> (p ! pi = CHR ''?'' \<or> p ! pi = s ! ii)")
    case True
    then have n: "pi' = pi + 1" "ii' = ii + 1" "star' = star" using go ii by (simp_all add: glob_iter_def)
    have dpi: "drop pi p = p ! pi # drop (pi + 1) p" using True by (simp add: Cons_nth_drop_Suc)
    have ne: "p ! pi \<noteq> CHR ''*''" using True sne by auto
    have "glob_inv p s (pi + 1) (ii + 1) star"
    proof (cases star)
      case (Some x)
      obtain sp si where x: "x = (sp, si)" by fastforce
      have sp: "sp < pi" "ii = si + (pi - sp - 1)" "CHR ''*'' \<notin> set (take (pi - sp - 1) (drop (sp + 1) p))"
        "sp < length p" "p ! sp = CHR ''*''" using inv ne Some x by (auto simp: glob_inv_def)
      have "take (pi - sp) (drop (sp + 1) p) = take (pi - sp - 1) (drop (sp + 1) p) @ [p ! pi]"
      proof -
        have "pi - sp - 1 < length (drop (sp + 1) p)" using sp(1) conjunct1 [OF True] by (simp add: diff_less_mono Suc_leI)
        from take_Suc_conv_app_nth [OF this] show ?thesis
          using sp(1) conjunct1 [OF True] by (simp add: Suc_diff_Suc nth_drop)
      qed
      then show ?thesis using sp True ii ne Some x by (simp add: glob_inv_def)
    qed (use True ii in \<open>simp add: glob_inv_def\<close>)
    then show ?thesis using n dpi dii ne True by (auto simp: glob_val_def)
  next
    case F1: False
    show ?thesis
    proof (cases "pi < length p \<and> p ! pi = CHR ''*''")
      case True
      then have n: "pi' = pi + 1" "ii' = ii" "star' = Some (pi, ii)" using go ii F1 by (auto simp: glob_iter_def)
      have le: "ii \<le> length s" using ii by simp
      have "glob_val p s pi' ii' star' = glob_spec (drop pi p) (drop ii s)"
        unfolding glob_val_def n glob_alt_def option.case prod.case drop_star [OF le conjunct1 [OF True] conjunct2 [OF True]]
        using le by (metis le_eq_less_or_eq)
      moreover have "glob_val p s pi ii star = glob_spec (drop pi p) (drop ii s)"
        using glob_alt_absorbed [OF inv] True by (auto simp: glob_val_def)
      ultimately show ?thesis using True inv n by (simp add: glob_inv_def)
    next
      case F2: False
      then have "glob_back star = Go pi' ii' star'" using go ii F1 nb by (auto simp: glob_iter_def)
      then obtain sp si where n: "star = Some (sp, si)" "pi' = sp" "ii' = si + 1" "star' = Some (sp, si + 1)"
        by (auto simp: glob_back_Go)
      have sp: "sp < length p" "p ! sp = CHR ''*''" "si + 1 \<le> length s" using inv n(1) ii by (auto simp: glob_inv_def)
      have "glob_val p s pi ii star = glob_alt p s star"
        using glob_mismatch [OF inv ii F1 F2] by (simp add: glob_val_def)
      moreover have "glob_val p s pi' ii' star' = glob_alt p s star"
        unfolding glob_val_def n glob_alt_def option.case prod.case drop_star [OF sp(3,1,2)]
        by (auto simp: Suc_le_eq intro: Suc_lessD)
      ultimately show ?thesis using sp n by (simp add: glob_inv_def)
    qed
  qed
qed

lemma glob_loop_val:
  assumes "glob_inv p s pi ii star" and p: "CHR ''['' \<notin> set p" and s: "CHR ''*'' \<notin> set s"
  shows "glob_loop p s pi ii star = Some (glob_val p s pi ii star)"
  using assms(1)
proof (induction "(pi, ii, star)" arbitrary: pi ii star rule: wf_induct_rule [OF wf_glob_rel [of p s]])
  case 1
  show ?case
  proof (cases "glob_iter p s pi ii star")
    case (Stop k)
    then have "\<not> ii < length s" "k = pi"
      by (auto simp: glob_iter_def glob_back_def split: if_splits option.splits prod.splits)
    then show ?thesis using glob_stop [OF 1(2)] Stop by (simp add: glob_loop.simps [of p s pi ii star])
  next
    case Mismatch
    then have ii: "ii < length s" and F: "\<not> (pi < length p \<and> (p ! pi = CHR ''?'' \<or> p ! pi = s ! ii))"
      "\<not> (pi < length p \<and> p ! pi = CHR ''*'')" by (auto simp: glob_iter_def split: if_splits)
    have "\<not> (pi < length p \<and> p ! pi = CHR ''['')" using p by (metis nth_mem)
    then have "glob_back star = Mismatch" using Mismatch ii F by (auto simp: glob_iter_def)
    then have "star = None" by (auto simp: glob_back_def split: option.splits)
    then have "\<not> glob_val p s pi ii star"
      using glob_mismatch [OF 1(2) ii F] by (simp add: glob_val_def glob_alt_def)
    then show ?thesis using Mismatch by (simp add: glob_loop.simps [of p s pi ii star])
  next
    case (Go pi' ii' star')
    note v = glob_iter_val [OF 1(2) p s Go]
    have "glob_loop p s pi' ii' star' = Some (glob_val p s pi' ii' star')"
      using 1(1) glob_iter_decreases(1) [OF glob_inv_state [OF 1(2)] Go] v by blast
    then show ?thesis using v Go by (simp add: glob_loop.simps [of p s pi ii star])
  qed
qed

subsection \<open>Properties\<close>

text \<open>the matcher returns on every pattern and every input, character classes and malformed patterns
  included: its backtracking loop terminates.\<close>

theorem glob_match_returns: "\<exists>r. glob_match p input = Some r"
  using glob_loop_total [of p _ 0 0 None]
  by (auto simp: glob_match_def glob_match_str_def glob_state_def split: option.splits)

text \<open>for a pattern without character classes and an input without asterisks, the matcher decides the
  recursive meaning of the pattern: an asterisk matches any byte string, a question mark any byte.\<close>

theorem glob_match_correct:
  assumes "CHR ''['' \<notin> set p" and "CHR ''*'' \<notin> set s"
  shows "glob_match_str p s = Some (glob_spec p s)"
  using glob_loop_val [OF _ assms, of 0 0 None]
  by (simp add: glob_match_str_def glob_inv_def glob_val_def glob_alt_def)

theorem glob_match_correct_witness: "glob_match_str ''h*l?o'' ''hello'' = Some True"
proof -
  have "glob_spec ''h*l?o'' ''hello''" by code_simp
  then show ?thesis using glob_match_correct [of "''h*l?o''" "''hello''"] by simp
qed

text \<open>an asterisk in the input is matched literally before it is tried as a wildcard, so the pattern that
  should match every key does not match the key \<^verbatim>\<open>*a\<close>.\<close>

theorem glob_star_misses_starred_key: "glob_match_str ''*'' ''*a'' = Some False \<and> glob_spec ''*'' ''*a''"
  by code_simp

end
