(* ===== verification/Db_Slice.thy ===== *)
theory Db_Slice
  imports Dash_Table Compact_Obj Glob_Match
begin

text \<open>
  The databases of a shard, \<^verbatim>\<open>crates/shrikedb-server/src/db_table.rs\<close>, \<^verbatim>\<open>db_slice.rs\<close> and
  \<^verbatim>\<open>engine_shard.rs\<close>: sixteen databases, each a table of values and a table of expiry deadlines,
  with lazy expiry on access, a sweep, renaming, iteration and glob matching.

  An operation on database \<open>i\<close> panics (\<open>None\<close>) when \<open>i\<close> is out of range, or when a table insertion
  does. \<open>db_abs\<close> reads a database as a finite map from keys to a value and an optional deadline; the
  lemmas say what each operation does to that map. They rest on the contract \<open>kv_table\<close> of the two
  tables, so deletions carry the hypothesis \<open>db_removable\<close>.
\<close>

definition NUM_DBS :: nat where "NUM_DBS = 16"

record db_table =
  prime :: "(prime_key, prime_value) dash_table"
  expire :: "(prime_key, u64) dash_table"

definition db_table_new :: "(bytes \<Rightarrow> u64) \<Rightarrow> (bytes \<Rightarrow> u64) \<Rightarrow> db_table" where
  "db_table_new h1 h2 = \<lparr>prime = tbl_with_hasher (prime_key_hash h1), expire = tbl_with_hasher (prime_key_hash h2)\<rparr>"

definition db_table_clear :: "db_table \<Rightarrow> db_table" where
  "db_table_clear db = db\<lparr>prime := tbl_clear (prime db), expire := tbl_clear (expire db)\<rparr>"

record db_slice =
  dbs :: "db_table list"
  now_ms :: u64

record find_result =
  fr_value :: prime_value
  has_expire :: bool

text \<open>Each table draws its own hasher (\<^verbatim>\<open>RandomState::new()\<close>): \<open>hs\<close> supplies them.\<close>

definition db_slice_new :: "(nat \<Rightarrow> bytes \<Rightarrow> u64) \<Rightarrow> db_slice" where
  "db_slice_new hs = \<lparr>dbs = map (\<lambda>i. db_table_new (hs (2 * i)) (hs (2 * i + 1))) [0..<NUM_DBS], now_ms = 0\<rparr>"

definition update_time :: "db_slice \<Rightarrow> u64 \<Rightarrow> db_slice" where
  "update_time ds now = ds\<lparr>now_ms := now\<rparr>"

text \<open>\<^verbatim>\<open>&mut self.dbs[db_index as usize]\<close>, panicking on an index out of range.\<close>

definition on_db :: "db_slice \<Rightarrow> u16 \<Rightarrow> (db_table \<Rightarrow> ('a \<times> db_table) option) \<Rightarrow> ('a \<times> db_slice) option" where
  "on_db ds i f =
     (if unat i < length (dbs ds)
      then map_option (\<lambda>(a, db'). (a, ds\<lparr>dbs := (dbs ds)[unat i := db']\<rparr>)) (f (dbs ds ! unat i))
      else None)"

definition ds_db :: "db_slice \<Rightarrow> u16 \<Rightarrow> db_table option" where
  "ds_db ds i = (if unat i < length (dbs ds) then Some (dbs ds ! unat i) else None)"

definition db_size :: "db_slice \<Rightarrow> u16 \<Rightarrow> nat option" where
  "db_size ds i = map_option (\<lambda>db. tbl_len (prime db)) (ds_db ds i)"

definition remove_both :: "db_table \<Rightarrow> prime_key \<Rightarrow> db_table" where
  "remove_both db pk = db\<lparr>prime := snd (tbl_remove (prime db) pk), expire := snd (tbl_remove (expire db) pk)\<rparr>"

definition check_and_expire :: "db_table \<Rightarrow> prime_key \<Rightarrow> u64 \<Rightarrow> bool \<times> db_table" where
  "check_and_expire db pk now =
     (case tbl_find (expire db) pk of
        Some deadline \<Rightarrow> if now \<ge> deadline then (True, remove_both db pk) else (False, db)
      | None \<Rightarrow> (False, db))"

definition db_find :: "db_table \<Rightarrow> prime_key \<Rightarrow> u64 \<Rightarrow> find_result option \<times> db_table" where
  "db_find db pk now =
     (let (expired, db') = check_and_expire db pk now
      in if expired then (None, db')
         else (map_option (\<lambda>v. \<lparr>fr_value = v, has_expire = tbl_contains (expire db') pk\<rparr>)
                 (tbl_find (prime db') pk), db'))"

definition ds_find :: "db_slice \<Rightarrow> u16 \<Rightarrow> bytes \<Rightarrow> (find_result option \<times> db_slice) option" where
  "ds_find ds i key = on_db ds i (\<lambda>db. Some (db_find db (prime_key_new key) (now_ms ds)))"

text \<open>\<^verbatim>\<open>find_mut\<close> with the write the caller makes through the returned reference: \<open>f\<close> gets the value
  and returns the new value and whatever the caller computes.\<close>

definition db_find_mut ::
  "db_table \<Rightarrow> prime_key \<Rightarrow> u64 \<Rightarrow> (find_result \<Rightarrow> prime_value \<times> 'a) \<Rightarrow> 'a option \<times> db_table" where
  "db_find_mut db pk now f =
     (let (expired, db') = check_and_expire db pk now
      in if expired then (None, db')
         else let hx = tbl_contains (expire db') pk
              in case tbl_find (prime db') pk of
                   None \<Rightarrow> (None, db')
                 | Some v \<Rightarrow>
                     (let (v', a) = f \<lparr>fr_value = v, has_expire = hx\<rparr>
                      in case tbl_find_mut (prime db') pk (\<lambda>_. v') of
                           None \<Rightarrow> (None, db')
                         | Some p \<Rightarrow> (Some a, db'\<lparr>prime := p\<rparr>)))"

definition ds_find_mut ::
  "db_slice \<Rightarrow> u16 \<Rightarrow> bytes \<Rightarrow> (find_result \<Rightarrow> prime_value \<times> 'a) \<Rightarrow> ('a option \<times> db_slice) option" where
  "ds_find_mut ds i key f = on_db ds i (\<lambda>db. Some (db_find_mut db (prime_key_new key) (now_ms ds) f))"

definition db_insert :: "db_table \<Rightarrow> prime_key \<Rightarrow> prime_value \<Rightarrow> (bool \<times> db_table) option" where
  "db_insert db pk v = map_option (\<lambda>(old, p). (old = None, db\<lparr>prime := p\<rparr>)) (tbl_insert (prime db) pk v)"

definition add_or_update :: "db_slice \<Rightarrow> u16 \<Rightarrow> bytes \<Rightarrow> prime_value \<Rightarrow> (bool \<times> db_slice) option" where
  "add_or_update ds i key v = on_db ds i (\<lambda>db. db_insert db (prime_key_new key) v)"

definition db_add_if_absent :: "db_table \<Rightarrow> prime_key \<Rightarrow> prime_value \<Rightarrow> u64 \<Rightarrow> (bool \<times> db_table) option" where
  "db_add_if_absent db pk v now =
     (let (expired, db') = check_and_expire db pk now
      in if \<not> expired \<and> tbl_contains (prime db') pk then Some (False, db')
         else map_option (\<lambda>(_, db''). (True, db'')) (db_insert db' pk v))"

definition add_if_absent :: "db_slice \<Rightarrow> u16 \<Rightarrow> bytes \<Rightarrow> prime_value \<Rightarrow> (bool \<times> db_slice) option" where
  "add_if_absent ds i key v = on_db ds i (\<lambda>db. db_add_if_absent db (prime_key_new key) v (now_ms ds))"

definition db_del :: "db_table \<Rightarrow> prime_key \<Rightarrow> bool \<times> db_table" where
  "db_del db pk =
     (let e = snd (tbl_remove (expire db) pk); (old, p) = tbl_remove (prime db) pk
      in (old \<noteq> None, db\<lparr>prime := p, expire := e\<rparr>))"

definition ds_del :: "db_slice \<Rightarrow> u16 \<Rightarrow> bytes \<Rightarrow> (bool \<times> db_slice) option" where
  "ds_del ds i key = on_db ds i (\<lambda>db. Some (db_del db (prime_key_new key)))"

definition ds_exists :: "db_slice \<Rightarrow> u16 \<Rightarrow> bytes \<Rightarrow> (bool \<times> db_slice) option" where
  "ds_exists ds i key = map_option (\<lambda>(r, ds'). (r \<noteq> None, ds')) (ds_find ds i key)"

definition db_add_expire :: "db_table \<Rightarrow> prime_key \<Rightarrow> u64 \<Rightarrow> (unit \<times> db_table) option" where
  "db_add_expire db pk deadline =
     (if tbl_contains (prime db) pk
      then map_option (\<lambda>(_, e). ((), db\<lparr>expire := e\<rparr>)) (tbl_insert (expire db) pk deadline)
      else Some ((), db))"

definition add_expire :: "db_slice \<Rightarrow> u16 \<Rightarrow> bytes \<Rightarrow> u64 \<Rightarrow> (unit \<times> db_slice) option" where
  "add_expire ds i key deadline = on_db ds i (\<lambda>db. db_add_expire db (prime_key_new key) deadline)"

definition db_remove_expire :: "db_table \<Rightarrow> prime_key \<Rightarrow> bool \<times> db_table" where
  "db_remove_expire db pk = (let (old, e) = tbl_remove (expire db) pk in (old \<noteq> None, db\<lparr>expire := e\<rparr>))"

definition remove_expire :: "db_slice \<Rightarrow> u16 \<Rightarrow> bytes \<Rightarrow> (bool \<times> db_slice) option" where
  "remove_expire ds i key = on_db ds i (\<lambda>db. Some (db_remove_expire db (prime_key_new key)))"

datatype ttl_result = KeyNotFound | NoExpiry | Expires u64

definition db_ttl_ms :: "db_table \<Rightarrow> prime_key \<Rightarrow> u64 \<Rightarrow> ttl_result \<times> db_table" where
  "db_ttl_ms db pk now =
     (if \<not> tbl_contains (prime db) pk then (KeyNotFound, db)
      else case tbl_find (expire db) pk of
             Some deadline \<Rightarrow>
               if now \<ge> deadline then (KeyNotFound, remove_both db pk) else (Expires (deadline - now), db)
           | None \<Rightarrow> (NoExpiry, db))"

definition ttl_ms :: "db_slice \<Rightarrow> u16 \<Rightarrow> bytes \<Rightarrow> (ttl_result \<times> db_slice) option" where
  "ttl_ms ds i key = on_db ds i (\<lambda>db. Some (db_ttl_ms db (prime_key_new key) (now_ms ds)))"

definition db_rename :: "db_table \<Rightarrow> prime_key \<Rightarrow> prime_key \<Rightarrow> (bool \<times> db_table) option" where
  "db_rename db from_pk to_pk =
     (let (deadline, e1) = tbl_remove (expire db) from_pk;
          (old, p1) = tbl_remove (prime db) from_pk
      in case old of
           None \<Rightarrow> Some (False, db\<lparr>prime := p1, expire := e1\<rparr>)
         | Some v \<Rightarrow>
             (let e2 = snd (tbl_remove e1 to_pk)
              in case tbl_insert p1 to_pk v of
                   None \<Rightarrow> None
                 | Some (_, p2) \<Rightarrow>
                     (case deadline of
                        None \<Rightarrow> Some (True, db\<lparr>prime := p2, expire := e2\<rparr>)
                      | Some d \<Rightarrow>
                          map_option (\<lambda>(_, e3). (True, db\<lparr>prime := p2, expire := e3\<rparr>))
                            (tbl_insert e2 to_pk d))))"

definition rename :: "db_slice \<Rightarrow> u16 \<Rightarrow> bytes \<Rightarrow> bytes \<Rightarrow> (bool \<times> db_slice) option" where
  "rename ds i from dest = on_db ds i (\<lambda>db. db_rename db (prime_key_new from) (prime_key_new dest))"

definition is_expired :: "db_table \<Rightarrow> u64 \<Rightarrow> prime_key \<Rightarrow> bool" where
  "is_expired db now k = (case tbl_find (expire db) k of Some deadline \<Rightarrow> now \<ge> deadline | None \<Rightarrow> False)"

definition ds_scan ::
  "db_slice \<Rightarrow> u16 \<Rightarrow> cursor \<Rightarrow> u64 \<Rightarrow> bytes option \<Rightarrow> (bytes list \<times> cursor) option" where
  "ds_scan ds i cursor cnt pattern =
     (case ds_db ds i of
        None \<Rightarrow> None
      | Some db \<Rightarrow>
          map_option (\<lambda>(entries, next_cursor).
            (filter (\<lambda>key. case pattern of None \<Rightarrow> True | Some pat \<Rightarrow> glob_match pat key = Some True)
               (map (\<lambda>(k, _). key_as_bytes k) entries), next_cursor))
            (tbl_scan (prime db) cursor cnt))"

definition db_keys :: "db_table \<Rightarrow> bytes \<Rightarrow> u64 \<Rightarrow> bytes list \<times> db_table" where
  "db_keys db pattern now =
     (let ks = map fst (tbl_iter (prime db));
          result = map key_as_bytes (filter (\<lambda>k. \<not> is_expired db now k
                      \<and> glob_match pattern (key_as_bytes k) = Some True) ks);
          expired = filter (is_expired db now) ks
      in (result, foldl remove_both db expired))"

definition ds_keys :: "db_slice \<Rightarrow> u16 \<Rightarrow> bytes \<Rightarrow> (bytes list \<times> db_slice) option" where
  "ds_keys ds i pattern = on_db ds i (\<lambda>db. Some (db_keys db pattern (now_ms ds)))"

definition flush_db :: "db_slice \<Rightarrow> u16 \<Rightarrow> (unit \<times> db_slice) option" where
  "flush_db ds i = on_db ds i (\<lambda>db. Some ((), db_table_clear db))"

definition db_expire_sweep :: "db_table \<Rightarrow> u64 \<Rightarrow> u64 \<Rightarrow> (nat \<times> db_table) option" where
  "db_expire_sweep db cnt now =
     (case tbl_scan (expire db) (cursor_new 0) cnt of
        None \<Rightarrow> None
      | Some (entries, _) \<Rightarrow>
          let expired_keys = map fst (filter (\<lambda>(k, deadline). now \<ge> deadline) entries)
          in Some (length expired_keys, foldl remove_both db expired_keys))"

definition expire_sweep :: "db_slice \<Rightarrow> u16 \<Rightarrow> u64 \<Rightarrow> (nat \<times> db_slice) option" where
  "expire_sweep ds i cnt = on_db ds i (\<lambda>db. db_expire_sweep db cnt (now_ms ds))"

text \<open>\<^verbatim>\<open>engine_shard.rs\<close>: the shard that owns a slice.\<close>

record engine_shard =
  shard_slice :: db_slice
  commands_processed :: u64

definition engine_shard_new :: "(nat \<Rightarrow> bytes \<Rightarrow> u64) \<Rightarrow> engine_shard" where
  "engine_shard_new hs = \<lparr>shard_slice = db_slice_new hs, commands_processed = 0\<rparr>"

definition engine_shard_update_time :: "engine_shard \<Rightarrow> u64 \<Rightarrow> engine_shard" where
  "engine_shard_update_time sh now = sh\<lparr>shard_slice := update_time (shard_slice sh) now\<rparr>"

subsection \<open>Abstraction\<close>

text \<open>A database as a map from keys to a value and an optional deadline.\<close>

type_synonym adb = "bytes \<rightharpoonup> prime_value \<times> u64 option"

definition db_abs :: "db_table \<Rightarrow> adb" where
  "db_abs db key =
     map_option (\<lambda>v. (v, tbl_map (expire db) (prime_key_new key))) (tbl_map (prime db) (prime_key_new key))"

definition db_inv :: "db_table \<Rightarrow> bool" where
  "db_inv db \<longleftrightarrow> tbl_inv (prime db) \<and> tbl_inv (expire db)
     \<and> dom (tbl_map (expire db)) \<subseteq> dom (tbl_map (prime db)) \<and> dom (tbl_map (prime db)) \<subseteq> range prime_key_new"

definition db_removable :: "db_table \<Rightarrow> bytes \<Rightarrow> bool" where
  "db_removable db key \<longleftrightarrow> tbl_removable (prime db) (prime_key_new key) \<and> tbl_removable (expire db) (prime_key_new key)"

definition expired_at :: "u64 \<Rightarrow> u64 option \<Rightarrow> bool" where
  "expired_at now e = (case e of None \<Rightarrow> False | Some d \<Rightarrow> now \<ge> d)"

text \<open>The value a client may see at time \<open>now\<close>, and what lazy expiry leaves of the map.\<close>

definition visible :: "adb \<Rightarrow> u64 \<Rightarrow> bytes \<Rightarrow> prime_value option" where
  "visible m now key = (case m key of None \<Rightarrow> None | Some (v, e) \<Rightarrow> if expired_at now e then None else Some v)"

definition purge :: "adb \<Rightarrow> u64 \<Rightarrow> bytes \<Rightarrow> adb" where
  "purge m now key = (case m key of None \<Rightarrow> m | Some (v, e) \<Rightarrow> if expired_at now e then m(key := None) else m)"

subsection \<open>Lazy expiry\<close>

lemma db_invD:
  assumes "db_inv db"
  shows "tbl_inv (prime db)" and "tbl_inv (expire db)" and "tbl_map (prime db) k = None \<Longrightarrow> tbl_map (expire db) k = None"
    and "tbl_map (prime db) k = Some v \<Longrightarrow> \<exists>key. k = prime_key_new key"
  using assms by (auto simp: db_inv_def)

lemma db_abs_None: "db_abs db key = None \<longleftrightarrow> tbl_map (prime db) (prime_key_new key) = None"
  by (simp add: db_abs_def)

lemma db_abs_Some:
  "db_abs db key = Some (v, e) \<longleftrightarrow>
     tbl_map (prime db) (prime_key_new key) = Some v \<and> tbl_map (expire db) (prime_key_new key) = e"
  by (auto simp: db_abs_def)

lemma remove_both_inv:
  assumes inv: "db_inv db" and cl: "db_removable db key"
  shows "db_inv (remove_both db (prime_key_new key))" and "db_abs (remove_both db (prime_key_new key)) = (db_abs db)(key := None)"
proof -
  let ?k = "prime_key_new key"
  obtain o1 p where p: "tbl_remove (prime db) ?k = (o1, p)" by fastforce
  obtain o2 e where e: "tbl_remove (expire db) ?k = (o2, e)" by fastforce
  note rp = dash.rem_map [OF db_invD(1) [OF inv] conjunct1 [OF cl [unfolded db_removable_def]] p]
  note re = dash.rem_map [OF db_invD(2) [OF inv] conjunct2 [OF cl [unfolded db_removable_def]] e]
  have eq: "remove_both db ?k = db\<lparr>prime := p, expire := e\<rparr>" by (simp add: remove_both_def p e)
  show "db_inv (remove_both db ?k)"
    using inv rp re unfolding eq db_inv_def by auto
  show "db_abs (remove_both db ?k) = (db_abs db)(key := None)"
    using rp re unfolding eq db_abs_def by (auto simp: fun_eq_iff)
qed

lemma check_and_expire_spec:
  assumes inv: "db_inv db" and cl: "db_removable db key" and c: "check_and_expire db (prime_key_new key) now = (b, db')"
  shows "db_inv db'" and "db_abs db' = purge (db_abs db) now key"
    and "b = (\<exists>v e. db_abs db key = Some (v, e) \<and> expired_at now e)"
proof -
  let ?k = "prime_key_new key"
  have fe: "tbl_find (expire db) ?k = tbl_map (expire db) ?k" by (rule dash.find_map [OF db_invD(2) [OF inv]])
  have "db_inv db' \<and> db_abs db' = purge (db_abs db) now key
    \<and> b = (\<exists>v e. db_abs db key = Some (v, e) \<and> expired_at now e)"
  proof (cases "db_abs db key")
    case None
    then have "tbl_map (expire db) ?k = None" using db_invD(3) [OF inv] by (simp add: db_abs_None)
    then show ?thesis using c fe None inv by (auto simp: check_and_expire_def purge_def)
  next
    case (Some ve)
    obtain v e where ve: "ve = (v, e)" by fastforce
    then have "tbl_map (expire db) ?k = e" using Some by (simp add: db_abs_Some)
    then show ?thesis
      using c fe Some ve inv remove_both_inv [OF inv cl]
      by (auto simp: check_and_expire_def purge_def expired_at_def split: option.splits if_splits)
  qed
  then show "db_inv db'" and "db_abs db' = purge (db_abs db) now key"
    and "b = (\<exists>v e. db_abs db key = Some (v, e) \<and> expired_at now e)" by blast+
qed

lemma visible_purge: "visible m now key = map_option fst (purge m now key key)"
  by (auto simp: visible_def purge_def split: option.splits)

lemma purge_other: "key' \<noteq> key \<Longrightarrow> purge m now key key' = m key'"
  by (auto simp: purge_def split: option.splits)

subsection \<open>What each operation does to the map\<close>

lemma db_find_spec:
  assumes inv: "db_inv db" and cl: "db_removable db key" and f: "db_find db (prime_key_new key) now = (r, db')"
  shows "db_inv db'" and "db_abs db' = purge (db_abs db) now key"
    and "map_option fr_value r = visible (db_abs db) now key"
    and "r = Some fr \<Longrightarrow> \<exists>v e. db_abs db key = Some (v, e) \<and> has_expire fr = (e \<noteq> None)"
proof -
  let ?k = "prime_key_new key"
  obtain b db1 where c: "check_and_expire db ?k now = (b, db1)" by fastforce
  note ce = check_and_expire_spec [OF inv cl c]
  have db': "db' = db1" using f c by (auto simp: db_find_def split: if_splits)
  show "db_inv db'" "db_abs db' = purge (db_abs db) now key" using ce db' by simp_all
  have fp: "tbl_find (prime db1) ?k = tbl_map (prime db1) ?k" and fe: "tbl_find (expire db1) ?k = tbl_map (expire db1) ?k"
    by (rule dash.find_map [OF db_invD(1) [OF ce(1)]], rule dash.find_map [OF db_invD(2) [OF ce(1)]])
  have r: "r = (if b then None else map_option (\<lambda>v. \<lparr>fr_value = v, has_expire = tbl_contains (expire db1) ?k\<rparr>) (tbl_map (prime db1) ?k))"
    using f c fp by (auto simp: db_find_def split: if_splits)
  have b: "b \<Longrightarrow> visible (db_abs db) now key = None" using ce(3) by (auto simp: visible_def)
  have nb: "\<not> b \<Longrightarrow> db_abs db1 key = db_abs db key"
    using ce(2,3) by (auto simp: purge_def split: option.splits)
  show "map_option fr_value r = visible (db_abs db) now key"
  proof -
    have "visible (db_abs db) now key = tbl_map (prime db1) ?k"
      by (simp add: visible_purge ce(2) [symmetric] db_abs_def option.map_comp comp_def option.map_ident)
    then show ?thesis using r b by (simp add: option.map_comp comp_def option.map_ident)
  qed
  show "\<exists>v e. db_abs db key = Some (v, e) \<and> has_expire fr = (e \<noteq> None)" if rS: "r = Some fr"
  proof -
    have nb': "\<not> b" using r rS by (auto split: if_splits)
    then obtain v where v: "tbl_map (prime db1) ?k = Some v" "has_expire fr = tbl_contains (expire db1) ?k"
      using r rS by (cases "tbl_map (prime db1) ?k") auto
    then have "db_abs db key = Some (v, tbl_map (expire db1) ?k)" using nb [OF nb'] by (simp add: db_abs_def)
    then show ?thesis using v(2) fe by (simp add: tbl_contains_def)
  qed
qed

lemma db_insert_spec:
  assumes inv: "db_inv db" and i: "db_insert db (prime_key_new key) v = Some (r, db')"
  shows "db_inv db'" and "db_abs db' = (db_abs db)(key \<mapsto> (v, Option.bind (db_abs db key) snd))"
    and "r = (db_abs db key = None)"
proof -
  let ?k = "prime_key_new key"
  obtain old p where p: "tbl_insert (prime db) ?k v = Some (old, p)" "r = (old = None)" "db' = db\<lparr>prime := p\<rparr>"
    using i by (auto simp: db_insert_def)
  note im = dash.ins_map [OF db_invD(1) [OF inv] p(1)]
  show "db_inv db'" using inv im unfolding db_inv_def p(3) by auto
  show "r = (db_abs db key = None)" using im p(2) by (simp add: db_abs_None)
  have "db_abs db' key' = ((db_abs db)(key \<mapsto> (v, Option.bind (db_abs db key) snd))) key'" for key'
    using im db_invD(3) [OF inv, of ?k] unfolding p(3) db_abs_def by (cases "tbl_map (prime db) ?k") auto
  then show "db_abs db' = (db_abs db)(key \<mapsto> (v, Option.bind (db_abs db key) snd))" by (rule ext)
qed

lemma tbl_contains_map: "tbl_inv t \<Longrightarrow> tbl_contains t k \<longleftrightarrow> tbl_map t k \<noteq> None"
  by (simp add: tbl_contains_def tbl_find_map)

lemma db_add_if_absent_spec:
  assumes inv: "db_inv db" and cl: "db_removable db key"
    and a: "db_add_if_absent db (prime_key_new key) v now = Some (r, db')"
  shows "db_inv db'" and "r = (visible (db_abs db) now key = None)"
    and "db_abs db' = (if visible (db_abs db) now key = None then (db_abs db)(key \<mapsto> (v, None)) else db_abs db)"
proof -
  let ?k = "prime_key_new key"
  obtain b db1 where c: "check_and_expire db ?k now = (b, db1)" by fastforce
  note ce = check_and_expire_spec [OF inv cl c]
  have con: "tbl_contains (prime db1) ?k \<longleftrightarrow> visible (db_abs db) now key \<noteq> None"
    unfolding visible_purge ce(2) [symmetric] using tbl_contains_map [OF db_invD(1) [OF ce(1)]]
    by (simp add: db_abs_def)
  have bv: "b \<Longrightarrow> visible (db_abs db) now key = None" using ce(3) by (auto simp: visible_def)
  have "db_inv db' \<and> r = (visible (db_abs db) now key = None) \<and>
    db_abs db' = (if visible (db_abs db) now key = None then (db_abs db)(key \<mapsto> (v, None)) else db_abs db)"
  proof (cases "visible (db_abs db) now key")
    case None
    then have n: "db_abs db1 key = None" using con tbl_contains_map [OF db_invD(1) [OF ce(1)]] by (simp add: db_abs_None)
    obtain r1 where i: "db_insert db1 ?k v = Some (r1, db')" "r"
      using a c con None by (auto simp: db_add_if_absent_def split: if_splits)
    note ins = db_insert_spec [OF ce(1) i(1)]
    have "db_abs db' = (db_abs db)(key \<mapsto> (v, None))"
      using ins(2) n ce(2) by (auto simp: fun_eq_iff purge_other)
    then show ?thesis using ins(1) i(2) None by simp
  next
    case (Some w)
    then have "\<not> b" using bv by auto
    then have "db1 = db" using c by (auto simp: check_and_expire_def split: option.splits if_splits)
    then show ?thesis using a c con Some inv \<open>\<not> b\<close> by (auto simp: db_add_if_absent_def)
  qed
  then show "db_inv db'" and "r = (visible (db_abs db) now key = None)"
    and "db_abs db' = (if visible (db_abs db) now key = None then (db_abs db)(key \<mapsto> (v, None)) else db_abs db)"
    by blast+
qed

lemma db_del_spec:
  assumes inv: "db_inv db" and cl: "db_removable db key" and d: "db_del db (prime_key_new key) = (r, db')"
  shows "db_inv db'" and "db_abs db' = (db_abs db)(key := None)" and "r = (db_abs db key \<noteq> None)"
proof -
  let ?k = "prime_key_new key"
  obtain old p where p: "tbl_remove (prime db) ?k = (old, p)" by fastforce
  note rp = dash.rem_map [OF db_invD(1) [OF inv] conjunct1 [OF cl [unfolded db_removable_def]] p]
  have db': "db' = remove_both db ?k" "r = (old \<noteq> None)" using d p by (auto simp: db_del_def remove_both_def Let_def)
  then show "db_inv db'" "db_abs db' = (db_abs db)(key := None)" using remove_both_inv [OF inv cl] by simp_all
  show "r = (db_abs db key \<noteq> None)" using db'(2) rp by (simp add: db_abs_None)
qed

lemma db_add_expire_spec:
  assumes inv: "db_inv db" and a: "db_add_expire db (prime_key_new key) d = Some (u, db')"
  shows "db_inv db'"
    and "db_abs db' = (case db_abs db key of None \<Rightarrow> db_abs db | Some (v, e) \<Rightarrow> (db_abs db)(key \<mapsto> (v, Some d)))"
proof -
  let ?k = "prime_key_new key"
  have con: "tbl_contains (prime db) ?k \<longleftrightarrow> db_abs db key \<noteq> None"
    using tbl_contains_map [OF db_invD(1) [OF inv]] by (simp add: db_abs_None)
  have "db_inv db' \<and> db_abs db' = (case db_abs db key of None \<Rightarrow> db_abs db | Some (v, e) \<Rightarrow> (db_abs db)(key \<mapsto> (v, Some d)))"
  proof (cases "db_abs db key")
    case None
    then show ?thesis using a con inv by (simp add: db_add_expire_def)
  next
    case (Some ve)
    obtain v e where ve: "ve = (v, e)" by fastforce
    have pv: "tbl_map (prime db) ?k = Some v" using Some ve by (simp add: db_abs_Some)
    obtain old e' where e': "tbl_insert (expire db) ?k d = Some (old, e')" "db' = db\<lparr>expire := e'\<rparr>"
      using a con Some by (auto simp: db_add_expire_def)
    note im = dash.ins_map [OF db_invD(2) [OF inv] e'(1)]
    have "db_inv db'" using inv im pv unfolding db_inv_def e'(2) by auto
    moreover have "db_abs db' key' = ((db_abs db)(key \<mapsto> (v, Some d))) key'" for key'
      using im pv unfolding e'(2) db_abs_def by auto
    ultimately show ?thesis using Some ve by auto
  qed
  then show "db_inv db'"
    and "db_abs db' = (case db_abs db key of None \<Rightarrow> db_abs db | Some (v, e) \<Rightarrow> (db_abs db)(key \<mapsto> (v, Some d)))"
    by blast+
qed

lemma db_remove_expire_spec:
  assumes inv: "db_inv db" and cl: "tbl_removable (expire db) (prime_key_new key)"
    and d: "db_remove_expire db (prime_key_new key) = (r, db')"
  shows "db_inv db'" and "r = (\<exists>v d. db_abs db key = Some (v, Some d))"
    and "db_abs db' = (db_abs db)(key := map_option (\<lambda>(v, e). (v, None)) (db_abs db key))"
proof -
  let ?k = "prime_key_new key"
  obtain old e where e: "tbl_remove (expire db) ?k = (old, e)" by fastforce
  have db': "db' = db\<lparr>expire := e\<rparr>" "r = (old \<noteq> None)" using d e by (auto simp: db_remove_expire_def)
  note re = dash.rem_map [OF db_invD(2) [OF inv] cl e]
  show "db_inv db'" using inv re unfolding db_inv_def db'(1) by auto
  show "r = (\<exists>v d. db_abs db key = Some (v, Some d))"
    using re db'(2) db_invD(3) [OF inv, of ?k] by (cases "tbl_map (prime db) ?k") (auto simp: db_abs_def)
  show "db_abs db' = (db_abs db)(key := map_option (\<lambda>(v, e). (v, None)) (db_abs db key))"
    using re unfolding db'(1) db_abs_def by (auto simp: fun_eq_iff option.map_comp comp_def)
qed

lemma db_ttl_spec:
  assumes inv: "db_inv db" and cl: "db_removable db key" and t: "db_ttl_ms db (prime_key_new key) now = (r, db')"
  shows "db_inv db'" and "db_abs db' = purge (db_abs db) now key"
    and "r = (case db_abs db key of None \<Rightarrow> KeyNotFound | Some (v, None) \<Rightarrow> NoExpiry
            | Some (v, Some d) \<Rightarrow> if now \<ge> d then KeyNotFound else Expires (d - now))"
proof -
  let ?k = "prime_key_new key"
  have con: "tbl_contains (prime db) ?k \<longleftrightarrow> db_abs db key \<noteq> None"
    using tbl_contains_map [OF db_invD(1) [OF inv]] by (simp add: db_abs_None)
  have fe: "tbl_find (expire db) ?k = tbl_map (expire db) ?k" by (rule dash.find_map [OF db_invD(2) [OF inv]])
  have "db_inv db' \<and> db_abs db' = purge (db_abs db) now key
    \<and> r = (case db_abs db key of None \<Rightarrow> KeyNotFound | Some (v, None) \<Rightarrow> NoExpiry
            | Some (v, Some d) \<Rightarrow> if now \<ge> d then KeyNotFound else Expires (d - now))"
  proof (cases "db_abs db key")
    case None
    then show ?thesis using t con inv by (auto simp: db_ttl_ms_def purge_def)
  next
    case (Some ve)
    obtain v e where ve: "ve = (v, e)" by fastforce
    then have "tbl_map (expire db) ?k = e" using Some by (simp add: db_abs_Some)
    then show ?thesis
      using t con fe Some ve inv remove_both_inv [OF inv cl]
      by (auto simp: db_ttl_ms_def purge_def expired_at_def split: option.splits if_splits)
  qed
  then show "db_inv db'" and "db_abs db' = purge (db_abs db) now key"
    and "r = (case db_abs db key of None \<Rightarrow> KeyNotFound | Some (v, None) \<Rightarrow> NoExpiry
            | Some (v, Some d) \<Rightarrow> if now \<ge> d then KeyNotFound else Expires (d - now))" by blast+
qed

text \<open>Renaming moves value and deadline together, whatever the deadline says: an expired source is moved too.\<close>

definition rename_clean :: "db_table \<Rightarrow> bytes \<Rightarrow> bytes \<Rightarrow> bool" where
  "rename_clean db from dest \<longleftrightarrow> db_removable db from
     \<and> tbl_removable (snd (tbl_remove (expire db) (prime_key_new from))) (prime_key_new dest)"

lemma db_rename_spec:
  assumes inv: "db_inv db" and cl: "rename_clean db from dest"
    and r: "db_rename db (prime_key_new from) (prime_key_new dest) = Some (b, db')"
  shows "db_inv db'" and "b = (db_abs db from \<noteq> None)"
    and "db_abs db' = (case db_abs db from of None \<Rightarrow> db_abs db | Some ve \<Rightarrow> (db_abs db)(from := None, dest \<mapsto> ve))"
proof -
  let ?f = "prime_key_new from" and ?t = "prime_key_new dest"
  obtain dl e1 where e1: "tbl_remove (expire db) ?f = (dl, e1)" by fastforce
  obtain old p1 where p1: "tbl_remove (prime db) ?f = (old, p1)" by fastforce
  have rm: "tbl_removable (prime db) ?f" "tbl_removable (expire db) ?f" "tbl_removable e1 ?t"
    using cl e1 by (simp_all add: rename_clean_def db_removable_def)
  note E1 = dash.rem_map [OF db_invD(2) [OF inv] rm(2) e1] and P1 = dash.rem_map [OF db_invD(1) [OF inv] rm(1) p1]
  have "db_inv db' \<and> b = (db_abs db from \<noteq> None)
    \<and> db_abs db' = (case db_abs db from of None \<Rightarrow> db_abs db | Some ve \<Rightarrow> (db_abs db)(from := None, dest \<mapsto> ve))"
  proof (cases old)
    case None
    then have n: "tbl_map (prime db) ?f = None" using P1 by simp
    then have "p1 = prime db" "e1 = expire db"
      using p1 e1 dash.rem_absent [OF db_invD(1) [OF inv] n] dash.rem_absent [OF db_invD(2) [OF inv] db_invD(3) [OF inv n]] by simp_all
    then have "db' = db" "\<not> b" using r e1 p1 None by (simp_all add: db_rename_def)
    moreover have "db_abs db from = None" using n by (simp add: db_abs_None)
    ultimately show ?thesis using inv by simp
  next
    case (Some v)
    then have pv: "tbl_map (prime db) ?f = Some v" using P1 by simp
    obtain o2 e2 where e2: "tbl_remove e1 ?t = (o2, e2)" by fastforce
    note E2 = dash.rem_map [OF conjunct1 [OF E1] rm(3) e2]
    obtain o3 p2 where p2: "tbl_insert p1 ?t v = Some (o3, p2)"
      using r e1 p1 Some e2 by (auto simp: db_rename_def Let_def split: option.splits)
    note P2 = dash.ins_map [OF conjunct1 [OF P1] p2]
    obtain e3 where db': "db' = db\<lparr>prime := p2, expire := e3\<rparr>" "b" and e3: "tbl_inv e3" "tbl_map e3 = (tbl_map e2)(?t := dl)"
    proof (cases dl)
      case None
      then show thesis using that [of e2] r e1 p1 Some e2 p2 E2 by (auto simp: db_rename_def Let_def)
    next
      case (Some d)
      then obtain o4 e4 where e4: "tbl_insert e2 ?t d = Some (o4, e4)" "db' = db\<lparr>prime := p2, expire := e4\<rparr>" "b"
        using r e1 p1 \<open>old = Some v\<close> e2 p2 by (auto simp: db_rename_def Let_def)
      then show thesis using that [of e4] dash.ins_map [OF conjunct1 [OF E2] e4(1)] Some by simp
    qed
    have "db_inv db'" using inv E1 P1 E2 P2 e3 unfolding db_inv_def db' by (auto split: if_splits)
    moreover have "db_abs db' = (db_abs db)(from := None, dest \<mapsto> (v, tbl_map (expire db) ?f))"
      using E1 P1 E2 P2 e3 unfolding db' db_abs_def by (auto simp: fun_eq_iff)
    ultimately show ?thesis using pv db'(2) by (simp add: db_abs_def)
  qed
  then show "db_inv db'" and "b = (db_abs db from \<noteq> None)"
    and "db_abs db' = (case db_abs db from of None \<Rightarrow> db_abs db | Some ve \<Rightarrow> (db_abs db)(from := None, dest \<mapsto> ve))"
    by blast+
qed

lemma db_clear_spec: "db_inv (db_table_clear db)" "db_abs (db_table_clear db) = Map.empty"
  using dash.clear_map [of "prime db"] dash.clear_map [of "expire db"]
  by (auto simp: db_inv_def db_table_clear_def db_abs_def fun_eq_iff)

text \<open>Removing a list of keys, as \<^verbatim>\<open>keys\<close> and \<^verbatim>\<open>expire_sweep\<close> do.\<close>

fun all_db_removable :: "db_table \<Rightarrow> bytes list \<Rightarrow> bool" where
  "all_db_removable db [] = True"
| "all_db_removable db (k # ks) = (db_removable db k \<and> all_db_removable (remove_both db (prime_key_new k)) ks)"

lemma foldl_remove_both:
  assumes "db_inv db" and "all_db_removable db ks"
  shows "db_inv (foldl remove_both db (map prime_key_new ks))
    \<and> db_abs (foldl remove_both db (map prime_key_new ks)) = (\<lambda>key. if key \<in> set ks then None else db_abs db key)"
  using assms
proof (induction ks arbitrary: db)
  case (Cons k ks)
  have cl: "db_removable db k" using Cons.prems(2) by simp
  note rb = remove_both_inv [OF Cons.prems(1) cl]
  show ?case using Cons.IH [OF rb(1)] Cons.prems(2) rb(2) by (auto simp: fun_eq_iff)
qed simp

lemma is_expired_abs:
  assumes "db_inv db"
  shows "is_expired db now (prime_key_new key) \<longleftrightarrow> (\<exists>v e. db_abs db key = Some (v, e) \<and> expired_at now e)"
  using db_invD(3) [OF assms, of "prime_key_new key"]
  by (cases "tbl_map (prime db) (prime_key_new key)")
     (auto simp: is_expired_def dash.find_map [OF db_invD(2) [OF assms]] db_abs_def expired_at_def)

lemma iter_keys_new:
  assumes "db_inv db"
  obtains ks where "map fst (tbl_iter (prime db)) = map prime_key_new ks" and "distinct ks" and "set ks = dom (db_abs db)"
proof -
  note it = dash.iter_map [OF db_invD(1) [OF assms]]
  define ks where "ks = map key_as_bytes (map fst (tbl_iter (prime db)))"
  have new: "k = prime_key_new (key_as_bytes k)" if mem: "k \<in> set (map fst (tbl_iter (prime db)))" for k
  proof -
    obtain v where "tbl_map (prime db) k = Some v" using mem it by auto
    then obtain key where "k = prime_key_new key" using db_invD(4) [OF assms] by blast
    then show ?thesis by simp
  qed
  then have eq: "map fst (tbl_iter (prime db)) = map prime_key_new ks"
    by (auto simp: ks_def intro!: nth_equalityI)
  moreover have "distinct ks" using it eq by (metis distinct_map)
  moreover have "set ks = dom (db_abs db)"
  proof -
    have "key \<in> set ks \<longleftrightarrow> prime_key_new key \<in> set (map fst (tbl_iter (prime db)))" for key
      unfolding eq by auto
    also have "\<dots> key \<longleftrightarrow> key \<in> dom (db_abs db)" for key using it by (auto simp: domIff db_abs_None image_iff)
    finally show ?thesis by blast
  qed
  ultimately show thesis by (rule that)
qed

lemma db_keys_spec:
  assumes inv: "db_inv db" and k: "db_keys db pat now = (res, db')"
    and cl: "all_db_removable db (map key_as_bytes (filter (is_expired db now) (map fst (tbl_iter (prime db)))))"
  shows "db_inv db'" and "db_abs db' = (\<lambda>key. if visible (db_abs db) now key = None then None else db_abs db key)"
    and "set res = {key. visible (db_abs db) now key \<noteq> None \<and> glob_match pat key = Some True}" and "distinct res"
proof -
  obtain ks where ks: "map fst (tbl_iter (prime db)) = map prime_key_new ks" "distinct ks" "set ks = dom (db_abs db)"
    by (rule iter_keys_new [OF inv])
  let ?ex = "filter (\<lambda>key. is_expired db now (prime_key_new key)) ks"
  have ex: "filter (is_expired db now) (map prime_key_new ks) = map prime_key_new ?ex" by (simp add: filter_map comp_def)
  have db': "db' = foldl remove_both db (map prime_key_new ?ex)"
    and res: "res = filter (\<lambda>key. \<not> is_expired db now (prime_key_new key) \<and> glob_match pat key = Some True) ks"
    using k unfolding db_keys_def Let_def ks(1) ex by (simp_all add: filter_map comp_def)
  have "all_db_removable db ?ex" using cl unfolding ks(1) ex by (simp add: comp_def)
  note fr = foldl_remove_both [OF inv this]
  have vis: "visible (db_abs db) now key \<noteq> None \<longleftrightarrow> key \<in> set ks \<and> \<not> is_expired db now (prime_key_new key)" for key
    unfolding is_expired_abs [OF inv] ks(3) by (auto simp: visible_def split: option.splits)
  show "db_inv db'" using fr db' by simp
  have "(if key \<in> set ?ex then None else db_abs db key) = (if visible (db_abs db) now key = None then None else db_abs db key)" for key
    using vis [of key] ks(3) by (cases "db_abs db key") (auto simp: domIff)
  then show "db_abs db' = (\<lambda>key. if visible (db_abs db) now key = None then None else db_abs db key)"
    using fr db' by simp
  show "set res = {key. visible (db_abs db) now key \<noteq> None \<and> glob_match pat key = Some True}"
    using vis by (auto simp: res)
  show "distinct res" using ks(2) by (simp add: res)
qed

text \<open>The sweep looks at the first \<open>cnt\<close> entries of the expiry table and removes the expired ones among them.\<close>

definition sweep_keys :: "db_table \<Rightarrow> u64 \<Rightarrow> u64 \<Rightarrow> bytes list" where
  "sweep_keys db cnt now =
     map (\<lambda>(k, d). key_as_bytes k) (filter (\<lambda>(k, d). now \<ge> d) (take (unat cnt) (tbl_iter (expire db))))"

lemma scan_from_start: "tbl_scan t (cursor_new 0) cnt \<noteq> None"
  "tbl_scan t (cursor_new 0) cnt = Some (xs, c) \<Longrightarrow> xs = take (unat cnt) (tbl_iter t)"
  by (auto simp: tbl_scan_def cursor_new_def Let_def min_def split: if_splits)

lemma db_sweep_spec:
  assumes inv: "db_inv db" and cl: "all_db_removable db (sweep_keys db cnt now)"
  shows "\<exists>db'. db_expire_sweep db cnt now = Some (length (sweep_keys db cnt now), db') \<and> db_inv db'
    \<and> db_abs db' = (\<lambda>key. if key \<in> set (sweep_keys db cnt now) then None else db_abs db key)"
    and "key \<in> set (sweep_keys db cnt now) \<Longrightarrow> db_abs db key \<noteq> None \<and> visible (db_abs db) now key = None"
    and "length (tbl_iter (expire db)) \<le> unat cnt \<Longrightarrow> db_abs db key \<noteq> None \<Longrightarrow> visible (db_abs db) now key = None
           \<Longrightarrow> key \<in> set (sweep_keys db cnt now)"
proof -
  note it = dash.iter_map [OF db_invD(2) [OF inv]]
  have new: "k = prime_key_new (key_as_bytes k)" if mem: "(k, d) \<in> set (tbl_iter (expire db))" for k d
  proof -
    have "tbl_map (expire db) k = Some d" using mem it by auto
    then obtain v where "tbl_map (prime db) k = Some v" using db_invD(3) [OF inv, of k] by fastforce
    then obtain key where "k = prime_key_new key" using db_invD(4) [OF inv] by blast
    then show ?thesis by simp
  qed
  obtain es c where sc: "tbl_scan (expire db) (cursor_new 0) cnt = Some (es, c)"
    using scan_from_start(1) [of "expire db" cnt] by (auto simp: not_None_eq)
  have es: "es = take (unat cnt) (tbl_iter (expire db))" by (rule scan_from_start(2) [OF sc])
  have ek: "map fst (filter (\<lambda>(k, d). now \<ge> d) es) = map prime_key_new (sweep_keys db cnt now)"
    unfolding sweep_keys_def es using new by (auto dest!: in_set_takeD)
  have len: "length (filter (\<lambda>(k, d). now \<ge> d) es) = length (sweep_keys db cnt now)"
    by (metis ek length_map)
  show "\<exists>db'. db_expire_sweep db cnt now = Some (length (sweep_keys db cnt now), db') \<and> db_inv db'
    \<and> db_abs db' = (\<lambda>key. if key \<in> set (sweep_keys db cnt now) then None else db_abs db key)"
    using foldl_remove_both [OF inv cl] len by (simp add: db_expire_sweep_def sc Let_def ek)
  have mem: "key \<in> set (sweep_keys db cnt now) \<longleftrightarrow> (\<exists>d. (prime_key_new key, d) \<in> set es \<and> now \<ge> d)" for key
  proof -
    have "key \<in> set (sweep_keys db cnt now) \<longleftrightarrow> prime_key_new key \<in> set (map prime_key_new (sweep_keys db cnt now))" by auto
    then show ?thesis unfolding ek [symmetric] by force
  qed
  show "db_abs db key \<noteq> None \<and> visible (db_abs db) now key = None" if sk: "key \<in> set (sweep_keys db cnt now)"
  proof -
    obtain d where d: "(prime_key_new key, d) \<in> set (tbl_iter (expire db))" "now \<ge> d"
      using sk mem es in_set_takeD by metis
    then have e: "tbl_map (expire db) (prime_key_new key) = Some d" using it by auto
    then obtain v where "tbl_map (prime db) (prime_key_new key) = Some v" using db_invD(3) [OF inv] by fastforce
    then show ?thesis using e d(2) by (simp add: db_abs_def visible_def expired_at_def)
  qed
  show "key \<in> set (sweep_keys db cnt now)"
    if all: "length (tbl_iter (expire db)) \<le> unat cnt" "db_abs db key \<noteq> None" "visible (db_abs db) now key = None"
  proof -
    obtain d where "tbl_map (expire db) (prime_key_new key) = Some d" "now \<ge> d"
      using all(2,3) by (auto simp: db_abs_def visible_def expired_at_def split: option.splits if_splits)
    then show ?thesis unfolding mem es using it all(1) by auto
  qed
qed

subsection \<open>The slice\<close>

definition ds_inv :: "db_slice \<Rightarrow> bool" where
  "ds_inv ds \<longleftrightarrow> length (dbs ds) = NUM_DBS \<and> (\<forall>i < NUM_DBS. db_inv (dbs ds ! i))"

definition ds_visible :: "db_slice \<Rightarrow> nat \<Rightarrow> bytes \<Rightarrow> prime_value option" where
  "ds_visible ds i key = visible (db_abs (dbs ds ! i)) (now_ms ds) key"

lemma on_db_Some:
  assumes "unat i < length (dbs ds)" and "f (dbs ds ! unat i) = Some (a, db')"
  shows "on_db ds i f = Some (a, ds\<lparr>dbs := (dbs ds)[unat i := db']\<rparr>)"
  using assms by (simp add: on_db_def)

lemma on_db_inv:
  assumes "ds_inv ds" and "db_inv db'"
  shows "ds_inv (ds\<lparr>dbs := (dbs ds)[n := db']\<rparr>)"
  using assms by (simp add: ds_inv_def nth_list_update_if)

lemma db_inv_new: "db_inv (db_table_new h1 h2)" "db_abs (db_table_new h1 h2) = Map.empty"
  by (auto simp: db_inv_def db_table_new_def tbl_new_inv tbl_new_map db_abs_def fun_eq_iff)

lemma ds_inv_new: "ds_inv (db_slice_new hs)"
  by (simp add: ds_inv_def db_slice_new_def db_inv_new)

subsection \<open>Properties\<close>

text \<open>The witnesses' slice: fresh databases whose hashers are constant.\<close>

lemma tbl_removable_absent:
  assumes "tbl_inv t" and "tbl_map t k = None"
  shows "tbl_removable t k"
  using tbl_find_None_pos [OF assms(1), of k] assms(2) by (simp add: tbl_removable_def Let_def)

definition demo_slice :: db_slice where
  "demo_slice = db_slice_new (\<lambda>_ _. 0)"

lemma demo_slice_db: "i < NUM_DBS \<Longrightarrow> dbs demo_slice ! i = db_table_new (\<lambda>_. 0) (\<lambda>_. 0)"
  "length (dbs demo_slice) = NUM_DBS" "now_ms demo_slice = 0"
  by (simp_all add: demo_slice_def db_slice_new_def)

lemma fresh_removable: "db_removable (db_table_new h1 h2) key"
  by (simp add: db_removable_def db_table_new_def tbl_removable_absent tbl_new_inv tbl_new_map)



text \<open>a conditional insertion stores the value, with no deadline, exactly when no unexpired value is
  visible, reports which, and leaves every other key alone.\<close>

theorem database_add_if_absent:
  assumes "db_inv db" and "db_removable db key" and "db_add_if_absent db (prime_key_new key) v now = Some (stored, db')"
  shows "db_inv db' \<and> (stored \<longleftrightarrow> visible (db_abs db) now key = None)
    \<and> visible (db_abs db') now key = (if stored then Some v else visible (db_abs db) now key)
    \<and> (\<forall>key'. key' \<noteq> key \<longrightarrow> db_abs db' key' = db_abs db key')"
  using db_add_if_absent_spec [OF assms] by (auto simp: visible_def expired_at_def)

theorem database_add_if_absent_witness:
  "\<exists>db'. db_add_if_absent (db_table_new (\<lambda>_. 0) (\<lambda>_. 0)) (prime_key_new ''k'') (PV_Integer 1) 5 = Some (True, db')
     \<and> visible (db_abs db') 5 ''k'' = Some (PV_Integer 1)"
proof -
  let ?db = "db_table_new (\<lambda>_. 0) (\<lambda>_. 0)"
  have "tbl_has_room (prime ?db) (prime_key_new ''k'')"
    by (simp add: tbl_has_room_def db_table_new_def tbl_with_hasher_def seg_id_def segment_new_def dash_consts)
  then obtain t' where "tbl_insert (prime ?db) (prime_key_new ''k'') (PV_Integer 1) = Some (None, t')"
    using tbl_insert_total [of "prime ?db"] by (fastforce simp: db_table_new_def tbl_new_inv tbl_new_map)
  moreover have "check_and_expire ?db (prime_key_new ''k'') 5 = (False, ?db)"
    by (simp add: check_and_expire_def db_table_new_def tbl_find_map [OF tbl_new_inv] tbl_new_map)
  moreover have "\<not> tbl_contains (prime ?db) (prime_key_new ''k'')"
    by (simp add: tbl_contains_def db_table_new_def tbl_find_map [OF tbl_new_inv] tbl_new_map)
  ultimately obtain r db' where a: "db_add_if_absent ?db (prime_key_new ''k'') (PV_Integer 1) 5 = Some (r, db')"
    by (auto simp: db_add_if_absent_def db_insert_def)
  have "visible (db_abs ?db) 5 ''k'' = None" by (simp add: db_inv_new visible_def)
  then show ?thesis
    using database_add_if_absent [OF db_inv_new(1) fresh_removable a] a by simp
qed

text \<open>\<^verbatim>\<open>rename\<close> succeeds exactly when the source is stored, moves its value together with its deadline,
  replaces the destination and touches nothing else; it does not look at the deadline, so an expired
  source that has not been purged replaces the destination as well.\<close>

theorem database_rename:
  assumes "db_inv db" and "rename_clean db from dest"
    and "db_rename db (prime_key_new from) (prime_key_new dest) = Some (renamed, db')"
  shows "db_inv db' \<and> (renamed \<longleftrightarrow> db_abs db from \<noteq> None)
    \<and> (renamed \<longrightarrow> db_abs db' dest = db_abs db from \<and> (from \<noteq> dest \<longrightarrow> db_abs db' from = None))
    \<and> (\<forall>key. key \<noteq> from \<and> key \<noteq> dest \<longrightarrow> db_abs db' key = db_abs db key)
    \<and> (\<not> renamed \<longrightarrow> db_abs db' = db_abs db)"
  using db_rename_spec [OF assms] by (cases "db_abs db from") auto

theorem database_rename_witness:
  "\<exists>db'. db_rename (db_table_new (\<lambda>_. 0) (\<lambda>_. 0)) (prime_key_new ''a'') (prime_key_new ''b'') = Some (False, db')
     \<and> db_abs db' = Map.empty"
proof -
  let ?db = "db_table_new (\<lambda>_. 0) (\<lambda>_. 0)"
  have e: "tbl_remove (expire ?db) (prime_key_new ''a'') = (None, expire ?db)"
    "tbl_remove (prime ?db) (prime_key_new ''a'') = (None, prime ?db)"
    by (rule tbl_remove_absent; simp add: db_table_new_def tbl_new_inv tbl_new_map)+
  have r: "db_rename ?db (prime_key_new ''a'') (prime_key_new ''b'') = Some (False, ?db)"
    by (simp add: db_rename_def e)
  have "rename_clean ?db ''a'' ''b''"
    using fresh_removable [of "\<lambda>_. 0" "\<lambda>_. 0"] by (simp add: rename_clean_def e db_removable_def)
  then show ?thesis using database_rename [OF db_inv_new(1) _ r] r by (simp add: db_inv_new)
qed

text \<open>the periodic sweep never removes a value a client could still see: it removes only expired keys, so
  every lookup gives the same answer before and after, and with a count that covers the expiry table
  no expired key is left.\<close>

theorem database_sweep_invisible:
  assumes "db_inv db" and "all_db_removable db (sweep_keys db cnt now)"
  shows "\<exists>n db'. db_expire_sweep db cnt now = Some (n, db') \<and> db_inv db'
    \<and> (\<forall>key. visible (db_abs db') now key = visible (db_abs db) now key)
    \<and> (length (tbl_iter (expire db)) \<le> unat cnt \<longrightarrow> (\<forall>key. db_abs db' key \<noteq> None \<longrightarrow> visible (db_abs db') now key \<noteq> None))"
proof -
  note s = db_sweep_spec [OF assms]
  obtain db' where db': "db_expire_sweep db cnt now = Some (length (sweep_keys db cnt now), db')" "db_inv db'"
    "db_abs db' = (\<lambda>key. if key \<in> set (sweep_keys db cnt now) then None else db_abs db key)" using s(1) by blast
  have vis: "visible (db_abs db') now key = visible (db_abs db) now key" for key
    using s(2) [of key] by (auto simp: db'(3) visible_def)
  moreover have "visible (db_abs db') now key \<noteq> None"
    if "length (tbl_iter (expire db)) \<le> unat cnt" "db_abs db' key \<noteq> None" for key
    unfolding vis using s(3) [OF that(1), of key] that(2) by (auto simp: db'(3) split: if_splits)
  ultimately show ?thesis using db'(1,2) by blast
qed

theorem database_sweep_invisible_witness:
  "\<exists>n db'. db_expire_sweep (db_table_new (\<lambda>_. 0) (\<lambda>_. 0)) 20 7 = Some (n, db') \<and> db_inv db'"
proof -
  have "sweep_keys (db_table_new (\<lambda>_. 0) (\<lambda>_. 0)) 20 7 = []"
    by (simp add: sweep_keys_def db_table_new_def tbl_with_hasher_def tbl_iter_pairs seg_pairs_new)
  then show ?thesis using database_sweep_invisible [OF db_inv_new(1), of "\<lambda>_. 0" "\<lambda>_. 0" 20 7] by auto
qed

text \<open>\<^verbatim>\<open>keys\<close> returns exactly the visible keys the pattern accepts, each once, and purges exactly the
  expired ones.\<close>

theorem database_keys:
  assumes "db_inv db" and "db_keys db pat now = (res, db')"
    and "all_db_removable db (map key_as_bytes (filter (is_expired db now) (map fst (tbl_iter (prime db)))))"
  shows "distinct res \<and> set res = {key. visible (db_abs db) now key \<noteq> None \<and> glob_match pat key = Some True}
    \<and> db_inv db' \<and> (\<forall>key. visible (db_abs db') now key = visible (db_abs db) now key)"
  using db_keys_spec [OF assms] by (auto simp: visible_def)

theorem database_keys_witness:
  "\<exists>db'. db_keys (db_table_new (\<lambda>_. 0) (\<lambda>_. 0)) ''*'' 7 = ([], db') \<and> db_inv db'"
proof -
  let ?db = "db_table_new (\<lambda>_. 0) (\<lambda>_. 0)"
  have it: "tbl_iter (prime ?db) = []" by (simp add: db_table_new_def tbl_with_hasher_def tbl_iter_pairs seg_pairs_new)
  obtain res db' where k: "db_keys ?db ''*'' 7 = (res, db')" by fastforce
  have "res = [] \<and> db_inv db'" using database_keys [OF db_inv_new(1) k] it by (simp add: db_inv_new visible_def)
  then show ?thesis using k by simp
qed

text \<open>every operation panics on a database index of 16 or more; nothing checks the index before.\<close>

theorem database_index_panics:
  assumes "length (dbs ds) = NUM_DBS" and "16 \<le> unat i"
  shows "ds_find ds i key = None \<and> add_or_update ds i key v = None \<and> add_if_absent ds i key v = None
    \<and> ds_del ds i key = None \<and> add_expire ds i key d = None \<and> remove_expire ds i key = None
    \<and> ttl_ms ds i key = None \<and> rename ds i key key' = None \<and> ds_scan ds i c cnt pat = None
    \<and> ds_keys ds i p = None \<and> flush_db ds i = None \<and> expire_sweep ds i cnt = None \<and> db_size ds i = None"
  using assms
  by (simp add: ds_find_def add_or_update_def add_if_absent_def ds_del_def add_expire_def remove_expire_def
      ttl_ms_def rename_def ds_scan_def ds_keys_def flush_db_def expire_sweep_def db_size_def on_db_def ds_db_def NUM_DBS_def)

theorem database_index_panics_witness: "ds_find demo_slice 16 ''k'' = None"
  using database_index_panics [of demo_slice 16] by (simp add: demo_slice_db)

end
