(* ===== verification/Reply_Builder.thy ===== *)
theory Reply_Builder
  imports Rust_Std
begin

text \<open>
  \<^verbatim>\<open>crates/shrikedb-facade/src/reply_builder.rs\<close>: the RESP2 encoder. A \<^verbatim>\<open>ReplyBuilder\<close> borrows the
  output buffer and only ever appends to it. The integer printer is the \<^verbatim>\<open>itoa\<close> crate, which is
  not part of the repository: it is the field \<open>itoa\<close>, and \<open>itoa_ok\<close> states its documented
  behaviour (the decimal representation).
\<close>

record reply_builder =
  itoa :: "i64 \<Rightarrow> bytes"
  buf :: bytes

definition CRLF :: bytes where
  "CRLF = [CHR 0x0D, CHR 0x0A]"

definition rb_new :: "(i64 \<Rightarrow> bytes) \<Rightarrow> bytes \<Rightarrow> reply_builder" where
  "rb_new ito b = \<lparr>itoa = ito, buf = b\<rparr>"

definition extend :: "reply_builder \<Rightarrow> bytes \<Rightarrow> reply_builder" where
  "extend rb s = rb\<lparr>buf := buf rb @ s\<rparr>"

definition write_int :: "reply_builder \<Rightarrow> i64 \<Rightarrow> reply_builder" where
  "write_int rb n = extend rb (itoa rb n)"

definition send_ok :: "reply_builder \<Rightarrow> reply_builder" where
  "send_ok rb = extend rb (''+OK'' @ CRLF)"

definition send_pong :: "reply_builder \<Rightarrow> reply_builder" where
  "send_pong rb = extend rb (''+PONG'' @ CRLF)"

definition send_simple_string :: "reply_builder \<Rightarrow> bytes \<Rightarrow> reply_builder" where
  "send_simple_string rb msg = extend (extend (extend rb ''+'') msg) CRLF"

definition send_error :: "reply_builder \<Rightarrow> bytes \<Rightarrow> reply_builder" where
  "send_error rb msg = extend (extend (extend rb ''-'') msg) CRLF"

definition send_err :: "reply_builder \<Rightarrow> bytes \<Rightarrow> reply_builder" where
  "send_err rb msg = extend (extend (extend rb ''-ERR '') msg) CRLF"

definition send_wrong_type :: "reply_builder \<Rightarrow> bytes \<Rightarrow> reply_builder" where
  "send_wrong_type rb msg =
     (let rb1 = extend rb ''-WRONGTYPE Operation against a key holding the wrong kind of value'';
          rb2 = (if msg \<noteq> [] then extend (extend rb1 '': '') msg else rb1)
      in extend rb2 CRLF)"

definition send_bulk_string :: "reply_builder \<Rightarrow> bytes \<Rightarrow> reply_builder" where
  "send_bulk_string rb data =
     extend (extend (extend (write_int (extend rb ''$'') (of_nat (length data))) CRLF) data) CRLF"

definition send_null :: "reply_builder \<Rightarrow> reply_builder" where
  "send_null rb = extend rb (''$-1'' @ CRLF)"

definition send_null_array :: "reply_builder \<Rightarrow> reply_builder" where
  "send_null_array rb = extend rb (''*-1'' @ CRLF)"

definition send_integer :: "reply_builder \<Rightarrow> i64 \<Rightarrow> reply_builder" where
  "send_integer rb n = extend (write_int (extend rb '':'') n) CRLF"

definition send_array_len :: "reply_builder \<Rightarrow> nat \<Rightarrow> reply_builder" where
  "send_array_len rb len = extend (write_int (extend rb ''*'') (of_nat len)) CRLF"

definition send_string_array :: "reply_builder \<Rightarrow> bytes list \<Rightarrow> reply_builder" where
  "send_string_array rb items = foldl send_bulk_string (send_array_len rb (length items)) items"

subsection \<open>What is appended\<close>

text \<open>The documented behaviour of \<^verbatim>\<open>itoa::Buffer::format\<close>.\<close>

definition itoa_ok :: "(i64 \<Rightarrow> bytes) \<Rightarrow> bool" where
  "itoa_ok f \<longleftrightarrow> (\<forall>n. f n = i64_to_string n)"

text \<open>The RESP2 encodings, as values.\<close>

definition bulk :: "bytes \<Rightarrow> bytes" where
  "bulk d = ''$'' @ show_nat (length d) @ CRLF @ d @ CRLF"

definition resp_cmd :: "bytes list \<Rightarrow> bytes" where
  "resp_cmd items = ''*'' @ show_nat (length items) @ CRLF @ concat (map bulk items)"

named_theorems reply_simps \<open>what each reply appends to the buffer\<close>

lemma extend_sel [simp]: "buf (extend rb s) = buf rb @ s" "itoa (extend rb s) = itoa rb"
  by (simp_all add: extend_def)

lemma rb_new_sel [simp]: "buf (rb_new f b) = b" "itoa (rb_new f b) = f"
  by (simp_all add: rb_new_def)

lemma of_nat_to_string: "n < 2 ^ 63 \<Longrightarrow> i64_to_string (of_nat n) = show_nat n"
  by (simp add: i64_to_string_def show_int_def signed_of_nat signed_take_bit_int_eq_self)

lemma itoa_kept [simp]:
  "itoa (write_int rb n) = itoa rb" "itoa (send_ok rb) = itoa rb" "itoa (send_pong rb) = itoa rb"
  "itoa (send_simple_string rb m) = itoa rb" "itoa (send_error rb m) = itoa rb"
  "itoa (send_err rb m) = itoa rb" "itoa (send_wrong_type rb m) = itoa rb"
  "itoa (send_bulk_string rb m) = itoa rb" "itoa (send_null rb) = itoa rb"
  "itoa (send_null_array rb) = itoa rb" "itoa (send_integer rb n) = itoa rb"
  "itoa (send_array_len rb k) = itoa rb"
  by (simp_all add: write_int_def send_ok_def send_pong_def send_simple_string_def send_error_def
      send_err_def send_wrong_type_def send_bulk_string_def send_null_def send_null_array_def
      send_integer_def send_array_len_def Let_def)

lemma send_bulk_buf [reply_simps]:
  assumes "itoa_ok (itoa rb)" and "length d < 2 ^ 63"
  shows "buf (send_bulk_string rb d) = buf rb @ bulk d"
  using assms by (simp add: send_bulk_string_def write_int_def itoa_ok_def of_nat_to_string bulk_def)

lemma send_bulks_buf:
  assumes "itoa_ok (itoa rb)" and "\<forall>d \<in> set ds. length d < 2 ^ 63"
  shows "buf (foldl send_bulk_string rb ds) = buf rb @ concat (map bulk ds)"
  using assms by (induction ds arbitrary: rb) (simp_all add: send_bulk_buf)

lemma send_string_array_buf [reply_simps]:
  assumes "itoa_ok (itoa rb)" and "\<forall>d \<in> set ds. length d < 2 ^ 63" and "length ds < 2 ^ 63"
  shows "buf (send_string_array rb ds) = buf rb @ resp_cmd ds"
  using assms
  by (simp add: send_string_array_def send_bulks_buf send_array_len_def write_int_def itoa_ok_def
      of_nat_to_string resp_cmd_def)

lemma send_integer_buf [reply_simps]:
  "itoa_ok (itoa rb) \<Longrightarrow> buf (send_integer rb n) = buf rb @ '':'' @ i64_to_string n @ CRLF"
  by (simp add: send_integer_def write_int_def itoa_ok_def)

lemma send_array_len_buf [reply_simps]:
  "itoa_ok (itoa rb) \<Longrightarrow> n < 2 ^ 63 \<Longrightarrow> buf (send_array_len rb n) = buf rb @ ''*'' @ show_nat n @ CRLF"
  by (simp add: send_array_len_def write_int_def itoa_ok_def of_nat_to_string)

lemma send_fixed_buf [reply_simps]:
  "buf (send_ok rb) = buf rb @ ''+OK'' @ CRLF"
  "buf (send_pong rb) = buf rb @ ''+PONG'' @ CRLF"
  "buf (send_null rb) = buf rb @ ''$-1'' @ CRLF"
  "buf (send_null_array rb) = buf rb @ ''*-1'' @ CRLF"
  "buf (send_simple_string rb m) = buf rb @ ''+'' @ m @ CRLF"
  "buf (send_error rb m) = buf rb @ ''-'' @ m @ CRLF"
  "buf (send_err rb m) = buf rb @ ''-ERR '' @ m @ CRLF"
  by (simp_all add: send_ok_def send_pong_def send_null_def send_null_array_def
      send_simple_string_def send_error_def send_err_def)

end
