(* ===== verification/Resp_Parser.thy ===== *)
theory Resp_Parser
  imports Reply_Builder
begin

text \<open>
  \<^verbatim>\<open>crates/shrikedb-facade/src/resp_parser.rs\<close>: the incremental RESP2 parser. \<open>parse_step\<close> is one round
  of the \<^verbatim>\<open>loop\<close> in \<^verbatim>\<open>RespParser::parse\<close> and \<open>parse_loop\<close> the loop, a total function: every round
  that continues shortens the buffer or leaves the \<^verbatim>\<open>Init\<close> state. \<^verbatim>\<open>std::mem::replace\<close> leaves the
  state \<^verbatim>\<open>Init\<close> behind, so a return that sets no state returns in \<open>S_Init\<close>.

  The main result is about streams: however the bytes of a sequence of commands are cut into
  reads, the parser delivers exactly these commands.
\<close>

datatype resp_expr =
    R_String bytes
  | R_Int i64
  | R_Nil
  | R_Error bytes
  | R_Array "resp_expr list"

fun expr_as_bytes :: "resp_expr \<Rightarrow> bytes option" where
  "expr_as_bytes (R_String b) = Some b"
| "expr_as_bytes _ = None"

definition expr_as_str :: "resp_expr \<Rightarrow> bytes option" where
  "expr_as_str e = Option.bind (expr_as_bytes e) from_utf8"

datatype parse_error = BadArrayLen | BadBulkLen | BadInteger | BadProtocol

fun parse_error_display :: "parse_error \<Rightarrow> bytes" where
  "parse_error_display BadArrayLen = ''invalid array length''"
| "parse_error_display BadBulkLen = ''invalid bulk string length''"
| "parse_error_display BadInteger = ''invalid integer''"
| "parse_error_display BadProtocol = ''protocol error''"

datatype parse_result = Complete "resp_expr list" | Incomplete | Failed parse_error

datatype parser_state =
    S_Init
  | S_Array nat "resp_expr list"
  | S_BulkString nat "resp_expr list" nat
  | S_Inline

record resp_parser =
  state :: parser_state
  max_arr_len :: u32
  max_bulk_len :: u64

definition parser_new :: resp_parser where
  "parser_new = \<lparr>state = S_Init, max_arr_len = 1024 * 1024, max_bulk_len = 512 * 1024 * 1024\<rparr>"

subsection \<open>Lines\<close>

definition parse_int_arg :: "bytes \<Rightarrow> i64 option" where
  "parse_int_arg s = Option.bind (from_utf8 s) (\<lambda>t. parse_i64 (trim t))"

definition find_crlf :: "bytes \<Rightarrow> nat option" where
  "find_crlf data = List.find (\<lambda>i. data ! i = CHR 0x0D \<and> data ! (i + 1) = CHR 0x0A) [0..<length data - 1]"

definition find_lf :: "bytes \<Rightarrow> nat option" where
  "find_lf data = List.find (\<lambda>i. data ! i = CHR 0x0A) [0..<length data]"

definition line_end :: "bytes \<Rightarrow> nat \<Rightarrow> nat" where
  "line_end data i = (if i > 0 \<and> data ! (i - 1) = CHR 0x0D then i - 1 else i)"

definition consume_line :: "bytes \<Rightarrow> (bytes \<times> bytes) option" where
  "consume_line data =
     (case find_crlf data of
        Some i \<Rightarrow> Some (take i data, drop 2 (drop i data))
      | None \<Rightarrow>
         (case find_lf data of
            Some i \<Rightarrow> Some (take (line_end data i) data,
                             drop (i - line_end data i + 1) (drop (line_end data i) data))
          | None \<Rightarrow> None))"

definition parse_inline_args :: "bytes \<Rightarrow> resp_expr list" where
  "parse_inline_args line =
     (case from_utf8 line of
        None \<Rightarrow> []
      | Some s \<Rightarrow> if trim s = [] then [] else map R_String (split_whitespace (trim s)))"

subsection \<open>The parser loop\<close>

datatype step_result =
    Return parse_result parser_state bytes
  | Continue parser_state bytes
  | Panic

text \<open>\<^verbatim>\<open>&line[1..]\<close>, which panics on an empty line.\<close>

definition line_arg :: "bytes \<Rightarrow> (bytes \<Rightarrow> step_result) \<Rightarrow> step_result" where
  "line_arg line f = (case line of [] \<Rightarrow> Panic | _ # t \<Rightarrow> f t)"

text \<open>Push an argument and return when the array is complete.\<close>

definition push_arg :: "nat \<Rightarrow> resp_expr list \<Rightarrow> resp_expr \<Rightarrow> bytes \<Rightarrow> step_result" where
  "push_arg expected args x b =
     (if length (args @ [x]) = expected then Return (Complete (args @ [x])) S_Init b
      else Continue (S_Array expected (args @ [x])) b)"

definition array_header :: "u32 \<Rightarrow> bytes \<Rightarrow> bytes \<Rightarrow> step_result" where
  "array_header max_len t b =
     (case parse_int_arg t of
        Some n \<Rightarrow>
          if 0 \<le> sint n \<and> sint n \<le> uint max_len then
            (if nat (sint n) = 0 then Return (Complete []) S_Init b
             else Continue (S_Array (nat (sint n)) []) b)
          else Return (Failed BadArrayLen) S_Init b
      | None \<Rightarrow> Return (Failed BadArrayLen) S_Init b)"

definition init_step :: "u32 \<Rightarrow> bytes \<Rightarrow> step_result" where
  "init_step max_len b =
     (case b of
        [] \<Rightarrow> Return Incomplete S_Init b
      | c # r \<Rightarrow>
         if c = CHR ''*'' then
           (case consume_line b of
              Some (line, b') \<Rightarrow> line_arg line (\<lambda>t. array_header max_len t b')
            | None \<Rightarrow> Return Incomplete S_Init b)
         else if c = CHR 0x0D \<or> c = CHR 0x0A then Continue S_Init r
         else Continue S_Inline b)"

definition inline_step :: "bytes \<Rightarrow> step_result" where
  "inline_step b =
     (case consume_line b of
        Some (line, b') \<Rightarrow>
          if parse_inline_args line = [] then Continue S_Init b'
          else Return (Complete (parse_inline_args line)) S_Init b'
      | None \<Rightarrow> Return Incomplete S_Inline b)"

definition bulk_header :: "u64 \<Rightarrow> nat \<Rightarrow> resp_expr list \<Rightarrow> bytes \<Rightarrow> bytes \<Rightarrow> step_result" where
  "bulk_header max_len expected args t b =
     (case parse_int_arg t of
        Some n \<Rightarrow>
          if sint n = - 1 then push_arg expected args R_Nil b
          else if 0 \<le> sint n \<and> sint n \<le> sint (max_len :: i64)
            then Continue (S_BulkString (nat (sint n)) args expected) b
          else Return (Failed BadBulkLen) S_Init b
      | None \<Rightarrow> Return (Failed BadBulkLen) S_Init b)"

definition int_elem :: "nat \<Rightarrow> resp_expr list \<Rightarrow> bytes \<Rightarrow> bytes \<Rightarrow> step_result" where
  "int_elem expected args t b =
     (case parse_int_arg t of
        Some n \<Rightarrow> push_arg expected args (R_Int n) b
      | None \<Rightarrow> Return (Failed BadInteger) S_Init b)"

definition array_elem :: "u64 \<Rightarrow> nat \<Rightarrow> resp_expr list \<Rightarrow> byte \<Rightarrow> bytes \<Rightarrow> bytes \<Rightarrow> step_result" where
  "array_elem max_len expected args c t b =
     (if c = CHR ''$'' then bulk_header max_len expected args t b
      else if c = CHR ''+'' then push_arg expected args (R_String t) b
      else if c = CHR '':'' then int_elem expected args t b
      else push_arg expected args (R_Error t) b)"

definition array_step :: "u64 \<Rightarrow> nat \<Rightarrow> resp_expr list \<Rightarrow> bytes \<Rightarrow> step_result" where
  "array_step max_len expected args b =
     (case b of
        [] \<Rightarrow> Return Incomplete (S_Array expected args) b
      | c # _ \<Rightarrow>
         if c = CHR ''$'' \<or> c = CHR ''+'' \<or> c = CHR '':'' \<or> c = CHR ''-'' then
           (case consume_line b of
              Some (line, b') \<Rightarrow> line_arg line (\<lambda>t. array_elem max_len expected args c t b')
            | None \<Rightarrow> Return Incomplete (S_Array expected args) b)
         else Return (Failed BadProtocol) S_Init b)"

definition bulk_step :: "nat \<Rightarrow> resp_expr list \<Rightarrow> nat \<Rightarrow> bytes \<Rightarrow> step_result" where
  "bulk_step expected args array_expected b =
     (if length b < expected + 2 then Return Incomplete (S_BulkString expected args array_expected) b
      else push_arg array_expected args (R_String (take expected b)) (drop 2 (drop expected b)))"

fun parse_step :: "u32 \<Rightarrow> u64 \<Rightarrow> parser_state \<Rightarrow> bytes \<Rightarrow> step_result" where
  "parse_step arr_len bulk_len S_Init b = init_step arr_len b"
| "parse_step arr_len bulk_len S_Inline b = inline_step b"
| "parse_step arr_len bulk_len (S_Array expected args) b = array_step bulk_len expected args b"
| "parse_step arr_len bulk_len (S_BulkString expected args n) b = bulk_step expected args n b"

definition step_measure :: "parser_state \<Rightarrow> bytes \<Rightarrow> nat" where
  "step_measure s b = 2 * length b + (if s = S_Init then 1 else 0)"

lemma consume_line_shorter: "consume_line b = Some (l, r) \<Longrightarrow> length r < length b"
  by (auto simp: consume_line_def find_crlf_def find_lf_def line_end_def find_upt_Some
      split: option.splits if_splits)

lemma push_arg_measure:
  "push_arg e args x b = Continue s' b' \<Longrightarrow> b' = b \<and> s' \<noteq> S_Init"
  by (auto simp: push_arg_def split: if_splits)

lemma parse_step_measure:
  "parse_step al bl s b = Continue s' b' \<Longrightarrow> step_measure s' b' < step_measure s b"
  by (cases s)
     (auto simp: init_step_def inline_step_def array_step_def bulk_step_def line_arg_def
       array_header_def array_elem_def bulk_header_def int_elem_def step_measure_def
       dest!: consume_line_shorter push_arg_measure
       split: list.splits option.splits if_splits)

function parse_loop ::
  "u32 \<Rightarrow> u64 \<Rightarrow> parser_state \<Rightarrow> bytes \<Rightarrow> (parse_result \<times> parser_state \<times> bytes) option" where
  "parse_loop al bl s b =
     (case parse_step al bl s b of
        Return r s' b' \<Rightarrow> Some (r, s', b')
      | Continue s' b' \<Rightarrow> parse_loop al bl s' b'
      | Panic \<Rightarrow> None)"
  by pat_completeness auto
termination
  by (relation "measure (\<lambda>(al, bl, s, b). step_measure s b)") (auto dest: parse_step_measure)

declare parse_loop.simps [simp del]

definition parse :: "resp_parser \<Rightarrow> bytes \<Rightarrow> (parse_result \<times> resp_parser \<times> bytes) option" where
  "parse p b =
     (case parse_loop (max_arr_len p) (max_bulk_len p) (state p) b of
        Some (r, s', b') \<Rightarrow> Some (r, p\<lparr>state := s'\<rparr>, b')
      | None \<Rightarrow> None)"

subsection \<open>No panic, progress\<close>

lemma find_crlf_Some: "find_crlf b = Some i \<longleftrightarrow> i + 1 < length b \<and> b ! i = CHR 0x0D \<and> b ! (i + 1) = CHR 0x0A
    \<and> (\<forall>j<i. \<not> (b ! j = CHR 0x0D \<and> b ! (j + 1) = CHR 0x0A))"
  by (auto simp: find_crlf_def find_upt_Some)

lemma find_crlf_None: "find_crlf b = None \<longleftrightarrow>
    (\<forall>i. i + 1 < length b \<longrightarrow> \<not> (b ! i = CHR 0x0D \<and> b ! (i + 1) = CHR 0x0A))"
  by (auto simp: find_crlf_def find_upt_None less_diff_conv)

lemma find_lf_Some: "find_lf b = Some i \<longleftrightarrow> i < length b \<and> b ! i = CHR 0x0A \<and> (\<forall>j<i. b ! j \<noteq> CHR 0x0A)"
  by (auto simp: find_lf_def find_upt_Some)

lemma find_lf_None: "find_lf b = None \<longleftrightarrow> CHR 0x0A \<notin> set b"
  by (auto simp: find_lf_def find_upt_None in_set_conv_nth)

lemma consume_line_head:
  assumes "consume_line (c # r) = Some (l, b')" and "c \<noteq> CHR 0x0D" and "c \<noteq> CHR 0x0A"
  shows "\<exists>t. l = c # t"
proof (cases "find_crlf (c # r)")
  case (Some i)
  then have "i \<noteq> 0" using assms(2) by (cases i) (auto simp: find_crlf_Some)
  then show ?thesis using assms(1) Some by (cases i) (auto simp: consume_line_def)
next
  case None
  then obtain i where i: "find_lf (c # r) = Some i" "l = take (line_end (c # r) i) (c # r)"
    using assms(1) by (auto simp: consume_line_def split: option.splits)
  have "i \<noteq> 0" using i(1) assms(3) by (cases i) (auto simp: find_lf_Some)
  moreover have "line_end (c # r) i \<noteq> 0"
    using \<open>i \<noteq> 0\<close> assms(2) by (cases "i = 1") (auto simp: line_end_def)
  ultimately show ?thesis using i(2) by (cases "line_end (c # r) i") auto
qed

lemma parse_step_no_panic: "parse_step al bl s b \<noteq> Panic"
  by (cases s)
     (auto simp: init_step_def inline_step_def array_step_def bulk_step_def line_arg_def
       array_header_def array_elem_def bulk_header_def int_elem_def push_arg_def
       dest!: consume_line_head split: list.splits option.splits if_splits)

lemma parse_loop_total: "\<exists>r s' b'. parse_loop al bl s b = Some (r, s', b')"
proof (induction al bl s b rule: parse_loop.induct)
  case (1 al bl s b)
  then show ?case
    using parse_step_no_panic [of al bl s b]
    by (cases "parse_step al bl s b") (simp_all add: parse_loop.simps [of al bl s b])
qed

lemma push_arg_Complete: "push_arg e args x b = Return (Complete as) s' b' \<Longrightarrow> b' = b"
  by (auto simp: push_arg_def split: if_splits)

lemma parse_step_Complete_shorter:
  "parse_step al bl s b = Return (Complete as) s' b' \<Longrightarrow> length b' < length b"
  by (cases s)
     (auto simp: init_step_def inline_step_def array_step_def bulk_step_def line_arg_def
       array_header_def array_elem_def bulk_header_def int_elem_def
       dest!: consume_line_shorter push_arg_Complete
       split: list.splits option.splits if_splits)

lemma parse_step_Continue_le: "parse_step al bl s b = Continue s' b' \<Longrightarrow> length b' \<le> length b"
  using parse_step_measure [of al bl s b s' b'] by (auto simp: step_measure_def split: if_splits)

lemma parse_loop_Complete_shorter:
  "parse_loop al bl s b = Some (Complete as, s', b') \<Longrightarrow> length b' < length b"
proof (induction al bl s b rule: parse_loop.induct)
  case (1 al bl s b)
  show ?case
  proof (cases "parse_step al bl s b")
    case (Return r s1 b1)
    then show ?thesis
      using "1.prems" parse_step_Complete_shorter [of al bl s b as s' b']
      by (auto simp: parse_loop.simps [of al bl s b])
  next
    case (Continue s1 b1)
    then show ?thesis
      using "1.IH" [OF Continue] "1.prems" parse_step_Continue_le [OF Continue]
      by (auto simp: parse_loop.simps [of al bl s b])
  next
    case Panic
    then show ?thesis by (simp add: parse_step_no_panic)
  qed
qed

lemma parse_total: "\<exists>r p' b'. parse p b = Some (r, p', b')"
  using parse_loop_total [of "max_arr_len p" "max_bulk_len p" "state p" b] by (auto simp: parse_def)

lemma parse_Complete_shorter: "parse p b = Some (Complete as, p', b') \<Longrightarrow> length b' < length b"
  by (auto simp: parse_def dest: parse_loop_Complete_shorter split: option.splits)

subsection \<open>Well-formed lines\<close>

lemma consume_line_crlf:
  assumes w: "b @ c = l @ CRLF @ r" and cr: "CHR 0x0D \<notin> set l" and lf: "CHR 0x0A \<notin> set l"
  shows "consume_line b =
    (if length l + 2 \<le> length b then Some (l, drop (length l + 2) b) else None)"
proof (cases "length l + 2 \<le> length b")
  case True
  have b: "b = l @ CRLF @ drop (length l + 2) b"
  proof -
    have "take (length l + 2) b = take (length l + 2) (b @ c)" using True by simp
    also have "\<dots> = l @ CRLF" unfolding w by (simp add: CRLF_def)
    finally show ?thesis by (metis append.assoc append_take_drop_id)
  qed
  have "find_crlf b = Some (length l)"
    using cr by (subst b, subst find_crlf_Some)
      (auto simp: CRLF_def nth_append in_set_conv_nth)
  then show ?thesis using True arg_cong [OF b, of "take (length l)"] by (simp add: consume_line_def)
next
  case False
  have "b = take (length b) ((l @ CRLF) @ r)"
    using arg_cong [OF w, of "take (length b)"] by simp
  also have "\<dots> = take (length b) (l @ CRLF)"
    using False by (subst take_append) (simp add: CRLF_def)
  finally have b: "b = take (length b) (l @ CRLF)" .
  have sub: "set b \<subseteq> set l \<union> {CHR 0x0D}"
    using False
    by (subst b) (auto simp: CRLF_def take_Cons' dest: in_set_takeD split: if_splits)
  have "CHR 0x0A \<notin> set b" using sub lf by auto
  moreover from this have "find_crlf b = None" by (auto simp: find_crlf_None dest: nth_mem)
  moreover have "find_lf b = None" using calculation(1) by (simp only: find_lf_None not_False_eq_True)
  ultimately show ?thesis using False by (simp add: consume_line_def)
qed

lemma digits_plain: "\<forall>x \<in> set (show_nat n). plain_byte x"
  using show_nat_digits by (auto simp: plain_byte_def)

lemma digits_no_eol: "CHR 0x0D \<notin> set (show_nat n)" "CHR 0x0A \<notin> set (show_nat n)"
  using show_nat_digits by (force simp: is_digit_def byte_val_Char)+

lemma parse_int_arg_show: "n < 2 ^ 63 \<Longrightarrow> parse_int_arg (show_nat n) = Some (of_nat n)"
  using digits_plain [of n] plain_byte_ascii utf8_valid_ascii [of "show_nat n"] parse_i64_show [of "of_nat n"]
  by (simp add: parse_int_arg_def from_utf8_def trim_plain of_nat_to_string)

subsection \<open>Streams of commands\<close>

text \<open>
  \<open>awaits al bl z s cmds w\<close>: in state \<open>s\<close> the bytes \<open>w\<close> that are buffered or still to arrive are
  the rest of the encoding of the commands \<open>cmds\<close>, the first of which may be partly parsed,
  followed by arbitrary bytes \<open>z\<close>.
\<close>

definition stream :: "bytes list list \<Rightarrow> bytes" where
  "stream cmds = concat (map resp_cmd cmds)"

definition cmd_ok :: "u32 \<Rightarrow> u64 \<Rightarrow> bytes list \<Rightarrow> bool" where
  "cmd_ok al bl items \<longleftrightarrow> length items \<le> unat al \<and> (\<forall>d \<in> set items. int (length d) \<le> sint (bl :: i64))"

fun awaits :: "u32 \<Rightarrow> u64 \<Rightarrow> bytes \<Rightarrow> parser_state \<Rightarrow> bytes list list \<Rightarrow> bytes \<Rightarrow> bool" where
  "awaits al bl z S_Init cmds w \<longleftrightarrow> w = stream cmds @ z \<and> list_all (cmd_ok al bl) cmds"
| "awaits al bl z (S_Array n args) cmds w \<longleftrightarrow>
     (\<exists>ds x xs rest. cmds = (ds @ x # xs) # rest \<and> list_all (cmd_ok al bl) cmds
        \<and> args = map R_String ds \<and> n = length (ds @ x # xs)
        \<and> w = concat (map bulk (x # xs)) @ stream rest @ z)"
| "awaits al bl z (S_BulkString k args n) cmds w \<longleftrightarrow>
     (\<exists>ds x xs rest. cmds = (ds @ x # xs) # rest \<and> list_all (cmd_ok al bl) cmds
        \<and> args = map R_String ds \<and> n = length (ds @ x # xs) \<and> k = length x
        \<and> w = x @ CRLF @ concat (map bulk xs) @ stream rest @ z)"
| "awaits al bl z S_Inline cmds w \<longleftrightarrow> False"

text \<open>What one round may do on a buffer \<open>b\<close> when \<open>c\<close> is still to arrive.\<close>

fun good_step :: "u32 \<Rightarrow> u64 \<Rightarrow> bytes \<Rightarrow> bytes list list \<Rightarrow> bytes \<Rightarrow> step_result \<Rightarrow> bool" where
  "good_step al bl z cmds c (Continue s' b') \<longleftrightarrow> awaits al bl z s' cmds (b' @ c)"
| "good_step al bl z cmds c (Return Incomplete s' b') \<longleftrightarrow>
     awaits al bl z s' cmds (b' @ c) \<and> length z < length c"
| "good_step al bl z cmds c (Return (Complete as) s' b') \<longleftrightarrow>
     (\<exists>d ds. cmds = d # ds \<and> as = map R_String d \<and> s' = S_Init \<and> awaits al bl z S_Init ds (b' @ c))"
| "good_step al bl z cmds c (Return (Failed e) s' b') \<longleftrightarrow> False"
| "good_step al bl z cmds c Panic \<longleftrightarrow> False"

lemma good_push_arg:
  assumes "cmds = (ds @ x # xs) # rest" and "list_all (cmd_ok al bl) cmds"
    and "b @ c = concat (map bulk xs) @ stream rest @ z"
  shows "good_step al bl z cmds c (push_arg (length (ds @ x # xs)) (map R_String ds) (R_String x) b)"
proof (cases xs)
  case Nil
  then show ?thesis using assms by (simp add: push_arg_def)
next
  case (Cons y ys)
  then have "\<exists>ds' x' xs' rest'. cmds = (ds' @ x' # xs') # rest' \<and> list_all (cmd_ok al bl) cmds
        \<and> map R_String ds @ [R_String x] = map R_String ds' \<and> length (ds @ x # xs) = length (ds' @ x' # xs')
        \<and> b @ c = concat (map bulk (x' # xs')) @ stream rest' @ z"
    using assms by (intro exI [of _ "ds @ [x]"] exI [of _ y] exI [of _ ys] exI [of _ rest]) simp
  then show ?thesis using Cons by (simp add: push_arg_def)
qed

lemma drop_line:
  assumes "b @ c = l @ CRLF @ r" and "length l + 2 \<le> length b"
  shows "drop (length l + 2) b @ c = r"
  using arg_cong [OF assms(1), of "drop (length l + 2)"] assms(2) by (simp add: CRLF_def)

lemma sint_of_nat_i64: "n < 2 ^ 63 \<Longrightarrow> sint (of_nat n :: i64) = int n"
  by (simp add: signed_of_nat signed_take_bit_int_eq_self)

lemma u32_small: "n \<le> unat (al :: u32) \<Longrightarrow> n < 2 ^ 63"
  using unsigned_less [of al, where ?'a = nat] by simp

lemma i64_small: "int n \<le> sint (bl :: i64) \<Longrightarrow> n < 2 ^ 63"
  using sint_range(2) [of bl] by simp

lemma good_init_step:
  assumes w: "b @ c = stream cmds @ z" and ok: "list_all (cmd_ok al bl) cmds" and ne: "cmds \<noteq> []"
  shows "good_step al bl z cmds c (init_step al b)"
proof -
  obtain d rest where Cons: "cmds = d # rest" using ne by (cases cmds) auto
  define l where "l = CHR ''*'' # show_nat (length d)"
  have w': "b @ c = l @ CRLF @ concat (map bulk d) @ stream rest @ z"
    using w Cons by (simp add: l_def stream_def resp_cmd_def)
  have cl: "consume_line b = (if length l + 2 \<le> length b then Some (l, drop (length l + 2) b) else None)"
    using consume_line_crlf [OF w'] digits_no_eol by (simp add: l_def)
  have n: "length d \<le> unat al" using ok Cons by (simp add: cmd_ok_def)
  show ?thesis
  proof (cases b)
    case Nil
    then show ?thesis using w ok Cons arg_cong [OF w', of length] by (auto simp: init_step_def l_def)
  next
    case b: (Cons c0 r)
    then have c0: "c0 = CHR ''*''" using w' by (simp add: l_def)
    show ?thesis
    proof (cases "length l + 2 \<le> length b")
      case True
      let ?b' = "drop (length l + 2) b"
      have rest: "?b' @ c = concat (map bulk d) @ stream rest @ z" by (rule drop_line [OF w' True])
      have "init_step al b = array_header al (show_nat (length d)) ?b'"
        using cl True b c0 by (simp add: init_step_def line_arg_def l_def)
      also have "\<dots> = (if d = [] then Return (Complete []) S_Init ?b' else Continue (S_Array (length d) []) ?b')"
        using n parse_int_arg_show [OF u32_small [OF n]] sint_of_nat_i64 [OF u32_small [OF n]]
        by (simp only: array_header_def option.case uint_nat nat_int of_nat_le_iff of_nat_0_le_iff
            simp_thms if_True length_0_conv)
      finally show ?thesis
        using rest Cons ok by (cases d) auto
    next
      case False
      then have "init_step al b = Return Incomplete S_Init b"
        using cl b c0 by (simp add: init_step_def)
      moreover have "length z < length c"
        using False arg_cong [OF w', of length] by (simp add: CRLF_def)
      ultimately show ?thesis using w ok by simp
    qed
  qed
qed

lemma good_array_step:
  assumes cmds: "cmds = (ds @ x # xs) # rest" and ok: "list_all (cmd_ok al bl) cmds"
    and w: "b @ c = concat (map bulk (x # xs)) @ stream rest @ z"
  shows "good_step al bl z cmds c (array_step bl (length (ds @ x # xs)) (map R_String ds) b)"
proof -
  define l where "l = CHR ''$'' # show_nat (length x)"
  have w': "b @ c = l @ CRLF @ x @ CRLF @ concat (map bulk xs) @ stream rest @ z"
    using w by (simp add: l_def bulk_def)
  have cl: "consume_line b = (if length l + 2 \<le> length b then Some (l, drop (length l + 2) b) else None)"
    using consume_line_crlf [OF w'] digits_no_eol by (simp add: l_def)
  have n: "int (length x) \<le> sint bl" using ok cmds by (simp add: cmd_ok_def)
  show ?thesis
  proof (cases "length l + 2 \<le> length b")
    case True
    let ?b' = "drop (length l + 2) b"
    obtain r where b: "b = CHR ''$'' # r" using w' True by (cases b) (auto simp: l_def)
    have rest: "?b' @ c = x @ CRLF @ concat (map bulk xs) @ stream rest @ z" by (rule drop_line [OF w' True])
    have "array_step bl (length (ds @ x # xs)) (map R_String ds) b
        = bulk_header bl (length (ds @ x # xs)) (map R_String ds) (show_nat (length x)) ?b'"
      using cl True b by (simp add: array_step_def line_arg_def l_def array_elem_def)
    also have "\<dots> = Continue (S_BulkString (length x) (map R_String ds) (length (ds @ x # xs))) ?b'"
      using n parse_int_arg_show [OF i64_small [OF n]] sint_of_nat_i64 [OF i64_small [OF n]]
      by (simp add: bulk_header_def)
    finally show ?thesis using rest cmds ok by auto
  next
    case False
    then have "array_step bl (length (ds @ x # xs)) (map R_String ds) b
        = Return Incomplete (S_Array (length (ds @ x # xs)) (map R_String ds)) b"
      using cl w' by (cases b) (auto simp: array_step_def l_def)
    moreover have "length z < length c"
        using False arg_cong [OF w', of length] by (simp add: CRLF_def)
    ultimately show ?thesis using w ok cmds by auto
  qed
qed

lemma good_bulk_step:
  assumes cmds: "cmds = (ds @ x # xs) # rest" and ok: "list_all (cmd_ok al bl) cmds"
    and w: "b @ c = x @ CRLF @ concat (map bulk xs) @ stream rest @ z"
  shows "good_step al bl z cmds c (bulk_step (length x) (map R_String ds) (length (ds @ x # xs)) b)"
proof (cases "length x + 2 \<le> length b")
  case True
  have "take (length x) b = x"
    using arg_cong [OF w, of "take (length x)"] True by simp
  moreover have "drop 2 (drop (length x) b) @ c = concat (map bulk xs) @ stream rest @ z"
    using drop_line [OF w True] by (simp add: add.commute)
  ultimately show ?thesis
    using True good_push_arg [OF cmds ok] by (simp add: bulk_step_def)
next
  case False
  moreover have "length z < length c"
    using False arg_cong [OF w, of length] by (simp add: CRLF_def)
  ultimately show ?thesis using w ok cmds by (auto simp: bulk_step_def)
qed

lemma good_parse_step: "awaits al bl z s cmds (b @ c) \<Longrightarrow> cmds \<noteq> [] \<Longrightarrow> good_step al bl z cmds c (parse_step al bl s b)"
  by (cases s) (use good_init_step good_array_step good_bulk_step in auto)

lemma good_parse_loop:
  assumes "awaits al bl z s cmds (b @ c)" and "cmds \<noteq> []"
  shows "\<exists>r s' b'. parse_loop al bl s b = Some (r, s', b') \<and> good_step al bl z cmds c (Return r s' b')"
  using assms
proof (induction al bl s b rule: parse_loop.induct)
  case (1 al bl s b)
  have g: "good_step al bl z cmds c (parse_step al bl s b)" by (rule good_parse_step [OF "1.prems"])
  show ?case
  proof (cases "parse_step al bl s b")
    case (Return r s1 b1)
    then show ?thesis using g by (simp add: parse_loop.simps [of al bl s b])
  next
    case (Continue s1 b1)
    then show ?thesis
      using "1.IH" [OF Continue] "1.prems"(2) g by (simp add: parse_loop.simps [of al bl s b])
  next
    case Panic
    then show ?thesis by (simp add: parse_step_no_panic)
  qed
qed

subsection \<open>Properties\<close>

lemma consume_line_suffix: "consume_line b = Some (l, r) \<Longrightarrow> \<exists>u. b = u @ r"
  by (auto simp: consume_line_def drop_drop split: option.splits) (metis append_take_drop_id)+

lemma push_arg_suffix:
  "push_arg e args x b = Continue s' b' \<Longrightarrow> b' = b" "push_arg e args x b = Return r s' b' \<Longrightarrow> b' = b"
  by (auto simp: push_arg_def split: if_splits)

lemma parse_step_suffix:
  "parse_step al bl s b = Continue s' b' \<Longrightarrow> \<exists>u. b = u @ b'"
  "parse_step al bl s b = Return r s' b' \<Longrightarrow> \<exists>u. b = u @ b'"
  by (cases s;
      auto simp: init_step_def inline_step_def array_step_def bulk_step_def line_arg_def
        array_header_def array_elem_def bulk_header_def int_elem_def drop_drop
        dest!: consume_line_suffix push_arg_suffix split: list.splits option.splits if_splits;
      metis append_take_drop_id)+

lemma parse_loop_suffix: "parse_loop al bl s b = Some (r, s', b') \<Longrightarrow> \<exists>u. b = u @ b'"
proof (induction al bl s b rule: parse_loop.induct)
  case (1 al bl s b)
  show ?case
  proof (cases "parse_step al bl s b")
    case (Return r1 s1 b1)
    then show ?thesis
      using "1.prems" parse_step_suffix(2) [OF Return] by (simp add: parse_loop.simps [of al bl s b])
  next
    case (Continue s1 b1)
    obtain u where "b = u @ b1" using parse_step_suffix(1) [OF Continue] by blast
    moreover obtain v where "b1 = v @ b'"
      using "1.IH" [OF Continue] "1.prems" Continue by (auto simp: parse_loop.simps [of al bl s b])
    ultimately show ?thesis by (metis append.assoc)
  next
    case Panic
    then show ?thesis by (simp add: parse_step_no_panic)
  qed
qed

lemma parse_suffix: "parse p b = Some (r, p', b') \<Longrightarrow> \<exists>u. b = u @ b'"
  by (auto simp: parse_def dest: parse_loop_suffix split: option.splits)

text \<open>C35: On every parser state and every buffer, parse returns without a panic (the slices
  line[1..] are never out of range and the loop ends), the new buffer is what is left of the old
  one after a prefix was consumed, and a completed command consumed at least one byte, so the
  connection's loop over complete commands ends too.\<close>

theorem parser_returns:
  "\<exists>r p' u b'. parse p b = Some (r, p', b') \<and> b = u @ b' \<and>
     (case r of Complete args \<Rightarrow> u \<noteq> [] | _ \<Rightarrow> True)"
proof -
  obtain r p' b' where p: "parse p b = Some (r, p', b')" using parse_total by blast
  obtain u where u: "b = u @ b'" using parse_suffix [OF p] by blast
  have "u \<noteq> []" if "r = Complete args" for args
    using parse_Complete_shorter [of p b args p' b'] p u that by auto
  then show ?thesis using p u by (cases r) auto
qed

text \<open>C12: The encoder and the parser agree: what send\_string\_array writes for a command within the
  parser's limits is parsed back, in one call, into exactly these strings, whatever bytes they
  hold (line ends included), the parser is ready for the next command, and the bytes that follow
  in the buffer are left alone.\<close>

theorem parser_round_trip:
  assumes "itoa_ok f" and "length items \<le> 1024 * 1024"
    and "\<forall>d \<in> set items. length d \<le> 512 * 1024 * 1024"
  shows "parse parser_new (buf (send_string_array (rb_new f []) items) @ rest)
    = Some (Complete (map R_String items), parser_new, rest)"
proof -
  have small: "\<forall>d \<in> set items. length d < 2 ^ 63" "length items < 2 ^ 63" using assms(2,3) by auto
  have b: "buf (send_string_array (rb_new f []) items) = resp_cmd items"
    using send_string_array_buf [of "rb_new f []"] assms(1) small by simp
  have "cmd_ok (1024 * 1024) (512 * 1024 * 1024) items"
    using assms(2,3) by (auto simp: cmd_ok_def)
  then have "awaits (1024 * 1024) (512 * 1024 * 1024) rest S_Init [items] ((resp_cmd items @ rest) @ [])"
    by (simp add: stream_def)
  then obtain r s' b' where r: "parse_loop (1024 * 1024) (512 * 1024 * 1024) S_Init (resp_cmd items @ rest) = Some (r, s', b')"
    "good_step (1024 * 1024) (512 * 1024 * 1024) rest [items] [] (Return r s' b')"
    using good_parse_loop by blast
  have "r = Complete (map R_String items) \<and> s' = S_Init \<and> b' = rest"
    using r(2) by (cases r) (auto simp: stream_def)
  then show ?thesis using r(1) b by (simp add: parse_def parser_new_def)
qed

theorem parser_round_trip_witness:
  "parse parser_new (buf (send_string_array (rb_new i64_to_string []) [''SET'', ''k'', CRLF]) @ ''*1'')
    = Some (Complete [R_String ''SET'', R_String ''k'', R_String CRLF], parser_new, ''*1'')"
  using parser_round_trip [of i64_to_string "[''SET'', ''k'', CRLF]" "''*1''"]
  by (simp add: itoa_ok_def CRLF_def)

text \<open>Two lines of which the first ends in a bare line feed.\<close>

definition lf_line :: bytes where "lf_line = ''PING'' @ [CHR 0x0A]"

definition crlf_line :: bytes where "crlf_line = ''SET a b'' @ CRLF"

lemma inline_words:
  "parse_inline_args ''PING'' = [R_String ''PING'']"
  "parse_inline_args (lf_line @ ''SET a b'') = map R_String [''PING'', ''SET'', ''a'', ''b'']"
proof -
  have "utf8_valid ''PING''" "trim ''PING'' = ''PING''" by code_simp+
  then show "parse_inline_args ''PING'' = [R_String ''PING'']"
    by (simp add: parse_inline_args_def from_utf8_def split_whitespace_def split_ws_eval)
  have "utf8_valid (lf_line @ ''SET a b'')" "trim (lf_line @ ''SET a b'') = lf_line @ ''SET a b''"
    by code_simp+
  then show "parse_inline_args (lf_line @ ''SET a b'') = map R_String [''PING'', ''SET'', ''a'', ''b'']"
    by (simp add: parse_inline_args_def from_utf8_def split_whitespace_def split_ws_eval lf_line_def)
qed

lemma inline_lines:
  "consume_line lf_line = Some (''PING'', [])"
  "consume_line (lf_line @ crlf_line) = Some (lf_line @ ''SET a b'', [])"
  by code_simp+

lemma inline_parse:
  assumes "b = CHR ''P'' # r" and "consume_line b = Some (l, b')" and "parse_inline_args l \<noteq> []"
  shows "parse parser_new b = Some (Complete (parse_inline_args l), parser_new, b')"
  using assms
  by (simp add: parse_def parser_new_def parse_loop.simps [of _ _ S_Init] parse_loop.simps [of _ _ S_Inline]
      init_step_def inline_step_def)

text \<open>A bare line feed ends an inline command only when no later CR LF is buffered yet: the
  same bytes give the command PING when they arrive as "PING" LF before the rest, and the one
  command PING SET a b when they arrive together, so the result depends on how the stream is cut
  into reads.\<close>

theorem parser_inline_depends_on_reads:
  "parse parser_new lf_line = Some (Complete [R_String ''PING''], parser_new, [])
   \<and> parse parser_new (lf_line @ crlf_line)
     = Some (Complete (map R_String [''PING'', ''SET'', ''a'', ''b'']), parser_new, [])"
  using inline_parse [OF _ inline_lines(1)] inline_parse [OF _ inline_lines(2)] inline_words
  by (simp add: lf_line_def)

end
