(* ===== verification/Command_Registry.thy ===== *)
theory Command_Registry
  imports Db_Slice Resp_Parser
begin

text \<open>
  \<^verbatim>\<open>crates/shrikedb-server/src/command_registry.rs\<close> and \<^verbatim>\<open>crates/shrikedb-facade/src/conn_context.rs\<close>: the
  context a command handler gets, the access to its arguments that the command families share,
  and the registry that looks a command up, checks its arity and calls the handler. A handler
  maps the context it is given to the context it leaves behind; \<open>None\<close> is a panic.

  The Unicode tables behind \<^verbatim>\<open>str::to_lowercase\<close>, used in error messages only, are a parameter
  of \<open>dispatch\<close>. \<^verbatim>\<open>str::to_uppercase\<close> is only ever compared with ASCII words: \<open>upper_word\<close> maps every
  character whose upper case is ASCII and keeps all others, which decides these comparisons.
\<close>

record conn_context =
  conn_db :: u16

definition conn_context_new :: conn_context where
  "conn_context_new = \<lparr>conn_db = 0\<rparr>"

record command_context =
  cc_args :: "resp_expr list"
  cc_conn :: conn_context
  cc_shard :: engine_shard
  cc_reply :: reply_builder

type_synonym handler = "command_context \<Rightarrow> command_context option"

subsection \<open>Arguments\<close>

definition arg :: "command_context \<Rightarrow> nat \<Rightarrow> bytes option" where
  "arg ctx i = (if i < length (cc_args ctx) then expr_as_bytes (cc_args ctx ! i) else None)"

definition arg_str :: "command_context \<Rightarrow> nat \<Rightarrow> bytes option" where
  "arg_str ctx i = Option.bind (arg ctx i) from_utf8"

definition arg_int :: "command_context \<Rightarrow> nat \<Rightarrow> i64 option" where
  "arg_int ctx i = Option.bind (arg_str ctx i) (\<lambda>s. parse_i64 (trim s))"

definition arg_positive_int :: "command_context \<Rightarrow> nat \<Rightarrow> u64 option" where
  "arg_positive_int ctx i =
     (case arg_int ctx i of None \<Rightarrow> None | Some n \<Rightarrow> if sint n \<le> 0 then None else Some n)"

text \<open>Characters outside ASCII whose upper case is ASCII, with it.\<close>

definition ascii_uppers :: "(bytes \<times> bytes) list" where
  "ascii_uppers =
     [([CHR 0xC4, CHR 0xB1], ''I''), ([CHR 0xC5, CHR 0xBF], ''S''), ([CHR 0xC3, CHR 0x9F], ''SS''),
      ([CHR 0xEF, CHR 0xAC, CHR 0x80], ''FF''), ([CHR 0xEF, CHR 0xAC, CHR 0x81], ''FI''),
      ([CHR 0xEF, CHR 0xAC, CHR 0x82], ''FL''), ([CHR 0xEF, CHR 0xAC, CHR 0x83], ''FFI''),
      ([CHR 0xEF, CHR 0xAC, CHR 0x84], ''FFL''), ([CHR 0xEF, CHR 0xAC, CHR 0x85], ''ST''),
      ([CHR 0xEF, CHR 0xAC, CHR 0x86], ''ST'')]"

fun upper_word :: "bytes \<Rightarrow> bytes" where
  "upper_word [] = []"
| "upper_word (c # s) =
     (if byte_val c < 0x80 then to_ascii_uppercase c # upper_word s
      else case List.find (\<lambda>(p, u). take (length p) (c # s) = p) ascii_uppers of
             Some (p, u) \<Rightarrow> u @ upper_word (drop (length p - 1) s)
           | None \<Rightarrow> c # upper_word s)"

text \<open>\<^verbatim>\<open>arg_str(..).unwrap_or_default().to_uppercase()\<close>.\<close>

definition arg_word :: "command_context \<Rightarrow> nat \<Rightarrow> bytes" where
  "arg_word ctx i = upper_word (case arg_str ctx i of None \<Rightarrow> [] | Some s \<Rightarrow> s)"

text \<open>\<^verbatim>\<open>arg(..)\<close> panics when the argument is missing or not a string.\<close>

definition with_arg :: "command_context \<Rightarrow> nat \<Rightarrow> (bytes \<Rightarrow> command_context option) \<Rightarrow> command_context option" where
  "with_arg ctx i k = Option.bind (arg ctx i) k"

fun collect_args :: "command_context \<Rightarrow> nat list \<Rightarrow> bytes list option" where
  "collect_args ctx [] = Some []"
| "collect_args ctx (i # js) =
     Option.bind (arg ctx i) (\<lambda>a. map_option ((#) a) (collect_args ctx js))"

definition key_args :: "command_context \<Rightarrow> bytes list option" where
  "key_args ctx = collect_args ctx [1..<length (cc_args ctx)]"

subsection \<open>The database and the reply\<close>

definition ctx_db :: "command_context \<Rightarrow> u16" where
  "ctx_db ctx = conn_db (cc_conn ctx)"

definition slice :: "command_context \<Rightarrow> db_slice" where
  "slice ctx = shard_slice (cc_shard ctx)"

definition set_slice :: "db_slice \<Rightarrow> command_context \<Rightarrow> command_context" where
  "set_slice ds ctx = ctx\<lparr>cc_shard := (cc_shard ctx)\<lparr>shard_slice := ds\<rparr>\<rparr>"

text \<open>An operation of the slice, its result handed on with the updated context.\<close>

definition on_slice ::
  "command_context \<Rightarrow> (db_slice \<Rightarrow> ('a \<times> db_slice) option) \<Rightarrow> ('a \<Rightarrow> command_context \<Rightarrow> command_context option)
    \<Rightarrow> command_context option" where
  "on_slice ctx f k = (case f (slice ctx) of None \<Rightarrow> None | Some (a, ds) \<Rightarrow> k a (set_slice ds ctx))"

definition rep :: "(reply_builder \<Rightarrow> reply_builder) \<Rightarrow> handler" where
  "rep f ctx = Some (ctx\<lparr>cc_reply := f (cc_reply ctx)\<rparr>)"

definition rep_err :: "bytes \<Rightarrow> handler" where
  "rep_err msg = rep (\<lambda>rb. send_err rb msg)"

definition rep_int :: "i64 \<Rightarrow> handler" where
  "rep_int n = rep (\<lambda>rb. send_integer rb n)"

definition rep_bulk :: "bytes \<Rightarrow> handler" where
  "rep_bulk d = rep (\<lambda>rb. send_bulk_string rb d)"

definition rep_wrong_type :: handler where
  "rep_wrong_type = rep (\<lambda>rb. send_wrong_type rb [])"

definition ERR_INT :: bytes where
  "ERR_INT = ''value is not an integer or out of range''"

text \<open>The lookup that most handlers start with: a missing key, a string, or another type.\<close>

definition find_string ::
  "command_context \<Rightarrow> bytes \<Rightarrow> (bytes option \<Rightarrow> handler) \<Rightarrow> command_context option" where
  "find_string ctx key k =
     on_slice ctx (\<lambda>ds. ds_find ds (ctx_db ctx) key) (\<lambda>r ctx1.
       case r of
         Some fr \<Rightarrow> if is_string (fr_value fr) then k (Some (value_as_bytes (fr_value fr))) ctx1
                    else rep_wrong_type ctx1
       | None \<Rightarrow> k None ctx1)"

subsection \<open>The registry\<close>

record command_entry =
  ce_name :: bytes
  ce_handler :: handler
  ce_arity :: int
  ce_first_key :: u16
  ce_last_key :: int
  ce_key_step :: u16

type_synonym registry = "bytes \<rightharpoonup> command_entry"

definition registry_new :: registry where
  "registry_new = Map.empty"

definition register :: "registry \<Rightarrow> command_entry \<Rightarrow> registry" where
  "register reg e = reg(ce_name e \<mapsto> e)"

text \<open>\<^verbatim>\<open>args.len() as i16\<close>: only the low 16 bits of the count are compared with the arity.\<close>

definition argc_i16 :: "resp_expr list \<Rightarrow> int" where
  "argc_i16 as = sint (of_nat (length as) :: 16 word)"

definition arity_ok :: "int \<Rightarrow> resp_expr list \<Rightarrow> bool" where
  "arity_ok arity as \<longleftrightarrow> \<not> (arity > 0 \<and> argc_i16 as \<noteq> arity) \<and> \<not> (arity < 0 \<and> argc_i16 as < - arity)"

definition bump_commands :: "engine_shard \<Rightarrow> engine_shard" where
  "bump_commands sh = sh\<lparr>commands_processed := commands_processed sh + 1\<rparr>"

text \<open>
  The result of \<^verbatim>\<open>dispatch\<close>: whether the connection stays open, with the connection context, the
  shard and the reply buffer.
\<close>

definition dispatch ::
  "(bytes \<Rightarrow> bytes) \<Rightarrow> registry \<Rightarrow> resp_expr list \<Rightarrow> conn_context \<Rightarrow> engine_shard \<Rightarrow> reply_builder
    \<Rightarrow> (bool \<times> conn_context \<times> engine_shard \<times> reply_builder) option" where
  "dispatch to_lowercase reg as conn sh rb =
     (case as of
        [] \<Rightarrow> Some (True, conn, sh, send_err rb ''empty command'')
      | a # _ \<Rightarrow>
         (case expr_as_bytes a of
            None \<Rightarrow> Some (True, conn, sh, send_err rb ''invalid command'')
          | Some cmd_name \<Rightarrow>
             (let upper = ascii_upper cmd_name in
              case from_utf8 upper of
                None \<Rightarrow> Some (True, conn, sh, send_err rb ''invalid command encoding'')
              | Some upper_str \<Rightarrow>
                  if upper_str = ''QUIT'' then Some (False, conn, sh, send_ok rb)
                  else
                    (case reg upper_str of
                       None \<Rightarrow> Some (True, conn, sh,
                         send_err rb (''unknown command '' @ [CHR 0x27] @ to_lowercase upper_str @ [CHR 0x27]
                           @ '', with args beginning with: ''))
                     | Some entry \<Rightarrow>
                         if \<not> arity_ok (ce_arity entry) as then Some (True, conn, sh,
                           send_err rb (''wrong number of arguments for '' @ [CHR 0x27] @ to_lowercase upper_str
                             @ [CHR 0x27] @ '' command''))
                         else
                           (case ce_handler entry
                              \<lparr>cc_args = as, cc_conn = conn, cc_shard = bump_commands sh, cc_reply = rb\<rparr> of
                              None \<Rightarrow> None
                            | Some ctx \<Rightarrow> Some (True, cc_conn ctx, cc_shard ctx, cc_reply ctx))))))"

subsection \<open>Every command answers with one reply\<close>

text \<open>
  A RESP2 value as bytes. Simple strings and errors are lines without CR and LF; the length of
  a bulk string is printed as the \<^verbatim>\<open>i64\<close> the encoder converts it to.
\<close>

definition one_line :: "bytes \<Rightarrow> bool" where
  "one_line m \<longleftrightarrow> CHR 0x0D \<notin> set m \<and> CHR 0x0A \<notin> set m"

inductive resp_value :: "bytes \<Rightarrow> bool" where
  Simple: "one_line m \<Longrightarrow> resp_value (''+'' @ m @ CRLF)"
| Error: "one_line m \<Longrightarrow> resp_value (''-'' @ m @ CRLF)"
| Integer: "resp_value ('':'' @ i64_to_string n @ CRLF)"
| Bulk: "resp_value (''$'' @ i64_to_string (of_nat (length d)) @ CRLF @ d @ CRLF)"
| Null: "resp_value (''$-1'' @ CRLF)"
| Null_Array: "resp_value (''*-1'' @ CRLF)"
| Array: "\<forall>r \<in> set rs. resp_value r \<Longrightarrow>
    resp_value (''*'' @ i64_to_string (of_nat (length rs)) @ CRLF @ concat rs)"

text \<open>A reply function that appends values to the buffer, \<open>n\<close> of them, and keeps the printer.\<close>

definition appends :: "nat \<Rightarrow> (reply_builder \<Rightarrow> reply_builder) \<Rightarrow> bool" where
  "appends n f \<longleftrightarrow> (\<forall>rb. itoa_ok (itoa rb) \<longrightarrow> itoa (f rb) = itoa rb \<and>
     (\<exists>rs. length rs = n \<and> (\<forall>r \<in> set rs. resp_value r) \<and> buf (f rb) = buf rb @ concat rs))"

text \<open>A handler that, when it returns, has appended \<open>n\<close> values to the reply.\<close>

definition answers :: "nat \<Rightarrow> handler \<Rightarrow> bool" where
  "answers n h \<longleftrightarrow> (\<forall>ctx ctx'. h ctx = Some ctx' \<longrightarrow> itoa_ok (itoa (cc_reply ctx)) \<longrightarrow>
     itoa (cc_reply ctx') = itoa (cc_reply ctx) \<and>
     (\<exists>rs. length rs = n \<and> (\<forall>r \<in> set rs. resp_value r) \<and> buf (cc_reply ctx') = buf (cc_reply ctx) @ concat rs))"

named_theorems answers_intros \<open>how many values a handler appends\<close>

lemma appendsI:
  assumes "\<And>rb. itoa_ok (itoa rb) \<Longrightarrow> itoa (f rb) = itoa rb \<and> (\<exists>r. resp_value r \<and> buf (f rb) = buf rb @ r)"
  shows "appends (Suc 0) f"
  unfolding appends_def
proof (intro allI impI conjI)
  fix rb :: reply_builder assume ok: "itoa_ok (itoa rb)"
  show "itoa (f rb) = itoa rb" using assms [OF ok] by blast
  obtain r where "resp_value r" "buf (f rb) = buf rb @ r" using assms [OF ok] by blast
  then show "\<exists>rs. length rs = Suc 0 \<and> (\<forall>r \<in> set rs. resp_value r) \<and> buf (f rb) = buf rb @ concat rs"
    by (intro exI [of _ "[r]"]) simp
qed

lemma one_line_consts [simp]: "one_line []" "one_line (c # m) \<longleftrightarrow> c \<noteq> CHR 0x0D \<and> c \<noteq> CHR 0x0A \<and> one_line m"
  by (auto simp: one_line_def)

lemma one_line_ERR_INT [simp]: "one_line ERR_INT"
  by (simp add: ERR_INT_def)

lemma appends_line [answers_intros]:
  "appends (Suc 0) send_ok" "appends (Suc 0) send_pong" "appends (Suc 0) send_null" "appends (Suc 0) send_null_array"
  using resp_value.Simple [of "''OK''"] resp_value.Simple [of "''PONG''"] resp_value.Null resp_value.Null_Array
  by (auto intro!: appendsI simp: send_fixed_buf)

lemma appends_simple: "one_line m \<Longrightarrow> appends (Suc 0) (\<lambda>rb. send_simple_string rb m)"
  using resp_value.Simple [of m] by (auto intro!: appendsI exI simp: send_fixed_buf)

lemma appends_err: "one_line m \<Longrightarrow> appends (Suc 0) (\<lambda>rb. send_err rb m)"
  using resp_value.Error [of "''ERR '' @ m"] by (auto intro!: appendsI exI simp: send_fixed_buf)

lemma appends_wrong_type: "appends (Suc 0) (\<lambda>rb. send_wrong_type rb [])"
  using resp_value.Error [of "''WRONGTYPE Operation against a key holding the wrong kind of value''"]
  by (auto intro!: appendsI exI simp: send_wrong_type_def)

lemma appends_int: "appends (Suc 0) (\<lambda>rb. send_integer rb n)"
  using resp_value.Integer [of n] by (auto intro!: appendsI exI simp: send_integer_buf)

lemma appends_bulk: "appends (Suc 0) (\<lambda>rb. send_bulk_string rb d)"
  using resp_value.Bulk [of d]
  by (auto intro!: appendsI exI simp: send_bulk_string_def write_int_def itoa_ok_def)

lemma appends_id: "appends 0 (\<lambda>rb. rb)"
  by (simp add: appends_def)

lemma appends_comp:
  assumes "appends m f" and "appends n g"
  shows "appends (m + n) (\<lambda>rb. g (f rb))"
  unfolding appends_def
proof (intro allI impI)
  fix rb :: reply_builder assume ok: "itoa_ok (itoa rb)"
  obtain rs where rs: "itoa (f rb) = itoa rb" "length rs = m" "\<forall>r \<in> set rs. resp_value r" "buf (f rb) = buf rb @ concat rs"
    using assms(1) ok unfolding appends_def by blast
  obtain ss where ss: "itoa (g (f rb)) = itoa rb" "length ss = n" "\<forall>r \<in> set ss. resp_value r" "buf (g (f rb)) = buf (f rb) @ concat ss"
    using assms(2) [unfolded appends_def, rule_format, of "f rb"] ok rs(1) by auto
  show "itoa (g (f rb)) = itoa rb \<and> (\<exists>rs. length rs = m + n \<and> (\<forall>r \<in> set rs. resp_value r) \<and> buf (g (f rb)) = buf rb @ concat rs)"
    using rs ss by (intro conjI exI [of _ "rs @ ss"]) auto
qed

lemma appends_foldl:
  assumes "\<And>d. appends (Suc 0) (\<lambda>rb. f rb d)"
  shows "appends (length ds) (\<lambda>rb. foldl f rb ds)"
proof (induction ds)
  case (Cons d ds)
  show ?case using appends_comp [OF assms [of d] Cons.IH] by simp
qed (simp add: appends_id)

lemma appends_array:
  assumes "appends n f"
  shows "appends (Suc 0) (\<lambda>rb. f (send_array_len rb n))"
proof (rule appendsI)
  fix rb :: reply_builder assume ok: "itoa_ok (itoa rb)"
  obtain rs where rs: "itoa (f (send_array_len rb n)) = itoa rb" "length rs = n" "\<forall>r \<in> set rs. resp_value r"
      "buf (f (send_array_len rb n)) = buf (send_array_len rb n) @ concat rs"
    using assms [unfolded appends_def, rule_format, of "send_array_len rb n"] ok by auto
  show "itoa (f (send_array_len rb n)) = itoa rb \<and> (\<exists>r. resp_value r \<and> buf (f (send_array_len rb n)) = buf rb @ r)"
    using rs resp_value.Array [OF rs(3)] ok
    by (auto simp: send_array_len_def write_int_def itoa_ok_def)
qed

lemma answers_rep: "appends n f \<Longrightarrow> answers n (rep f)"
  by (auto simp: answers_def appends_def rep_def)

lemma answers_rep_rules [answers_intros]:
  "answers (Suc 0) (rep send_ok)" "answers (Suc 0) (rep send_pong)" "answers (Suc 0) (rep send_null)"
  "answers (Suc 0) (rep_int n)" "answers (Suc 0) (rep_bulk d)" "answers (Suc 0) rep_wrong_type"
  by (auto simp: rep_int_def rep_bulk_def rep_wrong_type_def
      intro!: answers_rep answers_intros appends_int appends_bulk appends_wrong_type)

lemma answers_err [answers_intros]: "one_line m \<Longrightarrow> answers (Suc 0) (rep_err m)"
  by (simp add: rep_err_def answers_rep appends_err)

text \<open>
  The same for a result: \<open>answered n ctx r\<close> says that the result \<open>r\<close> of a handler that was started
  in \<open>ctx\<close> has \<open>n\<close> values more in its reply.
\<close>

definition answered :: "nat \<Rightarrow> command_context \<Rightarrow> command_context option \<Rightarrow> bool" where
  "answered n ctx r \<longleftrightarrow> (\<forall>ctx'. r = Some ctx' \<longrightarrow> itoa_ok (itoa (cc_reply ctx)) \<longrightarrow>
     itoa (cc_reply ctx') = itoa (cc_reply ctx) \<and>
     (\<exists>rs. length rs = n \<and> (\<forall>r \<in> set rs. resp_value r) \<and> buf (cc_reply ctx') = buf (cc_reply ctx) @ concat rs))"

lemma answers_iff: "answers n h \<longleftrightarrow> (\<forall>ctx. answered n ctx (h ctx))"
  by (auto simp: answers_def answered_def)

lemma answered_handler: "answers n h \<Longrightarrow> cc_reply ctx1 = cc_reply ctx \<Longrightarrow> answered n ctx (h ctx1)"
  unfolding answers_def answered_def by metis

lemma answered_None: "answered n ctx None"
  by (simp add: answered_def)

lemma reply_set_slice [simp]: "cc_reply (set_slice ds ctx) = cc_reply ctx" "cc_args (set_slice ds ctx) = cc_args ctx"
  "cc_conn (set_slice ds ctx) = cc_conn ctx" "slice (set_slice ds ctx) = ds" "ctx_db (set_slice ds ctx) = ctx_db ctx"
  by (simp_all add: set_slice_def slice_def ctx_db_def)

lemma answered_on_slice:
  assumes "\<And>a ctx2. cc_reply ctx2 = cc_reply ctx \<Longrightarrow> answered n ctx (k a ctx2)" and "cc_reply ctx1 = cc_reply ctx"
  shows "answered n ctx (on_slice ctx1 f k)"
  using assms by (auto simp: on_slice_def answered_None split: option.splits)

lemma answered_bind_opt: "(\<And>a. answered n ctx (k a)) \<Longrightarrow> answered n ctx (Option.bind r k)"
  by (cases r) (simp_all add: answered_None)

lemma answered_with_arg: "(\<And>a. answered n ctx (k a)) \<Longrightarrow> answered n ctx (with_arg ctx1 i k)"
  by (simp add: with_arg_def answered_bind_opt)

lemma answered_find_string:
  assumes "\<And>v ctx2. cc_reply ctx2 = cc_reply ctx \<Longrightarrow> answered (Suc 0) ctx (k v ctx2)" and "cc_reply ctx1 = cc_reply ctx"
  shows "answered (Suc 0) ctx (find_string ctx1 key k)"
  unfolding find_string_def using assms
  by (auto intro!: answered_on_slice split: option.splits simp: answered_handler answers_rep_rules)

lemma answered_then:
  assumes "answered m ctx r" and "answers n h"
  shows "answered (m + n) ctx (Option.bind r h)"
  unfolding answered_def
proof (intro allI impI)
  fix ctx' assume r: "Option.bind r h = Some ctx'" and ok: "itoa_ok (itoa (cc_reply ctx))"
  obtain ctx1 where c1: "r = Some ctx1" "h ctx1 = Some ctx'" using r by (cases r) auto
  obtain rs where rs: "itoa (cc_reply ctx1) = itoa (cc_reply ctx)" "length rs = m" "\<forall>r \<in> set rs. resp_value r"
      "buf (cc_reply ctx1) = buf (cc_reply ctx) @ concat rs"
    using assms(1) c1(1) ok unfolding answered_def by blast
  obtain ss where ss: "itoa (cc_reply ctx') = itoa (cc_reply ctx1)" "length ss = n" "\<forall>r \<in> set ss. resp_value r"
      "buf (cc_reply ctx') = buf (cc_reply ctx1) @ concat ss"
    using assms(2) c1(2) ok rs(1) unfolding answers_def by metis
  show "itoa (cc_reply ctx') = itoa (cc_reply ctx) \<and>
     (\<exists>rs. length rs = m + n \<and> (\<forall>r \<in> set rs. resp_value r) \<and> buf (cc_reply ctx') = buf (cc_reply ctx) @ concat rs)"
    using rs ss by (intro conjI exI [of _ "rs @ ss"]) auto
qed

lemmas answered_leaf = answers_rep_rules [THEN answered_handler] answers_err [THEN answered_handler]

lemmas answered_rules = answered_with_arg answered_find_string answered_on_slice answered_bind_opt answered_None
  answered_leaf

lemma answers_array:
  assumes "answers n h"
  shows "answers (Suc 0) (\<lambda>ctx. Option.bind (rep (\<lambda>rb. send_array_len rb n) ctx) h)"
  unfolding answers_def
proof (intro allI impI)
  fix ctx ctx'
  assume h: "Option.bind (rep (\<lambda>rb. send_array_len rb n) ctx) h = Some ctx'" and ok: "itoa_ok (itoa (cc_reply ctx))"
  let ?c = "ctx\<lparr>cc_reply := send_array_len (cc_reply ctx) n\<rparr>"
  obtain rs where rs: "itoa (cc_reply ctx') = itoa (cc_reply ctx)" "length rs = n" "\<forall>r \<in> set rs. resp_value r"
      "buf (cc_reply ctx') = buf (send_array_len (cc_reply ctx) n) @ concat rs"
    using assms [unfolded answers_def, rule_format, of ?c ctx'] h ok by (auto simp: rep_def)
  show "itoa (cc_reply ctx') = itoa (cc_reply ctx) \<and>
     (\<exists>rs. length rs = Suc 0 \<and> (\<forall>r \<in> set rs. resp_value r) \<and> buf (cc_reply ctx') = buf (cc_reply ctx) @ concat rs)"
    using rs resp_value.Array [OF rs(3)] ok
    by (intro conjI exI [of _ "[''*'' @ i64_to_string (of_nat (length rs)) @ CRLF @ concat rs]"])
       (auto simp: send_array_len_def write_int_def itoa_ok_def)
qed

lemma answered_silent:
  assumes "\<And>ctx2. r = Some ctx2 \<Longrightarrow> cc_reply ctx2 = cc_reply ctx" and "answers n h"
  shows "answered n ctx (Option.bind r h)"
  using assms by (cases r) (auto intro: answered_None answered_handler)

end
