(* ===== verification/Handler_Kit.thy ===== *)
theory Handler_Kit
  imports Command_Registry
begin

text \<open>
  The shapes that the command families repeat: replies with several parts, a lookup that
  distinguishes a missing key, the expected type and another type, an update through the reference
  of \<^verbatim>\<open>find_mut\<close>, and the deletion of a container that has become empty. Each comes with the rule that
  counts the values it leaves in the reply buffer.
\<close>

definition rep_array_len :: "nat \<Rightarrow> handler" where
  "rep_array_len n = rep (\<lambda>rb. send_array_len rb n)"

definition rep_simple :: "bytes \<Rightarrow> handler" where
  "rep_simple s = rep (\<lambda>rb. send_simple_string rb s)"

definition rep_bulks :: "bytes list \<Rightarrow> handler" where
  "rep_bulks ks = rep (\<lambda>rb. foldl send_bulk_string rb ks)"

text \<open>A bulk string, or null where there is none.\<close>

definition send_opt :: "reply_builder \<Rightarrow> bytes option \<Rightarrow> reply_builder" where
  "send_opt rb d = (case d of Some v \<Rightarrow> send_bulk_string rb v | None \<Rightarrow> send_null rb)"

definition rep_opt :: "bytes option \<Rightarrow> handler" where
  "rep_opt d = rep (\<lambda>rb. send_opt rb d)"

text \<open>An array whose length is announced and whose elements are then sent one by one.\<close>

definition rep_array :: "bytes list \<Rightarrow> handler" where
  "rep_array ds ctx = Option.bind (rep_array_len (length ds) ctx) (rep_bulks ds)"

definition rep_opt_array :: "bytes option list \<Rightarrow> handler" where
  "rep_opt_array ds ctx = Option.bind (rep_array_len (length ds) ctx) (rep (\<lambda>rb. foldl send_opt rb ds))"

definition rep_int_array :: "i64 list \<Rightarrow> handler" where
  "rep_int_array ns ctx = Option.bind (rep_array_len (length ns) ctx) (rep (\<lambda>rb. foldl send_integer rb ns))"

text \<open>\<^verbatim>\<open>(i..ctx.args.len()).map(|j| arg(&ctx, j)).collect()\<close>.\<close>

definition args_from :: "command_context \<Rightarrow> nat \<Rightarrow> bytes list option" where
  "args_from ctx i = collect_args ctx [i..<length (cc_args ctx)]"

text \<open>The pairs \<open>(args[2], args[3]), (args[4], args[5]), ..\<close>.\<close>

definition pairs_of :: "'a list \<Rightarrow> ('a \<times> 'a) list" where
  "pairs_of as = map (\<lambda>j. (as ! (2 * j), as ! (2 * j + 1))) [0..<length as div 2]"

text \<open>
  \<^verbatim>\<open>match find(db, key)\<close>: \<open>sel\<close> recognises the expected type, any other gets the type error.
\<close>

definition read_value ::
  "bytes \<Rightarrow> (prime_value \<Rightarrow> 'a option) \<Rightarrow> ('a \<Rightarrow> handler) \<Rightarrow> handler \<Rightarrow> handler" where
  "read_value key sel found absent ctx =
     on_slice ctx (\<lambda>ds. ds_find ds (ctx_db ctx) key) (\<lambda>r ctx1.
       case r of
         Some fr \<Rightarrow> (case sel (fr_value fr) of Some a \<Rightarrow> found a ctx1 | None \<Rightarrow> rep_wrong_type ctx1)
       | None \<Rightarrow> absent ctx1)"

text \<open>
  \<^verbatim>\<open>match find_mut(db, key)\<close>: \<open>f\<close> edits a value of the expected type in place and computes what the
  rest of the handler needs; it returns \<open>None\<close> for another type, which stays as it is.
\<close>

definition edit_value ::
  "bytes \<Rightarrow> (prime_value \<Rightarrow> ('a \<times> prime_value) option) \<Rightarrow> ('a \<Rightarrow> handler) \<Rightarrow> handler \<Rightarrow> handler" where
  "edit_value key f found absent ctx =
     on_slice ctx (\<lambda>ds. ds_find_mut ds (ctx_db ctx) key
         (\<lambda>fr. case f (fr_value fr) of Some (a, v) \<Rightarrow> (v, Some a) | None \<Rightarrow> (fr_value fr, None)))
       (\<lambda>r ctx1. case r of
          Some (Some a) \<Rightarrow> found a ctx1
        | Some None \<Rightarrow> rep_wrong_type ctx1
        | None \<Rightarrow> absent ctx1)"

text \<open>The same where a missing key is created with the value \<open>snd fresh\<close>.\<close>

definition upsert ::
  "bytes \<Rightarrow> (prime_value \<Rightarrow> ('a \<times> prime_value) option) \<Rightarrow> 'a \<times> prime_value \<Rightarrow> ('a \<Rightarrow> handler) \<Rightarrow> handler" where
  "upsert key f fresh k ctx =
     edit_value key f k (\<lambda>ctx1.
       on_slice ctx1 (\<lambda>ds. add_or_update ds (ctx_db ctx1) key (snd fresh)) (\<lambda>_ ctx2. k (fst fresh) ctx2)) ctx"

text \<open>\<^verbatim>\<open>if c.is_empty() { ctx.shard.db_slice.del(db, &key); }\<close>.\<close>

definition drop_if :: "bool \<Rightarrow> bytes \<Rightarrow> handler" where
  "drop_if b key ctx =
     (if b then on_slice ctx (\<lambda>ds. ds_del ds (ctx_db ctx) key) (\<lambda>_ ctx1. Some ctx1) else Some ctx)"

text \<open>The registration loop of the families whose commands all have one key in first place.\<close>

fun keyed_entry :: "bytes \<times> handler \<times> int \<Rightarrow> command_entry" where
  "keyed_entry (name, h, arity) =
     \<lparr>ce_name = name, ce_handler = h, ce_arity = arity, ce_first_key = 1, ce_last_key = 1, ce_key_step = 1\<rparr>"

definition register_all :: "registry \<Rightarrow> (bytes \<times> handler \<times> int) list \<Rightarrow> registry" where
  "register_all reg cmds = foldl (\<lambda>r c. register r (keyed_entry c)) reg cmds"

lemma foldl_register:
  "foldl (\<lambda>r c. register r (mk c)) reg cmds name = Some e \<Longrightarrow>
    (\<exists>c \<in> set cmds. ce_name (mk c) = name \<and> e = mk c) \<or> reg name = Some e"
proof (induction cmds arbitrary: reg)
  case (Cons c cmds)
  from Cons.IH [of "register reg (mk c)"] Cons.prems show ?case by (auto simp: register_def split: if_splits)
qed simp

lemma register_all_lookup:
  assumes "register_all reg cmds name = Some e"
  shows "(\<exists>h a. (name, h, a) \<in> set cmds \<and> ce_handler e = h \<and> ce_arity e = a \<and> ce_first_key e = 1) \<or> reg name = Some e"
  using foldl_register [OF assms [unfolded register_all_def]] by force

subsection \<open>Counting replies\<close>

lemma appends_opt: "appends (Suc 0) (\<lambda>rb. send_opt rb d)"
  by (cases d) (simp_all add: send_opt_def appends_bulk appends_line)

lemma answers_simple: "one_line s \<Longrightarrow> answers (Suc 0) (rep_simple s)"
  by (simp add: rep_simple_def answers_rep appends_simple)

lemma answers_opt: "answers (Suc 0) (rep_opt d)"
  unfolding rep_opt_def by (intro answers_rep appends_opt)

lemma answers_empty_array: "answers (Suc 0) (rep_array_len 0)"
  unfolding rep_array_len_def by (intro answers_rep appends_array appends_id)

lemma answers_foldl_array:
  assumes "\<And>d. appends (Suc 0) (\<lambda>rb. f rb d)"
  shows "answers (Suc 0) (\<lambda>ctx. Option.bind (rep_array_len (length ds) ctx) (rep (\<lambda>rb. foldl f rb ds)))"
  unfolding rep_array_len_def by (intro answers_array answers_rep appends_foldl assms)

lemma answers_rep_array: "answers (Suc 0) (rep_array ds)" "answers (Suc 0) (rep_opt_array os)"
  "answers (Suc 0) (rep_int_array ns)"
  unfolding rep_array_def [abs_def] rep_opt_array_def [abs_def] rep_int_array_def [abs_def] rep_bulks_def
  by (intro answers_foldl_array appends_bulk appends_opt appends_int)+

lemma answers_drop_if: "answers 0 (drop_if b key)"
  by (auto simp: answers_def drop_if_def on_slice_def split: option.splits if_splits)

lemma answered_drop_first:
  assumes "answers n h" and "cc_reply ctx1 = cc_reply ctx"
  shows "answered n ctx (Option.bind (drop_if b key ctx1) h)"
proof (rule answered_silent [OF _ assms(1)])
  show "cc_reply ctx2 = cc_reply ctx" if "drop_if b key ctx1 = Some ctx2" for ctx2
    using that assms(2) by (auto simp: drop_if_def on_slice_def split: if_splits option.splits)
qed

lemma answered_drop_last:
  assumes "answers (Suc 0) h" and "cc_reply ctx1 = cc_reply ctx"
  shows "answered (Suc 0) ctx (Option.bind (h ctx1) (drop_if b key))"
  using answered_then [OF answered_handler [OF assms] answers_drop_if] by simp

lemma answered_read_value:
  assumes "\<And>a. answers (Suc 0) (found a)" and "answers (Suc 0) absent" and "cc_reply ctx1 = cc_reply ctx"
  shows "answered (Suc 0) ctx (read_value key sel found absent ctx1)"
  unfolding read_value_def using assms
  by (auto intro!: answered_on_slice answers_rep_rules(6) [THEN answered_handler] assms(1,2) [THEN answered_handler]
      split: option.splits)

lemma answered_edit_value:
  assumes "\<And>a. answers (Suc 0) (found a)" and "answers (Suc 0) absent" and "cc_reply ctx1 = cc_reply ctx"
  shows "answered (Suc 0) ctx (edit_value key f found absent ctx1)"
  unfolding edit_value_def using assms
  by (auto intro!: answered_on_slice answers_rep_rules(6) [THEN answered_handler] assms(1,2) [THEN answered_handler]
      split: option.splits)

lemma answered_upsert:
  assumes "\<And>a. answers (Suc 0) (k a)" and "cc_reply ctx1 = cc_reply ctx"
  shows "answered (Suc 0) ctx (upsert key f fresh k ctx1)"
  unfolding upsert_def using assms
  by (auto simp: answers_iff intro!: answered_edit_value answered_on_slice assms(1) [THEN answered_handler])

lemmas kit_answers = answers_rep_array answers_empty_array answers_opt answers_rep_rules answers_err
lemmas kit_answered = answered_with_arg answered_bind_opt answered_read_value answered_edit_value answered_upsert
  kit_answers [THEN answered_handler]

end
