(* ===== verification/Rust_Float.thy ===== *)
theory Rust_Float
  imports Rust_Std
begin

text \<open>
  Rust's \<^verbatim>\<open>f64\<close> as IEEE 754 binary64 bit patterns: classification, the partial order, addition with
  rounding to nearest even, and the casts from and to \<^verbatim>\<open>i64\<close>. Every NaN is produced as the quiet NaN.

  Finite numbers are handled as integers in units of \<open>2 ^ -1074\<close>, the smallest positive number, so
  sums are exact before they are rounded. The conversions from and to decimal text are the record
  \<open>float_text\<close>, a parameter of the definitions that parse or print a number.
\<close>

record float_text =
  f_parse :: "bytes \<Rightarrow> f64 option"
  f_show :: "f64 \<Rightarrow> bytes"
  f_show17 :: "f64 \<Rightarrow> bytes"

definition f_neg :: "f64 \<Rightarrow> bool" where
  "f_neg f = bit f 63"

definition f_exp :: "f64 \<Rightarrow> int" where
  "f_exp f = uint (take_bit 11 (drop_bit 52 f))"

definition f_mant :: "f64 \<Rightarrow> int" where
  "f_mant f = uint (take_bit 52 f)"

definition is_finite :: "f64 \<Rightarrow> bool" where
  "is_finite f \<longleftrightarrow> f_exp f \<noteq> 0x7FF"

definition is_nan :: "f64 \<Rightarrow> bool" where
  "is_nan f \<longleftrightarrow> f_exp f = 0x7FF \<and> f_mant f \<noteq> 0"

definition F_NAN :: f64 where "F_NAN = 0x7FF8000000000000"

definition F_INFINITY :: f64 where "F_INFINITY = 0x7FF0000000000000"

definition F_NEG_INFINITY :: f64 where "F_NEG_INFINITY = 0xFFF0000000000000"

text \<open>Magnitudes of numbers are ordered as their bit patterns; both zeros have key 0.\<close>

definition f_key :: "f64 \<Rightarrow> int" where
  "f_key f = (let m = uint (take_bit 63 f) in if f_neg f then - m else m)"

datatype ordering = Less | Equal | Greater

definition cmp_int :: "int \<Rightarrow> int \<Rightarrow> ordering" where
  "cmp_int a b = (if a < b then Less else if a = b then Equal else Greater)"

definition f_partial_cmp :: "f64 \<Rightarrow> f64 \<Rightarrow> ordering option" where
  "f_partial_cmp a b = (if is_nan a \<or> is_nan b then None else Some (cmp_int (f_key a) (f_key b)))"

definition f_eq :: "f64 \<Rightarrow> f64 \<Rightarrow> bool" where
  "f_eq a b \<longleftrightarrow> f_partial_cmp a b = Some Equal"

definition f_le :: "f64 \<Rightarrow> f64 \<Rightarrow> bool" where
  "f_le a b \<longleftrightarrow> f_partial_cmp a b = Some Less \<or> f_partial_cmp a b = Some Equal"

subsection \<open>Arithmetic\<close>

definition f_scaled :: "f64 \<Rightarrow> int" where
  "f_scaled f =
     (let m = (if f_exp f = 0 then f_mant f else (2 ^ 52 + f_mant f) * 2 ^ nat (f_exp f - 1))
      in if f_neg f then - m else m)"

function bit_len :: "int \<Rightarrow> nat" where
  "bit_len n = (if n \<le> 0 then 0 else Suc (bit_len (n div 2)))"
  by pat_completeness auto
termination by (relation "measure nat") auto

declare bit_len.simps [simp del]

text \<open>The magnitude of \<open>n\<close> units as a bit pattern, rounded to nearest, ties to even.\<close>

definition round_mag :: "int \<Rightarrow> int" where
  "round_mag n =
     (if n < 2 ^ 53 then n
      else
        (let k = bit_len n - 53; q = n div 2 ^ k; r = n mod 2 ^ k;
             q' = (if 2 * r > 2 ^ k \<or> (2 * r = 2 ^ k \<and> odd q) then q + 1 else q)
         in min (int k * 2 ^ 52 + q') (0x7FF * 2 ^ 52)))"

definition f_round :: "bool \<Rightarrow> int \<Rightarrow> f64" where
  "f_round neg_zero s =
     (let m = word_of_int (round_mag \<bar>s\<bar>) in
      if s < 0 \<or> (s = 0 \<and> neg_zero) then m + 2 ^ 63 else m)"

definition f_add :: "f64 \<Rightarrow> f64 \<Rightarrow> f64" where
  "f_add a b =
     (if is_nan a \<or> is_nan b then F_NAN
      else if \<not> is_finite a then (if \<not> is_finite b \<and> f_neg a \<noteq> f_neg b then F_NAN else a)
      else if \<not> is_finite b then b
      else f_round (f_neg a \<and> f_neg b) (f_scaled a + f_scaled b))"

text \<open>\<^verbatim>\<open>n as f64\<close>, and \<^verbatim>\<open>f as i64\<close>, which truncates and saturates and maps NaN to 0.\<close>

definition f_of_i64 :: "i64 \<Rightarrow> f64" where
  "f_of_i64 n = f_round False (sint n * 2 ^ 1074)"

definition f_trunc :: "f64 \<Rightarrow> int" where
  "f_trunc f = sgn (f_scaled f) * (\<bar>f_scaled f\<bar> div 2 ^ 1074)"

definition f_to_i64 :: "f64 \<Rightarrow> i64" where
  "f_to_i64 f =
     (if is_nan f then 0
      else if \<not> is_finite f then (if f_neg f then word_of_int (- (2 ^ 63)) else word_of_int (2 ^ 63 - 1))
      else word_of_int (max (- (2 ^ 63)) (min (2 ^ 63 - 1) (f_trunc f))))"

end
