(* ===== verification/String_Family.thy ===== *)
theory String_Family
  imports Handler_Kit Rust_Float
begin

text \<open>
  \<^verbatim>\<open>crates/shrikedb-server/src/commands/string_family.rs\<close>: the string commands, one definition per
  handler. The conversions of floating point numbers from and to decimal text, used by INCRBYFLOAT
  only, are the parameter \<open>float_text\<close>.
\<close>

definition cmd_get :: handler where
  "cmd_get ctx = with_arg ctx 1 (\<lambda>key. find_string ctx key (\<lambda>v ctx1.
     case v of Some d \<Rightarrow> rep_bulk d ctx1 | None \<Rightarrow> rep send_null ctx1))"

subsection \<open>SET\<close>

record set_opts =
  so_nx :: bool
  so_xx :: bool
  so_get :: bool
  so_keep_ttl :: bool
  so_expire :: "u64 option"
  so_absolute :: bool

definition set_opts_new :: set_opts where
  "set_opts_new = \<lparr>so_nx = False, so_xx = False, so_get = False, so_keep_ttl = False,
     so_expire = None, so_absolute = False\<rparr>"

text \<open>The unit of an expiry option: its multiplier and whether it is absolute.\<close>

definition expire_unit :: "bytes \<Rightarrow> (u64 \<times> bool) option" where
  "expire_unit w =
     (if w = ''EX'' then Some (1000, False) else if w = ''PX'' then Some (1, False)
      else if w = ''EXAT'' then Some (1000, True) else if w = ''PXAT'' then Some (1, True) else None)"

function set_options :: "command_context \<Rightarrow> nat \<Rightarrow> set_opts \<Rightarrow> bytes + set_opts" where
  "set_options ctx i so =
     (if i < length (cc_args ctx) then
        (let w = arg_word ctx i in
         if w = ''NX'' then set_options ctx (i + 1) (so\<lparr>so_nx := True\<rparr>)
         else if w = ''XX'' then set_options ctx (i + 1) (so\<lparr>so_xx := True\<rparr>)
         else if w = ''GET'' then set_options ctx (i + 1) (so\<lparr>so_get := True\<rparr>)
         else if w = ''KEEPTTL'' then set_options ctx (i + 1) (so\<lparr>so_keep_ttl := True\<rparr>)
         else
           (case expire_unit w of
              Some (scale, absolute) \<Rightarrow>
                (case arg_positive_int ctx (i + 1) of
                   Some n \<Rightarrow> set_options ctx (i + 2) (so\<lparr>so_expire := Some (n * scale), so_absolute := absolute\<rparr>)
                 | None \<Rightarrow> Inl ERR_INT)
            | None \<Rightarrow> Inl ''syntax error''))
      else Inr so)"
  by pat_completeness auto
termination by (relation "measure (\<lambda>(ctx, i, so). length (cc_args ctx) - i)") auto

declare set_options.simps [simp del]

definition rep_old :: "bytes option \<Rightarrow> handler" where
  "rep_old old = (case old of Some v \<Rightarrow> rep_bulk v | None \<Rightarrow> rep send_null)"

definition set_expiry :: "u16 \<Rightarrow> bytes \<Rightarrow> set_opts \<Rightarrow> u64 option \<Rightarrow> db_slice \<Rightarrow> (unit \<times> db_slice) option" where
  "set_expiry db key so old_expire ds =
     (case so_expire so of
        Some ms \<Rightarrow> add_expire ds db key (if so_absolute so then ms else now_ms ds + ms)
      | None \<Rightarrow>
         (case old_expire of
            Some deadline \<Rightarrow> add_expire ds db key deadline
          | None \<Rightarrow>
             if \<not> so_keep_ttl so then map_option (\<lambda>(_, ds'). ((), ds')) (remove_expire ds db key)
             else Some ((), ds)))"

definition set_store :: "bytes \<Rightarrow> bytes \<Rightarrow> set_opts \<Rightarrow> bytes option \<Rightarrow> u64 option \<Rightarrow> handler" where
  "set_store key v so old old_expire ctx =
     on_slice ctx (\<lambda>ds. add_or_update ds (ctx_db ctx) key (from_bytes v)) (\<lambda>_ ctx1.
       on_slice ctx1 (set_expiry (ctx_db ctx) key so old_expire) (\<lambda>_ ctx2.
         if so_get so then rep_old old ctx2 else rep send_ok ctx2))"

definition set_checked :: "bytes \<Rightarrow> bytes \<Rightarrow> set_opts \<Rightarrow> bytes option \<Rightarrow> handler" where
  "set_checked key v so old ctx =
     on_slice ctx (\<lambda>ds. ds_exists ds (ctx_db ctx) key) (\<lambda>present ctx1.
       if so_nx so \<and> present then (if so_get so then rep_old old ctx1 else rep send_null ctx1)
       else if so_xx so \<and> \<not> present then rep send_null ctx1
       else if so_keep_ttl so \<and> present then
         on_slice ctx1 (\<lambda>ds. ttl_ms ds (ctx_db ctx) key) (\<lambda>t ctx2.
           set_store key v so old
             (case t of Expires ms \<Rightarrow> Some (now_ms (slice ctx2) + ms) | _ \<Rightarrow> None) ctx2)
       else set_store key v so old None ctx1)"

definition cmd_set :: handler where
  "cmd_set ctx =
     with_arg ctx 1 (\<lambda>key. with_arg ctx 2 (\<lambda>v.
       case set_options ctx 3 set_opts_new of
         Inl msg \<Rightarrow> rep_err msg ctx
       | Inr so \<Rightarrow>
           if so_nx so \<and> so_xx so
           then rep_err ''XX and NX options at the same time are not compatible'' ctx
           else if so_get so then find_string ctx key (\<lambda>old ctx1. set_checked key v so old ctx1)
           else set_checked key v so None ctx))"

definition cmd_setnx :: handler where
  "cmd_setnx ctx =
     with_arg ctx 1 (\<lambda>key. with_arg ctx 2 (\<lambda>v.
       on_slice ctx (\<lambda>ds. add_if_absent ds (ctx_db ctx) key (from_bytes v)) (\<lambda>added ctx1.
         rep_int (if added then 1 else 0) ctx1)))"

text \<open>The common part of SETEX and PSETEX.\<close>

definition set_with_ttl :: "u64 \<Rightarrow> handler" where
  "set_with_ttl scale ctx =
     with_arg ctx 1 (\<lambda>key.
       case arg_positive_int ctx 2 of
         None \<Rightarrow> rep_err ERR_INT ctx
       | Some n \<Rightarrow>
           with_arg ctx 3 (\<lambda>v.
             on_slice ctx (\<lambda>ds. add_or_update ds (ctx_db ctx) key (from_bytes v)) (\<lambda>_ ctx1.
               on_slice ctx1 (\<lambda>ds. add_expire ds (ctx_db ctx) key (now_ms ds + n * scale)) (\<lambda>_ ctx2.
                 rep send_ok ctx2))))"

definition cmd_setex :: handler where
  "cmd_setex = set_with_ttl 1000"

definition cmd_psetex :: handler where
  "cmd_psetex = set_with_ttl 1"

subsection \<open>Several ks\<close>

fun mget_loop :: "bytes list \<Rightarrow> handler" where
  "mget_loop [] ctx = Some ctx"
| "mget_loop (key # ks) ctx =
     on_slice ctx (\<lambda>ds. ds_find ds (ctx_db ctx) key) (\<lambda>r ctx1.
       Option.bind
         (case r of
            Some fr \<Rightarrow> if is_string (fr_value fr) then rep_bulk (value_as_bytes (fr_value fr)) ctx1
                       else rep send_null ctx1
          | None \<Rightarrow> rep send_null ctx1)
         (mget_loop ks))"

definition cmd_mget :: handler where
  "cmd_mget ctx =
     Option.bind (key_args ctx) (\<lambda>ks.
       Option.bind (rep (\<lambda>rb. send_array_len rb (length ks)) ctx) (mget_loop ks))"

definition key_value_args :: "command_context \<Rightarrow> (bytes \<times> bytes) list option" where
  "key_value_args ctx =
     map_option (\<lambda>as. map (\<lambda>j. (as ! (2 * j), as ! (2 * j + 1))) [0..<length as div 2]) (key_args ctx)"

fun mset_loop :: "bool \<Rightarrow> (bytes \<times> bytes) list \<Rightarrow> handler" where
  "mset_loop clear_ttl [] ctx = Some ctx"
| "mset_loop clear_ttl ((key, v) # kvs) ctx =
     on_slice ctx (\<lambda>ds. add_or_update ds (ctx_db ctx) key (from_bytes v)) (\<lambda>_ ctx1.
       if clear_ttl
       then on_slice ctx1 (\<lambda>ds. remove_expire ds (ctx_db ctx) key) (\<lambda>_ ctx2. mset_loop clear_ttl kvs ctx2)
       else mset_loop clear_ttl kvs ctx1)"

definition cmd_mset :: handler where
  "cmd_mset ctx =
     (if (length (cc_args ctx) - 1) mod 2 \<noteq> 0
      then rep_err (''wrong number of arguments for '' @ [CHR 0x27] @ ''mset'' @ [CHR 0x27] @ '' command'') ctx
      else Option.bind (key_value_args ctx) (\<lambda>kvs. Option.bind (mset_loop True kvs ctx) (rep send_ok)))"

fun any_exists :: "bytes list \<Rightarrow> u16 \<Rightarrow> db_slice \<Rightarrow> (bool \<times> db_slice) option" where
  "any_exists [] db ds = Some (False, ds)"
| "any_exists (key # ks) db ds =
     (case ds_exists ds db key of
        None \<Rightarrow> None
      | Some (True, ds') \<Rightarrow> Some (True, ds')
      | Some (False, ds') \<Rightarrow> any_exists ks db ds')"

definition cmd_msetnx :: handler where
  "cmd_msetnx ctx =
     (if (length (cc_args ctx) - 1) mod 2 \<noteq> 0
      then rep_err (''wrong number of arguments for '' @ [CHR 0x27] @ ''msetnx'' @ [CHR 0x27] @ '' command'') ctx
      else Option.bind (key_value_args ctx) (\<lambda>kvs.
        on_slice ctx (any_exists (map fst kvs) (ctx_db ctx)) (\<lambda>found ctx1.
          if found then rep_int 0 ctx1
          else Option.bind (mset_loop False kvs ctx1) (rep_int 1))))"

subsection \<open>Read and write\<close>

definition cmd_getset :: handler where
  "cmd_getset ctx =
     with_arg ctx 1 (\<lambda>key. with_arg ctx 2 (\<lambda>v.
       find_string ctx key (\<lambda>old ctx1.
         on_slice ctx1 (\<lambda>ds. add_or_update ds (ctx_db ctx) key (from_bytes v)) (\<lambda>_ ctx2.
           on_slice ctx2 (\<lambda>ds. remove_expire ds (ctx_db ctx) key) (\<lambda>_ ctx3. rep_old old ctx3)))))"

definition cmd_getdel :: handler where
  "cmd_getdel ctx =
     with_arg ctx 1 (\<lambda>key. find_string ctx key (\<lambda>v ctx1.
       case v of
         Some d \<Rightarrow> Option.bind (rep_bulk d ctx1) (\<lambda>ctx2.
                    on_slice ctx2 (\<lambda>ds. ds_del ds (ctx_db ctx) key) (\<lambda>_ ctx3. Some ctx3))
       | None \<Rightarrow> rep send_null ctx1))"

definition getex_option :: "bytes \<Rightarrow> bytes \<Rightarrow> handler" where
  "getex_option key d ctx =
     (let w = arg_word ctx 2 in
      case expire_unit w of
        Some (scale, absolute) \<Rightarrow>
          (case arg_positive_int ctx 3 of
             Some n \<Rightarrow>
               on_slice ctx (\<lambda>ds. add_expire ds (ctx_db ctx) key
                   (if absolute then n * scale else now_ms ds + n * scale)) (\<lambda>_ ctx1. rep_bulk d ctx1)
           | None \<Rightarrow> rep_err ERR_INT ctx)
      | None \<Rightarrow>
          if w = ''PERSIST''
          then on_slice ctx (\<lambda>ds. remove_expire ds (ctx_db ctx) key) (\<lambda>_ ctx1. rep_bulk d ctx1)
          else rep_err ''syntax error'' ctx)"

definition cmd_getex :: handler where
  "cmd_getex ctx =
     with_arg ctx 1 (\<lambda>key. find_string ctx key (\<lambda>v ctx1.
       case v of
         None \<Rightarrow> rep send_null ctx1
       | Some d \<Rightarrow> if length (cc_args ctx) > 2 then getex_option key d ctx1 else rep_bulk d ctx1))"

subsection \<open>Numbers\<close>

definition checked_add :: "i64 \<Rightarrow> i64 \<Rightarrow> i64 option" where
  "checked_add a b =
     (let s = sint a + sint b in if - (2 ^ 63) \<le> s \<and> s < 2 ^ 63 then Some (word_of_int s) else None)"

definition incr_store :: "bytes \<Rightarrow> i64 \<Rightarrow> i64 \<Rightarrow> handler" where
  "incr_store key current delta ctx =
     (case checked_add current delta of
        None \<Rightarrow> rep_err ''increment or decrement would overflow'' ctx
      | Some n \<Rightarrow>
          on_slice ctx (\<lambda>ds. add_or_update ds (ctx_db ctx) key (PV_Integer n)) (\<lambda>_ ctx1. rep_int n ctx1))"

definition incr_by :: "i64 \<Rightarrow> handler" where
  "incr_by delta ctx =
     with_arg ctx 1 (\<lambda>key.
       on_slice ctx (\<lambda>ds. ds_find ds (ctx_db ctx) key) (\<lambda>r ctx1.
         case r of
           Some fr \<Rightarrow> (case as_integer (fr_value fr) of
                         Some n \<Rightarrow> incr_store key n delta ctx1
                       | None \<Rightarrow> rep_err ERR_INT ctx1)
         | None \<Rightarrow> incr_store key 0 delta ctx1))"

definition cmd_incr :: handler where
  "cmd_incr = incr_by 1"

definition cmd_decr :: handler where
  "cmd_decr = incr_by (- 1)"

definition cmd_incrby :: handler where
  "cmd_incrby ctx = (case arg_int ctx 2 of Some n \<Rightarrow> incr_by n ctx | None \<Rightarrow> rep_err ERR_INT ctx)"

definition cmd_decrby :: handler where
  "cmd_decrby ctx = (case arg_int ctx 2 of Some n \<Rightarrow> incr_by (- n) ctx | None \<Rightarrow> rep_err ERR_INT ctx)"

definition as_float :: "float_text \<Rightarrow> prime_value \<Rightarrow> f64 option" where
  "as_float fo v =
     (case v of
        PV_Integer n \<Rightarrow> Some (f_of_i64 n)
      | PV_String s \<Rightarrow> Option.bind (from_utf8 s) (\<lambda>t. f_parse fo (trim t))
      | _ \<Rightarrow> None)"

definition trim_end_matches :: "byte \<Rightarrow> bytes \<Rightarrow> bytes" where
  "trim_end_matches c s = rev (dropWhile (\<lambda>x. x = c) (rev s))"

definition format_float :: "float_text \<Rightarrow> f64 \<Rightarrow> bytes" where
  "format_float fo f =
     (let i = f_to_i64 f in
      if f_eq (f_of_i64 i) f then i64_to_string i
      else trim_end_matches (CHR ''.'') (trim_end_matches (CHR ''0'') (f_show17 fo f)))"

definition incr_float_store :: "float_text \<Rightarrow> bytes \<Rightarrow> f64 \<Rightarrow> f64 \<Rightarrow> handler" where
  "incr_float_store fo key current delta ctx =
     (let new_val = f_add current delta in
      if \<not> is_finite new_val then rep_err ''increment would produce NaN or Infinity'' ctx
      else
        on_slice ctx (\<lambda>ds. add_or_update ds (ctx_db ctx) key (PV_String (format_float fo new_val)))
          (\<lambda>_ ctx1. rep_bulk (format_float fo new_val) ctx1))"

definition cmd_incrbyfloat :: "float_text \<Rightarrow> handler" where
  "cmd_incrbyfloat fo ctx =
     with_arg ctx 1 (\<lambda>key.
       case f_parse fo (trim (case arg_str ctx 2 of None \<Rightarrow> [] | Some s \<Rightarrow> s)) of
         None \<Rightarrow> rep_err ''value is not a valid float'' ctx
       | Some delta \<Rightarrow>
           if \<not> is_finite delta then rep_err ''value is not a valid float'' ctx
           else
             on_slice ctx (\<lambda>ds. ds_find ds (ctx_db ctx) key) (\<lambda>r ctx1.
               case r of
                 Some fr \<Rightarrow> (case as_float fo (fr_value fr) of
                               Some f \<Rightarrow> incr_float_store fo key f delta ctx1
                             | None \<Rightarrow> rep_err ''value is not a valid float'' ctx1)
               | None \<Rightarrow> incr_float_store fo key 0 delta ctx1))"

subsection \<open>Parts of a string\<close>

text \<open>What a handler does through the reference of \<^verbatim>\<open>find_mut\<close>: a wrong type, or the new length.\<close>

definition edit_string :: "(bytes \<Rightarrow> bytes option) \<Rightarrow> find_result \<Rightarrow> prime_value \<times> nat option option" where
  "edit_string f fr =
     (if \<not> is_string (fr_value fr) then (fr_value fr, Some None)
      else
        (case f (value_as_bytes (fr_value fr)) of
           None \<Rightarrow> (fr_value fr, None)
         | Some s \<Rightarrow> (PV_String s, Some (Some (length s)))))"

text \<open>\<open>f\<close> edits the stored string and \<open>None\<close> is its panic; a missing key stores \<open>f []\<close>.\<close>

definition edit_or_create :: "bytes \<Rightarrow> (bytes \<Rightarrow> bytes option) \<Rightarrow> handler" where
  "edit_or_create key f ctx =
     on_slice ctx (\<lambda>ds. ds_find_mut ds (ctx_db ctx) key (edit_string f)) (\<lambda>r ctx1.
       case r of
         Some None \<Rightarrow> None
       | Some (Some None) \<Rightarrow> rep_wrong_type ctx1
       | Some (Some (Some n)) \<Rightarrow> rep_int (of_nat n) ctx1
       | None \<Rightarrow>
           Option.bind (f []) (\<lambda>s.
             on_slice ctx1 (\<lambda>ds. add_or_update ds (ctx_db ctx) key (PV_String s)) (\<lambda>_ ctx2.
               rep_int (of_nat (length s)) ctx2)))"

definition cmd_append :: handler where
  "cmd_append ctx =
     with_arg ctx 1 (\<lambda>key. with_arg ctx 2 (\<lambda>d. edit_or_create key (\<lambda>s. Some (s @ d)) ctx))"

definition cmd_strlen :: handler where
  "cmd_strlen ctx =
     with_arg ctx 1 (\<lambda>key.
       on_slice ctx (\<lambda>ds. ds_find ds (ctx_db ctx) key) (\<lambda>r ctx1.
         case r of
           Some fr \<Rightarrow> if is_string (fr_value fr) then rep_int (of_nat (value_strlen (fr_value fr))) ctx1
                      else rep_wrong_type ctx1
         | None \<Rightarrow> rep_int 0 ctx1))"

definition range_start :: "i64 \<Rightarrow> nat \<Rightarrow> nat" where
  "range_start start len = nat (if sint start < 0 then max (int len + sint start) 0 else min (sint start) (int len))"

definition range_end :: "i64 \<Rightarrow> nat \<Rightarrow> nat" where
  "range_end stop len =
     nat (if sint stop < 0 then max (int len + sint stop) 0 else max (min (sint stop) (int len - 1)) 0)"

text \<open>\<^verbatim>\<open>&data[s..=e]\<close>.\<close>

definition slice_incl :: "bytes \<Rightarrow> nat \<Rightarrow> nat \<Rightarrow> bytes option" where
  "slice_incl d s e = (if s \<le> e + 1 \<and> e < length d then Some (take (e + 1 - s) (drop s d)) else None)"

definition getrange :: "i64 \<Rightarrow> i64 \<Rightarrow> bytes \<Rightarrow> bytes option" where
  "getrange start stop d =
     (let s = range_start start (length d); e = range_end stop (length d) in
      if s > e \<or> s \<ge> length d then Some [] else slice_incl d s e)"

definition cmd_getrange :: handler where
  "cmd_getrange ctx =
     with_arg ctx 1 (\<lambda>key.
       case arg_int ctx 2 of
         None \<Rightarrow> rep_err ERR_INT ctx
       | Some start \<Rightarrow>
          (case arg_int ctx 3 of
             None \<Rightarrow> rep_err ERR_INT ctx
           | Some stop \<Rightarrow>
               find_string ctx key (\<lambda>v ctx1.
                 case v of
                   None \<Rightarrow> rep_bulk [] ctx1
                 | Some d \<Rightarrow> Option.bind (getrange start stop d) (\<lambda>r. rep_bulk r ctx1))))"

text \<open>\<^verbatim>\<open>Vec::resize\<close>, which panics when the length exceeds \<^verbatim>\<open>isize::MAX\<close>, and \<^verbatim>\<open>copy_from_slice\<close>.\<close>

definition overwrite :: "nat \<Rightarrow> bytes \<Rightarrow> bytes \<Rightarrow> bytes option" where
  "overwrite offset v s =
     (let needed = offset + length v;
          s' = (if length s < needed then s @ replicate (needed - length s) (CHR 0x00) else s)
      in if length s < needed \<and> 2 ^ 63 \<le> needed then None
         else Some (take offset s' @ v @ drop needed s'))"

definition cmd_setrange :: handler where
  "cmd_setrange ctx =
     with_arg ctx 1 (\<lambda>key.
       case arg_int ctx 2 of
         None \<Rightarrow> rep_err ''offset is out of range'' ctx
       | Some n \<Rightarrow>
           if sint n \<ge> 0
           then with_arg ctx 3 (\<lambda>v. edit_or_create key (overwrite (nat (sint n)) v) ctx)
           else rep_err ''offset is out of range'' ctx)"

subsection \<open>Registration\<close>

definition string_commands :: "float_text \<Rightarrow> (bytes \<times> handler \<times> int) list" where
  "string_commands fo =
     [(''GET'', cmd_get, 2), (''SET'', cmd_set, - 3), (''SETNX'', cmd_setnx, 3), (''SETEX'', cmd_setex, 4),
      (''PSETEX'', cmd_psetex, 4), (''MGET'', cmd_mget, - 2), (''MSET'', cmd_mset, - 3), (''MSETNX'', cmd_msetnx, - 3),
      (''GETSET'', cmd_getset, 3), (''GETDEL'', cmd_getdel, 2), (''GETEX'', cmd_getex, - 2), (''INCR'', cmd_incr, 2),
      (''DECR'', cmd_decr, 2), (''INCRBY'', cmd_incrby, 3), (''DECRBY'', cmd_decrby, 3),
      (''INCRBYFLOAT'', cmd_incrbyfloat fo, 3), (''APPEND'', cmd_append, 3), (''STRLEN'', cmd_strlen, 2),
      (''GETRANGE'', cmd_getrange, 4), (''SETRANGE'', cmd_setrange, 4)]"

definition register_string :: "float_text \<Rightarrow> registry \<Rightarrow> registry" where
  "register_string fo reg = register_all reg (string_commands fo)"

subsection \<open>Every command answers with one reply\<close>

lemma answers_get: "answers (Suc 0) cmd_get"
  by (auto simp: answers_iff cmd_get_def split: option.splits
      intro!: answered_rules)

lemma answers_rep_old [answers_intros]: "answers (Suc 0) (rep_old old)"
  by (auto simp: rep_old_def split: option.splits intro: answers_intros)

lemmas answered_rep_old = answers_rep_old [THEN answered_handler]

lemma answered_set_store:
  "cc_reply ctx1 = cc_reply ctx \<Longrightarrow> answered (Suc 0) ctx (set_store key v so old oe ctx1)"
  by (auto simp: set_store_def intro!: answered_rules answered_rep_old)

lemma answered_set_checked:
  "cc_reply ctx1 = cc_reply ctx \<Longrightarrow> answered (Suc 0) ctx (set_checked key v so old ctx1)"
  by (auto simp: set_checked_def intro!: answered_rules answered_set_store answered_rep_old)

lemma set_options_one_line: "set_options ctx i so = Inl m \<Longrightarrow> one_line m"
proof (induction ctx i so rule: set_options.induct)
  case (1 ctx i so)
  show ?case
    using "1.prems" "1.IH"
    by (subst (asm) set_options.simps) (auto simp: Let_def split: if_splits option.splits)
qed

lemma answers_set: "answers (Suc 0) cmd_set"
  by (auto simp: answers_iff cmd_set_def split: sum.splits
      intro!: answered_rules answered_set_checked dest: set_options_one_line)

lemma answers_setnx: "answers (Suc 0) cmd_setnx"
  by (auto simp: answers_iff cmd_setnx_def intro!: answered_rules)

lemma answers_set_with_ttl: "answers (Suc 0) (set_with_ttl scale)"
  by (auto simp: answers_iff set_with_ttl_def split: option.splits
      intro!: answered_rules)

lemma answers_getset: "answers (Suc 0) cmd_getset"
  by (auto simp: answers_iff cmd_getset_def intro!: answered_rules answered_rep_old)

lemma answers_getex: "answers (Suc 0) cmd_getex"
  by (auto simp: answers_iff cmd_getex_def getex_option_def Let_def split: option.splits
      intro!: answered_rules)

lemma answers_incr_by: "answers (Suc 0) (incr_by d)"
  by (auto simp: answers_iff incr_by_def incr_store_def split: option.splits
      intro!: answered_rules)

lemma answers_incrby: "answers (Suc 0) cmd_incrby" "answers (Suc 0) cmd_decrby"
  by (auto simp: answers_iff cmd_incrby_def cmd_decrby_def split: option.splits
      intro!: answered_rules answers_incr_by [THEN answered_handler])

lemma answers_incrbyfloat: "answers (Suc 0) (cmd_incrbyfloat fo)"
  by (auto simp: answers_iff cmd_incrbyfloat_def incr_float_store_def Let_def split: option.splits
      intro!: answered_rules)

lemma answered_edit: "cc_reply ctx1 = cc_reply ctx \<Longrightarrow> answered (Suc 0) ctx (edit_or_create key f ctx1)"
  by (auto simp: edit_or_create_def split: option.splits
      intro!: answered_rules)

lemma answers_edits: "answers (Suc 0) cmd_append" "answers (Suc 0) cmd_setrange"
  by (auto simp: answers_iff cmd_append_def cmd_setrange_def split: option.splits
      intro!: answered_rules answered_edit)

lemma answers_strlen: "answers (Suc 0) cmd_strlen"
  by (auto simp: answers_iff cmd_strlen_def split: option.splits
      intro!: answered_rules)

lemma answers_getrange: "answers (Suc 0) cmd_getrange"
  by (auto simp: answers_iff cmd_getrange_def split: option.splits
      intro!: answered_rules)

lemma answers_mget_loop: "answers (length ks) (mget_loop ks)"
proof (induction ks)
  case Nil
  then show ?case by (simp add: answers_def)
next
  case (Cons key ks)
  have "answered (Suc 0 + length ks) ctx
      (Option.bind (case r of Some fr \<Rightarrow> if is_string (fr_value fr) then rep_bulk (value_as_bytes (fr_value fr)) ctx2
                                         else rep send_null ctx2 | None \<Rightarrow> rep send_null ctx2) (mget_loop ks))"
    if "cc_reply ctx2 = cc_reply ctx" for ctx ctx2 r
    using that by (intro answered_then Cons.IH) (auto split: option.splits intro!: answered_leaf)
  then show ?case by (auto simp: answers_iff intro!: answered_on_slice)
qed

lemma answers_mget: "answers (Suc 0) cmd_mget"
  by (auto simp: answers_iff cmd_mget_def intro!: answered_bind_opt
      answers_array [OF answers_mget_loop, THEN answered_handler])

lemma mset_loop_reply: "mset_loop b kvs ctx = Some ctx' \<Longrightarrow> cc_reply ctx' = cc_reply ctx"
  by (induction b kvs ctx rule: mset_loop.induct) (auto simp: on_slice_def split: option.splits if_splits)

lemma answers_mset: "answers (Suc 0) cmd_mset" "answers (Suc 0) cmd_msetnx"
  by (auto simp: answers_iff cmd_mset_def cmd_msetnx_def
      intro!: answered_leaf answered_on_slice answered_bind_opt [where r = "key_value_args _"] answered_silent answers_rep_rules
      dest!: mset_loop_reply)

lemma answers_getdel: "answers (Suc 0) cmd_getdel"
proof -
  have "answered (Suc 0) ctx (Option.bind (rep_bulk d ctx1) (\<lambda>c. on_slice c f (\<lambda>_ c2. Some c2)))"
    if "cc_reply ctx1 = cc_reply ctx" for ctx ctx1 d and f :: "db_slice \<Rightarrow> (bool \<times> db_slice) option"
  proof -
    have "answers 0 (\<lambda>c. on_slice c f (\<lambda>_ c2. Some c2))"
      by (auto simp: answers_def on_slice_def split: option.splits)
    then show ?thesis using answered_then [of "Suc 0" ctx "rep_bulk d ctx1" 0] that by (simp add: answered_leaf)
  qed
  then show ?thesis by (auto simp: answers_iff cmd_getdel_def split: option.splits intro!: answered_rules(1,2) answered_leaf)
qed

text \<open>Every string command leaves exactly one value in the reply buffer.\<close>

lemma string_commands_answer:
  assumes "(name, h, arity) \<in> set (string_commands fo)"
  shows "answers (Suc 0) h"
  using assms
  by (auto simp: string_commands_def cmd_setex_def cmd_psetex_def cmd_incr_def cmd_decr_def
      intro: answers_get answers_set answers_setnx answers_set_with_ttl answers_mget answers_mset answers_getset
        answers_getdel answers_getex answers_incr_by answers_incrby answers_incrbyfloat answers_edits answers_strlen answers_getrange)

end
