(* ===== verification/Generic_Family.thy ===== *)
theory Generic_Family
  imports Handler_Kit
begin

text \<open>
  \<^verbatim>\<open>crates/shrikedb-server/src/commands/generic_family.rs\<close>: the commands that work on keys of any type,
  on expiry, on the whole database and on the connection.
\<close>

definition cmd_ping :: handler where
  "cmd_ping ctx =
     (if length (cc_args ctx) > 1 then with_arg ctx 1 (\<lambda>msg. rep_bulk msg ctx) else rep send_pong ctx)"

definition cmd_echo :: handler where
  "cmd_echo ctx = with_arg ctx 1 (\<lambda>msg. rep_bulk msg ctx)"

definition cmd_command :: handler where
  "cmd_command = rep_array_len 0"

definition info_text :: "nat \<Rightarrow> bytes" where
  "info_text n = ''# Server'' @ CRLF @ ''shrikedb_version:0.1.0'' @ CRLF @ ''# Keyspace'' @ CRLF
     @ ''db0:keys='' @ show_nat n @ '',expires=0'' @ CRLF"

definition cmd_info :: handler where
  "cmd_info ctx = Option.bind (db_size (slice ctx) (ctx_db ctx)) (\<lambda>n. rep_bulk (info_text n) ctx)"

definition cmd_select :: handler where
  "cmd_select ctx =
     (case arg_int ctx 1 of
        Some n \<Rightarrow> if 0 \<le> sint n \<and> sint n < 16
                  then rep send_ok (ctx\<lparr>cc_conn := (cc_conn ctx)\<lparr>conn_db := ucast n\<rparr>\<rparr>)
                  else rep_err ''DB index is out of range'' ctx
      | None \<Rightarrow> rep_err ''DB index is out of range'' ctx)"

definition cmd_dbsize :: handler where
  "cmd_dbsize ctx = Option.bind (db_size (slice ctx) (ctx_db ctx)) (\<lambda>n. rep_int (of_nat n) ctx)"

definition cmd_flushdb :: handler where
  "cmd_flushdb ctx = on_slice ctx (\<lambda>ds. flush_db ds (ctx_db ctx)) (\<lambda>_ ctx1. rep send_ok ctx1)"

fun flush_dbs :: "u16 list \<Rightarrow> db_slice \<Rightarrow> (unit \<times> db_slice) option" where
  "flush_dbs [] ds = Some ((), ds)"
| "flush_dbs (i # js) ds = Option.bind (flush_db ds i) (\<lambda>(_, ds'). flush_dbs js ds')"

definition cmd_flushall :: handler where
  "cmd_flushall ctx = on_slice ctx (flush_dbs (map of_nat [0..<16])) (\<lambda>_ ctx1. rep send_ok ctx1)"

text \<open>Counting the keys for which an operation of the slice answers yes.\<close>

fun count_keys ::
  "(db_slice \<Rightarrow> u16 \<Rightarrow> bytes \<Rightarrow> (bool \<times> db_slice) option) \<Rightarrow> u16 \<Rightarrow> bytes list \<Rightarrow> i64 \<Rightarrow> db_slice
    \<Rightarrow> (i64 \<times> db_slice) option" where
  "count_keys f db [] n ds = Some (n, ds)"
| "count_keys f db (key # ks) n ds =
     Option.bind (f ds db key) (\<lambda>(b, ds'). count_keys f db ks (if b then n + 1 else n) ds')"

definition cmd_del :: handler where
  "cmd_del ctx = Option.bind (key_args ctx) (\<lambda>ks.
     on_slice ctx (count_keys ds_del (ctx_db ctx) ks 0) (\<lambda>n ctx1. rep_int n ctx1))"

definition cmd_exists :: handler where
  "cmd_exists ctx = Option.bind (key_args ctx) (\<lambda>ks.
     on_slice ctx (count_keys ds_exists (ctx_db ctx) ks 0) (\<lambda>n ctx1. rep_int n ctx1))"

definition cmd_type :: handler where
  "cmd_type ctx =
     with_arg ctx 1 (\<lambda>key. on_slice ctx (\<lambda>ds. ds_find ds (ctx_db ctx) key) (\<lambda>r ctx1.
       rep_simple (case r of Some fr \<Rightarrow> type_name (fr_value fr) | None \<Rightarrow> ''none'') ctx1))"

definition cmd_rename :: handler where
  "cmd_rename ctx =
     with_arg ctx 1 (\<lambda>src. with_arg ctx 2 (\<lambda>dst.
       on_slice ctx (\<lambda>ds. rename ds (ctx_db ctx) src dst) (\<lambda>done ctx1.
         if done then rep send_ok ctx1 else rep_err ''no such key'' ctx1)))"

definition cmd_renamenx :: handler where
  "cmd_renamenx ctx =
     with_arg ctx 1 (\<lambda>src. with_arg ctx 2 (\<lambda>dst.
       on_slice ctx (\<lambda>ds. ds_exists ds (ctx_db ctx) src) (\<lambda>present ctx1.
         if \<not> present then rep_err ''no such key'' ctx1
         else
           on_slice ctx1 (\<lambda>ds. ds_exists ds (ctx_db ctx) dst) (\<lambda>taken ctx2.
             if taken then rep_int 0 ctx2
             else on_slice ctx2 (\<lambda>ds. rename ds (ctx_db ctx) src dst) (\<lambda>_ ctx3. rep_int 1 ctx3)))))"

subsection \<open>Expiry\<close>

definition expire_now :: "bytes \<Rightarrow> handler" where
  "expire_now key ctx =
     on_slice ctx (\<lambda>ds. ds_exists ds (ctx_db ctx) key) (\<lambda>present ctx1.
       if present then on_slice ctx1 (\<lambda>ds. ds_del ds (ctx_db ctx) key) (\<lambda>_ ctx2. rep_int 1 ctx2)
       else rep_int 0 ctx1)"

definition set_expire_relative :: "u64 \<Rightarrow> handler" where
  "set_expire_relative multiplier ctx =
     with_arg ctx 1 (\<lambda>key.
       case arg_int ctx 2 of
         None \<Rightarrow> rep_err ERR_INT ctx
       | Some secs \<Rightarrow>
           if sint secs \<le> 0 then expire_now key ctx
           else
             on_slice ctx (\<lambda>ds. ds_exists ds (ctx_db ctx) key) (\<lambda>present ctx1.
               if \<not> present then rep_int 0 ctx1
               else
                 on_slice ctx1 (\<lambda>ds. add_expire ds (ctx_db ctx) key (now_ms ds + secs * multiplier)) (\<lambda>_ ctx2.
                   rep_int 1 ctx2)))"

definition set_expire_absolute :: "u64 \<Rightarrow> handler" where
  "set_expire_absolute multiplier ctx =
     with_arg ctx 1 (\<lambda>key.
       case arg_int ctx 2 of
         None \<Rightarrow> rep_err ERR_INT ctx
       | Some ts \<Rightarrow>
           on_slice ctx (\<lambda>ds. ds_exists ds (ctx_db ctx) key) (\<lambda>present ctx1.
             if \<not> present then rep_int 0 ctx1
             else if ts * multiplier \<le> now_ms (slice ctx1)
               then on_slice ctx1 (\<lambda>ds. ds_del ds (ctx_db ctx) key) (\<lambda>_ ctx2. rep_int 1 ctx2)
             else on_slice ctx1 (\<lambda>ds. add_expire ds (ctx_db ctx) key (ts * multiplier)) (\<lambda>_ ctx2. rep_int 1 ctx2)))"

definition cmd_expire :: handler where "cmd_expire = set_expire_relative 1000"

definition cmd_pexpire :: handler where "cmd_pexpire = set_expire_relative 1"

definition cmd_expireat :: handler where "cmd_expireat = set_expire_absolute 1000"

definition cmd_pexpireat :: handler where "cmd_pexpireat = set_expire_absolute 1"

text \<open>TTL and PTTL differ in the unit of the answer.\<close>

definition rep_ttl :: "u64 \<Rightarrow> handler" where
  "rep_ttl unit ctx =
     with_arg ctx 1 (\<lambda>key. on_slice ctx (\<lambda>ds. ttl_ms ds (ctx_db ctx) key) (\<lambda>t ctx1.
       case t of
         KeyNotFound \<Rightarrow> rep_int (- 2) ctx1
       | NoExpiry \<Rightarrow> rep_int (- 1) ctx1
       | Expires ms \<Rightarrow> rep_int (ms div unit) ctx1))"

definition cmd_ttl :: handler where "cmd_ttl = rep_ttl 1000"

definition cmd_pttl :: handler where "cmd_pttl = rep_ttl 1"

definition cmd_persist :: handler where
  "cmd_persist ctx =
     with_arg ctx 1 (\<lambda>key. on_slice ctx (\<lambda>ds. ds_exists ds (ctx_db ctx) key) (\<lambda>present ctx1.
       if \<not> present then rep_int 0 ctx1
       else on_slice ctx1 (\<lambda>ds. remove_expire ds (ctx_db ctx) key) (\<lambda>removed ctx2.
              rep_int (if removed then 1 else 0) ctx2)))"

subsection \<open>The key space\<close>

definition cmd_keys :: handler where
  "cmd_keys ctx =
     on_slice ctx (\<lambda>ds. ds_keys ds (ctx_db ctx) (case arg_str ctx 1 of Some p \<Rightarrow> p | None \<Rightarrow> ''*'')) (\<lambda>ks ctx1.
       rep_array ks ctx1)"

function scan_options :: "command_context \<Rightarrow> nat \<Rightarrow> u64 \<times> bytes option \<Rightarrow> u64 \<times> bytes option" where
  "scan_options ctx i st =
     (if i < length (cc_args ctx) then
        (let w = arg_word ctx i in
         if w = ''COUNT'' then
           scan_options ctx (i + 2)
             (case Option.bind (arg_str ctx (i + 1)) parse_u64 of Some n \<Rightarrow> (n, snd st) | None \<Rightarrow> st)
         else if w = ''MATCH'' then scan_options ctx (i + 2) (fst st, arg_str ctx (i + 1))
         else scan_options ctx (i + 1) st)
      else st)"
  by pat_completeness auto
termination by (relation "measure (\<lambda>(ctx, i, st). length (cc_args ctx) - i)") auto

declare scan_options.simps [simp del]

definition cmd_scan :: handler where
  "cmd_scan ctx =
     (case Option.bind (arg_str ctx 1) parse_u64 of
        None \<Rightarrow> rep_err ''invalid cursor'' ctx
      | Some c \<Rightarrow>
         (let (cnt, pattern) = scan_options ctx 2 (10, None) in
          case ds_scan (slice ctx) (ctx_db ctx) (cursor_new c) cnt pattern of
            None \<Rightarrow> None
          | Some (ks, next) \<Rightarrow>
              Option.bind (rep_array_len 2 ctx) (\<lambda>ctx1.
                Option.bind (rep_bulk (u64_to_string (cursor_value next)) ctx1) (\<lambda>ctx2.
                  rep_array ks ctx2))))"

definition cmd_randomkey :: handler where
  "cmd_randomkey ctx =
     (case ds_db (slice ctx) (ctx_db ctx) of
        None \<Rightarrow> None
      | Some db \<Rightarrow>
         (case tbl_random_entry (prime db) of
            Some (k, _) \<Rightarrow> rep_bulk (key_as_bytes k) ctx
          | None \<Rightarrow> rep send_null ctx))"

subsection \<open>The connection\<close>

definition hello_reply :: "reply_builder \<Rightarrow> reply_builder" where
  "hello_reply rb =
     send_array_len
       (foldl send_bulk_string
         (send_integer
           (send_bulk_string
             (send_integer
               (foldl send_bulk_string (send_array_len rb 14)
                 [''server'', ''shrikedb'', ''version'', ''0.1.0'', ''proto'']) 2) ''id'') 1)
         [''mode'', ''standalone'', ''role'', ''master'', ''modules'']) 0"

definition cmd_hello :: handler where
  "cmd_hello = rep hello_reply"

definition cmd_client :: handler where
  "cmd_client ctx =
     (let sub = arg_word ctx 1 in
      if sub = ''SETNAME'' then rep send_ok ctx
      else if sub = ''GETNAME'' then rep send_null ctx
      else if sub = ''INFO'' then rep_bulk (''id=1 fd=0 name= db=0'' @ CRLF) ctx
      else if sub = ''ID'' then rep_int 1 ctx
      else rep send_ok ctx)"

definition cmd_config :: handler where
  "cmd_config ctx =
     (let sub = arg_word ctx 1 in
      if sub = ''GET'' then rep_array_len 0 ctx
      else if sub = ''SET'' then rep send_ok ctx
      else if sub = ''RESETSTAT'' then rep send_ok ctx
      else rep_err ''unsupported CONFIG subcommand'' ctx)"

definition cmd_reset :: handler where
  "cmd_reset ctx = rep_simple ''RESET'' (ctx\<lparr>cc_conn := (cc_conn ctx)\<lparr>conn_db := 0\<rparr>\<rparr>)"

subsection \<open>Registration\<close>

definition generic_commands :: "(bytes \<times> handler \<times> int \<times> u16) list" where
  "generic_commands =
     [(''PING'', cmd_ping, - 1, 0), (''ECHO'', cmd_echo, 2, 0), (''COMMAND'', cmd_command, - 1, 0),
      (''INFO'', cmd_info, - 1, 0), (''SELECT'', cmd_select, 2, 0), (''DBSIZE'', cmd_dbsize, 1, 0),
      (''FLUSHDB'', cmd_flushdb, - 1, 0), (''FLUSHALL'', cmd_flushall, - 1, 0), (''DEL'', cmd_del, - 2, 1),
      (''UNLINK'', cmd_del, - 2, 1), (''EXISTS'', cmd_exists, - 2, 1), (''TYPE'', cmd_type, 2, 1),
      (''RENAME'', cmd_rename, 3, 1), (''RENAMENX'', cmd_renamenx, 3, 1), (''EXPIRE'', cmd_expire, 3, 1),
      (''PEXPIRE'', cmd_pexpire, 3, 1), (''EXPIREAT'', cmd_expireat, 3, 1), (''PEXPIREAT'', cmd_pexpireat, 3, 1),
      (''TTL'', cmd_ttl, 2, 1), (''PTTL'', cmd_pttl, 2, 1), (''PERSIST'', cmd_persist, 2, 1), (''KEYS'', cmd_keys, 2, 0),
      (''SCAN'', cmd_scan, - 2, 0), (''RANDOMKEY'', cmd_randomkey, 1, 0), (''HELLO'', cmd_hello, - 1, 0),
      (''CLIENT'', cmd_client, - 2, 0), (''CONFIG'', cmd_config, - 2, 0), (''RESET'', cmd_reset, 1, 0)]"

fun generic_entry :: "bytes \<times> handler \<times> int \<times> u16 \<Rightarrow> command_entry" where
  "generic_entry (name, h, arity, first_key) =
     \<lparr>ce_name = name, ce_handler = h, ce_arity = arity, ce_first_key = first_key,
      ce_last_key = (if first_key > 0 then 1 else 0), ce_key_step = 1\<rparr>"

definition register_generic :: "registry \<Rightarrow> registry" where
  "register_generic reg = foldl (\<lambda>r c. register r (generic_entry c)) reg generic_commands"

lemma register_generic_lookup:
  assumes "register_generic reg name = Some e"
  shows "(\<exists>h a fk. (name, h, a, fk) \<in> set generic_commands \<and> ce_handler e = h \<and> ce_arity e = a \<and> ce_first_key e = fk)
    \<or> reg name = Some e"
  using foldl_register [OF assms [unfolded register_generic_def]] by force

subsection \<open>Every command answers with one reply\<close>

lemma one_line_type_name: "one_line (type_name v)"
  by (cases v) simp_all

lemmas answered_generic = answered_rules answers_rep_array(1) [THEN answered_handler]
  answers_empty_array [THEN answered_handler] answers_simple [THEN answered_handler]

lemma answers_server: "answers (Suc 0) cmd_ping" "answers (Suc 0) cmd_echo" "answers (Suc 0) cmd_command"
  "answers (Suc 0) cmd_info" "answers (Suc 0) cmd_select" "answers (Suc 0) cmd_dbsize" "answers (Suc 0) cmd_flushdb"
  "answers (Suc 0) cmd_flushall" "answers (Suc 0) cmd_reset" "answers (Suc 0) cmd_client" "answers (Suc 0) cmd_config"
  by (auto simp: answers_iff cmd_ping_def cmd_echo_def cmd_command_def cmd_info_def cmd_select_def cmd_dbsize_def
      cmd_flushdb_def cmd_flushall_def cmd_reset_def cmd_client_def cmd_config_def Let_def
      split: option.splits intro!: answered_generic)

lemma answers_keyspace: "answers (Suc 0) cmd_del" "answers (Suc 0) cmd_exists" "answers (Suc 0) cmd_type"
  "answers (Suc 0) cmd_rename" "answers (Suc 0) cmd_renamenx" "answers (Suc 0) cmd_persist" "answers (Suc 0) cmd_randomkey"
  "answers (Suc 0) cmd_keys"
  by (auto simp: answers_iff cmd_del_def cmd_exists_def cmd_type_def cmd_rename_def cmd_renamenx_def cmd_persist_def
      cmd_randomkey_def cmd_keys_def one_line_type_name
      split: option.splits intro!: answered_generic(1-3) answered_generic(4) [where r = "key_args _"] answered_generic(5-))

lemma answers_expiry: "answers (Suc 0) (set_expire_relative m)" "answers (Suc 0) (set_expire_absolute m)"
  "answers (Suc 0) (rep_ttl u)"
  by (auto simp: answers_iff set_expire_relative_def set_expire_absolute_def expire_now_def rep_ttl_def
      split: option.splits ttl_result.splits intro!: answered_generic)

lemma answers_scan: "answers (Suc 0) cmd_scan"
proof -
  have "answers (Suc 0) (\<lambda>ctx. Option.bind (rep_array_len 2 ctx) (\<lambda>c1. Option.bind (rep_bulk d c1) (rep_array ks)))" for d ks
    unfolding rep_array_len_def
  proof (rule answers_array)
    show "answers 2 (\<lambda>c1. Option.bind (rep_bulk d c1) (rep_array ks))"
      using answered_then [OF _ answers_rep_array(1) [of ks], of "Suc 0"]
      by (auto simp: answers_iff numeral_2_eq_2 intro!: answered_leaf)
  qed
  then show ?thesis
    by (auto simp: answers_iff cmd_scan_def split: option.splits prod.splits
        intro!: answered_leaf answered_None)
qed

lemma answers_hello: "answers (Suc 0) cmd_hello"
proof -
  let ?a = "\<lambda>rb. foldl send_bulk_string rb [''server'', ''shrikedb'', ''version'', ''0.1.0'', ''proto'']"
  let ?b = "\<lambda>rb. foldl send_bulk_string rb [''mode'', ''standalone'', ''role'', ''master'', ''modules'']"
  have a: "appends 5 ?a" and b: "appends 5 ?b"
    using appends_foldl [where f = send_bulk_string, OF appends_bulk, of "[''server'', ''shrikedb'', ''version'', ''0.1.0'', ''proto'']"]
      appends_foldl [where f = send_bulk_string, OF appends_bulk, of "[''mode'', ''standalone'', ''role'', ''master'', ''modules'']"]
    by (simp_all add: eval_nat_numeral)
  have "appends (5 + (Suc 0 + (Suc 0 + (Suc 0 + (5 + Suc 0)))))
     (\<lambda>rb. send_array_len (?b (send_integer (send_bulk_string (send_integer (?a rb) 2) ''id'') 1)) 0)"
    by (rule appends_comp [OF a appends_comp [OF appends_int [of 2] appends_comp [OF appends_bulk [of "''id''"]
          appends_comp [OF appends_int [of 1] appends_comp [OF b appends_array [OF appends_id]]]]]])
  moreover have "5 + (Suc 0 + (Suc 0 + (Suc 0 + (5 + Suc 0)))) = 14" by simp
  ultimately have "appends 14 (\<lambda>rb. send_array_len (?b (send_integer (send_bulk_string (send_integer (?a rb) 2) ''id'') 1)) 0)"
    by (simp only:)
  then show ?thesis
    using appends_array [of 14] by (auto simp: cmd_hello_def hello_reply_def [abs_def] intro!: answers_rep)
qed

text \<open>Every generic command leaves exactly one value in the reply buffer.\<close>

lemma generic_commands_answer:
  assumes "(name, h, arity, fk) \<in> set generic_commands"
  shows "answers (Suc 0) h"
  using assms
  by (auto simp: generic_commands_def cmd_expire_def cmd_pexpire_def cmd_expireat_def cmd_pexpireat_def cmd_ttl_def cmd_pttl_def
      intro: answers_server answers_keyspace answers_expiry answers_scan answers_hello)

end
