(* ===== verification/List_Family.thy ===== *)
theory List_Family
  imports Handler_Kit Sharding
begin

text \<open>
  \<^verbatim>\<open>crates/shrikedb-server/src/commands/list_family.rs\<close>: the list commands. A \<^verbatim>\<open>VecDeque\<close> is a list; the
  operations on it are functions of their own, the handlers apply them to the value of a key.
\<close>

definition as_list :: "prime_value \<Rightarrow> bytes list option" where
  "as_list v = (case v of PV_List l \<Rightarrow> Some l | _ \<Rightarrow> None)"

text \<open>An edit of a list that yields a result, as an edit of a value.\<close>

definition on_list :: "(bytes list \<Rightarrow> 'a \<times> bytes list) \<Rightarrow> prime_value \<Rightarrow> ('a \<times> prime_value) option" where
  "on_list f v = map_option (\<lambda>l. let (a, l') = f l in (a, PV_List l')) (as_list v)"

definition rep_len :: "nat \<Rightarrow> handler" where
  "rep_len n = rep_int (of_nat n)"

subsection \<open>Push and pop\<close>

definition push_front_all :: "bytes list \<Rightarrow> bytes list \<Rightarrow> bytes list" where
  "push_front_all vs l = foldl (\<lambda>l v. v # l) l vs"

definition push_back_all :: "bytes list \<Rightarrow> bytes list \<Rightarrow> bytes list" where
  "push_back_all vs l = foldl (\<lambda>l v. l @ [v]) l vs"

definition push_command :: "(bytes list \<Rightarrow> bytes list \<Rightarrow> bytes list) \<Rightarrow> handler" where
  "push_command push ctx =
     with_arg ctx 1 (\<lambda>key. Option.bind (args_from ctx 2) (\<lambda>vs.
       upsert key (on_list (\<lambda>l. (length (push vs l), push vs l)))
         (length (push vs []), PV_List (push vs [])) rep_len ctx))"

definition cmd_lpush :: handler where
  "cmd_lpush = push_command push_front_all"

definition cmd_rpush :: handler where
  "cmd_rpush = push_command push_back_all"

fun pop_front :: "bytes list \<Rightarrow> (bytes \<times> bytes list) option" where
  "pop_front [] = None"
| "pop_front (v # l) = Some (v, l)"

definition pop_back :: "bytes list \<Rightarrow> (bytes \<times> bytes list) option" where
  "pop_back l = (if l = [] then None else Some (last l, butlast l))"

fun pop_n :: "(bytes list \<Rightarrow> (bytes \<times> bytes list) option) \<Rightarrow> nat \<Rightarrow> bytes list \<Rightarrow> bytes list \<times> bytes list" where
  "pop_n pop 0 l = ([], l)"
| "pop_n pop (Suc n) l =
     (case pop l of
        Some (v, l') \<Rightarrow> (let (vs, l'') = pop_n pop n l' in (v # vs, l''))
      | None \<Rightarrow> pop_n pop n l)"

definition pop_one :: "(bytes list \<Rightarrow> (bytes \<times> bytes list) option) \<Rightarrow> bytes list \<Rightarrow> bytes option \<times> bytes list" where
  "pop_one pop l = (case pop l of Some (v, l') \<Rightarrow> (Some v, l') | None \<Rightarrow> (None, l))"

definition pop_count :: "command_context \<Rightarrow> nat" where
  "pop_count ctx = nat (max (sint (case arg_int ctx 2 of Some n \<Rightarrow> n | None \<Rightarrow> 1)) 0)"

text \<open>The result of an edit together with whether the list is empty now.\<close>

definition and_empty :: "('a \<times> bytes list) \<Rightarrow> ('a \<times> bool) \<times> bytes list" where
  "and_empty r = ((fst r, snd r = []), snd r)"

definition pop_command :: "(bytes list \<Rightarrow> (bytes \<times> bytes list) option) \<Rightarrow> handler" where
  "pop_command pop ctx =
     with_arg ctx 1 (\<lambda>key.
       if length (cc_args ctx) \<le> 2 then
         edit_value key (on_list (\<lambda>l. and_empty (pop_one pop l)))
           (\<lambda>(v, e) ctx1. Option.bind (rep_opt v ctx1) (drop_if e key)) (rep send_null) ctx
       else
         edit_value key (on_list (\<lambda>l. and_empty (pop_n pop (min (pop_count ctx) (length l)) l)))
           (\<lambda>(vs, e) ctx1. Option.bind (rep_array vs ctx1) (drop_if e key)) (rep send_null) ctx)"

definition cmd_lpop :: handler where
  "cmd_lpop = pop_command pop_front"

definition cmd_rpop :: handler where
  "cmd_rpop = pop_command pop_back"

subsection \<open>Reading\<close>

definition cmd_llen :: handler where
  "cmd_llen ctx = with_arg ctx 1 (\<lambda>key. read_value key as_list (\<lambda>l. rep_len (length l)) (rep_int 0) ctx)"

text \<open>
  The first and last index of a range, \<open>None\<close> when it is empty. The cast of the last index to
  \<^verbatim>\<open>usize\<close> wraps around when the list is empty.
\<close>

definition list_window :: "i64 \<Rightarrow> i64 \<Rightarrow> nat \<Rightarrow> (nat \<times> nat) option" where
  "list_window start stop len =
     (let s = nat (if sint start < 0 then max (int len + sint start) 0 else min (sint start) (int len));
          e = nat ((if sint stop < 0 then max (int len + sint stop) 0 else min (sint stop) (int len - 1)) mod 2 ^ 64)
      in if s > e \<or> s \<ge> len then None else Some (s, e))"

definition int_or :: "command_context \<Rightarrow> nat \<Rightarrow> i64 \<Rightarrow> i64" where
  "int_or ctx i d = (case arg_int ctx i of Some n \<Rightarrow> n | None \<Rightarrow> d)"

text \<open>\<^verbatim>\<open>list[i]\<close> panics out of range.\<close>

fun index_all :: "'a list \<Rightarrow> nat list \<Rightarrow> 'a list option" where
  "index_all l [] = Some []"
| "index_all l (i # js) = (if i < length l then map_option ((#) (l ! i)) (index_all l js) else None)"

definition lrange :: "i64 \<Rightarrow> i64 \<Rightarrow> bytes list \<Rightarrow> bytes list option" where
  "lrange start stop l =
     (case list_window start stop (length l) of None \<Rightarrow> Some [] | Some (s, e) \<Rightarrow> index_all l [s..<Suc e])"

definition cmd_lrange :: handler where
  "cmd_lrange ctx =
     with_arg ctx 1 (\<lambda>key.
       read_value key as_list
         (\<lambda>l ctx1. Option.bind (lrange (int_or ctx 2 0) (int_or ctx 3 (- 1)) l) (\<lambda>ds. rep_array ds ctx1))
         (rep_array_len 0) ctx)"

text \<open>\<^verbatim>\<open>(if idx < 0 { list.len() as i64 + idx } else { idx }) as usize\<close>.\<close>

definition list_index :: "i64 \<Rightarrow> nat \<Rightarrow> nat" where
  "list_index idx len = unat (if sint idx < 0 then of_nat len + idx else idx)"

definition list_get :: "i64 \<Rightarrow> bytes list \<Rightarrow> bytes option" where
  "list_get idx l = (let i = list_index idx (length l) in if i < length l then Some (l ! i) else None)"

definition cmd_lindex :: handler where
  "cmd_lindex ctx =
     with_arg ctx 1 (\<lambda>key.
       read_value key as_list (\<lambda>l. rep_opt (list_get (int_or ctx 2 0) l)) (rep send_null) ctx)"

subsection \<open>Editing\<close>

definition list_set :: "i64 \<Rightarrow> bytes \<Rightarrow> bytes list \<Rightarrow> bool \<times> bytes list" where
  "list_set idx v l = (let i = list_index idx (length l) in if i < length l then (True, l[i := v]) else (False, l))"

definition cmd_lset :: handler where
  "cmd_lset ctx =
     with_arg ctx 1 (\<lambda>key. with_arg ctx 3 (\<lambda>v.
       edit_value key (on_list (list_set (int_or ctx 2 0) v))
         (\<lambda>ok. if ok then rep send_ok else rep_err ''index out of range'')
         (rep_err ''no such key'') ctx))"

text \<open>\<^verbatim>\<open>i64::MAX\<close> for a count of 0, its absolute value otherwise, which wraps for \<^verbatim>\<open>i64::MIN\<close>.\<close>

definition lrem_max :: "i64 \<Rightarrow> int" where
  "lrem_max cnt = (if cnt = 0 then 2 ^ 63 - 1 else sint (if sint cnt < 0 then - cnt else cnt))"

fun retain_rem :: "int \<Rightarrow> bytes \<Rightarrow> int \<Rightarrow> bytes list \<Rightarrow> int \<times> bytes list" where
  "retain_rem mx v removed [] = (removed, [])"
| "retain_rem mx v removed (x # l) =
     (if removed < mx \<and> x = v then retain_rem mx v (removed + 1) l
      else let (r, l') = retain_rem mx v removed l in (r, x # l'))"

fun rem_indices :: "int \<Rightarrow> bytes \<Rightarrow> int \<Rightarrow> (nat \<times> bytes) list \<Rightarrow> int \<times> nat list" where
  "rem_indices mx v removed [] = (removed, [])"
| "rem_indices mx v removed ((i, x) # l) =
     (if removed < mx \<and> x = v then let (r, js) = rem_indices mx v (removed + 1) l in (r, i # js)
      else rem_indices mx v removed l)"

definition remove_at :: "'a list \<Rightarrow> nat \<Rightarrow> 'a list" where
  "remove_at l i = take i l @ drop (Suc i) l"

definition list_rem :: "i64 \<Rightarrow> bytes \<Rightarrow> bytes list \<Rightarrow> int \<times> bytes list" where
  "list_rem cnt v l =
     (if sint cnt \<ge> 0 then retain_rem (lrem_max cnt) v 0 l
      else let (r, js) = rem_indices (lrem_max cnt) v 0 (rev (enumerate 0 l)) in (r, foldl remove_at l js))"

definition cmd_lrem :: handler where
  "cmd_lrem ctx =
     with_arg ctx 1 (\<lambda>key. with_arg ctx 3 (\<lambda>v.
       edit_value key (on_list (\<lambda>l. and_empty (list_rem (int_or ctx 2 0) v l)))
         (\<lambda>(r, e) ctx1. Option.bind (drop_if e key ctx1) (rep_int (word_of_int r)))
         (rep_int 0) ctx))"

text \<open>\<^verbatim>\<open>list.drain(s..=e)\<close> panics when the range leaves the list.\<close>

definition drain_range :: "'a list \<Rightarrow> nat \<Rightarrow> nat \<Rightarrow> 'a list option" where
  "drain_range l s e = (if s \<le> Suc e \<and> e < length l then Some (take (Suc e - s) (drop s l)) else None)"

definition list_trim :: "i64 \<Rightarrow> i64 \<Rightarrow> bytes list \<Rightarrow> bytes list option" where
  "list_trim start stop l =
     (case list_window start stop (length l) of None \<Rightarrow> Some [] | Some (s, e) \<Rightarrow> drain_range l s e)"

definition cmd_ltrim :: handler where
  "cmd_ltrim ctx =
     with_arg ctx 1 (\<lambda>key.
       edit_value key
         (on_list (\<lambda>l. case list_trim (int_or ctx 2 0) (int_or ctx 3 (- 1)) l of
                         Some l' \<Rightarrow> (Some (l' = []), l') | None \<Rightarrow> (None, l)))
         (\<lambda>r ctx1. Option.bind r (\<lambda>e. Option.bind (drop_if e key ctx1) (rep send_ok)))
         (rep send_ok) ctx)"

definition list_insert :: "bool \<Rightarrow> bytes \<Rightarrow> bytes \<Rightarrow> bytes list \<Rightarrow> i64 \<times> bytes list" where
  "list_insert before pivot v l =
     (case position (\<lambda>x. x = pivot) l of
        Some i \<Rightarrow>
          (let at = (if before then i else i + 1); l' = take at l @ v # drop at l in (of_nat (length l'), l'))
      | None \<Rightarrow> (- 1, l))"

definition cmd_linsert :: handler where
  "cmd_linsert ctx =
     with_arg ctx 1 (\<lambda>key. with_arg ctx 2 (\<lambda>_. with_arg ctx 3 (\<lambda>pivot. with_arg ctx 4 (\<lambda>v.
       edit_value key (on_list (list_insert (arg_word ctx 2 = ''BEFORE'') pivot v)) rep_int (rep_int 0) ctx))))"

subsection \<open>Registration\<close>

definition list_commands :: "(bytes \<times> handler \<times> int) list" where
  "list_commands =
     [(''LPUSH'', cmd_lpush, - 3), (''RPUSH'', cmd_rpush, - 3), (''LPOP'', cmd_lpop, - 2), (''RPOP'', cmd_rpop, - 2),
      (''LLEN'', cmd_llen, 2), (''LRANGE'', cmd_lrange, 4), (''LINDEX'', cmd_lindex, 3), (''LSET'', cmd_lset, 4),
      (''LREM'', cmd_lrem, 4), (''LTRIM'', cmd_ltrim, 4), (''LINSERT'', cmd_linsert, 5)]"

definition register_list :: "registry \<Rightarrow> registry" where
  "register_list reg = register_all reg list_commands"

subsection \<open>Every command answers with one reply\<close>

lemma answers_len: "answers (Suc 0) (rep_len n)"
  by (simp add: rep_len_def answers_rep_rules)

lemma answers_push: "answers (Suc 0) (push_command push)"
  by (auto simp: answers_iff push_command_def intro!: kit_answered answers_len)

lemma answers_pop: "answers (Suc 0) (pop_command pop)"
  by (auto simp: answers_iff pop_command_def
      intro!: answered_with_arg answered_edit_value [unfolded answers_iff] answered_drop_last kit_answers
        answers_rep_rules(3) [THEN answered_handler])

lemma answers_list_reads: "answers (Suc 0) cmd_llen" "answers (Suc 0) cmd_lrange" "answers (Suc 0) cmd_lindex"
  by (auto simp: answers_iff cmd_llen_def cmd_lrange_def cmd_lindex_def rep_len_def
      intro!: answered_with_arg answered_bind_opt answered_read_value [unfolded answers_iff] kit_answers [THEN answered_handler])

lemma answers_list_edits: "answers (Suc 0) cmd_lset" "answers (Suc 0) cmd_lrem" "answers (Suc 0) cmd_ltrim"
  "answers (Suc 0) cmd_linsert"
  by (auto simp: answers_iff cmd_lset_def cmd_lrem_def cmd_ltrim_def cmd_linsert_def
      intro!: answered_with_arg answered_bind_opt [where k = "\<lambda>e. Option.bind (drop_if e _ _) _"]
        answered_edit_value [unfolded answers_iff] answered_drop_first kit_answers
        kit_answers [THEN answered_handler])

text \<open>Every list command leaves exactly one value in the reply buffer.\<close>

lemma list_commands_answer: "(name, h, arity) \<in> set list_commands \<Longrightarrow> answers (Suc 0) h"
  by (auto simp: list_commands_def cmd_lpush_def cmd_rpush_def cmd_lpop_def cmd_rpop_def
      intro: answers_push answers_pop answers_list_reads answers_list_edits)

subsection \<open>The operations on lists\<close>

lemma push_eq: "push_front_all vs l = rev vs @ l" "push_back_all vs l = l @ vs"
  unfolding push_front_all_def push_back_all_def by (induction vs arbitrary: l) simp_all

lemma pop_n_front: "n \<le> length l \<Longrightarrow> pop_n pop_front n l = (take n l, drop n l)"
proof (induction n arbitrary: l)
  case (Suc n)
  then show ?case by (cases l) simp_all
qed simp

lemma pop_n_back: "n \<le> length l \<Longrightarrow> pop_n pop_back n l = (take n (rev l), take (length l - n) l)"
proof (induction n arbitrary: l)
  case (Suc n)
  then obtain x l' where l: "l = l' @ [x]" by (cases l rule: rev_cases) auto
  then show ?case using Suc by (simp add: pop_back_def)
qed simp

text \<open>An index counted from the end when it is negative, and the elements between two of them.\<close>

definition norm_index :: "int \<Rightarrow> nat \<Rightarrow> int" where
  "norm_index i len = (if i < 0 then int len + i else i)"

definition range_ref :: "i64 \<Rightarrow> i64 \<Rightarrow> 'a list \<Rightarrow> 'a list" where
  "range_ref start stop l =
     map ((!) l) (filter (\<lambda>i. norm_index (sint start) (length l) \<le> int i \<and> int i \<le> norm_index (sint stop) (length l))
       [0..<length l])"

lemma filter_upt_interval:
  "filter (\<lambda>i. a \<le> int i \<and> int i \<le> b) [0..<n] = [nat a..<min n (nat (b + 1))]"
proof (induction n)
  case (Suc n)
  then show ?case by (cases "nat (b + 1) = n") (auto simp: min_def upt_conv_Cons not_le le_Suc_eq)
qed simp

lemma index_all_upt: "n \<le> length l \<Longrightarrow> index_all l [m..<n] = Some (map ((!) l) [m..<n])"
proof -
  have "\<forall>i \<in> set js. i < length l \<Longrightarrow> index_all l js = Some (map ((!) l) js)" for js
    by (induction js) simp_all
  then show "n \<le> length l \<Longrightarrow> index_all l [m..<n] = Some (map ((!) l) [m..<n])" by simp
qed

lemma drain_range_upt: "e < length l \<Longrightarrow> s \<le> e \<Longrightarrow> drain_range l s e = Some (map ((!) l) [s..<Suc e])"
  by (auto simp: drain_range_def simp del: upt_Suc intro!: nth_equalityI)

lemma sint_i64_bounds: "- (2 ^ 63) \<le> sint (x :: i64)" "sint (x :: i64) < 2 ^ 63"
  using sint_range_size [of x] by (simp_all add: word_size)

lemma list_window_eq:
  assumes "length l < 2 ^ 63" and "- int (length l) \<le> sint stop"
  shows "list_window start stop (length l) =
    (let s = nat (norm_index (sint start) (length l)); n = min (length l) (nat (norm_index (sint stop) (length l) + 1))
     in if s < n then Some (s, n - 1) else None)"
proof (cases "l = []")
  case False
  define len where "len = int (length l)"
  define n where "n = min (length l) (nat (norm_index (sint stop) (length l) + 1))"
  define e where "e = (if sint stop < 0 then max (len + sint stop) 0 else min (sint stop) (len - 1))"
  have len: "0 < len" "len < 2 ^ 63" "length l = nat len" using False assms(1) by (simp_all add: len_def)
  have e: "0 \<le> e" "e < len" using len(1) by (auto simp: e_def)
  have n: "int n = e + 1"
    using len(1) assms(2) unfolding n_def e_def norm_index_def len_def by auto
  have "e mod 2 ^ 64 = e" using e len(2) by simp
  then have em: "nat (e mod 2 ^ 64) = n - 1" using n by simp
  obtain m where n0: "n = Suc m" using n e by (cases n) auto
  have "nat (if sint start < 0 then max (len + sint start) 0 else min (sint start) len)
      = min (nat (norm_index (sint start) (length l))) (length l)"
    unfolding norm_index_def len_def by auto
  then show ?thesis
    unfolding list_window_def len_def [symmetric] e_def [symmetric] em Let_def n_def [symmetric]
    using n0 len(3) e n by (auto simp: min_def)
qed (simp add: list_window_def)

lemma range_window:
  assumes "length l < 2 ^ 63" and "- int (length l) \<le> sint stop"
  shows "lrange start stop l = Some (range_ref start stop l)" and "list_trim start stop l = Some (range_ref start stop l)"
proof -
  define s where "s = nat (norm_index (sint start) (length l))"
  define n where "n = min (length l) (nat (norm_index (sint stop) (length l) + 1))"
  have ref: "range_ref start stop l = map ((!) l) [s..<n]" by (simp add: range_ref_def filter_upt_interval s_def n_def)
  have w: "list_window start stop (length l) = (if s < n then Some (s, n - 1) else None)"
    using list_window_eq [OF assms] by (simp add: Let_def s_def n_def)
  have n: "n \<le> length l" by (simp add: n_def)
  have "lrange start stop l = Some (map ((!) l) [s..<n]) \<and> list_trim start stop l = Some (map ((!) l) [s..<n])"
  proof (cases "s < n")
    case True
    then have "Suc (n - 1) = n" "n - 1 < length l" "s \<le> n - 1" using n by simp_all
    then show ?thesis
      using True index_all_upt [OF n, of s] drain_range_upt [of "n - 1" l s]
      by (simp add: lrange_def list_trim_def w del: upt_Suc)
  qed (simp add: lrange_def list_trim_def w)
  then show "lrange start stop l = Some (range_ref start stop l)" "list_trim start stop l = Some (range_ref start stop l)"
    unfolding ref by blast+
qed

lemma retain_rem_split:
  "retain_rem mx v removed l = (r, l') \<Longrightarrow>
    \<exists>a b. l = a @ b \<and> r = removed + int (count_list a v) \<and> l' = filter (\<lambda>x. x \<noteq> v) a @ b
      \<and> r - removed = max 0 (min (mx - removed) (int (count_list l v)))"
proof (induction mx v removed l arbitrary: r l' rule: retain_rem.induct)
  case (2 mx v removed x l)
  show ?case
  proof (cases "removed < mx \<and> x = v")
    case True
    then obtain a b where ab: "l = a @ b" "r = removed + 1 + int (count_list a v)" "l' = filter (\<lambda>x. x \<noteq> v) a @ b"
      "r - (removed + 1) = max 0 (min (mx - (removed + 1)) (int (count_list l v)))"
      using 2 by fastforce
    then show ?thesis using True by (intro exI [of _ "x # a"] exI [of _ b]) auto
  next
    case False
    then obtain l1 where r: "retain_rem mx v removed l = (r, l1)" "l' = x # l1" using 2(3) by (auto split: prod.splits)
    then obtain a b where ab: "l = a @ b" "r = removed + int (count_list a v)" "l1 = filter (\<lambda>x. x \<noteq> v) a @ b"
      "r - removed = max 0 (min (mx - removed) (int (count_list l v)))"
      using 2(2) [OF False] by blast
    show ?thesis
    proof (cases "x = v")
      case True
      then have "mx \<le> removed" using False by simp
      then have "count_list a v = 0" using ab(2,4) by auto
      then have "filter (\<lambda>x. x \<noteq> v) a = a" by (auto simp: count_list_0_iff intro: filter_True)
      then show ?thesis using ab r(2) True \<open>mx \<le> removed\<close> \<open>count_list a v = 0\<close>
        by (intro exI [of _ "[]"] exI [of _ "x # l"]) auto
    next
      case False
      then show ?thesis using ab r(2) by (intro exI [of _ "x # a"] exI [of _ b]) auto
    qed
  qed
qed simp

lemma remove_at_append: "i < length l \<Longrightarrow> remove_at (l @ z) i = remove_at l i @ z" "length (remove_at l i) \<ge> length l - 1"
  by (auto simp: remove_at_def)

lemma foldl_remove_append:
  assumes "sorted_wrt (>) js" and "\<forall>j \<in> set js. j < length l"
  shows "foldl remove_at (l @ z) js = foldl remove_at l js @ z"
  using assms
proof (induction js arbitrary: l)
  case (Cons j js)
  have "\<forall>i \<in> set js. i < length (remove_at l j)"
    using Cons.prems remove_at_append(2) [of l j] by fastforce
  then show ?case using Cons by (simp add: remove_at_append(1))
qed simp

lemma rem_indices_sorted:
  "sorted_wrt (>) (map fst l) \<Longrightarrow> sorted_wrt (>) (snd (rem_indices mx v removed l)) \<and> set (snd (rem_indices mx v removed l)) \<subseteq> set (map fst l)"
  by (induction mx v removed l rule: rem_indices.induct) (force split: prod.splits)+

lemma enumerate_desc: "sorted_wrt (>) (map fst (rev (enumerate 0 (l :: 'a list))))"
  by (simp add: rev_map [symmetric] enumerate_eq_zip sorted_wrt_rev)

lemma remove_from_tail:
  "(let (r, js) = rem_indices mx v removed (rev (enumerate 0 l)) in (r, foldl remove_at l js))
    = (let (r, l') = retain_rem mx v removed (rev l) in (r, rev l'))"
proof (induction l arbitrary: removed rule: rev_induct)
  case (snoc x l)
  show ?case
  proof (cases "removed < mx \<and> x = v")
    case True
    have "remove_at (l @ [v]) (length l) = l" by (simp add: remove_at_def)
    then show ?thesis
      using snoc [of "removed + 1"] True by (simp add: enumerate_append_eq split: prod.splits)
  next
    case False
    obtain r js where rj: "rem_indices mx v removed (rev (enumerate 0 l)) = (r, js)" by fastforce
    have "sorted_wrt (>) js" "\<forall>j \<in> set js. j < length l"
      using rem_indices_sorted [OF enumerate_desc, of mx v removed l] rj by (auto simp: enumerate_eq_zip dest!: subsetD set_zip_leftD)
    then show ?thesis
      using snoc [of removed] False rj by (auto simp: enumerate_append_eq foldl_remove_append split: prod.splits)
  qed
qed simp

subsection \<open>Properties\<close>

text \<open>C29: LRANGE and LTRIM select exactly the elements whose index lies between the two bounds, negative
  bounds counting from the end, and never panic, as long as the upper bound does not lie before the
  first element.\<close>

theorem list_range_correct:
  assumes "length l < 2 ^ 63" and "- int (length l) \<le> sint stop"
  shows "lrange start stop l = Some (range_ref start stop l) \<and> list_trim start stop l = Some (range_ref start stop l)"
  using range_window [OF assms] by blast

theorem list_range_correct_witness:
  "lrange (- 2) 5 [''a'', ''b'', ''c''] = Some [''b'', ''c'']"
proof -
  have "lrange (- 2) 5 [''a'', ''b'', ''c''] = Some (range_ref (- 2) 5 [''a'', ''b'', ''c''])"
    using list_range_correct [of "[''a'', ''b'', ''c'']" 5 "- 2"] by simp
  moreover have "range_ref (- 2) 5 [''a'', ''b'', ''c''] = [''b'', ''c'']" by code_simp
  ultimately show ?thesis by simp
qed

text \<open>when the upper bound lies before the first element the range is empty, but LRANGE returns
  the first element and LTRIM keeps it.\<close>

theorem list_range_below_start:
  assumes "l \<noteq> []" and "length l < 2 ^ 63" and "sint stop < - int (length l)"
  shows "range_ref 0 stop l = [] \<and> lrange 0 stop l = Some [hd l] \<and> list_trim 0 stop l = Some [hd l]"
proof -
  have w: "list_window 0 stop (length l) = Some (0, 0)"
    using assms by (auto simp: list_window_def Let_def max_def)
  have "filter (\<lambda>i. norm_index (sint (0 :: i64)) (length l) \<le> int i \<and> int i \<le> norm_index (sint stop) (length l)) [0..<length l] = []"
    using assms(3) by (auto simp: norm_index_def filter_empty_conv)
  moreover obtain x l' where "l = x # l'" using assms(1) by (cases l) auto
  ultimately show ?thesis
    using w by (simp add: range_ref_def lrange_def list_trim_def drain_range_def upt_rec)
qed

theorem list_range_below_start_witness:
  "range_ref 0 (- 9) [''a'', ''b''] = [] \<and> lrange 0 (- 9) [''a'', ''b''] = Some [''a'']"
  using list_range_below_start [of "[''a'', ''b'']" "- 9"] by simp


end
