(* ===== verification/Set_Family.thy ===== *)
theory Set_Family
  imports Handler_Kit
begin

text \<open>
  \<^verbatim>\<open>crates/shrikedb-server/src/commands/set_family.rs\<close>: the set commands. A \<^verbatim>\<open>HashSet\<close> is a finite set.
  The order in which the standard library iterates over one is not specified and may change from
  call to call: it is the parameter \<open>set_order\<close>, a function of the shard as well, with the hypothesis
  \<open>order_ok\<close> that it lists every element once.
\<close>

type_synonym set_order = "engine_shard \<Rightarrow> bytes fset \<Rightarrow> bytes list"

definition order_ok :: "set_order \<Rightarrow> bool" where
  "order_ok ord \<longleftrightarrow> (\<forall>sh s. distinct (ord sh s) \<and> set (ord sh s) = fset s)"

definition as_set :: "prime_value \<Rightarrow> bytes fset option" where
  "as_set v = (case v of PV_Set s \<Rightarrow> Some s | _ \<Rightarrow> None)"

definition on_set :: "(bytes fset \<Rightarrow> 'a \<times> bytes fset) \<Rightarrow> prime_value \<Rightarrow> ('a \<times> prime_value) option" where
  "on_set f v = map_option (\<lambda>s. let (a, s') = f s in (a, PV_Set s')) (as_set v)"

fun insert_all :: "bytes list \<Rightarrow> i64 \<Rightarrow> bytes fset \<Rightarrow> i64 \<times> bytes fset" where
  "insert_all [] added s = (added, s)"
| "insert_all (m # ms) added s =
     (if m |\<in>| s then insert_all ms added s else insert_all ms (added + 1) (finsert m s))"

fun remove_all :: "bytes list \<Rightarrow> i64 \<Rightarrow> bytes fset \<Rightarrow> i64 \<times> bytes fset" where
  "remove_all [] removed s = (removed, s)"
| "remove_all (m # ms) removed s =
     (if m |\<in>| s then remove_all ms (removed + 1) (s |-| {|m|}) else remove_all ms removed s)"

definition cmd_sadd :: handler where
  "cmd_sadd ctx =
     with_arg ctx 1 (\<lambda>key. Option.bind (args_from ctx 2) (\<lambda>ms.
       upsert key (on_set (insert_all ms 0)) (map_prod id PV_Set (insert_all ms 0 {||})) rep_int ctx))"

definition cmd_srem :: handler where
  "cmd_srem ctx =
     with_arg ctx 1 (\<lambda>key. Option.bind (args_from ctx 2) (\<lambda>ms.
       edit_value key (on_set (\<lambda>s. let (n, s') = remove_all ms 0 s in ((n, s' = {||}), s')))
         (\<lambda>(n, e) ctx1. Option.bind (drop_if e key ctx1) (rep_int n)) (rep_int 0) ctx))"

definition cmd_smembers :: "set_order \<Rightarrow> handler" where
  "cmd_smembers ord ctx =
     with_arg ctx 1 (\<lambda>key.
       read_value key as_set
         (\<lambda>s ctx1. Option.bind (rep_array_len (fcard s) ctx1) (rep_bulks (ord (cc_shard ctx1) s)))
         (rep_array_len 0) ctx)"

definition bool_int :: "bool \<Rightarrow> i64" where
  "bool_int b = (if b then 1 else 0)"

definition cmd_sismember :: handler where
  "cmd_sismember ctx =
     with_arg ctx 1 (\<lambda>key. with_arg ctx 2 (\<lambda>m.
       read_value key as_set (\<lambda>s. rep_int (bool_int (m |\<in>| s))) (rep_int 0) ctx))"

definition cmd_smismember :: handler where
  "cmd_smismember ctx =
     with_arg ctx 1 (\<lambda>key. Option.bind (args_from ctx 2) (\<lambda>ms.
       read_value key as_set (\<lambda>s. rep_int_array (map (\<lambda>m. bool_int (m |\<in>| s)) ms))
         (rep_int_array (map (\<lambda>_. 0) ms)) ctx))"

definition cmd_scard :: handler where
  "cmd_scard ctx = with_arg ctx 1 (\<lambda>key. read_value key as_set (\<lambda>s. rep_int (of_nat (fcard s))) (rep_int 0) ctx)"

definition first_of :: "'a list \<Rightarrow> 'a option" where
  "first_of l = (case l of [] \<Rightarrow> None | x # _ \<Rightarrow> Some x)"

definition cmd_srandmember :: "set_order \<Rightarrow> handler" where
  "cmd_srandmember ord ctx =
     with_arg ctx 1 (\<lambda>key.
       read_value key as_set (\<lambda>s ctx1. rep_opt (first_of (ord (cc_shard ctx1) s)) ctx1) (rep send_null) ctx)"

definition set_pop :: "bytes list \<Rightarrow> bytes fset \<Rightarrow> (bytes option \<times> bool) \<times> bytes fset" where
  "set_pop l s =
     (case first_of l of
        Some m \<Rightarrow> let s' = s |-| {|m|} in ((Some m, s' = {||}), s')
      | None \<Rightarrow> ((None, False), s))"

definition cmd_spop :: "set_order \<Rightarrow> handler" where
  "cmd_spop ord ctx =
     with_arg ctx 1 (\<lambda>key.
       edit_value key (on_set (\<lambda>s. set_pop (ord (cc_shard ctx) s) s))
         (\<lambda>(m, e) ctx1. Option.bind (drop_if e key ctx1) (rep_opt m)) (rep send_null) ctx)"

subsection \<open>Operations on several sets\<close>

datatype set_op_kind = Inter | Union | Diff

fun apply_op :: "set_op_kind \<Rightarrow> bytes fset \<Rightarrow> bytes fset \<Rightarrow> bytes fset" where
  "apply_op Inter acc s = acc |\<inter>| s"
| "apply_op Union acc s = acc |\<union>| s"
| "apply_op Diff acc s = acc |-| s"

fun gather_sets :: "bytes list \<Rightarrow> bytes fset list \<Rightarrow> (bytes fset list \<Rightarrow> handler) \<Rightarrow> handler" where
  "gather_sets [] sets k ctx = k sets ctx"
| "gather_sets (key # ks) sets k ctx =
     read_value key as_set (\<lambda>s. gather_sets ks (sets @ [s]) k) (gather_sets ks (sets @ [{||}]) k) ctx"

definition set_op :: "set_order \<Rightarrow> set_op_kind \<Rightarrow> handler" where
  "set_op ord op ctx =
     Option.bind (args_from ctx 1) (\<lambda>ks.
       gather_sets ks [] (\<lambda>sets ctx1.
         case sets of
           [] \<Rightarrow> rep_array_len 0 ctx1
         | s # ss \<Rightarrow>
            (let result = foldl (apply_op op) s ss in
             Option.bind (rep_array_len (fcard result) ctx1) (rep_bulks (ord (cc_shard ctx1) result)))) ctx)"

definition cmd_sinter :: "set_order \<Rightarrow> handler" where "cmd_sinter ord = set_op ord Inter"

definition cmd_sunion :: "set_order \<Rightarrow> handler" where "cmd_sunion ord = set_op ord Union"

definition cmd_sdiff :: "set_order \<Rightarrow> handler" where "cmd_sdiff ord = set_op ord Diff"

subsection \<open>Registration\<close>

definition set_commands :: "set_order \<Rightarrow> (bytes \<times> handler \<times> int) list" where
  "set_commands ord =
     [(''SADD'', cmd_sadd, - 3), (''SREM'', cmd_srem, - 3), (''SMEMBERS'', cmd_smembers ord, 2),
      (''SISMEMBER'', cmd_sismember, 3), (''SMISMEMBER'', cmd_smismember, - 3), (''SCARD'', cmd_scard, 2),
      (''SRANDMEMBER'', cmd_srandmember ord, - 2), (''SPOP'', cmd_spop ord, - 2), (''SINTER'', cmd_sinter ord, - 2),
      (''SUNION'', cmd_sunion ord, - 2), (''SDIFF'', cmd_sdiff ord, - 2)]"

definition register_set :: "set_order \<Rightarrow> registry \<Rightarrow> registry" where
  "register_set ord reg = register_all reg (set_commands ord)"

subsection \<open>Every command answers with one reply\<close>

lemma order_length: "order_ok ord \<Longrightarrow> length (ord sh s) = fcard s"
  using distinct_card [of "ord sh s"] by (simp add: order_ok_def fcard.rep_eq)

lemma answers_listing:
  "answers (Suc 0) (\<lambda>ctx. Option.bind (rep_array_len (fcard s) ctx) (rep_bulks (ord (cc_shard ctx) s)))"
  if "order_ok ord"
  unfolding answers_iff
proof
  fix ctx
  show "answered (Suc 0) ctx (Option.bind (rep_array_len (fcard s) ctx) (rep_bulks (ord (cc_shard ctx) s)))"
    using answers_rep_array(1) [of "ord (cc_shard ctx) s", THEN answered_handler, of ctx ctx] order_length [OF that]
    by (simp add: rep_array_def)
qed

lemma answers_set_edits: "answers (Suc 0) cmd_sadd" "answers (Suc 0) cmd_srem" "answers (Suc 0) (cmd_spop ord)"
  by (auto simp: answers_iff cmd_sadd_def cmd_srem_def cmd_spop_def
      intro!: answered_with_arg answered_bind_opt [where r = "args_from _ _"] answered_upsert
        answered_edit_value [unfolded answers_iff] answered_drop_first kit_answers kit_answers [THEN answered_handler])

lemma answers_set_reads: "answers (Suc 0) cmd_sismember" "answers (Suc 0) cmd_smismember" "answers (Suc 0) cmd_scard"
  "answers (Suc 0) (cmd_srandmember ord)"
  by (auto simp: answers_iff cmd_sismember_def cmd_smismember_def cmd_scard_def cmd_srandmember_def
      intro!: answered_with_arg answered_bind_opt answered_read_value [unfolded answers_iff] kit_answers [THEN answered_handler])

lemma answers_smembers: "order_ok ord \<Longrightarrow> answers (Suc 0) (cmd_smembers ord)"
  by (auto simp: answers_iff cmd_smembers_def
      intro!: answered_with_arg answered_read_value answers_listing kit_answers)

lemma answers_gather:
  assumes "\<And>ss. answers (Suc 0) (k ss)"
  shows "answers (Suc 0) (gather_sets ks sets k)"
proof (induction ks arbitrary: sets)
  case (Cons key ks)
  show ?case unfolding answers_iff gather_sets.simps by (intro allI answered_read_value Cons.IH refl)
qed (simp add: answers_iff assms [unfolded answers_iff])

lemma answers_set_op:
  assumes "order_ok ord"
  shows "answers (Suc 0) (set_op ord op)"
proof -
  have "answers (Suc 0) (\<lambda>ctx1. case ss of [] \<Rightarrow> rep_array_len 0 ctx1 | s # ss \<Rightarrow>
      (let result = foldl (apply_op op) s ss in
       Option.bind (rep_array_len (fcard result) ctx1) (rep_bulks (ord (cc_shard ctx1) result))))" for ss
    by (cases ss) (simp_all add: Let_def answers_empty_array answers_listing [OF assms])
  then show ?thesis
    unfolding answers_iff [of _ "set_op ord op"] set_op_def
    by (intro allI answered_bind_opt answers_gather [THEN answered_handler] refl)
qed

text \<open>Every set command leaves exactly one value in the reply buffer.\<close>

lemma set_commands_answer: "order_ok ord \<Longrightarrow> (name, h, arity) \<in> set (set_commands ord) \<Longrightarrow> answers (Suc 0) h"
  by (auto simp: set_commands_def cmd_sinter_def cmd_sunion_def cmd_sdiff_def
      intro: answers_set_edits answers_set_reads answers_smembers answers_set_op)

subsection \<open>The operations on sets\<close>

lemma insert_all_eq: "insert_all ms n s = (n + of_nat (card (set ms - fset s)), s |\<union>| fset_of_list ms)"
proof (induction ms arbitrary: n s)
  case (Cons m ms)
  have "set ms - insert m (fset s) = (set ms - fset s) - {m}" by auto
  moreover have "card (set (m # ms) - fset s) = Suc (card (set ms - fset s - {m}))" if "m |\<notin>| s"
    using that card.insert_remove [of "set ms - fset s" m] by (simp add: insert_Diff_if)
  ultimately show ?case using Cons by (auto simp: insert_Diff_if)
qed simp

lemma remove_all_eq: "remove_all ms n s = (n + of_nat (card (set ms \<inter> fset s)), s |-| fset_of_list ms)"
proof (induction ms arbitrary: n s)
  case (Cons m ms)
  show ?case
  proof (cases "m |\<in>| s")
    case True
    have "set ms \<inter> (fset s - {m}) = (set ms \<inter> fset s) - {m}" by auto
    moreover have "card (set (m # ms) \<inter> fset s) = Suc (card (set ms \<inter> fset s - {m}))"
      using True card.insert_remove [of "set ms \<inter> fset s" m] by simp
    moreover have "s |-| {|m|} |-| fset_of_list ms = s |-| finsert m (fset_of_list ms)" by auto
    ultimately show ?thesis using Cons True by simp
  next
    case False
    then have "s |-| fset_of_list ms = s |-| finsert m (fset_of_list ms)" by auto
    then show ?thesis using Cons False by simp
  qed
qed simp

text \<open>C33: SADD stores exactly the union with the new members and SREM the difference, and each reports
  how many members that added or removed; SINTER, SUNION and SDIFF over several sets return the
  members of all sets, of any set, and of the first set but none of the others.\<close>

theorem set_commands_correct:
  "insert_all ms 0 s = (of_nat (card (set ms - fset s)), s |\<union>| fset_of_list ms)
   \<and> remove_all ms 0 s = (of_nat (card (set ms \<inter> fset s)), s |-| fset_of_list ms)
   \<and> fset (foldl (apply_op Inter) s ss) = \<Inter> (fset ` set (s # ss))
   \<and> fset (foldl (apply_op Union) s ss) = \<Union> (fset ` set (s # ss))
   \<and> fset (foldl (apply_op Diff) s ss) = fset s - \<Union> (fset ` set ss)"
proof -
  have "fset (foldl (apply_op Inter) s ss) = \<Inter> (fset ` set (s # ss))"
    by (induction ss arbitrary: s) auto
  moreover have "fset (foldl (apply_op Union) s ss) = \<Union> (fset ` set (s # ss))"
    by (induction ss arbitrary: s) auto
  moreover have "fset (foldl (apply_op Diff) s ss) = fset s - \<Union> (fset ` set ss)"
    by (induction ss arbitrary: s) auto
  ultimately show ?thesis by (simp add: insert_all_eq remove_all_eq)
qed

end
