(* ===== verification/Hash_Family.thy ===== *)
theory Hash_Family
  imports Set_Family Rust_Float
begin

text \<open>
  \<^verbatim>\<open>crates/shrikedb-server/src/commands/hash_family.rs\<close>: the hash commands. A \<^verbatim>\<open>HashMap\<close> is a finite map;
  its iteration order is the parameter \<open>map_order\<close>, as for sets.
\<close>

type_synonym map_order = "engine_shard \<Rightarrow> (bytes, bytes) fmap \<Rightarrow> (bytes \<times> bytes) list"

definition map_order_ok :: "map_order \<Rightarrow> bool" where
  "map_order_ok ord \<longleftrightarrow> (\<forall>sh m. distinct (map fst (ord sh m)) \<and> map_of (ord sh m) = fmlookup m)"

definition as_hash :: "prime_value \<Rightarrow> (bytes, bytes) fmap option" where
  "as_hash v = (case v of PV_Hash m \<Rightarrow> Some m | _ \<Rightarrow> None)"

definition on_hash ::
  "((bytes, bytes) fmap \<Rightarrow> 'a \<times> (bytes, bytes) fmap) \<Rightarrow> prime_value \<Rightarrow> ('a \<times> prime_value) option" where
  "on_hash f v = map_option (\<lambda>m. let (a, m') = f m in (a, PV_Hash m')) (as_hash v)"

definition map_len :: "('k, 'v) fmap \<Rightarrow> nat" where
  "map_len m = fcard (fmdom m)"

subsection \<open>Writing\<close>

fun hset_loop :: "(bytes \<times> bytes) list \<Rightarrow> i64 \<Rightarrow> (bytes, bytes) fmap \<Rightarrow> i64 \<times> (bytes, bytes) fmap" where
  "hset_loop [] added m = (added, m)"
| "hset_loop ((f, v) # fvs) added m =
     hset_loop fvs (if fmlookup m f = None then added + 1 else added) (fmupd f v m)"

definition quoted_arity_error :: "bytes \<Rightarrow> bytes" where
  "quoted_arity_error name = ''wrong number of arguments for '' @ [CHR 0x27] @ name @ [CHR 0x27] @ '' command''"

text \<open>The common part of HSET and HMSET; the subtraction is checked by the arity.\<close>

definition hset_command :: "bytes \<Rightarrow> (i64 \<Rightarrow> handler) \<Rightarrow> handler" where
  "hset_command name k ctx =
     with_arg ctx 1 (\<lambda>key.
       if (length (cc_args ctx) - 2) mod 2 \<noteq> 0 then rep_err (quoted_arity_error name) ctx
       else
         Option.bind (args_from ctx 2) (\<lambda>as.
           upsert key (on_hash (hset_loop (pairs_of as) 0)) (map_prod id PV_Hash (hset_loop (pairs_of as) 0 fmempty)) k ctx))"

definition cmd_hset :: handler where
  "cmd_hset = hset_command ''hset'' rep_int"

definition cmd_hmset :: handler where
  "cmd_hmset = hset_command ''hmset'' (\<lambda>_. rep send_ok)"

definition hsetnx :: "bytes \<Rightarrow> bytes \<Rightarrow> (bytes, bytes) fmap \<Rightarrow> i64 \<times> (bytes, bytes) fmap" where
  "hsetnx f v m = (if fmlookup m f \<noteq> None then (0, m) else (1, fmupd f v m))"

definition cmd_hsetnx :: handler where
  "cmd_hsetnx ctx =
     with_arg ctx 1 (\<lambda>key. with_arg ctx 2 (\<lambda>f. with_arg ctx 3 (\<lambda>v.
       upsert key (on_hash (hsetnx f v)) (1, PV_Hash (fmupd f v fmempty)) rep_int ctx)))"

fun hdel_loop :: "bytes list \<Rightarrow> i64 \<Rightarrow> (bytes, bytes) fmap \<Rightarrow> i64 \<times> (bytes, bytes) fmap" where
  "hdel_loop [] removed m = (removed, m)"
| "hdel_loop (f # fs) removed m =
     hdel_loop fs (if fmlookup m f \<noteq> None then removed + 1 else removed) (fmdrop f m)"

definition cmd_hdel :: handler where
  "cmd_hdel ctx =
     with_arg ctx 1 (\<lambda>key. Option.bind (args_from ctx 2) (\<lambda>fs.
       edit_value key (on_hash (\<lambda>m. let (n, m') = hdel_loop fs 0 m in ((n, m' = fmempty), m')))
         (\<lambda>(n, e) ctx1. Option.bind (drop_if e key ctx1) (rep_int n)) (rep_int 0) ctx))"

subsection \<open>Reading\<close>

definition cmd_hget :: handler where
  "cmd_hget ctx =
     with_arg ctx 1 (\<lambda>key. with_arg ctx 2 (\<lambda>f.
       read_value key as_hash (\<lambda>m. rep_opt (fmlookup m f)) (rep send_null) ctx))"

definition cmd_hexists :: handler where
  "cmd_hexists ctx =
     with_arg ctx 1 (\<lambda>key. with_arg ctx 2 (\<lambda>f.
       read_value key as_hash (\<lambda>m. rep_int (bool_int (fmlookup m f \<noteq> None))) (rep_int 0) ctx))"

text \<open>An announced length, then what \<open>sel\<close> picks of every entry in iteration order.\<close>

definition list_hash :: "map_order \<Rightarrow> nat \<Rightarrow> (bytes \<times> bytes \<Rightarrow> bytes list) \<Rightarrow> handler" where
  "list_hash ord scale sel ctx =
     with_arg ctx 1 (\<lambda>key.
       read_value key as_hash
         (\<lambda>m ctx1. Option.bind (rep_array_len (map_len m * scale) ctx1)
            (rep_bulks (concat (map sel (ord (cc_shard ctx1) m)))))
         (rep_array_len 0) ctx)"

definition cmd_hgetall :: "map_order \<Rightarrow> handler" where
  "cmd_hgetall ord = list_hash ord 2 (\<lambda>(f, v). [f, v])"

definition cmd_hkeys :: "map_order \<Rightarrow> handler" where
  "cmd_hkeys ord = list_hash ord 1 (\<lambda>(f, v). [f])"

definition cmd_hvals :: "map_order \<Rightarrow> handler" where
  "cmd_hvals ord = list_hash ord 1 (\<lambda>(f, v). [v])"

definition cmd_hlen :: handler where
  "cmd_hlen ctx = with_arg ctx 1 (\<lambda>key. read_value key as_hash (\<lambda>m. rep_int (of_nat (map_len m))) (rep_int 0) ctx)"

definition cmd_hmget :: handler where
  "cmd_hmget ctx =
     with_arg ctx 1 (\<lambda>key. Option.bind (args_from ctx 2) (\<lambda>fs.
       read_value key as_hash (\<lambda>m. rep_opt_array (map (fmlookup m) fs)) (rep_opt_array (map (\<lambda>_. None) fs)) ctx))"

subsection \<open>Numbers\<close>

definition field_int :: "(bytes, bytes) fmap \<Rightarrow> bytes \<Rightarrow> i64" where
  "field_int m f =
     (case Option.bind (fmlookup m f) (\<lambda>v. Option.bind (from_utf8 v) parse_i64) of Some n \<Rightarrow> n | None \<Rightarrow> 0)"

text \<open>\<^verbatim>\<open>current + delta\<close> is not checked: it wraps around.\<close>

definition hincrby :: "bytes \<Rightarrow> i64 \<Rightarrow> (bytes, bytes) fmap \<Rightarrow> i64 \<times> (bytes, bytes) fmap" where
  "hincrby f delta m = (let n = field_int m f + delta in (n, fmupd f (i64_to_string n) m))"

definition cmd_hincrby :: handler where
  "cmd_hincrby ctx =
     with_arg ctx 1 (\<lambda>key. with_arg ctx 2 (\<lambda>f.
       case Option.bind (arg_str ctx 3) parse_i64 of
         None \<Rightarrow> rep_err ERR_INT ctx
       | Some delta \<Rightarrow>
           upsert key (on_hash (hincrby f delta)) (delta, PV_Hash (fmupd f (i64_to_string delta) fmempty)) rep_int ctx))"

definition field_float :: "float_text \<Rightarrow> (bytes, bytes) fmap \<Rightarrow> bytes \<Rightarrow> f64" where
  "field_float ft m f =
     (case Option.bind (fmlookup m f) (\<lambda>v. Option.bind (from_utf8 v) (f_parse ft)) of Some x \<Rightarrow> x | None \<Rightarrow> 0)"

definition hincrbyfloat :: "float_text \<Rightarrow> bytes \<Rightarrow> f64 \<Rightarrow> (bytes, bytes) fmap \<Rightarrow> bytes \<times> (bytes, bytes) fmap" where
  "hincrbyfloat ft f delta m = (let s = f_show ft (f_add (field_float ft m f) delta) in (s, fmupd f s m))"

definition cmd_hincrbyfloat :: "float_text \<Rightarrow> handler" where
  "cmd_hincrbyfloat ft ctx =
     with_arg ctx 1 (\<lambda>key. with_arg ctx 2 (\<lambda>f.
       case Option.bind (arg_str ctx 3) (f_parse ft) of
         None \<Rightarrow> rep_err ''value is not a valid float'' ctx
       | Some delta \<Rightarrow>
           if \<not> is_finite delta then rep_err ''value is not a valid float'' ctx
           else
             upsert key (on_hash (hincrbyfloat ft f delta))
               (f_show ft delta, PV_Hash (fmupd f (f_show ft delta) fmempty)) rep_bulk ctx))"

subsection \<open>Registration\<close>

definition hash_commands :: "float_text \<Rightarrow> map_order \<Rightarrow> (bytes \<times> handler \<times> int) list" where
  "hash_commands ft ord =
     [(''HSET'', cmd_hset, - 4), (''HGET'', cmd_hget, 3), (''HDEL'', cmd_hdel, - 3), (''HEXISTS'', cmd_hexists, 3),
      (''HGETALL'', cmd_hgetall ord, 2), (''HKEYS'', cmd_hkeys ord, 2), (''HVALS'', cmd_hvals ord, 2),
      (''HLEN'', cmd_hlen, 2), (''HMSET'', cmd_hmset, - 4), (''HMGET'', cmd_hmget, - 3),
      (''HINCRBY'', cmd_hincrby, 4), (''HINCRBYFLOAT'', cmd_hincrbyfloat ft, 4), (''HSETNX'', cmd_hsetnx, 4)]"

definition register_hash :: "float_text \<Rightarrow> map_order \<Rightarrow> registry \<Rightarrow> registry" where
  "register_hash ft ord reg = register_all reg (hash_commands ft ord)"

subsection \<open>Every command answers with one reply\<close>

lemma one_line_append [simp]: "one_line (a @ b) \<longleftrightarrow> one_line a \<and> one_line b"
  by (auto simp: one_line_def)

lemma one_line_arity [simp]: "one_line (quoted_arity_error name) \<longleftrightarrow> one_line name"
  by (simp add: quoted_arity_error_def)

lemma answers_hset_command:
  "(\<And>n. answers (Suc 0) (k n)) \<Longrightarrow> one_line name \<Longrightarrow> answers (Suc 0) (hset_command name k)"
  by (auto simp: answers_iff [of _ "hset_command name k"] hset_command_def
      intro!: answered_with_arg answered_bind_opt answered_upsert answers_err [THEN answered_handler])

lemma answers_hash_edits: "answers (Suc 0) cmd_hsetnx" "answers (Suc 0) cmd_hdel" "answers (Suc 0) cmd_hincrby"
  "answers (Suc 0) (cmd_hincrbyfloat ft)"
  by (auto simp: answers_iff cmd_hsetnx_def cmd_hdel_def cmd_hincrby_def cmd_hincrbyfloat_def split: option.splits
      intro!: answered_with_arg answered_bind_opt [where r = "args_from _ _"] answered_upsert
        answered_edit_value [unfolded answers_iff] answered_drop_first kit_answers kit_answers [THEN answered_handler])

lemma answers_hash_reads: "answers (Suc 0) cmd_hget" "answers (Suc 0) cmd_hexists" "answers (Suc 0) cmd_hlen"
  "answers (Suc 0) cmd_hmget"
  by (auto simp: answers_iff cmd_hget_def cmd_hexists_def cmd_hlen_def cmd_hmget_def
      intro!: answered_with_arg answered_bind_opt answered_read_value [unfolded answers_iff] kit_answers [THEN answered_handler])

lemma map_order_length: "map_order_ok ord \<Longrightarrow> length (ord sh m) = map_len m"
proof -
  assume ok: "map_order_ok ord"
  then have "set (map fst (ord sh m)) = fset (fmdom m)"
    by (metis map_order_ok_def dom_map_of_conv_image_fst fmdom.rep_eq list.set_map)
  then show ?thesis
    using ok distinct_card [of "map fst (ord sh m)"] by (simp add: map_order_ok_def map_len_def fcard.rep_eq)
qed

lemma concat_map_length: "(\<And>x. length (f x) = n) \<Longrightarrow> length (concat (map f xs)) = length xs * n"
  by (induction xs) simp_all

lemma answers_list_hash:
  assumes "map_order_ok ord" and "\<And>e. length (sel e) = scale"
  shows "answers (Suc 0) (list_hash ord scale sel)"
proof -
  have len: "map_len m * scale = length (concat (map sel (ord sh m)))" for sh m
    by (simp add: concat_map_length [OF assms(2)] map_order_length [OF assms(1)])
  have "answers (Suc 0) (\<lambda>ctx1. Option.bind (rep_array_len (map_len m * scale) ctx1)
      (rep_bulks (concat (map sel (ord (cc_shard ctx1) m)))))" for m
    unfolding answers_iff
  proof
    fix ctx
    show "answered (Suc 0) ctx (Option.bind (rep_array_len (map_len m * scale) ctx)
      (rep_bulks (concat (map sel (ord (cc_shard ctx) m)))))"
      unfolding len [of m "cc_shard ctx"]
      using answers_rep_array(1) [THEN answered_handler, of ctx ctx] by (simp only: rep_array_def)
  qed
  then show ?thesis
    by (auto simp: answers_iff [of _ "list_hash ord scale sel"] list_hash_def
        intro!: answered_with_arg answered_read_value answers_empty_array)
qed

text \<open>Every hash command leaves exactly one value in the reply buffer.\<close>

lemma hash_commands_answer:
  "map_order_ok ord \<Longrightarrow> (name, h, arity) \<in> set (hash_commands ft ord) \<Longrightarrow> answers (Suc 0) h"
  by (auto simp: hash_commands_def cmd_hset_def cmd_hmset_def cmd_hgetall_def cmd_hkeys_def cmd_hvals_def
      intro!: answers_hset_command answers_list_hash answers_hash_edits answers_hash_reads answers_rep_rules)

subsection \<open>The operations on hashes\<close>

lemma hset_loop_lookup: "fmlookup (snd (hset_loop fvs n m)) = fmlookup m ++ map_of (rev fvs)"
proof (induction fvs arbitrary: n m)
  case (Cons fv fvs)
  obtain f v where "fv = (f, v)" by fastforce
  then show ?case using Cons by (simp add: map_add_upd_left fun_eq_iff map_add_def split: option.splits)
qed simp

lemma hset_loop_count: "fst (hset_loop fvs n m) = n + of_nat (card (fst ` set fvs - fset (fmdom m)))"
proof (induction fvs arbitrary: n m)
  case (Cons fv fvs)
  obtain f v where fv: "fv = (f, v)" by fastforce
  let ?A = "fst ` set fvs" and ?D = "fset (fmdom m)"
  have new: "fmlookup m f = None \<longleftrightarrow> f \<notin> ?D" by (simp add: fmlookup_dom_iff)
  have "?A - insert f ?D = (?A - ?D) - {f}" by auto
  moreover have "card (insert f ?A - ?D) = Suc (card (?A - ?D - {f}))" if "f \<notin> ?D"
    using that card.insert_remove [of "?A - ?D" f] by (simp add: insert_Diff_if)
  ultimately show ?case using Cons fv new by (auto simp: insert_Diff_if insert_absorb)
qed simp


text \<open>HINCRBY does not check for overflow: a sum above the largest \<^verbatim>\<open>i64\<close> is stored and reported as
  a negative number, where INCRBY answers with an error.\<close>

theorem hash_incr_wraps:
  assumes "fmlookup m f = Some (i64_to_string n)" and "2 ^ 63 \<le> sint n + sint d"
  shows "hincrby f d m = (n + d, fmupd f (i64_to_string (n + d)) m) \<and> sint (n + d) = sint n + sint d - 2 ^ 64"
proof -
  have "field_int m f = n" using assms(1) by (simp add: field_int_def from_utf8_show)
  moreover have "sint (n + d) = sint n + sint d - 2 ^ 64"
  proof -
    let ?x = "sint n + sint d + 2 ^ 63"
    have "?x < 2 ^ 64 + 2 ^ 64" "2 ^ 64 \<le> ?x"
      using assms(2) sint_range_size [of n] sint_range_size [of d] by (simp_all add: word_size)
    then have "?x mod 2 ^ 64 = ?x - 2 ^ 64"
      using mod_pos_pos_trivial [of "?x - 2 ^ 64" "2 ^ 64"] minus_mod_self2 [of ?x "2 ^ 64"] by linarith
    then show ?thesis by (simp add: sint_word_ariths signed_take_bit_eq_take_bit_shift take_bit_eq_mod)
  qed
  ultimately show ?thesis by (simp add: hincrby_def Let_def)
qed

theorem hash_incr_wraps_witness:
  "hincrby ''f'' 1 (fmupd ''f'' (i64_to_string 9223372036854775807) fmempty)
    = (9223372036854775808, fmupd ''f'' (i64_to_string 9223372036854775808) (fmupd ''f'' (i64_to_string 9223372036854775807) fmempty))"
  using hash_incr_wraps [of "fmupd ''f'' (i64_to_string 9223372036854775807) fmempty" "''f''" 9223372036854775807 1] by simp

end
