(* ===== verification/Btree_Map.thy ===== *)
theory Btree_Map
  imports Rust_Float
begin

text \<open>
  The part of \<^verbatim>\<open>std::collections::BTreeMap\<close> that the sorted sets use, as the list of its keys in
  order (the values are unit): a search compares the key with the stored ones from the left and
  stops at the first that is not smaller; inserting an equal key keeps the stored one.

  What these operations do is proved once, in the locale \<open>btree_order\<close>, for every comparison that is
  a linear preorder on the keys that are used.
\<close>

fun bt_insert :: "('a \<Rightarrow> 'a \<Rightarrow> ordering) \<Rightarrow> 'a \<Rightarrow> 'a list \<Rightarrow> 'a list" where
  "bt_insert cmp e [] = [e]"
| "bt_insert cmp e (x # l) =
     (case cmp e x of Less \<Rightarrow> e # x # l | Equal \<Rightarrow> x # l | Greater \<Rightarrow> x # bt_insert cmp e l)"

fun bt_remove :: "('a \<Rightarrow> 'a \<Rightarrow> ordering) \<Rightarrow> 'a \<Rightarrow> 'a list \<Rightarrow> 'a list" where
  "bt_remove cmp e [] = []"
| "bt_remove cmp e (x # l) =
     (case cmp e x of Less \<Rightarrow> x # l | Equal \<Rightarrow> l | Greater \<Rightarrow> x # bt_remove cmp e l)"

definition bt_sorted :: "('a \<Rightarrow> 'a \<Rightarrow> ordering) \<Rightarrow> 'a list \<Rightarrow> bool" where
  "bt_sorted cmp = sorted_wrt (\<lambda>x y. cmp x y = Less)"

locale btree_order =
  fixes cmp :: "'a \<Rightarrow> 'a \<Rightarrow> ordering" and ok :: "'a \<Rightarrow> bool"
  assumes cmp_refl: "ok x \<Longrightarrow> cmp x x = Equal"
    and cmp_flip: "ok x \<Longrightarrow> ok y \<Longrightarrow> cmp x y = Greater \<longleftrightarrow> cmp y x = Less"
    and cmp_less_trans: "ok x \<Longrightarrow> ok y \<Longrightarrow> ok z \<Longrightarrow> cmp x y = Less \<Longrightarrow> cmp y z = Less \<Longrightarrow> cmp x z = Less"
    and cmp_equal_cong: "ok x \<Longrightarrow> ok y \<Longrightarrow> ok z \<Longrightarrow> cmp x y = Equal \<Longrightarrow> cmp x z = cmp y z"
begin

lemma cmp_equal_sym: "ok x \<Longrightarrow> ok y \<Longrightarrow> cmp x y = Equal \<Longrightarrow> cmp y x = Equal"
  using cmp_equal_cong [of x y x] cmp_refl by simp

lemma set_bt_insert:
  assumes "ok e" and "\<forall>x \<in> set l. ok x" and "bt_sorted cmp l"
  shows "set (bt_insert cmp e l) = (if \<exists>x \<in> set l. cmp e x = Equal then set l else insert e (set l))"
  using assms(2,3)
proof (induction l)
  case (Cons x l)
  have srt: "bt_sorted cmp l" "\<forall>y \<in> set l. cmp x y = Less" using Cons.prems(2) by (simp_all add: bt_sorted_def)
  show ?case
  proof (cases "cmp e x")
    case Less
    then have "cmp e y = Less" if "y \<in> set l" for y
      using that srt(2) Cons.prems(1) assms(1) cmp_less_trans [of e x y] by auto
    then show ?thesis using Less by auto
  qed (use Cons srt in \<open>auto simp: insert_commute\<close>)
qed simp

lemma set_bt_remove:
  assumes "ok e" and "\<forall>x \<in> set l. ok x" and "bt_sorted cmp l"
  shows "set (bt_remove cmp e l) = {x \<in> set l. cmp e x \<noteq> Equal}"
  using assms(2,3)
proof (induction l)
  case (Cons x l)
  have srt: "bt_sorted cmp l" "\<forall>y \<in> set l. cmp x y = Less" using Cons.prems(2) by (simp_all add: bt_sorted_def)
  show ?case
  proof (cases "cmp e x")
    case Less
    then have "cmp e y = Less" if "y \<in> set l" for y
      using that srt(2) Cons.prems(1) assms(1) cmp_less_trans [of e x y] by auto
    then show ?thesis using Less by auto
  next
    case Equal
    then have "cmp e y = Less" if "y \<in> set l" for y
      using that srt(2) Cons.prems(1) assms(1) cmp_equal_cong [of e x y] by auto
    then show ?thesis using Equal by auto
  qed (use Cons srt in auto)
qed simp

lemma bt_insert_sorted:
  assumes "ok e" and "\<forall>x \<in> set l. ok x" and "bt_sorted cmp l"
  shows "bt_sorted cmp (bt_insert cmp e l)"
  using assms(2,3)
proof (induction l)
  case (Cons x l)
  have srt: "bt_sorted cmp l" "\<forall>y \<in> set l. cmp x y = Less" using Cons.prems(2) by (simp_all add: bt_sorted_def)
  show ?case
  proof (cases "cmp e x")
    case Less
    then show ?thesis
      using srt Cons.prems assms(1) cmp_less_trans [of e x] by (auto simp: bt_sorted_def)
  next
    case Greater
    then have "cmp x e = Less" using cmp_flip [of e x] Cons.prems(1) assms(1) by simp
    then show ?thesis
      using Greater Cons srt set_bt_insert [OF assms(1), of l] by (auto simp: bt_sorted_def split: if_splits)
  qed (use Cons srt in simp)
qed (simp add: bt_sorted_def)

lemma bt_remove_sorted:
  assumes "ok e" and "\<forall>x \<in> set l. ok x" and "bt_sorted cmp l"
  shows "bt_sorted cmp (bt_remove cmp e l)"
  using assms(2,3)
proof (induction l)
  case (Cons x l)
  have srt: "bt_sorted cmp l" "\<forall>y \<in> set l. cmp x y = Less" using Cons.prems(2) by (simp_all add: bt_sorted_def)
  show ?case
    using Cons srt set_bt_remove [OF assms(1), of l] by (auto simp: bt_sorted_def split: ordering.splits)
qed (simp add: bt_sorted_def)

lemma bt_sorted_distinct:
  assumes "\<forall>x \<in> set l. ok x" and "bt_sorted cmp l"
  shows "distinct l"
  using assms
proof (induction l)
  case (Cons x l)
  then show ?case using cmp_refl [of x] by (auto simp: bt_sorted_def)
qed simp

end

end
