(* ===== verification/Zset_Family.thy ===== *)
theory Zset_Family
  imports Hash_Family List_Family Btree_Map
begin

text \<open>
  \<^verbatim>\<open>crates/shrikedb-server/src/commands/zset_family.rs\<close> and the order of \<^verbatim>\<open>SortedSetEntry\<close> in
  \<^verbatim>\<open>compact_obj.rs\<close>: a sorted set keeps a map from members to scores and the ordered entries.

  The order compares scores and then members, and takes scores that cannot be compared as equal. It
  is a linear preorder as long as no score is NaN, and on such sets the two parts agree: every
  update keeps \<open>zset_ok\<close>. ZADD accepts NaN, though; the list model of the tree is exact for a single
  node then, and for sets without NaN in general.
\<close>

fun cmp_bytes :: "bytes \<Rightarrow> bytes \<Rightarrow> ordering" where
  "cmp_bytes [] [] = Equal"
| "cmp_bytes [] (_ # _) = Less"
| "cmp_bytes (_ # _) [] = Greater"
| "cmp_bytes (a # as) (b # bs) =
     (if byte_val a < byte_val b then Less else if byte_val b < byte_val a then Greater else cmp_bytes as bs)"

definition entry_cmp :: "sorted_set_entry \<Rightarrow> sorted_set_entry \<Rightarrow> ordering" where
  "entry_cmp a b =
     (case (case f_partial_cmp (score a) (score b) of Some o' \<Rightarrow> o' | None \<Rightarrow> Equal) of
        Equal \<Rightarrow> cmp_bytes (member a) (member b)
      | o' \<Rightarrow> o')"

definition entry_eq :: "sorted_set_entry \<Rightarrow> sorted_set_entry \<Rightarrow> bool" where
  "entry_eq a b \<longleftrightarrow> f_eq (score a) (score b) \<and> member a = member b"

type_synonym zset = "(bytes, f64) fmap \<times> sorted_set_entry list"

definition zentry :: "f64 \<Rightarrow> bytes \<Rightarrow> sorted_set_entry" where
  "zentry s m = \<lparr>score = s, member = m\<rparr>"

definition as_zset :: "prime_value \<Rightarrow> zset option" where
  "as_zset v = (case v of PV_ZSet m l \<Rightarrow> Some (m, l) | _ \<Rightarrow> None)"

definition of_zset :: "zset \<Rightarrow> prime_value" where
  "of_zset z = PV_ZSet (fst z) (snd z)"

definition on_zset :: "(zset \<Rightarrow> 'a \<times> zset) \<Rightarrow> prime_value \<Rightarrow> ('a \<times> prime_value) option" where
  "on_zset f v = map_option (\<lambda>z. map_prod id of_zset (f z)) (as_zset v)"

definition new_zset :: zset where
  "new_zset = (fmempty, [])"

definition zset_add :: "bytes \<Rightarrow> f64 \<Rightarrow> zset \<Rightarrow> bool \<times> zset" where
  "zset_add m s z =
     (case fmlookup (fst z) m of
        Some old \<Rightarrow> (False, fmupd m s (fst z), bt_insert entry_cmp (zentry s m) (bt_remove entry_cmp (zentry old m) (snd z)))
      | None \<Rightarrow> (True, fmupd m s (fst z), bt_insert entry_cmp (zentry s m) (snd z)))"

definition zset_remove :: "bytes \<Rightarrow> zset \<Rightarrow> bool \<times> zset" where
  "zset_remove m z =
     (case fmlookup (fst z) m of
        Some s \<Rightarrow> (True, fmdrop m (fst z), bt_remove entry_cmp (zentry s m) (snd z))
      | None \<Rightarrow> (False, z))"

subsection \<open>Writing\<close>

text \<open>The pairs whose score parses; the member of such a pair is read by \<^verbatim>\<open>arg\<close>, which may panic.\<close>

fun zadd_pairs :: "float_text \<Rightarrow> command_context \<Rightarrow> nat list \<Rightarrow> (f64 \<times> bytes) list option" where
  "zadd_pairs ft ctx [] = Some []"
| "zadd_pairs ft ctx (j # js) =
     (case Option.bind (arg_str ctx (2 + j * 2)) (f_parse ft) of
        None \<Rightarrow> zadd_pairs ft ctx js
      | Some s \<Rightarrow>
          Option.bind (arg ctx (3 + j * 2)) (\<lambda>m. map_option ((#) (s, m)) (zadd_pairs ft ctx js)))"

fun zadd_loop :: "(f64 \<times> bytes) list \<Rightarrow> i64 \<Rightarrow> zset \<Rightarrow> i64 \<times> zset" where
  "zadd_loop [] added z = (added, z)"
| "zadd_loop ((s, m) # sms) added z =
     (let (new, z') = zset_add m s z in zadd_loop sms (if new then added + 1 else added) z')"

definition cmd_zadd :: "float_text \<Rightarrow> handler" where
  "cmd_zadd ft ctx =
     with_arg ctx 1 (\<lambda>key.
       if (length (cc_args ctx) - 2) mod 2 \<noteq> 0 then rep_err (quoted_arity_error ''zadd'') ctx
       else
         Option.bind (zadd_pairs ft ctx [0..<(length (cc_args ctx) - 2) div 2]) (\<lambda>sms.
           if length sms \<noteq> (length (cc_args ctx) - 2) div 2 then rep_err ''value is not a valid float'' ctx
           else upsert key (on_zset (zadd_loop sms 0)) (map_prod id of_zset (zadd_loop sms 0 new_zset)) rep_int ctx))"

fun zrem_loop :: "bytes list \<Rightarrow> i64 \<Rightarrow> zset \<Rightarrow> i64 \<times> zset" where
  "zrem_loop [] removed z = (removed, z)"
| "zrem_loop (m # ms) removed z =
     (let (found, z') = zset_remove m z in zrem_loop ms (if found then removed + 1 else removed) z')"

definition cmd_zrem :: handler where
  "cmd_zrem ctx =
     with_arg ctx 1 (\<lambda>key. Option.bind (args_from ctx 2) (\<lambda>ms.
       edit_value key (on_zset (\<lambda>z. let (n, z') = zrem_loop ms 0 z in ((n, fst z' = fmempty), z')))
         (\<lambda>(n, e) ctx1. Option.bind (drop_if e key ctx1) (rep_int n)) (rep_int 0) ctx))"

definition zincrby :: "float_text \<Rightarrow> bytes \<Rightarrow> f64 \<Rightarrow> zset \<Rightarrow> bytes \<times> zset" where
  "zincrby ft m delta z =
     (let s = f_add (case fmlookup (fst z) m of Some old \<Rightarrow> old | None \<Rightarrow> 0) delta
      in (f_show ft s, snd (zset_add m s z)))"

definition cmd_zincrby :: "float_text \<Rightarrow> handler" where
  "cmd_zincrby ft ctx =
     with_arg ctx 1 (\<lambda>key.
       case Option.bind (arg_str ctx 2) (f_parse ft) of
         None \<Rightarrow> rep_err ''value is not a valid float'' ctx
       | Some delta \<Rightarrow>
           with_arg ctx 3 (\<lambda>m.
             upsert key (on_zset (zincrby ft m delta))
               (f_show ft delta, of_zset (snd (zset_add m delta new_zset))) rep_bulk ctx))"

fun zpop_loop :: "bool \<Rightarrow> nat \<Rightarrow> zset \<Rightarrow> sorted_set_entry list \<times> zset" where
  "zpop_loop rev_order 0 z = ([], z)"
| "zpop_loop rev_order (Suc n) z =
     (case snd z of
        [] \<Rightarrow> ([], z)
      | x # l \<Rightarrow>
         (let e = (if rev_order then last (x # l) else x);
              (es, z') = zpop_loop rev_order n (fmdrop (member e) (fst z), bt_remove entry_cmp e (x # l))
          in (e # es, z')))"

definition show_entry :: "float_text \<Rightarrow> sorted_set_entry \<Rightarrow> bytes list" where
  "show_entry ft e = [member e, f_show ft (score e)]"

definition zpop_count :: "command_context \<Rightarrow> nat" where
  "zpop_count ctx =
     (if length (cc_args ctx) > 2
      then (case Option.bind (arg_str ctx 2) parse_u64 of Some n \<Rightarrow> unat n | None \<Rightarrow> 1) else 1)"

definition zpop_impl :: "float_text \<Rightarrow> bool \<Rightarrow> handler" where
  "zpop_impl ft rev_order ctx =
     with_arg ctx 1 (\<lambda>key.
       edit_value key (on_zset (\<lambda>z. let (es, z') = zpop_loop rev_order (zpop_count ctx) z in ((es, fst z' = fmempty), z')))
         (\<lambda>(es, e) ctx1. Option.bind (rep_array (concat (map (show_entry ft) es)) ctx1) (drop_if e key))
         (rep_array_len 0) ctx)"

definition cmd_zpopmin :: "float_text \<Rightarrow> handler" where "cmd_zpopmin ft = zpop_impl ft False"

definition cmd_zpopmax :: "float_text \<Rightarrow> handler" where "cmd_zpopmax ft = zpop_impl ft True"

subsection \<open>Reading\<close>

definition cmd_zscore :: "float_text \<Rightarrow> handler" where
  "cmd_zscore ft ctx =
     with_arg ctx 1 (\<lambda>key. with_arg ctx 2 (\<lambda>m.
       read_value key as_zset (\<lambda>z. rep_opt (map_option (f_show ft) (fmlookup (fst z) m))) (rep send_null) ctx))"

definition cmd_zmscore :: "float_text \<Rightarrow> handler" where
  "cmd_zmscore ft ctx =
     with_arg ctx 1 (\<lambda>key. Option.bind (args_from ctx 2) (\<lambda>ms.
       read_value key as_zset (\<lambda>z. rep_opt_array (map (\<lambda>m. map_option (f_show ft) (fmlookup (fst z) m)) ms))
         (rep_opt_array (map (\<lambda>_. None) ms)) ctx))"

text \<open>The position of the entry, counted from the front or from the back.\<close>

definition zrank :: "bool \<Rightarrow> bytes \<Rightarrow> zset \<Rightarrow> nat option" where
  "zrank rev_order m z =
     map_option (\<lambda>s. length (takeWhile (\<lambda>e. \<not> entry_eq e (zentry s m)) (if rev_order then rev (snd z) else snd z)))
       (fmlookup (fst z) m)"

definition zrank_impl :: "bool \<Rightarrow> handler" where
  "zrank_impl rev_order ctx =
     with_arg ctx 1 (\<lambda>key. with_arg ctx 2 (\<lambda>m.
       read_value key as_zset
         (\<lambda>z. case zrank rev_order m z of Some pos \<Rightarrow> rep_int (of_nat pos) | None \<Rightarrow> rep send_null)
         (rep send_null) ctx))"

definition cmd_zrank :: handler where "cmd_zrank = zrank_impl False"

definition cmd_zrevrank :: handler where "cmd_zrevrank = zrank_impl True"

definition str_int_or :: "command_context \<Rightarrow> nat \<Rightarrow> i64 \<Rightarrow> i64" where
  "str_int_or ctx i d = (case Option.bind (arg_str ctx i) parse_i64 of Some n \<Rightarrow> n | None \<Rightarrow> d)"

definition zrange :: "i64 \<Rightarrow> i64 \<Rightarrow> zset \<Rightarrow> sorted_set_entry list" where
  "zrange start stop z =
     (case list_window start stop (length (snd z)) of
        None \<Rightarrow> []
      | Some (s, e) \<Rightarrow> take (e - s + 1) (drop s (snd z)))"

definition cmd_zrange :: "float_text \<Rightarrow> handler" where
  "cmd_zrange ft ctx =
     with_arg ctx 1 (\<lambda>key.
       read_value key as_zset
         (\<lambda>z. let es = zrange (str_int_or ctx 2 0) (str_int_or ctx 3 (- 1)) z in
              if length (cc_args ctx) > 4 \<and> arg_word ctx 4 = ''WITHSCORES''
              then rep_array (concat (map (show_entry ft) es)) else rep_array (map member es))
         (rep_array_len 0) ctx)"

definition parse_score_bound :: "float_text \<Rightarrow> bytes \<Rightarrow> f64 \<Rightarrow> f64" where
  "parse_score_bound ft s d =
     (if s = ''-inf'' then F_NEG_INFINITY
      else if s = ''+inf'' \<or> s = ''inf'' then F_INFINITY
      else
        (case f_parse ft (if take 1 s = ''('' then drop 1 s else s) of Some x \<Rightarrow> x | None \<Rightarrow> d))"

definition score_bounds :: "float_text \<Rightarrow> command_context \<Rightarrow> f64 \<times> f64" where
  "score_bounds ft ctx =
     (parse_score_bound ft (case arg_str ctx 2 of Some s \<Rightarrow> s | None \<Rightarrow> ''-inf'') F_NEG_INFINITY,
      parse_score_bound ft (case arg_str ctx 3 of Some s \<Rightarrow> s | None \<Rightarrow> ''+inf'') F_INFINITY)"

definition zrange_by_score :: "f64 \<times> f64 \<Rightarrow> zset \<Rightarrow> sorted_set_entry list" where
  "zrange_by_score b z = filter (\<lambda>e. f_le (fst b) (score e) \<and> f_le (score e) (snd b)) (snd z)"

definition cmd_zrangebyscore :: "float_text \<Rightarrow> handler" where
  "cmd_zrangebyscore ft ctx =
     with_arg ctx 1 (\<lambda>key.
       read_value key as_zset (\<lambda>z. rep_array (map member (zrange_by_score (score_bounds ft ctx) z))) (rep_array_len 0) ctx)"

definition cmd_zcount :: "float_text \<Rightarrow> handler" where
  "cmd_zcount ft ctx =
     with_arg ctx 1 (\<lambda>key.
       read_value key as_zset (\<lambda>z. rep_int (of_nat (length (zrange_by_score (score_bounds ft ctx) z)))) (rep_int 0) ctx)"

definition cmd_zcard :: handler where
  "cmd_zcard ctx =
     with_arg ctx 1 (\<lambda>key. read_value key as_zset (\<lambda>z. rep_int (of_nat (map_len (fst z)))) (rep_int 0) ctx)"

subsection \<open>Registration\<close>

definition zset_commands :: "float_text \<Rightarrow> (bytes \<times> handler \<times> int) list" where
  "zset_commands ft =
     [(''ZADD'', cmd_zadd ft, - 4), (''ZREM'', cmd_zrem, - 3), (''ZSCORE'', cmd_zscore ft, 3), (''ZRANK'', cmd_zrank, 3),
      (''ZREVRANK'', cmd_zrevrank, 3), (''ZRANGE'', cmd_zrange ft, - 4), (''ZRANGEBYSCORE'', cmd_zrangebyscore ft, - 4),
      (''ZCARD'', cmd_zcard, 2), (''ZCOUNT'', cmd_zcount ft, 4), (''ZINCRBY'', cmd_zincrby ft, 4),
      (''ZPOPMIN'', cmd_zpopmin ft, - 2), (''ZPOPMAX'', cmd_zpopmax ft, - 2), (''ZMSCORE'', cmd_zmscore ft, - 3)]"

definition register_zset :: "float_text \<Rightarrow> registry \<Rightarrow> registry" where
  "register_zset ft reg = register_all reg (zset_commands ft)"

subsection \<open>Every command answers with one reply\<close>

lemma answers_zset_edits: "answers (Suc 0) (cmd_zadd ft)" "answers (Suc 0) cmd_zrem" "answers (Suc 0) (cmd_zincrby ft)"
  "answers (Suc 0) (zpop_impl ft r)"
  by (auto simp: answers_iff cmd_zadd_def cmd_zrem_def cmd_zincrby_def zpop_impl_def split: option.splits
      intro!: answered_with_arg answered_bind_opt [where r = "args_from _ _"] answered_bind_opt [where r = "zadd_pairs _ _ _"]
        answered_upsert answered_edit_value [unfolded answers_iff] answered_drop_first answered_drop_last
        kit_answers kit_answers [THEN answered_handler])

lemma answers_zset_reads: "answers (Suc 0) (cmd_zscore ft)" "answers (Suc 0) (cmd_zmscore ft)" "answers (Suc 0) (zrank_impl r)"
  "answers (Suc 0) (cmd_zrange ft)" "answers (Suc 0) (cmd_zrangebyscore ft)" "answers (Suc 0) (cmd_zcount ft)"
  "answers (Suc 0) cmd_zcard"
  by (auto simp: answers_iff cmd_zscore_def cmd_zmscore_def zrank_impl_def cmd_zrange_def cmd_zrangebyscore_def
      cmd_zcount_def cmd_zcard_def Let_def split: option.splits
      intro!: answered_with_arg answered_bind_opt answered_read_value [unfolded answers_iff] kit_answers [THEN answered_handler])

text \<open>Every sorted set command leaves exactly one value in the reply buffer.\<close>

lemma zset_commands_answer: "(name, h, arity) \<in> set (zset_commands ft) \<Longrightarrow> answers (Suc 0) h"
  by (auto simp: zset_commands_def cmd_zpopmin_def cmd_zpopmax_def cmd_zrank_def cmd_zrevrank_def
      intro: answers_zset_edits answers_zset_reads)

subsection \<open>The order of the entries\<close>

lemma cmp_bytes_Equal [simp]: "cmp_bytes a b = Equal \<longleftrightarrow> a = b"
  by (induction a b rule: cmp_bytes.induct) auto

lemma cmp_bytes_flip: "cmp_bytes a b = Greater \<longleftrightarrow> cmp_bytes b a = Less"
  by (induction a b rule: cmp_bytes.induct) auto

lemma cmp_bytes_Less_Cons:
  "cmp_bytes (a # as) (b # bs) = Less \<longleftrightarrow> byte_val a < byte_val b \<or> a = b \<and> cmp_bytes as bs = Less"
  by (cases "byte_val a" "byte_val b" rule: linorder_cases) auto

lemma cmp_bytes_trans: "cmp_bytes a b = Less \<Longrightarrow> cmp_bytes b c = Less \<Longrightarrow> cmp_bytes a c = Less"
proof (induction a b arbitrary: c rule: cmp_bytes.induct)
  case (4 a as b bs)
  then obtain d ds where c: "c = d # ds" by (cases c) auto
  then have "byte_val a < byte_val b \<or> a = b \<and> cmp_bytes as bs = Less" "byte_val b < byte_val d \<or> b = d \<and> cmp_bytes bs ds = Less"
    using "4.prems" unfolding c cmp_bytes_Less_Cons by blast+
  moreover have "cmp_bytes as ds = Less" if "a = b" "cmp_bytes as bs = Less" "cmp_bytes bs ds = Less"
    using that "4.IH" by simp
  ultimately show ?case unfolding c cmp_bytes_Less_Cons by auto
next
  case (2 b bs)
  then show ?case by (cases c) simp_all
qed simp_all

text \<open>What the comparison says when neither score is NaN.\<close>

lemma entry_cmp_iff:
  assumes "\<not> is_nan (score a)" and "\<not> is_nan (score b)"
  shows "entry_cmp a b = Less \<longleftrightarrow> f_key (score a) < f_key (score b)
      \<or> f_key (score a) = f_key (score b) \<and> cmp_bytes (member a) (member b) = Less"
    and "entry_cmp a b = Equal \<longleftrightarrow> f_key (score a) = f_key (score b) \<and> member a = member b"
    and "entry_cmp a b = Greater \<longleftrightarrow> f_key (score b) < f_key (score a)
      \<or> f_key (score a) = f_key (score b) \<and> cmp_bytes (member a) (member b) = Greater"
  using assms by (auto simp: entry_cmp_def f_partial_cmp_def cmp_int_def)

interpretation zs: btree_order entry_cmp "\<lambda>e. \<not> is_nan (score e)"
proof unfold_locales
  fix x y z :: sorted_set_entry
  assume x: "\<not> is_nan (score x)"
  show "entry_cmp x x = Equal" using x by (simp add: entry_cmp_iff)
  assume y: "\<not> is_nan (score y)"
  show "entry_cmp x y = Greater \<longleftrightarrow> entry_cmp y x = Less" using x y by (auto simp: entry_cmp_iff cmp_bytes_flip)
  assume z: "\<not> is_nan (score z)"
  show "entry_cmp x z = Less" if "entry_cmp x y = Less" "entry_cmp y z = Less"
    using that x y z by (auto simp: entry_cmp_iff intro: cmp_bytes_trans)
  show "entry_cmp x z = entry_cmp y z" if "entry_cmp x y = Equal"
  proof -
    have "f_key (score x) = f_key (score y)" "member x = member y" using that entry_cmp_iff(2) [OF x y] by simp_all
    then show ?thesis using x y z by (simp add: entry_cmp_def f_partial_cmp_def split: ordering.split)
  qed
qed

subsection \<open>The invariant\<close>

text \<open>The entries are in order, none is NaN, and they are exactly the pairs of the member map.\<close>

definition zset_ok :: "zset \<Rightarrow> bool" where
  "zset_ok z \<longleftrightarrow> bt_sorted entry_cmp (snd z) \<and> (\<forall>e \<in> set (snd z). \<not> is_nan (score e))
     \<and> (\<forall>s m. zentry s m \<in> set (snd z) \<longleftrightarrow> fmlookup (fst z) m = Some s)"

lemma entry_sel [simp]: "score (zentry s m) = s" "member (zentry s m) = m" "zentry (score e) (member e) = e"
  "zentry s m = zentry s' m' \<longleftrightarrow> s = s' \<and> m = m'"
  by (simp_all add: zentry_def)

lemma zset_okD:
  assumes "zset_ok z"
  shows "bt_sorted entry_cmp (snd z)" and "\<forall>e \<in> set (snd z). \<not> is_nan (score e)"
    and "e \<in> set (snd z) \<longleftrightarrow> fmlookup (fst z) (member e) = Some (score e)"
  using assms entry_sel(3) [of e] unfolding zset_ok_def by metis+

lemma zset_ok_new: "zset_ok new_zset"
  by (simp add: zset_ok_def new_zset_def bt_sorted_def)

lemma entry_Equal: "\<not> is_nan s \<Longrightarrow> \<not> is_nan (score e) \<Longrightarrow>
    entry_cmp (zentry s m) e = Equal \<longleftrightarrow> f_key s = f_key (score e) \<and> m = member e"
  by (simp add: entry_cmp_iff)

lemma zset_remove_entry:
  assumes ok: "zset_ok z" and m: "fmlookup (fst z) m = Some old"
  shows "zset_ok (fmdrop m (fst z), bt_remove entry_cmp (zentry old m) (snd z))"
proof -
  note d = zset_okD [OF ok]
  have old: "\<not> is_nan old" using d(2) d(3) [of "zentry old m"] m by auto
  have set: "set (bt_remove entry_cmp (zentry old m) (snd z)) = {e \<in> set (snd z). member e \<noteq> m}"
    unfolding zs.set_bt_remove [of "zentry old m", simplified, OF old d(2,1)]
    using d(2,3) m old by (auto simp: entry_Equal)
  show ?thesis
    using zs.bt_remove_sorted [of "zentry old m", simplified, OF old d(2,1)] d set
    by (auto simp: zset_ok_def)
qed

lemma zset_insert_entry:
  assumes ok: "zset_ok z" and m: "fmlookup (fst z) m = None" and s: "\<not> is_nan s"
  shows "zset_ok (fmupd m s (fst z), bt_insert entry_cmp (zentry s m) (snd z))"
proof -
  note d = zset_okD [OF ok]
  have "\<not> (\<exists>e \<in> set (snd z). entry_cmp (zentry s m) e = Equal)"
    using d(2,3) m s by (auto simp: entry_Equal)
  then have set: "set (bt_insert entry_cmp (zentry s m) (snd z)) = insert (zentry s m) (set (snd z))"
    unfolding zs.set_bt_insert [of "zentry s m", simplified, OF s d(2,1)] by simp
  have "zentry t m \<notin> set (snd z)" for t using d(3) [of "zentry t m"] m by simp
  then show ?thesis
    using zs.bt_insert_sorted [of "zentry s m", simplified, OF s d(2,1)] d set s
    by (auto simp: zset_ok_def)
qed

lemma zset_add_spec:
  assumes ok: "zset_ok z" and s: "\<not> is_nan s" and a: "zset_add m s z = (new, z')"
  shows "zset_ok z'" and "fmlookup (fst z') = (fmlookup (fst z))(m \<mapsto> s)" and "new \<longleftrightarrow> fmlookup (fst z) m = None"
proof -
  have "zset_ok z' \<and> fmlookup (fst z') = (fmlookup (fst z))(m \<mapsto> s) \<and> (new \<longleftrightarrow> fmlookup (fst z) m = None)"
  proof (cases "fmlookup (fst z) m")
    case None
    then show ?thesis using a zset_insert_entry [OF ok None s] by (auto simp: zset_add_def)
  next
    case (Some old)
    have "fmupd m s (fmdrop m (fst z)) = fmupd m s (fst z)" by (intro fmap_ext) auto
    then show ?thesis
      using a Some zset_insert_entry [OF zset_remove_entry [OF ok Some] _ s, of m] by (auto simp: zset_add_def)
  qed
  then show "zset_ok z'" and "fmlookup (fst z') = (fmlookup (fst z))(m \<mapsto> s)" and "new \<longleftrightarrow> fmlookup (fst z) m = None"
    by blast+
qed

lemma zset_remove_spec:
  assumes ok: "zset_ok z" and r: "zset_remove m z = (found, z')"
  shows "zset_ok z'" and "fmlookup (fst z') = (fmlookup (fst z))(m := None)" and "found \<longleftrightarrow> fmlookup (fst z) m \<noteq> None"
  using r ok zset_remove_entry [OF ok, of m] by (auto simp: zset_remove_def split: option.splits)

lemma zadd_loop_spec:
  assumes "zset_ok z" and "\<forall>(s, m) \<in> set sms. \<not> is_nan s"
  shows "zset_ok (snd (zadd_loop sms n z))
    \<and> fmlookup (fst (snd (zadd_loop sms n z))) = fmlookup (fst z) ++ map_of (rev (map prod.swap sms))"
  using assms
proof (induction sms arbitrary: n z)
  case (Cons sm sms)
  obtain s m where sm: "sm = (s, m)" by fastforce
  obtain new z' where a: "zset_add m s z = (new, z')" by (cases "zset_add m s z")
  have s: "\<not> is_nan s" using Cons.prems(2) sm by simp
  note sp = zset_add_spec [OF Cons.prems(1) s a]
  have "zset_ok (snd (zadd_loop sms k z')) \<and> fmlookup (fst (snd (zadd_loop sms k z'))) = fmlookup (fst z') ++ map_of (rev (map prod.swap sms))" for k
    using Cons.IH [OF sp(1)] Cons.prems(2) by simp
  then show ?case using a sm sp(2) by (simp add: map_add_def fun_eq_iff split: option.splits)
qed simp

lemma zrem_loop_spec:
  assumes "zset_ok z"
  shows "zset_ok (snd (zrem_loop ms n z))
    \<and> fmlookup (fst (snd (zrem_loop ms n z))) = fmlookup (fst z) |` (- set ms)"
  using assms
proof (induction ms arbitrary: n z)
  case (Cons m ms)
  obtain f z' where a: "zset_remove m z = (f, z')" by (cases "zset_remove m z")
  note sp = zset_remove_spec [OF Cons.prems a]
  have "zset_ok (snd (zrem_loop ms k z')) \<and> fmlookup (fst (snd (zrem_loop ms k z'))) = fmlookup (fst z') |` (- set ms)" for k
    using Cons.IH [OF sp(1)] by simp
  then show ?case using a sp(2) by (auto simp: restrict_map_def fun_eq_iff)
qed (simp add: restrict_map_def)

lemma bt_remove_ends:
  assumes "zset_ok z"
  shows "snd z = x # l \<Longrightarrow> bt_remove entry_cmp x (x # l) = l"
    and "snd z = l @ [x] \<Longrightarrow> bt_remove entry_cmp x (l @ [x]) = l"
proof -
  note d = zset_okD [OF assms]
  show "snd z = x # l \<Longrightarrow> bt_remove entry_cmp x (x # l) = l" using d(2) zs.cmp_refl [of x] by simp
  have "\<forall>y \<in> set l. entry_cmp x y = Greater \<Longrightarrow> entry_cmp x x = Equal \<Longrightarrow> bt_remove entry_cmp x (l @ [x]) = l" for l
    by (induction l) simp_all
  moreover assume z: "snd z = l @ [x]"
  moreover have "\<forall>y \<in> set l. entry_cmp x y = Greater"
    using d(1,2) zs.cmp_flip z by (auto simp: bt_sorted_def sorted_wrt_append)
  moreover have "entry_cmp x x = Equal" using zs.cmp_refl d(2) z by simp
  ultimately show "bt_remove entry_cmp x (l @ [x]) = l" by blast
qed

lemma zpop_step:
  assumes ok: "zset_ok z" and e: "e \<in> set (snd z)"
  shows "zset_ok (fmdrop (member e) (fst z), bt_remove entry_cmp e (snd z))"
  using zset_remove_entry [OF ok, of "member e" "score e"] zset_okD(3) [OF ok, of e] e by simp

lemma zpop_loop_spec:
  assumes "zset_ok z"
  shows "zset_ok (snd (zpop_loop r n z)) \<and> fst (zpop_loop r n z) = take n (if r then rev (snd z) else snd z)
    \<and> snd (snd (zpop_loop r n z)) = (if r then take (length (snd z) - n) (snd z) else drop n (snd z))"
  using assms
proof (induction n arbitrary: z)
  case (Suc n)
  show ?case
  proof (cases "snd z")
    case (Cons x l)
    define e where "e = (if r then last (x # l) else x)"
    have e: "e \<in> set (snd z)" using Cons by (auto simp: e_def)
    let ?z = "(fmdrop (member e) (fst z), bt_remove entry_cmp e (x # l))"
    have IH: "zset_ok (snd (zpop_loop r n ?z))" "fst (zpop_loop r n ?z) = take n (if r then rev (snd ?z) else snd ?z)"
        "snd (snd (zpop_loop r n ?z)) = (if r then take (length (snd ?z) - n) (snd ?z) else drop n (snd ?z))"
      using Suc.IH [OF zpop_step [OF Suc.prems e]] Cons by auto
    have step: "zpop_loop r (Suc n) z = (e # fst (zpop_loop r n ?z), snd (zpop_loop r n ?z))"
      using Cons by (simp add: e_def Let_def split: prod.splits)
    have rest: "snd ?z = (if r then butlast (x # l) else l)"
    proof (cases r)
      case True
      have xl: "butlast (x # l) @ [last (x # l)] = x # l" by (rule append_butlast_last_id) simp
      have "bt_remove entry_cmp (last (x # l)) (x # l) = butlast (x # l)"
        using bt_remove_ends(2) [OF Suc.prems, of "butlast (x # l)" "last (x # l)"] Cons unfolding xl by blast
      then show ?thesis using True unfolding e_def by (simp only: if_True snd_conv)
    next
      case False
      then show ?thesis using bt_remove_ends(1) [OF Suc.prems Cons] by (simp add: e_def)
    qed
    have rv: "rev (x # l) = last (x # l) # rev (butlast (x # l))"
      by (metis append_butlast_last_id list.distinct(1) rev.simps(2) rev_rev_ident rev_append append_Cons append_Nil)
    show ?thesis
      using IH unfolding step rest Cons
      by (cases r) (auto simp: e_def rv take_butlast butlast_take length_butlast simp del: rev.simps butlast.simps last.simps)
  qed (use Suc.prems in simp)
qed simp

lemma sorted_rank:
  assumes "distinct l" and "sorted_wrt R l" and "l = a @ e # b" and "\<And>x y. x \<in> set l \<Longrightarrow> y \<in> set l \<Longrightarrow> R x y \<Longrightarrow> \<not> R y x"
  shows "card {x \<in> set l. R x e} = length a" and "card {x \<in> set l. R e x} = length b"
proof -
  have "\<not> R e e" using assms(3) assms(4) [of e e] by auto
  then have "{x \<in> set l. R x e} = set a" "{x \<in> set l. R e x} = set b"
    using assms by (auto simp: sorted_wrt_append)
  then show "card {x \<in> set l. R x e} = length a" "card {x \<in> set l. R e x} = length b"
    using assms(1,3) by (simp_all add: distinct_card)
qed

lemma zset_rank_split:
  assumes ok: "zset_ok z" and m: "fmlookup (fst z) m = Some s"
  obtains a b where "snd z = a @ zentry s m # b" and "\<forall>e \<in> set a \<union> set b. \<not> entry_eq e (zentry s m)" and "entry_eq (zentry s m) (zentry s m)"
proof -
  note d = zset_okD [OF ok]
  have "zentry s m \<in> set (snd z)" using d(3) [of "zentry s m"] m by simp
  then obtain a b where ab: "snd z = a @ zentry s m # b" by (auto dest: split_list)
  have "distinct (snd z)" by (rule zs.bt_sorted_distinct [OF d(2,1)])
  moreover have "e = zentry s m" if "e \<in> set (snd z)" "entry_eq e (zentry s m)" for e
    using that d(3) [of e] m entry_sel(3) [of e] by (auto simp: entry_eq_def)
  ultimately have "\<forall>e \<in> set a \<union> set b. \<not> entry_eq e (zentry s m)" using ab by fastforce
  moreover have "entry_eq (zentry s m) (zentry s m)"
    using d(2) ab by (auto simp: entry_eq_def f_eq_def f_partial_cmp_def cmp_int_def)
  ultimately show ?thesis using ab that by blast
qed

subsection \<open>Properties\<close>

text \<open>C17: as long as no score is NaN, the member map and the ordered entries of a sorted set agree and the
  entries stay in order: ZADD and ZINCRBY, ZREM and ZPOPMIN/ZPOPMAX keep the invariant, ZADD sets
  the last score given for each member, ZREM removes the members, and the pops return the first or
  last entries in order.\<close>

theorem zset_invariant:
  assumes "zset_ok z" and "\<forall>(s, m) \<in> set sms. \<not> is_nan s"
  shows "zset_ok (snd (zadd_loop sms 0 z))
    \<and> fmlookup (fst (snd (zadd_loop sms 0 z))) = fmlookup (fst z) ++ map_of (rev (map prod.swap sms))
    \<and> zset_ok (snd (zrem_loop ms 0 z)) \<and> fmlookup (fst (snd (zrem_loop ms 0 z))) = fmlookup (fst z) |` (- set ms)
    \<and> zset_ok (snd (zpop_loop r n z)) \<and> fst (zpop_loop r n z) = take n (if r then rev (snd z) else snd z)"
  using zadd_loop_spec [OF assms] zrem_loop_spec [OF assms(1)] zpop_loop_spec [OF assms(1)] by blast

theorem zset_invariant_witness:
  "zset_ok (snd (zadd_loop [(0x4000000000000000, ''b''), (0x3FF0000000000000, ''a'')] 0 new_zset))"
proof -
  have "\<not> is_nan 0x4000000000000000" "\<not> is_nan 0x3FF0000000000000" by code_simp+
  then show ?thesis
    using zset_invariant [OF zset_ok_new, of "[(0x4000000000000000, ''b''), (0x3FF0000000000000, ''a'')]"] by simp
qed

text \<open>C31: ZRANK is the number of entries before the member in the order of scores and then members, and
  ZREVRANK the number after it.\<close>

theorem zset_rank_correct:
  assumes "zset_ok z" and "fmlookup (fst z) m = Some s"
  shows "zrank False m z = Some (card {e \<in> set (snd z). entry_cmp e (zentry s m) = Less})
    \<and> zrank True m z = Some (card {e \<in> set (snd z). entry_cmp (zentry s m) e = Less})"
proof -
  note d = zset_okD [OF assms(1)]
  obtain a b where ab: "snd z = a @ zentry s m # b" "\<forall>e \<in> set a \<union> set b. \<not> entry_eq e (zentry s m)"
    "entry_eq (zentry s m) (zentry s m)" by (rule zset_rank_split [OF assms])
  have asym: "\<And>x y. x \<in> set (snd z) \<Longrightarrow> y \<in> set (snd z) \<Longrightarrow> entry_cmp x y = Less \<Longrightarrow> \<not> entry_cmp y x = Less"
    using d(2) zs.cmp_flip by (metis ordering.distinct(3))
  note r = sorted_rank [OF zs.bt_sorted_distinct [OF d(2,1)] d(1) [unfolded bt_sorted_def] ab(1) asym]
  have tw: "\<forall>e \<in> set xs. \<not> P e \<Longrightarrow> P y \<Longrightarrow> takeWhile (\<lambda>e. \<not> P e) (xs @ y # ys) = xs"
    for P and y :: sorted_set_entry and xs ys by (induction xs) simp_all
  have "takeWhile (\<lambda>e. \<not> entry_eq e (zentry s m)) (snd z) = a" "takeWhile (\<lambda>e. \<not> entry_eq e (zentry s m)) (rev (snd z)) = rev b"
    unfolding ab(1) using ab(2,3) by (simp_all add: tw)
  moreover have "card {e \<in> set (snd z). entry_cmp e (zentry s m) = Less} = length a"
    "card {e \<in> set (snd z). entry_cmp (zentry s m) e = Less} = length b" by (rule r; assumption)+
  ultimately show ?thesis unfolding zrank_def assms(2) by (simp only: option.map if_True if_False length_rev)
qed

theorem zset_rank_correct_witness:
  "zrank False ''a'' (fmupd ''a'' 0 fmempty, [zentry 0 ''a'']) = Some 0"
proof -
  have "\<not> is_nan 0" by code_simp
  then have "zset_ok (fmupd ''a'' 0 fmempty, [zentry 0 ''a''])" by (simp add: zset_ok_def bt_sorted_def)
  moreover have "entry_cmp (zentry 0 ''a'') (zentry 0 ''a'') = Equal" using \<open>\<not> is_nan 0\<close> by (simp add: entry_cmp_iff)
  ultimately show ?thesis
    using zset_rank_correct [of "(fmupd ''a'' 0 fmempty, [zentry 0 ''a''])" "''a''" 0] by simp
qed

text \<open>a NaN score breaks the agreement: after ZADD of a NaN and two numbers, ZREM of one of the
  numbers drops its member from the map but does not find its entry, which ZRANGE goes on to list.\<close>

theorem zset_nan_breaks:
  "let z = snd (zadd_loop [(F_NAN, ''m''), (0x4014000000000000, ''x''), (0x4018000000000000, ''b'')] 0 new_zset);
       (found, z') = zset_remove ''x'' z
   in found \<and> fmlookup (fst z') ''x'' = None \<and> zentry 0x4014000000000000 ''x'' \<in> set (zrange 0 (- 1) z')"
proof -
  have nan: "is_nan F_NAN" "\<not> is_nan 0x4014000000000000" "\<not> is_nan 0x4018000000000000" by code_simp+
  have lt: "f_key 0x4014000000000000 < f_key 0x4018000000000000" by code_simp
  have b: "byte_val (CHR ''b'') = 98" "byte_val (CHR ''m'') = 109" "byte_val (CHR ''x'') = 120" by code_simp+
  have c: "entry_cmp (zentry 0x4014000000000000 ''x'') (zentry F_NAN ''m'') = Greater"
    "entry_cmp (zentry 0x4018000000000000 ''b'') (zentry F_NAN ''m'') = Less"
    "entry_cmp (zentry 0x4014000000000000 ''x'') (zentry 0x4018000000000000 ''b'') = Less"
    using nan lt b by (simp_all add: entry_cmp_def f_partial_cmp_def cmp_int_def)
  have w: "list_window 0 (- 1) (Suc (Suc (Suc 0))) = Some (0, 2)" by code_simp
  show ?thesis
    by (simp add: zset_add_def zset_remove_def new_zset_def c zrange_def w)
qed

end
