(* ===== verification/Service_Reply.thy ===== *)
theory Service_Reply
  imports String_Family Generic_Family List_Family Set_Family Hash_Family Zset_Family
    "HOL-Library.List_Lexorder" "HOL-Library.Char_ord"
begin

text \<open>
  The parts of \<^verbatim>\<open>crates/shrikedb-server/src/main_service.rs\<close> that the routing layers share: the command
  table, the classification of commands, and the two parsers that read a reply of a shard back so
  that replies of several shards can be merged. What they read is what the reply builder writes.
\<close>

text \<open>The standard library behaviour that the handlers depend on and that is not fixed by the source.\<close>

record runtime =
  rt_text :: float_text
  rt_set :: set_order
  rt_map :: map_order
  rt_lower :: "bytes \<Rightarrow> bytes"

definition build_command_registry :: "runtime \<Rightarrow> registry" where
  "build_command_registry rt =
     register_zset (rt_text rt)
       (register_hash (rt_text rt) (rt_map rt)
         (register_set (rt_set rt)
           (register_list
             (register_string (rt_text rt)
               (register_generic registry_new)))))"

datatype command_type = NoKeys | SingleKey | MultiKeySameHandler | MGet | MSet | Rename | Global

definition classify_command :: "bytes \<Rightarrow> command_entry \<Rightarrow> command_type" where
  "classify_command cmd entry =
     (if cmd \<in> {''DBSIZE'', ''FLUSHDB'', ''FLUSHALL'', ''KEYS'', ''SCAN''} then Global
      else if ce_first_key entry = 0 then NoKeys
      else if cmd \<in> {''DEL'', ''UNLINK'', ''EXISTS''} then MultiKeySameHandler
      else if cmd = ''MGET'' then MGet
      else if cmd \<in> {''MSET'', ''MSETNX''} then MSet
      else if cmd \<in> {''RENAME'', ''RENAMENX''} then Rename
      else SingleKey)"

definition parse_resp_integer :: "bytes \<Rightarrow> i64 option" where
  "parse_resp_integer data =
     (if take 1 data \<noteq> '':'' then None
      else
        (case position (\<lambda>b. b = CHR 0x0D) data of
           None \<Rightarrow> None
         | Some e \<Rightarrow> Option.bind (from_utf8 (drop 1 (take e data))) parse_i64))"

definition skip_line :: "bytes \<Rightarrow> bytes" where
  "skip_line s = drop 1 (dropWhile (\<lambda>b. b \<noteq> CHR 0x0A) s)"

text \<open>\<^verbatim>\<open>from_utf8(..).unwrap_or("-1")\<close> and \<^verbatim>\<open>parse().unwrap_or(-1)\<close>.\<close>

definition elem_len :: "bytes \<Rightarrow> int" where
  "elem_len s =
     (case Option.bind (from_utf8 s) parse_i64 of Some n \<Rightarrow> sint n | None \<Rightarrow> - 1)"

lemma skip_line_shorter: "length (skip_line (c # s)) \<le> length s"
  using length_dropWhile_le [of "\<lambda>b. b \<noteq> CHR 0x0A" "c # s"] by (simp add: skip_line_def)

text \<open>The argument is the rest of the data from \<^verbatim>\<open>pos\<close> on.\<close>

function parse_elems :: "bytes \<Rightarrow> bytes option list" where
  "parse_elems [] = []"
| "parse_elems (c # s) =
     (if c = CHR ''$'' then
        (let ls = takeWhile (\<lambda>b. b \<noteq> CHR 0x0D) s; n = elem_len ls; rest = drop (length ls + 2) s in
         if n < 0 then None # parse_elems rest
         else if length ls + 2 + nat n \<le> length s then Some (take (nat n) rest) # parse_elems (drop (nat n + 2) rest)
         else [])
      else parse_elems (skip_line (c # s)))"
  by pat_completeness auto

termination by (relation "measure length") (use skip_line_shorter in \<open>auto simp: less_Suc_eq_le\<close>)

declare parse_elems.simps [simp del]

definition parse_resp_array :: "bytes \<Rightarrow> bytes option list" where
  "parse_resp_array data = (if take 1 data \<noteq> ''*'' then [] else parse_elems (skip_line data))"

subsection \<open>Reading back what the reply builder writes\<close>

lemma plain_no_crlf: "plain_byte c \<Longrightarrow> c \<noteq> CHR 0x0D \<and> c \<noteq> CHR 0x0A"
  by (auto simp: plain_byte_def is_digit_def byte_val_Char)

lemma to_string_no_crlf: "\<forall>c \<in> set (i64_to_string n). c \<noteq> CHR 0x0D \<and> c \<noteq> CHR 0x0A"
  using i64_to_string_plain plain_no_crlf by blast

lemma parse_resp_integer_int: "parse_resp_integer ('':'' @ i64_to_string n @ CRLF) = Some n"
proof -
  have "position (\<lambda>b. b = CHR 0x0D) ('':'' @ i64_to_string n @ CRLF) = Some (length ('':'' @ i64_to_string n))"
    using position_append [of "'':'' @ i64_to_string n" "\<lambda>b. b = CHR 0x0D" "CHR 0x0D" "[CHR 0x0A]"] to_string_no_crlf [of n]
    by (auto simp: CRLF_def)
  then show ?thesis by (simp add: parse_resp_integer_def from_utf8_show)
qed

lemma skip_line_crlf: "CHR 0x0A \<notin> set a \<Longrightarrow> skip_line (a @ CRLF @ z) = z"
proof -
  assume "CHR 0x0A \<notin> set a"
  then have "dropWhile (\<lambda>b. b \<noteq> CHR 0x0A) (a @ CRLF @ z) = CHR 0x0A # z"
    by (induction a) (auto simp: CRLF_def)
  then show ?thesis by (simp add: skip_line_def)
qed

lemma elem_len_show: "elem_len (i64_to_string n) = sint n"
  by (simp add: elem_len_def from_utf8_show)

lemma parse_elems_head:
  assumes "\<forall>c \<in> set a. c \<noteq> CHR 0x0D"
  shows "parse_elems (''$'' @ a @ CRLF @ z) =
    (if elem_len a < 0 then None # parse_elems z
     else if nat (elem_len a) \<le> length z then Some (take (nat (elem_len a)) z) # parse_elems (drop (nat (elem_len a) + 2) z)
     else [])"
proof -
  have "takeWhile (\<lambda>b. b \<noteq> CHR 0x0D) (a @ CRLF @ z) = a"
    using assms by (induction a) (auto simp: CRLF_def)
  then show ?thesis by (simp add: parse_elems.simps Let_def CRLF_def)
qed

text \<open>The bytes of an optional bulk string.\<close>

definition opt_bulk :: "bytes option \<Rightarrow> bytes" where
  "opt_bulk d = (case d of Some v \<Rightarrow> ''$'' @ i64_to_string (of_nat (length v)) @ CRLF @ v @ CRLF | None \<Rightarrow> ''$-1'' @ CRLF)"

lemma parse_elems_opt:
  assumes "\<And>v. d = Some v \<Longrightarrow> length v < 2 ^ 63"
  shows "parse_elems (opt_bulk d @ z) = d # parse_elems z"
proof (cases d)
  case None
  have "elem_len ''-1'' = - 1" by code_simp
  then show ?thesis using parse_elems_head [of "''-1''" z] None by (simp add: opt_bulk_def)
next
  case (Some v)
  have "sint (of_nat (length v) :: i64) = int (length v)" using assms [OF Some] by (simp add: sint_of_nat_i64)
  then show ?thesis
    using parse_elems_head [of "i64_to_string (of_nat (length v))" "v @ CRLF @ z"] to_string_no_crlf Some
    by (simp add: opt_bulk_def elem_len_show CRLF_def)
qed

lemma parse_elems_opts:
  assumes "\<forall>v. Some v \<in> set ds \<longrightarrow> length v < 2 ^ 63"
  shows "parse_elems (concat (map opt_bulk ds)) = ds"
  using assms by (induction ds) (simp_all add: parse_elems_opt parse_elems.simps(1))

lemma send_opts_buf:
  "itoa_ok (itoa rb) \<Longrightarrow> buf (foldl send_opt rb ds) = buf rb @ concat (map opt_bulk ds) \<and> itoa (foldl send_opt rb ds) = itoa rb"
proof (induction ds arbitrary: rb)
  case (Cons d ds)
  have "buf (send_opt rb d) = buf rb @ opt_bulk d" "itoa (send_opt rb d) = itoa rb"
    using Cons.prems by (auto simp: send_opt_def opt_bulk_def send_bulk_string_def write_int_def itoa_ok_def send_fixed_buf split: option.splits)
  then show ?case using Cons by simp
qed simp


subsection \<open>The command table\<close>

text \<open>
  What the results need of the standard library: iteration lists every element once, and lower case
  never introduces a line break.
\<close>

definition runtime_ok :: "runtime \<Rightarrow> bool" where
  "runtime_ok rt \<longleftrightarrow> order_ok (rt_set rt) \<and> map_order_ok (rt_map rt) \<and> (\<forall>s. one_line s \<longrightarrow> one_line (rt_lower rt s))"

lemma registered_answers:
  assumes "runtime_ok rt" and "build_command_registry rt name = Some e"
  shows "answers (Suc 0) (ce_handler e)"
  using assms
  unfolding build_command_registry_def register_zset_def register_hash_def register_set_def register_list_def register_string_def
  by (auto simp: runtime_ok_def registry_new_def dest!: register_all_lookup register_generic_lookup
      dest: zset_commands_answer hash_commands_answer set_commands_answer list_commands_answer string_commands_answer
        generic_commands_answer)

subsection \<open>One reply per command\<close>

text \<open>A buffer grows by exactly one RESP value.\<close>

definition one_more :: "bytes \<Rightarrow> bytes \<Rightarrow> bool" where
  "one_more data data' \<longleftrightarrow> (\<exists>r. resp_value r \<and> data' = data @ r)"

lemma one_more_appends: "appends (Suc 0) f \<Longrightarrow> itoa_ok (itoa rb) \<Longrightarrow> one_more (buf rb) (buf (f rb))"
  unfolding appends_def one_more_def by (fastforce simp: length_Suc_conv)

lemma one_more_answers:
  assumes "answers (Suc 0) h" and "h ctx = Some ctx'" and "itoa_ok (itoa (cc_reply ctx))"
  shows "one_more (buf (cc_reply ctx)) (buf (cc_reply ctx'))"
  using assms unfolding answers_def one_more_def by (fastforce simp: length_Suc_conv)

lemma to_ascii_uppercase_control: "byte_val d < 32 \<Longrightarrow> to_ascii_uppercase c = d \<longleftrightarrow> c = d"
proof -
  assume d: "byte_val d < 32"
  have "byte_val (to_ascii_uppercase c) \<ge> 65 \<and> byte_val c \<ge> 97 \<or> to_ascii_uppercase c = c"
    using byte_val_less [of c] by (auto simp: to_ascii_uppercase_def)
  then show ?thesis using d by auto
qed

lemma one_line_upper: "one_line (ascii_upper s) \<longleftrightarrow> one_line s"
proof -
  have "to_ascii_uppercase c = CHR 0x0D \<longleftrightarrow> c = CHR 0x0D" "to_ascii_uppercase c = CHR 0x0A \<longleftrightarrow> c = CHR 0x0A" for c
    by (rule to_ascii_uppercase_control; simp add: byte_val_Char)+
  then have "one_line (map to_ascii_uppercase s) \<longleftrightarrow> one_line s" by (induction s) simp_all
  then show ?thesis by (simp add: ascii_upper_def)
qed

lemma dispatch_one_reply:
  assumes rt: "runtime_ok rt" and itoa: "itoa_ok (itoa rb)"
    and name: "\<And>b rest. args = R_String b # rest \<Longrightarrow> one_line b"
    and d: "dispatch (rt_lower rt) (build_command_registry rt) args conn sh rb = Some (keep, conn', sh', rb')"
  shows "one_more (buf rb) (buf rb')"
proof -
  have err: "one_more (buf rb) (buf (send_err rb m))" if "one_line m" for m
    using one_more_appends [OF appends_err [OF that] itoa] .
  have ok: "one_more (buf rb) (buf (send_ok rb))" by (rule one_more_appends [OF appends_line(1) itoa])
  show ?thesis
  proof (cases args)
    case Nil
    then show ?thesis using d err by (auto simp: dispatch_def)
  next
    case (Cons a rest)
    show ?thesis
    proof (cases "expr_as_bytes a")
      case None
      then show ?thesis using d Cons err by (auto simp: dispatch_def)
    next
      case (Some b)
      then have "a = R_String b" by (cases a) simp_all
      then have b: "one_line b" using name Cons by simp
      show ?thesis
      proof (cases "from_utf8 (ascii_upper b)")
        case None
        then show ?thesis using d Cons Some err by (auto simp: dispatch_def Let_def)
      next
        case (Some u)
        then have "one_line (rt_lower rt u)"
          using b rt by (auto simp: from_utf8_def one_line_upper runtime_ok_def split: if_splits)
        then have low: "one_line (''unknown command '' @ [CHR 0x27] @ rt_lower rt u @ [CHR 0x27] @ '', with args beginning with: '')"
          "one_line (''wrong number of arguments for '' @ [CHR 0x27] @ rt_lower rt u @ [CHR 0x27] @ '' command'')"
          by (simp_all add: one_line_append)
        show ?thesis
        proof (cases "build_command_registry rt u")
          case None
          then show ?thesis
            using d Cons \<open>a = R_String b\<close> Some ok err [OF low(1)] by (auto simp: dispatch_def Let_def split: if_splits)
        next
          case (Some e)
          let ?ctx = "\<lparr>cc_args = args, cc_conn = conn, cc_shard = bump_commands sh, cc_reply = rb\<rparr>"
          have "one_more (buf rb) (buf (cc_reply ctx'))" if "ce_handler e ?ctx = Some ctx'" for ctx'
            using one_more_answers [OF registered_answers [OF rt Some] that] itoa by simp
          then show ?thesis
            using d Cons \<open>a = R_String b\<close> Some \<open>from_utf8 (ascii_upper b) = Some u\<close> ok err [OF low(2)]
            by (auto simp: dispatch_def Let_def split: if_splits option.splits)
        qed
      qed
    qed
  qed
qed

subsection \<open>A concrete runtime\<close>

text \<open>Iteration in ascending order and ASCII lower case meet the requirements.\<close>

definition to_ascii_lowercase :: "byte \<Rightarrow> byte" where
  "to_ascii_lowercase c = (if 65 \<le> byte_val c \<and> byte_val c \<le> 90 then char_of (byte_val c + 32) else c)"

definition demo_runtime :: runtime where
  "demo_runtime =
     \<lparr>rt_text = \<lparr>f_parse = (\<lambda>s. map_option f_of_i64 (parse_i64 s)), f_show = (\<lambda>f. i64_to_string (f_to_i64 f)),
                 f_show17 = (\<lambda>f. i64_to_string (f_to_i64 f))\<rparr>,
      rt_set = (\<lambda>_ s. sorted_list_of_fset s),
      rt_map = (\<lambda>_ m. map (\<lambda>k. (k, case fmlookup m k of Some v \<Rightarrow> v | None \<Rightarrow> [])) (sorted_list_of_fset (fmdom m))),
      rt_lower = map to_ascii_lowercase\<rparr>"

lemma demo_runtime_ok: "runtime_ok demo_runtime"
proof -
  have "order_ok (rt_set demo_runtime)" by (simp add: demo_runtime_def order_ok_def sorted_list_of_fset.rep_eq)
  moreover have "map_order_ok (rt_map demo_runtime)"
    unfolding map_order_ok_def
  proof (intro allI conjI ext)
    fix sh and m :: "(bytes, bytes) fmap" and k
    let ?l = "sorted_list_of_fset (fmdom m)"
    show "distinct (map fst (rt_map demo_runtime sh m))"
      by (simp add: demo_runtime_def comp_def sorted_list_of_fset.rep_eq)
    have "map_of (map (\<lambda>k. (k, h k)) xs) k = (if k \<in> set xs then Some (h k) else None)" for h :: "bytes \<Rightarrow> bytes" and xs
      by (induction xs) auto
    then show "map_of (rt_map demo_runtime sh m) k = fmlookup m k"
      by (auto simp: demo_runtime_def sorted_list_of_fset.rep_eq fmlookup_dom_iff split: option.splits)
  qed
  moreover have "one_line (rt_lower demo_runtime s)" if "one_line s" for s
  proof -
    have "to_ascii_lowercase c \<noteq> CHR 0x0D \<and> to_ascii_lowercase c \<noteq> CHR 0x0A" if "c \<noteq> CHR 0x0D" "c \<noteq> CHR 0x0A" for c
    proof -
      have "byte_val (to_ascii_lowercase c) \<ge> 97 \<or> to_ascii_lowercase c = c" by (auto simp: to_ascii_lowercase_def)
      moreover have "byte_val (CHR 0x0D) = 13" "byte_val (CHR 0x0A) = 10" by (simp_all add: byte_val_Char)
      ultimately show ?thesis using that by auto
    qed
    with that show ?thesis by (induction s) (simp_all add: demo_runtime_def)
  qed
  ultimately show ?thesis by (simp add: runtime_ok_def)
qed

text \<open>What the merging code reads from a reply that a shard has written.\<close>

lemma merge_int: "itoa_ok f \<Longrightarrow> parse_resp_integer (buf (send_integer (rb_new f []) n)) = Some n"
  using parse_resp_integer_int [of n] by (simp add: send_integer_buf)

lemma array_buf:
  assumes "itoa_ok f"
  shows "buf (foldl send_opt (send_array_len (rb_new f d) (length ds)) ds)
    = d @ ''*'' @ i64_to_string (of_nat (length ds)) @ CRLF @ concat (map opt_bulk ds)"
  using send_opts_buf [of "send_array_len (rb_new f d) (length ds)" ds] assms
  by (simp add: send_array_len_def write_int_def itoa_ok_def)

lemma merge_array:
  assumes "itoa_ok f" and "\<forall>v. Some v \<in> set ds \<longrightarrow> length v < 2 ^ 63"
  shows "parse_resp_array (buf (foldl send_opt (send_array_len (rb_new f []) (length ds)) ds)) = ds"
proof -
  let ?h = "''*'' @ i64_to_string (of_nat (length ds))"
  have "skip_line (?h @ CRLF @ concat (map opt_bulk ds)) = concat (map opt_bulk ds)"
    using to_string_no_crlf by (intro skip_line_crlf) auto
  then show ?thesis using parse_elems_opts [OF assms(2)] by (simp add: array_buf [OF assms(1)] parse_resp_array_def)
qed

subsection \<open>Properties\<close>

text \<open>C30: the integer and the arrays of strings and nulls that a shard puts into its reply are read back
  unchanged by the code that merges the replies of several shards.\<close>

theorem merge_reads_replies:
  assumes "itoa_ok f" and "length ds < 2 ^ 63" and "\<forall>v. Some v \<in> set ds \<longrightarrow> length v < 2 ^ 63"
  shows "parse_resp_integer (buf (send_integer (rb_new f []) n)) = Some n
    \<and> parse_resp_array (buf (foldl send_opt (send_array_len (rb_new f []) (length ds)) ds)) = ds"
  by (intro conjI merge_int merge_array assms)

theorem merge_reads_replies_witness:
  "parse_resp_array (buf (foldl send_opt (send_array_len (rb_new i64_to_string []) 2) [Some ''a'', None])) = [Some ''a'', None]"
  using merge_reads_replies [of i64_to_string "[Some ''a'', None]" 0] by (simp add: itoa_ok_def flip: numeral_2_eq_2)

text \<open>the arity check compares only the low 16 bits of the number of arguments: a DEL with 32767
  keys is refused as having too few arguments, and a GET with 65538 arguments is accepted.\<close>

theorem arity_check_truncates:
  assumes "length as = 32768" and "length bs = 65538"
  shows "\<not> arity_ok (- 2) as \<and> arity_ok 2 bs"
proof -
  have "argc_i16 as = - 32768" "argc_i16 bs = 2" using assms by (simp_all add: argc_i16_def)
  then show ?thesis by (simp add: arity_ok_def)
qed

theorem arity_check_truncates_witness:
  "\<not> arity_ok (- 2) (replicate 32768 R_Nil) \<and> arity_ok 2 (replicate 65538 R_Nil)"
  by (rule arity_check_truncates) (rule length_replicate)+

text \<open>the name of an unknown command is copied into the error line as it is, so a client that sends
  a name with line breaks receives several replies to one command.\<close>

theorem unknown_command_splits_reply:
  assumes "rt_lower rt (''A'' @ CRLF @ '':1'' @ CRLF @ ''B'') = ''a'' @ CRLF @ '':1'' @ CRLF @ ''b''"
  shows "\<exists>rb'. dispatch (rt_lower rt) (build_command_registry rt) [R_String (''A'' @ CRLF @ '':1'' @ CRLF @ ''B'')] conn sh (rb_new f [])
      = Some (True, conn, sh, rb')
    \<and> buf rb' = (''-ERR unknown command '' @ [CHR 0x27] @ ''a'' @ CRLF) @ ('':1'' @ CRLF)
        @ ''b'' @ [CHR 0x27] @ '', with args beginning with: '' @ CRLF"
proof -
  let ?n = "''A'' @ CRLF @ '':1'' @ CRLF @ ''B''"
  have u: "from_utf8 (ascii_upper ?n) = Some ?n" by code_simp
  have "build_command_registry rt ?n = None"
  proof (rule ccontr)
    assume "build_command_registry rt ?n \<noteq> None"
    then obtain e where "build_command_registry rt ?n = Some e" by blast
    then show False
      unfolding build_command_registry_def register_zset_def register_hash_def register_set_def register_list_def register_string_def
      by (auto simp: registry_new_def CRLF_def zset_commands_def hash_commands_def set_commands_def list_commands_def
          string_commands_def generic_commands_def dest!: register_all_lookup register_generic_lookup)
  qed
  moreover have "?n \<noteq> ''QUIT''" by (simp add: CRLF_def)
  ultimately show ?thesis using u assms by (simp add: dispatch_def Let_def send_fixed_buf)
qed

theorem unknown_command_splits_reply_witness:
  "\<exists>rb'. dispatch (rt_lower demo_runtime) (build_command_registry demo_runtime)
        [R_String (''A'' @ CRLF @ '':1'' @ CRLF @ ''B'')] conn_context_new (engine_shard_new (\<lambda>_ _. 0)) (rb_new i64_to_string [])
      = Some (True, conn_context_new, engine_shard_new (\<lambda>_ _. 0), rb')
    \<and> buf rb' = (''-ERR unknown command '' @ [CHR 0x27] @ ''a'' @ CRLF) @ ('':1'' @ CRLF)
        @ ''b'' @ [CHR 0x27] @ '', with args beginning with: '' @ CRLF"
proof -
  have "map to_ascii_lowercase (''A'' @ CRLF @ '':1'' @ CRLF @ ''B'') = ''a'' @ CRLF @ '':1'' @ CRLF @ ''b''" by code_simp
  then have "rt_lower demo_runtime (''A'' @ CRLF @ '':1'' @ CRLF @ ''B'') = ''a'' @ CRLF @ '':1'' @ CRLF @ ''b''"
    by (simp add: demo_runtime_def)
  from unknown_command_splits_reply [OF this] show ?thesis by blast
qed

end
