(* ===== verification/Cluster.thy ===== *)
theory Cluster
  imports Service_Reply
begin

text \<open>
  \<^verbatim>\<open>crates/shrikedb-server/src/shard_thread.rs\<close>: how a connection that lives on one shard executes a
  command: on its own shard directly, on another shard through that shard's task channel, or on
  several shards with the replies merged.

  A cluster is the list of the shards, \<open>None\<close> for a shard whose thread has ended. A task that another
  shard executes runs in that shard's main loop, so a panic in its handler ends the thread and the
  sender of the reply is dropped; a panic on the own shard ends the connection, which is the result
  \<open>None\<close>. The clock and the iteration order of the \<^verbatim>\<open>HashMap\<close> that groups keys by shard may answer
  differently at every use: they are functions of the number of clock readings so far.
\<close>

record server =
  sv_rt :: runtime
  sv_registry :: registry
  sv_clock :: "nat \<Rightarrow> u64"
  sv_order :: "nat \<Rightarrow> u32 list \<Rightarrow> u32 list"
  sv_itoa :: "i64 \<Rightarrow> bytes"
  sv_shards :: u32

record cluster =
  cl_shards :: "engine_shard option list"
  cl_reads :: nat

definition reply_on :: "server \<Rightarrow> bytes \<Rightarrow> (reply_builder \<Rightarrow> reply_builder) \<Rightarrow> bytes" where
  "reply_on sv data f = buf (f (rb_new (sv_itoa sv) data))"

subsection \<open>Tasks of one shard\<close>

text \<open>
  \<^verbatim>\<open>update_time(now_ms())\<close> and \<^verbatim>\<open>registry.dispatch\<close> on shard \<open>i\<close>. The result is \<open>None\<close> when there is no such
  shard, and its first part is \<open>None\<close> when the shard is not running or its handler panics.
\<close>

definition exec_task ::
  "server \<Rightarrow> nat \<Rightarrow> resp_expr list \<Rightarrow> conn_context \<Rightarrow> bytes \<Rightarrow> cluster \<Rightarrow> ((conn_context \<times> bytes) option \<times> cluster) option" where
  "exec_task sv i args conn data cl =
     (if i < length (cl_shards cl) then
        (case cl_shards cl ! i of
           None \<Rightarrow> Some (None, cl)
         | Some sh \<Rightarrow>
            (let cl1 = cl\<lparr>cl_reads := Suc (cl_reads cl)\<rparr> in
             case dispatch (rt_lower (sv_rt sv)) (sv_registry sv) args conn
                    (engine_shard_update_time sh (sv_clock sv (cl_reads cl))) (rb_new (sv_itoa sv) data) of
               None \<Rightarrow> Some (None, cl1\<lparr>cl_shards := (cl_shards cl)[i := None]\<rparr>)
             | Some (_, conn', sh', rb) \<Rightarrow> Some (Some (conn', buf rb), cl1\<lparr>cl_shards := (cl_shards cl)[i := Some sh']\<rparr>)))
      else None)"

text \<open>On the shard the connection lives on.\<close>

definition exec_local ::
  "server \<Rightarrow> nat \<Rightarrow> resp_expr list \<Rightarrow> conn_context \<Rightarrow> bytes \<Rightarrow> cluster \<Rightarrow> (conn_context \<times> bytes \<times> cluster) option" where
  "exec_local sv i args conn data cl =
     (case exec_task sv i args conn data cl of Some (Some (conn', data'), cl') \<Rightarrow> Some (conn', data', cl') | _ \<Rightarrow> None)"

text \<open>A \<^verbatim>\<open>CrossShardTask\<close> sent to a shard, and the reply or the failure to get one.\<close>

definition exec_remote :: "server \<Rightarrow> u32 \<Rightarrow> resp_expr list \<Rightarrow> u16 \<Rightarrow> cluster \<Rightarrow> (bytes option \<times> cluster) option" where
  "exec_remote sv target args db cl =
     map_option (\<lambda>(r, cl'). (map_option snd r, cl')) (exec_task sv (unat target) args \<lparr>conn_db = db\<rparr> [] cl)"

definition dispatch_remote ::
  "server \<Rightarrow> resp_expr list \<Rightarrow> u16 \<Rightarrow> u32 \<Rightarrow> bytes \<Rightarrow> cluster \<Rightarrow> (bytes \<times> cluster) option" where
  "dispatch_remote sv args db target data cl =
     map_option (\<lambda>(r, cl').
       (case r of Some d \<Rightarrow> data @ d | None \<Rightarrow> reply_on sv data (\<lambda>rb. send_err rb ''shard unavailable''), cl'))
       (exec_remote sv target args db cl)"

text \<open>One command for one shard: local or remote.\<close>

definition route ::
  "server \<Rightarrow> u32 \<Rightarrow> u32 \<Rightarrow> resp_expr list \<Rightarrow> conn_context \<Rightarrow> bytes \<Rightarrow> cluster \<Rightarrow> (conn_context \<times> bytes \<times> cluster) option" where
  "route sv self target args conn data cl =
     (if target = self then exec_local sv (unat self) args conn data cl
      else map_option (\<lambda>(d, cl'). (conn, d, cl')) (dispatch_remote sv args (conn_db conn) target data cl))"

subsection \<open>Grouping by shard\<close>

definition key_bytes :: "resp_expr \<Rightarrow> bytes" where
  "key_bytes e = (case expr_as_bytes e of Some b \<Rightarrow> b | None \<Rightarrow> [])"

definition shard_of :: "server \<Rightarrow> resp_expr \<Rightarrow> u32 option" where
  "shard_of sv e = shard (key_bytes e) (sv_shards sv)"

text \<open>\<^verbatim>\<open>map.entry(sid).or_default().push(x)\<close>.\<close>

fun group_push :: "u32 \<Rightarrow> 'a \<Rightarrow> (u32 \<times> 'a list) list \<Rightarrow> (u32 \<times> 'a list) list" where
  "group_push sid x [] = [(sid, [x])]"
| "group_push sid x ((s, xs) # g) = (if s = sid then (s, xs @ [x]) # g else (s, xs) # group_push sid x g)"

fun group_by :: "server \<Rightarrow> ('a \<Rightarrow> resp_expr) \<Rightarrow> 'a list \<Rightarrow> (u32 \<times> 'a list) list \<Rightarrow> (u32 \<times> 'a list) list option" where
  "group_by sv key [] g = Some g"
| "group_by sv key (x # xs) g = Option.bind (shard_of sv (key x)) (\<lambda>sid. group_by sv key xs (group_push sid x g))"

text \<open>The other shards' groups in the order in which the map happens to be iterated.\<close>

definition remote_groups :: "server \<Rightarrow> u32 \<Rightarrow> cluster \<Rightarrow> (u32 \<times> 'a list) list \<Rightarrow> (u32 \<times> 'a list) list" where
  "remote_groups sv self cl g =
     (let g' = filter (\<lambda>(s, _). s \<noteq> self) g
      in concat (map (\<lambda>s. filter (\<lambda>(t, _). t = s) g') (sv_order sv (cl_reads cl) (map fst g'))))"

text \<open>
  Executing the groups: the own one first, then the tasks of the other shards; \<open>merge\<close> folds the
  replies into the result, \<open>mk\<close> builds the arguments of a task.
\<close>

fun fan_out ::
  "server \<Rightarrow> ('a list \<Rightarrow> resp_expr list) \<Rightarrow> u16 \<Rightarrow> ('b \<Rightarrow> 'a list \<Rightarrow> bytes option \<Rightarrow> 'b) \<Rightarrow> (u32 \<times> 'a list) list \<Rightarrow> 'b \<Rightarrow> cluster
    \<Rightarrow> ('b \<times> cluster) option" where
  "fan_out sv mk db merge [] acc cl = Some (acc, cl)"
| "fan_out sv mk db merge ((sid, xs) # g) acc cl =
     (case exec_remote sv sid (mk xs) db cl of
        None \<Rightarrow> None
      | Some (r, cl') \<Rightarrow> fan_out sv mk db merge g (merge acc xs r) cl')"

definition run_groups ::
  "server \<Rightarrow> u32 \<Rightarrow> ('a list \<Rightarrow> resp_expr list) \<Rightarrow> ('b \<Rightarrow> 'a list \<Rightarrow> bytes option \<Rightarrow> 'b) \<Rightarrow> (u32 \<times> 'a list) list
    \<Rightarrow> conn_context \<Rightarrow> 'b \<Rightarrow> cluster \<Rightarrow> ('b \<times> conn_context \<times> cluster) option" where
  "run_groups sv self mk merge g conn acc cl =
     (case (case map_of g self of
              None \<Rightarrow> Some (acc, conn, cl)
            | Some xs \<Rightarrow> map_option (\<lambda>(conn', d, cl'). (merge acc xs (Some d), conn', cl'))
                           (exec_local sv (unat self) (mk xs) conn [] cl)) of
        None \<Rightarrow> None
      | Some (acc1, conn1, cl1) \<Rightarrow>
          map_option (\<lambda>(acc2, cl2). (acc2, conn1, cl2))
            (fan_out sv mk (conn_db conn1) merge (remote_groups sv self cl1 g) acc1 cl1))"

subsection \<open>Commands with several keys\<close>

definition reply_count :: "bytes option \<Rightarrow> i64" where
  "reply_count r = (case Option.bind r parse_resp_integer of Some n \<Rightarrow> n | None \<Rightarrow> 0)"

definition add_count :: "i64 \<Rightarrow> 'a list \<Rightarrow> bytes option \<Rightarrow> i64" where
  "add_count t xs r = t + reply_count r"

type_synonym command_result = "(conn_context \<times> bytes \<times> cluster) option"

definition dispatch_multi_key_sum :: "server \<Rightarrow> u32 \<Rightarrow> resp_expr list \<Rightarrow> conn_context \<Rightarrow> bytes \<Rightarrow> cluster \<Rightarrow> command_result" where
  "dispatch_multi_key_sum sv self args conn data cl =
     (case args of
        [] \<Rightarrow> None
      | cmd # ks \<Rightarrow>
          Option.bind (group_by sv (\<lambda>x. x) ks []) (\<lambda>g.
            map_option (\<lambda>(t, conn', cl'). (conn', reply_on sv data (\<lambda>rb. send_integer rb t), cl'))
              (run_groups sv self ((#) cmd) add_count g conn 0 cl)))"

definition place_values :: "bytes option list \<Rightarrow> (nat \<times> resp_expr) list \<Rightarrow> bytes option \<Rightarrow> bytes option list" where
  "place_values results kps r =
     (case r of
        None \<Rightarrow> results
      | Some d \<Rightarrow>
         (let vals = parse_resp_array d in
          foldl (\<lambda>rs (idx, pos, _). if idx < length vals then rs[pos := vals ! idx] else rs) results (enumerate 0 kps)))"

definition dispatch_mget :: "server \<Rightarrow> u32 \<Rightarrow> resp_expr list \<Rightarrow> conn_context \<Rightarrow> bytes \<Rightarrow> cluster \<Rightarrow> command_result" where
  "dispatch_mget sv self args conn data cl =
     (let ks = drop 1 args in
      Option.bind (group_by sv snd (enumerate 0 ks) []) (\<lambda>g.
        map_option (\<lambda>(results, conn', cl').
           (conn', reply_on sv data (\<lambda>rb. foldl send_opt (send_array_len rb (length ks)) results), cl'))
          (run_groups sv self (\<lambda>kps. R_String ''MGET'' # map snd kps) place_values g conn
             (replicate (length ks) None) cl)))"

text \<open>The shard of all keys of MSETNX: the outer \<open>None\<close> is a panic, \<open>Some None\<close> stands for different shards.\<close>

fun common_shard :: "server \<Rightarrow> resp_expr list \<Rightarrow> u32 option \<Rightarrow> u32 option option option" where
  "common_shard sv [] target = Some (Some target)"
| "common_shard sv (k # ks) target =
     Option.bind (shard_of sv k) (\<lambda>sid.
       case target of
         None \<Rightarrow> common_shard sv ks (Some sid)
       | Some s \<Rightarrow> if s \<noteq> sid then Some None else common_shard sv ks target)"

definition CROSSSLOT :: bytes where
  "CROSSSLOT = ''CROSSSLOT Keys in request don'' @ [CHR 0x27] @ ''t hash to the same slot''"

definition dispatch_mset :: "server \<Rightarrow> u32 \<Rightarrow> resp_expr list \<Rightarrow> bytes \<Rightarrow> conn_context \<Rightarrow> bytes \<Rightarrow> cluster \<Rightarrow> command_result" where
  "dispatch_mset sv self args cmd_str conn data cl =
     (if (length args - 1) mod 2 \<noteq> 0
      then Some (conn, reply_on sv data (\<lambda>rb. send_err rb (quoted_arity_error (rt_lower (sv_rt sv) cmd_str))), cl)
      else if cmd_str = ''MSETNX'' then
        (case common_shard sv (map fst (pairs_of (drop 1 args))) None of
           None \<Rightarrow> None
         | Some None \<Rightarrow> Some (conn, reply_on sv data (\<lambda>rb. send_err rb CROSSSLOT), cl)
         | Some (Some None) \<Rightarrow> Some (conn, data, cl)
         | Some (Some (Some sid)) \<Rightarrow> route sv self sid args conn data cl)
      else
        Option.bind (group_by sv fst (pairs_of (drop 1 args)) []) (\<lambda>g.
          map_option (\<lambda>(_, conn', cl'). (conn', reply_on sv data send_ok, cl'))
            (run_groups sv self (\<lambda>kvs. R_String ''MSET'' # concat (map (\<lambda>(k, v). [k, v]) kvs))
               (\<lambda>_ _ _. ()) g conn () cl)))"

subsection \<open>Commands for all shards\<close>

fun collect_remote :: "server \<Rightarrow> resp_expr list \<Rightarrow> u16 \<Rightarrow> u32 list \<Rightarrow> cluster \<Rightarrow> (bytes list \<times> cluster) option" where
  "collect_remote sv args db [] cl = Some ([], cl)"
| "collect_remote sv args db (sid # sids) cl =
     (case exec_remote sv sid args db cl of
        None \<Rightarrow> None
      | Some (r, cl') \<Rightarrow>
          map_option (\<lambda>(ds, cl''). (case r of Some d \<Rightarrow> d # ds | None \<Rightarrow> ds, cl'')) (collect_remote sv args db sids cl'))"

definition other_shards :: "server \<Rightarrow> u32 \<Rightarrow> u32 list" where
  "other_shards sv self = filter (\<lambda>s. s \<noteq> self) (map of_nat [0..<unat (sv_shards sv)])"

definition present :: "'a option list \<Rightarrow> 'a list" where
  "present l = concat (map (\<lambda>x. case x of Some a \<Rightarrow> [a] | None \<Rightarrow> []) l)"

definition merge_global :: "server \<Rightarrow> bytes \<Rightarrow> bytes \<Rightarrow> bytes \<Rightarrow> bytes list \<Rightarrow> bytes" where
  "merge_global sv cmd_str data local_buf remote_bufs =
     (if cmd_str = ''DBSIZE'' then
        reply_on sv data (\<lambda>rb. send_integer rb (foldl (\<lambda>t d. t + reply_count (Some d)) 0 (local_buf # remote_bufs)))
      else if cmd_str = ''FLUSHDB'' \<or> cmd_str = ''FLUSHALL'' then reply_on sv data send_ok
      else if cmd_str = ''KEYS'' then
        (let ks = concat (map (\<lambda>d. present (parse_resp_array d)) (local_buf # remote_bufs))
         in reply_on sv data (\<lambda>rb. foldl send_bulk_string (send_array_len rb (length ks)) ks))
      else data @ local_buf)"

definition dispatch_global :: "server \<Rightarrow> u32 \<Rightarrow> resp_expr list \<Rightarrow> bytes \<Rightarrow> conn_context \<Rightarrow> bytes \<Rightarrow> cluster \<Rightarrow> command_result" where
  "dispatch_global sv self args cmd_str conn data cl =
     (case exec_local sv (unat self) args conn [] cl of
        None \<Rightarrow> None
      | Some (conn1, local_buf, cl1) \<Rightarrow>
          if sv_shards sv = 1 then Some (conn1, data @ local_buf, cl1)
          else
            map_option (\<lambda>(bufs, cl2). (conn1, merge_global sv cmd_str data local_buf bufs, cl2))
              (collect_remote sv args (conn_db conn1) (other_shards sv self) cl1))"

subsection \<open>One command\<close>

definition handle_select :: "(i64 \<Rightarrow> bytes) \<Rightarrow> resp_expr list \<Rightarrow> conn_context \<Rightarrow> bytes \<Rightarrow> conn_context \<times> bytes" where
  "handle_select fmt args conn data =
     (let rb = rb_new fmt data in
      if length args \<noteq> 2 then (conn, buf (send_err rb (quoted_arity_error ''select'')))
      else
        (case Option.bind (expr_as_str (args ! 1)) parse_u16 of
           Some n \<Rightarrow> if n < 16 then (conn\<lparr>conn_db := n\<rparr>, buf (send_ok rb))
                      else (conn, buf (send_err rb ''DB index is out of range''))
         | None \<Rightarrow> (conn, buf (send_err rb ''DB index is out of range''))))"

definition dispatch_known ::
  "server \<Rightarrow> u32 \<Rightarrow> resp_expr list \<Rightarrow> bytes \<Rightarrow> command_entry \<Rightarrow> conn_context \<Rightarrow> bytes \<Rightarrow> cluster \<Rightarrow> command_result" where
  "dispatch_known sv self args cmd_str e conn data cl =
     (case classify_command cmd_str e of
        NoKeys \<Rightarrow> exec_local sv (unat self) args conn data cl
      | SingleKey \<Rightarrow>
          if unat (ce_first_key e) < length args
          then Option.bind (shard_of sv (args ! unat (ce_first_key e))) (\<lambda>target. route sv self target args conn data cl)
          else None
      | MultiKeySameHandler \<Rightarrow> dispatch_multi_key_sum sv self args conn data cl
      | MGet \<Rightarrow> dispatch_mget sv self args conn data cl
      | MSet \<Rightarrow> dispatch_mset sv self args cmd_str conn data cl
      | Rename \<Rightarrow>
          if length args \<le> 2 then None
          else
            Option.bind (shard_of sv (args ! 1)) (\<lambda>s1.
              Option.bind (shard_of sv (args ! 2)) (\<lambda>s2.
                if s1 \<noteq> s2 then Some (conn, reply_on sv data (\<lambda>rb. send_err rb CROSSSLOT), cl)
                else route sv self s1 args conn data cl))
      | Global \<Rightarrow> dispatch_global sv self args cmd_str conn data cl)"

definition still_open :: "bool \<Rightarrow> command_result \<Rightarrow> (bool \<times> conn_context \<times> bytes \<times> cluster) option" where
  "still_open b r = map_option (\<lambda>(conn, data, cl). (b, conn, data, cl)) r"

definition dispatch_command ::
  "server \<Rightarrow> u32 \<Rightarrow> resp_expr list \<Rightarrow> conn_context \<Rightarrow> bytes \<Rightarrow> cluster \<Rightarrow> (bool \<times> conn_context \<times> bytes \<times> cluster) option" where
  "dispatch_command sv self args conn data cl =
     (let err = (\<lambda>msg. Some (True, conn, reply_on sv data (\<lambda>rb. send_err rb msg), cl)) in
      case args of
        [] \<Rightarrow> err ''empty command''
      | a # _ \<Rightarrow>
         (case expr_as_bytes a of
            None \<Rightarrow> err ''invalid command''
          | Some b \<Rightarrow>
             (case from_utf8 (ascii_upper b) of
                None \<Rightarrow> err ''invalid command encoding''
              | Some cmd_str \<Rightarrow>
                  if cmd_str = ''QUIT'' then Some (False, conn, reply_on sv data send_ok, cl)
                  else if cmd_str = ''SELECT'' then
                    (let (conn', data') = handle_select (sv_itoa sv) args conn data in Some (True, conn', data', cl))
                  else if cmd_str = ''SAVE'' \<or> cmd_str = ''BGSAVE'' then
                    err ''SAVE/BGSAVE must be issued via the control interface''
                  else
                    (case sv_registry sv cmd_str of
                       None \<Rightarrow> err (''unknown command '' @ [CHR 0x27] @ rt_lower (sv_rt sv) cmd_str @ [CHR 0x27]
                                 @ '', with args beginning with: '')
                     | Some e \<Rightarrow>
                         if \<not> arity_ok (ce_arity e) args then err (quoted_arity_error (rt_lower (sv_rt sv) cmd_str))
                         else still_open True (dispatch_known sv self args cmd_str e conn data cl)))))"


subsection \<open>One reply per command\<close>

definition server_ok :: "server \<Rightarrow> bool" where
  "server_ok sv \<longleftrightarrow> runtime_ok (sv_rt sv) \<and> sv_registry sv = build_command_registry (sv_rt sv) \<and> itoa_ok (sv_itoa sv)
     \<and> (\<forall>n l. mset (sv_order sv n l) = mset l)"

text \<open>The name of the command is a single line.\<close>

definition name_ok :: "resp_expr list \<Rightarrow> bool" where
  "name_ok args \<longleftrightarrow> (case args of R_String b # _ \<Rightarrow> one_line b | _ \<Rightarrow> True)"

lemma name_ok_Cons [simp]: "name_ok (R_String b # l) \<longleftrightarrow> one_line b"
  by (simp add: name_ok_def)

lemma reply_on_one: "server_ok sv \<Longrightarrow> appends (Suc 0) f \<Longrightarrow> one_more data (reply_on sv data f)"
  unfolding reply_on_def server_ok_def using one_more_appends [of f "rb_new (sv_itoa sv) data"] by simp

lemma exec_task_one:
  assumes "server_ok sv" and "name_ok args" and "exec_task sv i args conn data cl = Some (Some (conn', data'), cl')"
  shows "one_more data data'"
proof -
  obtain keep sh sh' rb where "dispatch (rt_lower (sv_rt sv)) (build_command_registry (sv_rt sv)) args conn sh (rb_new (sv_itoa sv) data)
      = Some (keep, conn', sh', rb)" "data' = buf rb"
    using assms(1,3) by (auto simp: exec_task_def Let_def server_ok_def split: if_splits option.splits)
  moreover have "one_line b" if "args = R_String b # rest" for b rest using assms(2) that by simp
  ultimately show ?thesis
    using dispatch_one_reply [of "sv_rt sv" "rb_new (sv_itoa sv) data" args] assms(1)
    by (auto simp: server_ok_def)
qed

lemma exec_local_one:
  "server_ok sv \<Longrightarrow> name_ok args \<Longrightarrow> exec_local sv i args conn data cl = Some (conn', data', cl') \<Longrightarrow> one_more data data'"
  using exec_task_one by (auto simp: exec_local_def split: option.splits)

lemma exec_remote_one:
  "server_ok sv \<Longrightarrow> name_ok args \<Longrightarrow> exec_remote sv t args db cl = Some (Some d, cl') \<Longrightarrow> resp_value d"
  using exec_task_one by (fastforce simp: exec_remote_def one_more_def)

lemma route_one:
  assumes "server_ok sv" and "name_ok args" and "route sv self t args conn data cl = Some (conn', data', cl')"
  shows "one_more data data'"
proof (cases "t = self")
  case True
  then show ?thesis using assms exec_local_one by (simp add: route_def)
next
  case False
  then obtain r where r: "exec_remote sv t args (conn_db conn) cl = Some (r, cl')"
    "data' = (case r of Some d \<Rightarrow> data @ d | None \<Rightarrow> reply_on sv data (\<lambda>rb. send_err rb ''shard unavailable''))"
    using assms(3) by (auto simp: route_def dispatch_remote_def)
  have "one_more data (reply_on sv data (\<lambda>rb. send_err rb ''shard unavailable''))"
    by (intro reply_on_one assms(1) appends_err) simp
  then show ?thesis
    using r exec_remote_one [OF assms(1,2)] by (auto simp: one_more_def split: option.splits)
qed

text \<open>What every merge step keeps holds of the merged result.\<close>

lemma fan_out_keeps:
  assumes "fan_out sv mk db merge g acc cl = Some (acc', cl')" and "P acc" and "\<And>a xs r. P a \<Longrightarrow> P (merge a xs r)"
  shows "P acc'"
  using assms(1,2)
proof (induction g arbitrary: acc cl)
  case (Cons sg g)
  then show ?case using assms(3) by (cases sg) (auto split: option.splits)
qed simp

lemma run_groups_keeps:
  assumes "run_groups sv self mk merge g conn acc cl = Some (acc', conn', cl')" and "P acc"
    and "\<And>a xs r. P a \<Longrightarrow> P (merge a xs r)"
  shows "P acc'"
  using assms(1,2) fan_out_keeps [where P = P and merge = merge] assms(3)
  by (fastforce simp: run_groups_def split: option.splits)

lemma place_values_length: "length (place_values rs kps r) = length rs"
proof -
  have "length (foldl (\<lambda>rs (idx, pos, _). if idx < length vals then rs[pos := vals ! idx] else rs) rs es) = length rs"
    for vals :: "bytes option list" and es :: "(nat \<times> nat \<times> resp_expr) list"
    by (induction es arbitrary: rs) (auto split: prod.splits)
  then show ?thesis by (simp add: place_values_def Let_def split: option.splits)
qed

lemma multi_key_one:
  assumes "server_ok sv" and "dispatch_multi_key_sum sv self args conn data cl = Some (conn', data', cl')"
  shows "one_more data data'"
  using assms(2) reply_on_one [OF assms(1) appends_int]
  by (auto simp: dispatch_multi_key_sum_def bind_eq_Some_conv split: list.splits)

lemma mget_one:
  assumes "server_ok sv" and "dispatch_mget sv self args conn data cl = Some (conn', data', cl')"
  shows "one_more data data'"
proof -
  obtain g results where g: "run_groups sv self (\<lambda>kps. R_String ''MGET'' # map snd kps) place_values g conn
      (replicate (length (drop 1 args)) None) cl = Some (results, conn', cl')"
    "data' = reply_on sv data (\<lambda>rb. foldl send_opt (send_array_len rb (length (drop 1 args))) results)"
    using assms(2) by (auto simp: dispatch_mget_def Let_def bind_eq_Some_conv)
  have len: "length results = length (drop 1 args)"
    using run_groups_keeps [OF g(1), where P = "\<lambda>rs. length rs = length (drop 1 args)"] place_values_length by fastforce
  have "appends (length results) (\<lambda>rb. foldl send_opt rb results)" by (intro appends_foldl appends_opt)
  then have "appends (Suc 0) (\<lambda>rb. foldl send_opt (send_array_len rb (length results)) results)" by (rule appends_array)
  then show ?thesis using reply_on_one [OF assms(1)] unfolding g(2) len [symmetric] by blast
qed

lemma merge_global_one:
  assumes "server_ok sv" and "resp_value local_buf"
  shows "one_more data (merge_global sv cmd_str data local_buf bufs)"
proof -
  have "appends (Suc 0) (\<lambda>rb. foldl send_bulk_string (send_array_len rb (length ks)) ks)" for ks
    by (intro appends_array appends_foldl appends_bulk)
  then have "one_more data (reply_on sv data (\<lambda>rb. foldl send_bulk_string (send_array_len rb (length ks)) ks))" for ks
    by (rule reply_on_one [OF assms(1)])
  moreover have "one_more data (data @ local_buf)" using assms(2) by (auto simp: one_more_def)
  ultimately show ?thesis
    using reply_on_one [OF assms(1) appends_int] reply_on_one [OF assms(1) appends_line(1)]
    by (simp add: merge_global_def Let_def del: list.map concat.simps foldl_append length_append)
qed

lemma global_one:
  assumes "server_ok sv" and "name_ok args" and "dispatch_global sv self args cmd conn data cl = Some (conn', data', cl')"
  shows "one_more data data'"
proof -
  obtain conn1 local_buf cl1 where l: "exec_local sv (unat self) args conn [] cl = Some (conn1, local_buf, cl1)"
    using assms(3) by (auto simp: dispatch_global_def split: option.splits)
  have r: "resp_value local_buf" using exec_local_one [OF assms(1,2) l] by (simp add: one_more_def)
  then have "one_more data (data @ local_buf)" by (auto simp: one_more_def)
  then show ?thesis
    using assms(3) l merge_global_one [OF assms(1) r] by (auto simp: dispatch_global_def split: if_splits)
qed

lemma common_shard_Some: "target \<noteq> None \<or> ks \<noteq> [] \<Longrightarrow> common_shard sv ks target \<noteq> Some (Some None)"
  by (induction sv ks target rule: common_shard.induct) (auto split: bind_splits option.splits)

lemma msetnx_entry: "build_command_registry rt ''MSETNX'' = Some e \<Longrightarrow> ce_arity e = - 3"
  unfolding build_command_registry_def register_zset_def register_hash_def register_set_def register_list_def register_string_def
  by (auto simp: registry_new_def zset_commands_def hash_commands_def set_commands_def list_commands_def
      string_commands_def generic_commands_def dest!: register_all_lookup register_generic_lookup)

lemma argc_le: "argc_i16 as \<le> int (length as)"
proof -
  have "sint (of_nat n :: 16 word) \<le> int n" for n
    using signed_take_bit_int_less_eq_self_iff [of 15 "int n"] by (simp add: signed_of_nat)
  then show ?thesis by (simp add: argc_i16_def)
qed

lemma mset_one:
  assumes "server_ok sv" and "name_ok args" and "one_line cmd" and "cmd = ''MSETNX'' \<Longrightarrow> 3 \<le> length args"
    and "dispatch_mset sv self args cmd conn data cl = Some (conn', data', cl')"
  shows "one_more data data'"
proof -
  have low: "one_line (rt_lower (sv_rt sv) cmd)" using assms(1,3) by (simp add: server_ok_def runtime_ok_def)
  have e: "one_more data (reply_on sv data (\<lambda>rb. send_err rb m))" if "one_line m" for m
    by (intro reply_on_one assms(1) appends_err that)
  have x: "one_line CROSSSLOT" by (simp add: CROSSSLOT_def)
  have "pairs_of (drop 1 args) \<noteq> []" if "cmd = ''MSETNX''" using assms(4) [OF that] by (simp add: pairs_of_def)
  then have "common_shard sv (map fst (pairs_of (drop 1 args))) None \<noteq> Some (Some None)" if "cmd = ''MSETNX''"
    using common_shard_Some that by fastforce
  then show ?thesis
    using assms(5) low e [of "quoted_arity_error (rt_lower (sv_rt sv) cmd)"] e [OF x] route_one [OF assms(1,2)]
      reply_on_one [OF assms(1) appends_line(1)]
    by (auto simp: dispatch_mset_def bind_eq_Some_conv split: if_splits option.splits)
qed

lemma dispatch_known_one:
  assumes "server_ok sv" and "name_ok args" and "one_line cmd" and "sv_registry sv cmd = Some e" and "arity_ok (ce_arity e) args"
    and "dispatch_known sv self args cmd e conn data cl = Some (conn', data', cl')"
  shows "one_more data data'"
proof -
  have "3 \<le> length args" if "cmd = ''MSETNX''"
    using assms(1,4,5) that msetnx_entry [of "sv_rt sv" e] argc_le [of args] by (simp add: server_ok_def arity_ok_def)
  note mset = mset_one [OF assms(1,2,3) this]
  have x: "one_more data (reply_on sv data (\<lambda>rb. send_err rb CROSSSLOT))"
    by (intro reply_on_one assms(1) appends_err) (simp add: CROSSSLOT_def)
  show ?thesis
  proof (cases "classify_command cmd e")
    case NoKeys
    then show ?thesis using assms(6) exec_local_one [OF assms(1,2)] by (simp add: dispatch_known_def)
  next
    case SingleKey
    then show ?thesis using assms(6) route_one [OF assms(1,2)]
      by (auto simp: dispatch_known_def bind_eq_Some_conv split: if_splits)
  next
    case MultiKeySameHandler
    then show ?thesis using assms(6) multi_key_one [OF assms(1)] by (simp add: dispatch_known_def)
  next
    case MGet
    then show ?thesis using assms(6) mget_one [OF assms(1)] by (simp add: dispatch_known_def)
  next
    case MSet
    then show ?thesis using assms(6) mset by (simp add: dispatch_known_def)
  next
    case Rename
    then show ?thesis using assms(6) x route_one [OF assms(1,2)]
      by (auto simp: dispatch_known_def bind_eq_Some_conv split: if_splits)
  next
    case Global
    then show ?thesis using assms(6) global_one [OF assms(1,2)] by (simp add: dispatch_known_def)
  qed
qed

lemma select_one: "itoa_ok f \<Longrightarrow> handle_select f args conn data = (conn', data') \<Longrightarrow> one_more data data'"
  using one_more_appends [OF appends_err, of _ "rb_new f data"] one_more_appends [OF appends_line(1), of "rb_new f data"]
  by (auto simp: handle_select_def Let_def split: if_splits option.splits)

lemma dispatch_command_named:
  assumes "args = R_String b # rest" and "from_utf8 (ascii_upper b) = Some u"
  shows "dispatch_command sv self args conn data cl =
    (if u = ''QUIT'' then Some (False, conn, reply_on sv data send_ok, cl)
     else if u = ''SELECT'' then
       (let (conn', data') = handle_select (sv_itoa sv) args conn data in Some (True, conn', data', cl))
     else if u = ''SAVE'' \<or> u = ''BGSAVE'' then
       Some (True, conn, reply_on sv data (\<lambda>rb. send_err rb ''SAVE/BGSAVE must be issued via the control interface''), cl)
     else
       (case sv_registry sv u of
          None \<Rightarrow> Some (True, conn, reply_on sv data (\<lambda>rb. send_err rb
              (''unknown command '' @ [CHR 0x27] @ rt_lower (sv_rt sv) u @ [CHR 0x27] @ '', with args beginning with: '')), cl)
        | Some e \<Rightarrow> if \<not> arity_ok (ce_arity e) args
                   then Some (True, conn, reply_on sv data (\<lambda>rb. send_err rb (quoted_arity_error (rt_lower (sv_rt sv) u))), cl)
                   else still_open True (dispatch_known sv self args u e conn data cl)))"
  unfolding dispatch_command_def Let_def assms(1) list.case expr_as_bytes.simps option.case assms(2) ..

lemma command_one:
  assumes "server_ok sv" and "name_ok args" and d: "dispatch_command sv self args conn data cl = Some (keep, conn', data', cl')"
  shows "one_more data data'"
proof -
  have err: "one_more data (reply_on sv data (\<lambda>rb. send_err rb m))" if "one_line m" for m
    by (intro reply_on_one assms(1) appends_err that)
  have ok: "one_more data (reply_on sv data send_ok)" by (intro reply_on_one assms(1) appends_line)
  show ?thesis
  proof (cases "case args of [] \<Rightarrow> None | a # _ \<Rightarrow> Option.bind (expr_as_bytes a) (\<lambda>b. from_utf8 (ascii_upper b))")
    case None
    then show ?thesis using d err by (auto simp: dispatch_command_def Let_def split: list.splits option.splits)
  next
    case (Some u)
    then obtain b rest where a: "args = R_String b # rest" and u: "from_utf8 (ascii_upper b) = Some u"
      by (cases args) (auto simp: bind_eq_Some_conv elim: expr_as_bytes.elims)
    have line: "one_line u" "one_line (rt_lower (sv_rt sv) u)"
      using assms(1,2) a u by (auto simp: server_ok_def runtime_ok_def from_utf8_def one_line_upper split: if_splits)
    have "one_line (''unknown command '' @ [CHR 0x27] @ rt_lower (sv_rt sv) u @ [CHR 0x27] @ '', with args beginning with: '')"
      "one_line (quoted_arity_error (rt_lower (sv_rt sv) u))"
      using line(2) by (simp_all add: one_line_append)
    note errs = this [THEN err]
    note eq = dispatch_command_named [OF a u, of sv self conn data cl]
    consider "u = ''QUIT''" | "u = ''SELECT''" | "u = ''SAVE'' \<or> u = ''BGSAVE''"
      | "u \<notin> {''QUIT'', ''SELECT'', ''SAVE'', ''BGSAVE''}" by blast
    then show ?thesis
    proof cases
      case 1
      then show ?thesis using d ok unfolding eq by simp
    next
      case 2
      obtain c dt where s: "handle_select (sv_itoa sv) args conn data = (c, dt)" by fastforce
      then have "one_more data dt" using select_one assms(1) by (auto simp: server_ok_def)
      then show ?thesis using d 2 s unfolding eq by simp
    next
      case 3
      then show ?thesis using d err unfolding eq by auto
    next
      case 4
      then have d': "(case sv_registry sv u of
           None \<Rightarrow> Some (True, conn, reply_on sv data (\<lambda>rb. send_err rb
               (''unknown command '' @ [CHR 0x27] @ rt_lower (sv_rt sv) u @ [CHR 0x27] @ '', with args beginning with: '')), cl)
         | Some e \<Rightarrow> if \<not> arity_ok (ce_arity e) args
                    then Some (True, conn, reply_on sv data (\<lambda>rb. send_err rb (quoted_arity_error (rt_lower (sv_rt sv) u))), cl)
                    else still_open True (dispatch_known sv self args u e conn data cl)) = Some (keep, conn', data', cl')"
        using d unfolding eq by simp
      show ?thesis
      proof (cases "sv_registry sv u")
        case None
        then show ?thesis using d' errs(1) by simp
      next
        case (Some e)
        show ?thesis
        proof (cases "arity_ok (ce_arity e) args")
          case True
          then have "dispatch_known sv self args u e conn data cl = Some (conn', data', cl')"
            using d' Some by (auto simp: still_open_def)
          then show ?thesis by (rule dispatch_known_one [OF assms(1,2) line(1) Some True])
        next
          case False
          then show ?thesis using d' Some errs(2) by simp
        qed
      qed
    qed
  qed
qed

subsection \<open>Where a command has effects\<close>

lemma exec_task_frame:
  "exec_task sv i args conn data cl = Some (r, cl') \<Longrightarrow>
    length (cl_shards cl') = length (cl_shards cl) \<and> (\<forall>j. j \<noteq> i \<longrightarrow> cl_shards cl' ! j = cl_shards cl ! j)"
  by (auto simp: exec_task_def Let_def split: if_splits option.splits)

lemma route_frame:
  assumes "route sv self t args conn data cl = Some (conn', data', cl')"
  shows "length (cl_shards cl') = length (cl_shards cl) \<and> (\<forall>j. j \<noteq> unat t \<longrightarrow> cl_shards cl' ! j = cl_shards cl ! j)"
  using assms exec_task_frame [of sv "unat t"]
  by (fastforce simp: route_def exec_local_def dispatch_remote_def exec_remote_def split: if_splits option.splits)

lemma crc32_Nil: "crc32 [] = 0"
  by (simp add: crc32_def)

lemma hash_tag_Nil: "hash_tag [] = []"
  by (simp add: hash_tag_def)

lemma get_entry:
  "build_command_registry rt ''GET'' = Some (keyed_entry (''GET'', cmd_get, 2))"
  by (simp add: build_command_registry_def register_zset_def register_hash_def register_set_def register_list_def
      register_string_def register_all_def zset_commands_def hash_commands_def set_commands_def list_commands_def
      string_commands_def register_def)

lemma null_key_run:
  assumes "server_ok sv" and "sv_shards sv \<noteq> 0" and "self \<noteq> 0" and "cl_shards cl = Some sh # shs"
  shows "\<exists>cl'. dispatch_command sv self [R_String ''GET'', R_Nil] conn data cl
      = Some (True, conn, data @ ''-ERR shard unavailable'' @ CRLF, cl') \<and> cl_shards cl' = None # shs"
proof -
  let ?args = "[R_String ''GET'', R_Nil]" and ?rt = "sv_rt sv"
  have u: "from_utf8 (ascii_upper ''GET'') = Some ''GET''" by code_simp
  have reg: "sv_registry sv ''GET'' = Some (keyed_entry (''GET'', cmd_get, 2))"
    using assms(1) get_entry by (simp add: server_ok_def)
  have ar: "arity_ok 2 ?args" by (simp add: arity_ok_def argc_i16_def)
  have sh: "shard_of sv R_Nil = Some 0"
    using assms(2) by (simp add: shard_of_def key_bytes_def shard_def hash_tag_Nil crc32_Nil)
  have panic: "dispatch (rt_lower ?rt) (sv_registry sv) ?args \<lparr>conn_db = conn_db conn\<rparr> s rb = None" for s rb
    using reg ar u by (simp add: dispatch_def Let_def cmd_get_def with_arg_def arg_def)
  have "classify_command ''GET'' (keyed_entry (''GET'', cmd_get, 2)) = SingleKey" by (simp add: classify_command_def)
  then have "dispatch_command sv self ?args conn data cl = still_open True (route sv self 0 ?args conn data cl)"
    using reg ar sh unfolding dispatch_command_named [OF refl u] by (simp add: dispatch_known_def)
  then show ?thesis
    using assms(3,4) panic
    by (simp add: route_def dispatch_remote_def exec_remote_def exec_task_def Let_def still_open_def reply_on_def send_fixed_buf)
qed

subsection \<open>Properties\<close>

text \<open>A server with two shards, for the witnesses.\<close>

definition demo_server :: server where
  "demo_server = \<lparr>sv_rt = demo_runtime, sv_registry = build_command_registry demo_runtime, sv_clock = (\<lambda>n. of_nat n),
     sv_order = (\<lambda>_ l. l), sv_itoa = i64_to_string, sv_shards = 2\<rparr>"

definition demo_cluster :: cluster where
  "demo_cluster = \<lparr>cl_shards = replicate 2 (Some (engine_shard_new (\<lambda>_ _. 0))), cl_reads = 0\<rparr>"

lemma demo_server_ok: "server_ok demo_server"
  by (simp add: server_ok_def demo_server_def demo_runtime_ok itoa_ok_def)



text \<open>C24: a command with one key changes no shard but the one its key is hashed to, and not the
  connection's database either; a shard never disappears from the cluster's list.\<close>

theorem single_key_stays_home:
  assumes "sv_registry sv u = Some e" and "classify_command u e = SingleKey" and "from_utf8 (ascii_upper b) = Some u"
    and "args = R_String b # rest" and "u \<notin> {''QUIT'', ''SELECT'', ''SAVE'', ''BGSAVE''}"
    and "shard_of sv (args ! unat (ce_first_key e)) = Some t"
    and "dispatch_command sv self args conn data cl = Some (keep, conn', data', cl')"
  shows "length (cl_shards cl') = length (cl_shards cl) \<and> (\<forall>j. j \<noteq> unat t \<longrightarrow> cl_shards cl' ! j = cl_shards cl ! j)"
proof -
  note d = assms(7) [unfolded dispatch_command_named [OF assms(4,3), of sv self conn data cl]]
  show ?thesis
  proof (cases "arity_ok (ce_arity e) args")
    case True
    then have "dispatch_known sv self args u e conn data cl = Some (conn', data', cl')"
      using d assms(1,5) by (auto simp: still_open_def)
    then have "route sv self t args conn data cl = Some (conn', data', cl')"
      using assms(2,6) by (auto simp: dispatch_known_def split: if_splits)
    then show ?thesis by (rule route_frame)
  next
    case False
    then show ?thesis using d assms(1,5) by auto
  qed
qed

theorem single_key_stays_home_witness:
  "\<exists>keep conn' data' cl'. dispatch_command demo_server 1 [R_String ''GET'', R_Nil] conn_context_new [] demo_cluster
      = Some (keep, conn', data', cl') \<and> cl_shards cl' ! 1 = Some (engine_shard_new (\<lambda>_ _. 0))"
proof -
  let ?e = "keyed_entry (''GET'', cmd_get, 2)"
  obtain cl' where r: "dispatch_command demo_server 1 [R_String ''GET'', R_Nil] conn_context_new [] demo_cluster
      = Some (True, conn_context_new, [] @ ''-ERR shard unavailable'' @ CRLF, cl')"
    using null_key_run [OF demo_server_ok, of 1 demo_cluster "engine_shard_new (\<lambda>_ _. 0)"
        "[Some (engine_shard_new (\<lambda>_ _. 0))]" conn_context_new "[]"]
    by (auto simp: demo_server_def demo_cluster_def numeral_2_eq_2)
  have u: "from_utf8 (ascii_upper ''GET'') = Some ''GET''" by code_simp
  have reg: "sv_registry demo_server ''GET'' = Some ?e" by (simp add: demo_server_def get_entry)
  have c: "classify_command ''GET'' ?e = SingleKey" by (simp add: classify_command_def)
  have s: "shard_of demo_server ([R_String ''GET'', R_Nil] ! unat (ce_first_key ?e)) = Some 0"
    by (simp add: shard_of_def key_bytes_def shard_def hash_tag_Nil crc32_Nil demo_server_def)
  have "cl_shards cl' ! 1 = cl_shards demo_cluster ! 1"
    using single_key_stays_home [OF reg c u refl _ s r] by simp
  then show ?thesis using r by (auto simp: demo_cluster_def)
qed

text \<open>C39: a request whose key is the null bulk string, which the parser accepts, makes the handler panic.
  The empty key belongs to shard 0: sent over a connection of any other shard, one such GET ends the
  thread of shard 0 and with it all its data.\<close>

theorem null_key_kills_shard:
  assumes "server_ok sv" and "sv_shards sv \<noteq> 0" and "self \<noteq> 0" and "cl_shards cl = Some sh # shs"
  shows "\<exists>cl'. dispatch_command sv self [R_String ''GET'', R_Nil] conn data cl
      = Some (True, conn, data @ ''-ERR shard unavailable'' @ CRLF, cl') \<and> cl_shards cl' = None # shs"
  using null_key_run [OF assms] .

theorem null_key_kills_shard_witness:
  "\<exists>cl'. dispatch_command demo_server 1 [R_String ''GET'', R_Nil] conn_context_new [] demo_cluster
      = Some (True, conn_context_new, ''-ERR shard unavailable'' @ CRLF, cl')
    \<and> cl_shards cl' = [None, Some (engine_shard_new (\<lambda>_ _. 0))]"
  using null_key_kills_shard [OF demo_server_ok, of 1 demo_cluster "engine_shard_new (\<lambda>_ _. 0)"
      "[Some (engine_shard_new (\<lambda>_ _. 0))]" conn_context_new "[]"]
  by (simp add: demo_server_def demo_cluster_def numeral_2_eq_2)

end
