(* ===== verification/Rdb_Format.thy ===== *)
theory Rdb_Format
  imports Compact_Obj
begin

text \<open>
  \<^verbatim>\<open>crates/shrikedb-persistence/src/rdb_format.rs\<close>: the opcodes of the RDB file format and its CRC-64,
  with the conversions between bytes and machine integers (\<^verbatim>\<open>to_le_bytes\<close>, \<^verbatim>\<open>from_be_bytes\<close>, \<^verbatim>\<open>as\<close>)
  that the writer and the reader share.
\<close>

definition RDB_TYPE_STRING :: u8 where "RDB_TYPE_STRING = 0"
definition RDB_OPCODE_SLOT_INFO :: u8 where "RDB_OPCODE_SLOT_INFO = 244"
definition RDB_OPCODE_FUNCTION2 :: u8 where "RDB_OPCODE_FUNCTION2 = 245"
definition RDB_OPCODE_FUNCTION :: u8 where "RDB_OPCODE_FUNCTION = 246"
definition RDB_OPCODE_MODULE_AUX :: u8 where "RDB_OPCODE_MODULE_AUX = 247"
definition RDB_OPCODE_IDLE :: u8 where "RDB_OPCODE_IDLE = 248"
definition RDB_OPCODE_FREQ :: u8 where "RDB_OPCODE_FREQ = 249"
definition RDB_OPCODE_AUX :: u8 where "RDB_OPCODE_AUX = 250"
definition RDB_OPCODE_RESIZEDB :: u8 where "RDB_OPCODE_RESIZEDB = 251"
definition RDB_OPCODE_EXPIRETIME_MS :: u8 where "RDB_OPCODE_EXPIRETIME_MS = 252"
definition RDB_OPCODE_EXPIRETIME :: u8 where "RDB_OPCODE_EXPIRETIME = 253"
definition RDB_OPCODE_SELECTDB :: u8 where "RDB_OPCODE_SELECTDB = 254"
definition RDB_OPCODE_EOF :: u8 where "RDB_OPCODE_EOF = 255"
definition RDB_6BITLEN :: u8 where "RDB_6BITLEN = 0"
definition RDB_14BITLEN :: u8 where "RDB_14BITLEN = 1"
definition RDB_ENCVAL :: u8 where "RDB_ENCVAL = 3"
definition RDB_ENC_INT8 :: u8 where "RDB_ENC_INT8 = 0"
definition RDB_ENC_INT16 :: u8 where "RDB_ENC_INT16 = 1"
definition RDB_ENC_INT32 :: u8 where "RDB_ENC_INT32 = 2"
definition RDB_ENC_LZF :: u8 where "RDB_ENC_LZF = 3"

lemmas rdb_opcodes = RDB_TYPE_STRING_def RDB_OPCODE_SLOT_INFO_def RDB_OPCODE_FUNCTION2_def
  RDB_OPCODE_FUNCTION_def RDB_OPCODE_MODULE_AUX_def RDB_OPCODE_IDLE_def RDB_OPCODE_FREQ_def
  RDB_OPCODE_AUX_def RDB_OPCODE_RESIZEDB_def RDB_OPCODE_EXPIRETIME_MS_def RDB_OPCODE_EXPIRETIME_def
  RDB_OPCODE_SELECTDB_def RDB_OPCODE_EOF_def

lemmas rdb_lengths = RDB_6BITLEN_def RDB_14BITLEN_def RDB_ENCVAL_def RDB_ENC_INT8_def
  RDB_ENC_INT16_def RDB_ENC_INT32_def RDB_ENC_LZF_def

subsection \<open>Bytes and integers\<close>

definition byte_of :: "u8 \<Rightarrow> byte" where
  "byte_of w = char_of (unat w)"

definition u8_of :: "byte \<Rightarrow> u8" where
  "u8_of c = of_nat (byte_val c)"

fun le_bytes :: "nat \<Rightarrow> nat \<Rightarrow> bytes" where
  "le_bytes 0 v = []"
| "le_bytes (Suc n) v = char_of (v mod 256) # le_bytes n (v div 256)"

fun of_le_bytes :: "bytes \<Rightarrow> nat" where
  "of_le_bytes [] = 0"
| "of_le_bytes (c # cs) = byte_val c + 256 * of_le_bytes cs"

definition be_bytes :: "nat \<Rightarrow> nat \<Rightarrow> bytes" where
  "be_bytes n v = rev (le_bytes n v)"

definition of_be_bytes :: "bytes \<Rightarrow> nat" where
  "of_be_bytes s = of_le_bytes (rev s)"

lemma u8_of_byte_of [simp]: "u8_of (byte_of w) = w"
  using unsigned_less [of w, where ?'a = nat] by (simp add: u8_of_def byte_of_def)

lemma length_le_bytes [simp]: "length (le_bytes n v) = n"
  by (induction n arbitrary: v) simp_all

lemma length_be_bytes [simp]: "length (be_bytes n v) = n"
  by (simp add: be_bytes_def)

lemma of_le_bytes_le_bytes: "v < 256 ^ n \<Longrightarrow> of_le_bytes (le_bytes n v) = v"
proof (induction n arbitrary: v)
  case (Suc n)
  then have "v div 256 < 256 ^ n" by (simp add: less_mult_imp_div_less mult.commute)
  then show ?case using Suc.IH [of "v div 256"] by simp
qed simp

lemma of_be_bytes_be_bytes: "v < 256 ^ n \<Longrightarrow> of_be_bytes (be_bytes n v) = v"
  by (simp add: of_be_bytes_def be_bytes_def of_le_bytes_le_bytes)

lemma of_le_bytes_bound: "of_le_bytes s < 256 ^ length s"
proof (induction s)
  case (Cons c s)
  have "byte_val c + 256 * of_le_bytes s < 256 * (of_le_bytes s + 1)" by simp
  also have "\<dots> \<le> 256 * 256 ^ length s" using Cons by (intro mult_le_mono2) simp
  finally show ?case by simp
qed simp

subsection \<open>CRC-64\<close>

definition crc64_bit :: "u64 \<Rightarrow> u64" where
  "crc64_bit crc = (if crc AND 1 \<noteq> 0 then drop_bit 1 crc XOR 0xad93d23594c935a9 else drop_bit 1 crc)"

definition crc64_entry :: "nat \<Rightarrow> u64" where
  "crc64_entry i = (crc64_bit ^^ 8) (of_nat i)"

definition CRC64_TABLE :: "u64 list" where
  "CRC64_TABLE = map crc64_entry [0..<256]"

definition crc64_byte :: "u64 \<Rightarrow> byte \<Rightarrow> u64" where
  "crc64_byte c b = CRC64_TABLE ! unat ((ucast c :: u8) XOR u8_of b) XOR drop_bit 8 c"

definition crc64 :: "u64 \<Rightarrow> bytes \<Rightarrow> u64" where
  "crc64 crc data = NOT (foldl crc64_byte (NOT crc) data)"

lemma crc64_index: "unat ((ucast c :: u8) XOR u8_of b) < length CRC64_TABLE"
  using unsigned_less [of "(ucast c :: u8) XOR u8_of b", where ?'a = nat] by (simp add: CRC64_TABLE_def)

lemma crc64_Nil [simp]: "crc64 c [] = c"
  by (simp add: crc64_def)

lemma crc64_append: "crc64 c (a @ b) = crc64 (crc64 c a) b"
  by (simp add: crc64_def)

subsection \<open>The table against the bitwise definition\<close>

lemma crc64_bit_low: "(x AND 1 \<noteq> 0) = bit (x :: u64) 0"
  by (simp add: and_one_eq bit_0 odd_iff_mod_2_eq_one)

lemma crc64_bit_eq: "crc64_bit x = drop_bit 1 x XOR (if bit x 0 then 0xad93d23594c935a9 else 0)"
  by (simp add: crc64_bit_def crc64_bit_low)

lemma crc64_bit_xor: "crc64_bit (a XOR b) = crc64_bit a XOR crc64_bit b"
  by (cases "bit a 0"; cases "bit b 0") (simp_all add: crc64_bit_eq bit_xor_iff ac_simps drop_bit_xor)

lemma crc64_bits_xor: "(crc64_bit ^^ k) (a XOR b) = (crc64_bit ^^ k) a XOR (crc64_bit ^^ k) b"
  by (induction k) (simp_all add: crc64_bit_xor)

lemma crc64_bits_shift:
  assumes "\<forall>i<k. \<not> bit (x :: u64) i"
  shows "(crc64_bit ^^ k) x = drop_bit k x"
  using assms
proof (induction k)
  case (Suc k)
  then have "(crc64_bit ^^ k) x = drop_bit k x" "\<not> bit (drop_bit k x) 0" by (simp_all add: bit_drop_bit_eq)
  then show ?case by (simp add: crc64_bit_eq [of "drop_bit k x"])
qed simp

lemma ucast_byte: "ucast (u8_of b) = (of_nat (byte_val b) :: u64)"
  by (simp add: u8_of_def unsigned_of_nat take_bit_nat_eq_self)

text \<open>The CRC one bit at a time, without the table.\<close>

definition crc64_ref :: "u64 \<Rightarrow> bytes \<Rightarrow> u64" where
  "crc64_ref crc data = NOT (foldl (\<lambda>c b. (crc64_bit ^^ 8) (c XOR of_nat (byte_val b))) (NOT crc) data)"

lemma crc64_byte_ref: "crc64_byte c b = (crc64_bit ^^ 8) (c XOR of_nat (byte_val b))"
proof -
  define lo where "lo = ((ucast c :: u8) XOR u8_of b)"
  define hi where "hi = push_bit 8 (drop_bit 8 c)"
  have split: "c XOR of_nat (byte_val b) = ucast lo XOR hi"
    unfolding lo_def hi_def ucast_byte [symmetric]
    by (rule bit_word_eqI) (auto simp: bit_simps dest: bit_imp_le_length)
  have "CRC64_TABLE ! unat lo = (crc64_bit ^^ 8) (ucast lo)"
    using crc64_index [of c b] by (simp add: CRC64_TABLE_def lo_def crc64_entry_def)
  moreover have "(crc64_bit ^^ 8) hi = drop_bit 8 c"
  proof -
    have "(crc64_bit ^^ 8) hi = drop_bit 8 hi"
      by (rule crc64_bits_shift) (auto simp: hi_def bit_simps)
    also have "\<dots> = drop_bit 8 c"
      by (rule bit_word_eqI) (auto simp: hi_def bit_simps dest: bit_imp_le_length)
    finally show ?thesis .
  qed
  ultimately show ?thesis by (simp only: split crc64_bits_xor crc64_byte_def lo_def [symmetric])
qed


end
