(* ===== verification/Rdb_Save.thy ===== *)
theory Rdb_Save
  imports Rdb_Format
begin

text \<open>
  \<^verbatim>\<open>crates/shrikedb-persistence/src/rdb_save.rs\<close>: the RDB writer. The underlying \<^verbatim>\<open>Write\<close> is the bytes
  written so far and a predicate that says which contents the device still accepts; a write
  the device refuses is the error of \<^verbatim>\<open>io::Result\<close>, the value \<open>None\<close>. Every writer function is a
  function on the saver, so \<^verbatim>\<open>?\<close> is the bind of the option monad.
\<close>

record rdb_saver =
  out :: bytes
  accepts :: "bytes \<Rightarrow> bool"
  save_crc :: u64
  bytes_written :: u64

definition saver_new :: "(bytes \<Rightarrow> bool) \<Rightarrow> bytes \<Rightarrow> rdb_saver" where
  "saver_new dev b = \<lparr>out = b, accepts = dev, save_crc = 0, bytes_written = 0\<rparr>"

definition write_all :: "rdb_saver \<Rightarrow> bytes \<Rightarrow> rdb_saver option" where
  "write_all s d = (if accepts s (out s @ d) then Some (s\<lparr>out := out s @ d\<rparr>) else None)"

definition write_bytes :: "bytes \<Rightarrow> rdb_saver \<Rightarrow> rdb_saver option" where
  "write_bytes d s =
     (case write_all s d of
        None \<Rightarrow> None
      | Some s' \<Rightarrow> Some (s'\<lparr>save_crc := crc64 (save_crc s') d,
                           bytes_written := bytes_written s' + of_nat (length d)\<rparr>))"

definition write_byte :: "u8 \<Rightarrow> rdb_saver \<Rightarrow> rdb_saver option" where
  "write_byte b s = write_bytes [byte_of b] s"

definition write_u64_le :: "u64 \<Rightarrow> rdb_saver \<Rightarrow> rdb_saver option" where
  "write_u64_le v s = write_bytes (le_bytes 8 (unat v)) s"

definition write_length :: "u64 \<Rightarrow> rdb_saver \<Rightarrow> rdb_saver option" where
  "write_length len s =
     (if len < 64 then write_byte (ucast len) s
      else if len < 16384 then
        Option.bind (write_byte (0x40 OR ucast (drop_bit 8 len)) s) (write_byte (ucast (len AND 0xFF)))
      else if len \<le> 0xFFFFFFFF then
        Option.bind (write_byte 0x80 s) (write_bytes (be_bytes 4 (unat (ucast len :: u32))))
      else Option.bind (write_byte 0x81 s) (write_bytes (be_bytes 8 (unat len))))"

definition try_parse_integer :: "bytes \<Rightarrow> i64 option" where
  "try_parse_integer data =
     Option.bind (from_utf8 data) (\<lambda>s. Option.bind (parse_i64 s)
       (\<lambda>n. if i64_to_string n = data then Some n else None))"

definition write_integer_as_string :: "i64 \<Rightarrow> rdb_saver \<Rightarrow> rdb_saver option" where
  "write_integer_as_string n s =
     (if - 128 \<le> sint n \<and> sint n \<le> 127 then
        Option.bind (write_byte 0xC0 s) (write_byte (ucast n))
      else if - 32768 \<le> sint n \<and> sint n \<le> 32767 then
        Option.bind (write_byte 0xC1 s) (write_bytes (le_bytes 2 (unat (ucast n :: u16))))
      else if - 2147483648 \<le> sint n \<and> sint n \<le> 2147483647 then
        Option.bind (write_byte 0xC2 s) (write_bytes (le_bytes 4 (unat (ucast n :: u32))))
      else Option.bind (write_length (of_nat (length (i64_to_string n))) s)
             (write_bytes (i64_to_string n)))"

definition write_plain_string :: "bytes \<Rightarrow> rdb_saver \<Rightarrow> rdb_saver option" where
  "write_plain_string data s =
     Option.bind (write_length (of_nat (length data)) s) (write_bytes data)"

definition write_string :: "bytes \<Rightarrow> rdb_saver \<Rightarrow> rdb_saver option" where
  "write_string data s =
     (if length data \<le> 11 then
        (case try_parse_integer data of
           Some n \<Rightarrow> write_integer_as_string n s
         | None \<Rightarrow> write_plain_string data s)
      else write_plain_string data s)"

definition write_header :: "rdb_saver \<Rightarrow> rdb_saver option" where
  "write_header s = Option.bind (write_bytes ''REDIS'' s) (write_bytes ''0009'')"

definition write_aux :: "bytes \<Rightarrow> bytes \<Rightarrow> rdb_saver \<Rightarrow> rdb_saver option" where
  "write_aux key val s =
     Option.bind (write_byte RDB_OPCODE_AUX s) (\<lambda>s1. Option.bind (write_string key s1) (write_string val))"

definition write_select_db :: "u32 \<Rightarrow> rdb_saver \<Rightarrow> rdb_saver option" where
  "write_select_db i s = Option.bind (write_byte RDB_OPCODE_SELECTDB s) (write_length (ucast i))"

definition write_resize_db :: "u64 \<Rightarrow> u64 \<Rightarrow> rdb_saver \<Rightarrow> rdb_saver option" where
  "write_resize_db db_size expire_size s =
     Option.bind (write_byte RDB_OPCODE_RESIZEDB s) (\<lambda>s1. Option.bind (write_length db_size s1) (write_length expire_size))"

definition write_expire :: "u64 option \<Rightarrow> rdb_saver \<Rightarrow> rdb_saver option" where
  "write_expire e s =
     (case e of
        Some ms \<Rightarrow> Option.bind (write_byte RDB_OPCODE_EXPIRETIME_MS s) (write_u64_le ms)
      | None \<Rightarrow> Some s)"

definition write_value :: "bytes \<Rightarrow> prime_value \<Rightarrow> rdb_saver \<Rightarrow> rdb_saver option" where
  "write_value key v s =
     (case v of
        PV_String data \<Rightarrow>
          Option.bind (write_byte RDB_TYPE_STRING s) (\<lambda>s1. Option.bind (write_string key s1) (write_string data))
      | PV_Integer n \<Rightarrow>
          Option.bind (write_byte RDB_TYPE_STRING s)
            (\<lambda>s1. Option.bind (write_string key s1) (write_integer_as_string n))
      | _ \<Rightarrow> Some s)"

definition write_key_value :: "prime_key \<Rightarrow> prime_value \<Rightarrow> u64 option \<Rightarrow> rdb_saver \<Rightarrow> rdb_saver option" where
  "write_key_value k v e s = Option.bind (write_expire e s) (write_value (key_as_bytes k) v)"

definition write_eof :: "rdb_saver \<Rightarrow> rdb_saver option" where
  "write_eof s =
     (case write_byte RDB_OPCODE_EOF s of
        None \<Rightarrow> None
      | Some s1 \<Rightarrow>
         (case write_all s1 (le_bytes 8 (unat (save_crc s1))) of
            None \<Rightarrow> None
          | Some s2 \<Rightarrow> Some (s2\<lparr>bytes_written := bytes_written s2 + 8\<rparr>)))"

subsection \<open>The bytes that are written\<close>

text \<open>
  \<open>writes f e\<close>: the writer function \<open>f\<close> either fails because the device refuses a write, or
  appends exactly the bytes \<open>e\<close>, adds them to the checksum and counts them; and it does not
  fail on a device that accepts everything.
\<close>

definition append_out :: "bytes \<Rightarrow> rdb_saver \<Rightarrow> rdb_saver" where
  "append_out e s = s\<lparr>out := out s @ e, save_crc := crc64 (save_crc s) e,
                      bytes_written := bytes_written s + of_nat (length e)\<rparr>"

definition writes :: "(rdb_saver \<Rightarrow> rdb_saver option) \<Rightarrow> bytes \<Rightarrow> bool" where
  "writes f e \<longleftrightarrow> (\<forall>s. (f s = None \<or> f s = Some (append_out e s)) \<and> ((\<forall>b. accepts s b) \<longrightarrow> f s \<noteq> None))"

named_theorems writes_rules \<open>what each writer function appends\<close>

lemma append_out_Nil [simp]: "append_out [] s = s"
  by (simp add: append_out_def)

lemma append_out_append: "append_out b (append_out a s) = append_out (a @ b) s"
  by (simp add: append_out_def crc64_append)

lemma append_out_sel [simp]:
  "out (append_out e s) = out s @ e" "accepts (append_out e s) = accepts s"
  "save_crc (append_out e s) = crc64 (save_crc s) e"
  "bytes_written (append_out e s) = bytes_written s + of_nat (length e)"
  by (simp_all add: append_out_def)

lemma writes_bytes [writes_rules]: "writes (write_bytes d) d"
  by (auto simp: writes_def write_bytes_def write_all_def append_out_def)

lemma writes_byte [writes_rules]: "writes (write_byte b) [byte_of b]"
  using writes_bytes [of "[byte_of b]"] by (simp add: writes_def write_byte_def)

lemma writes_bind:
  assumes "writes f a" and "writes g b"
  shows "writes (\<lambda>s. Option.bind (f s) g) (a @ b)"
proof -
  have "(Option.bind (f s) g = None \<or> Option.bind (f s) g = Some (append_out (a @ b) s))
      \<and> ((\<forall>b. accepts s b) \<longrightarrow> Option.bind (f s) g \<noteq> None)" for s
    using assms [unfolded writes_def, rule_format, of s] assms(2) [unfolded writes_def, rule_format, of "append_out a s"]
    by (cases "f s") (auto simp: append_out_append)
  then show ?thesis by (simp add: writes_def)
qed

lemma writes_return: "writes Some []"
  by (simp add: writes_def)

lemma writes_u64_le [writes_rules]: "writes (write_u64_le v) (le_bytes 8 (unat v))"
  using writes_bytes by (simp add: writes_def write_u64_le_def)

definition length_enc :: "u64 \<Rightarrow> bytes" where
  "length_enc len =
     (if len < 64 then [byte_of (ucast len)]
      else if len < 16384 then [byte_of (0x40 OR ucast (drop_bit 8 len))] @ [byte_of (ucast (len AND 0xFF))]
      else if len \<le> 0xFFFFFFFF then [byte_of 0x80] @ be_bytes 4 (unat (ucast len :: u32))
      else [byte_of 0x81] @ be_bytes 8 (unat len))"

lemma writes_if: "writes f a \<Longrightarrow> writes g b \<Longrightarrow> writes (\<lambda>s. if P then f s else g s) (if P then a else b)"
  by simp

lemmas writes_intros = writes_if writes_bind writes_return writes_bytes writes_byte writes_u64_le

lemma writes_length [writes_rules]: "writes (write_length len) (length_enc len)"
  unfolding write_length_def [abs_def] length_enc_def by (intro writes_intros)

definition plain_enc :: "bytes \<Rightarrow> bytes" where
  "plain_enc data = length_enc (of_nat (length data)) @ data"

definition int_enc :: "i64 \<Rightarrow> bytes" where
  "int_enc n =
     (if - 128 \<le> sint n \<and> sint n \<le> 127 then [byte_of 0xC0] @ [byte_of (ucast n)]
      else if - 32768 \<le> sint n \<and> sint n \<le> 32767 then [byte_of 0xC1] @ le_bytes 2 (unat (ucast n :: u16))
      else if - 2147483648 \<le> sint n \<and> sint n \<le> 2147483647
        then [byte_of 0xC2] @ le_bytes 4 (unat (ucast n :: u32))
      else plain_enc (i64_to_string n))"

lemma writes_int [writes_rules]: "writes (write_integer_as_string n) (int_enc n)"
  unfolding write_integer_as_string_def [abs_def] int_enc_def plain_enc_def
  by (intro writes_intros writes_length)

lemma writes_plain [writes_rules]: "writes (write_plain_string d) (plain_enc d)"
  unfolding write_plain_string_def [abs_def] plain_enc_def by (intro writes_intros writes_length)

definition string_enc :: "bytes \<Rightarrow> bytes" where
  "string_enc d =
     (if length d \<le> 11 then (case try_parse_integer d of Some n \<Rightarrow> int_enc n | None \<Rightarrow> plain_enc d)
      else plain_enc d)"

lemma writes_string [writes_rules]: "writes (write_string d) (string_enc d)"
  unfolding write_string_def [abs_def] string_enc_def
  by (cases "try_parse_integer d") (auto intro: writes_rules)

lemmas writes_strings = writes_intros writes_length writes_int writes_string

lemma writes_header: "writes write_header (''REDIS'' @ ''0009'')"
  unfolding write_header_def [abs_def] by (intro writes_strings)

lemma writes_aux: "writes (write_aux k v) ([byte_of RDB_OPCODE_AUX] @ string_enc k @ string_enc v)"
  unfolding write_aux_def [abs_def] by (intro writes_strings)

lemma writes_select_db: "writes (write_select_db i) ([byte_of RDB_OPCODE_SELECTDB] @ length_enc (ucast i))"
  unfolding write_select_db_def [abs_def] by (intro writes_strings)

lemma writes_resize_db:
  "writes (write_resize_db a b) ([byte_of RDB_OPCODE_RESIZEDB] @ length_enc a @ length_enc b)"
  unfolding write_resize_db_def [abs_def] by (intro writes_strings)

definition expire_enc :: "u64 option \<Rightarrow> bytes" where
  "expire_enc e = (case e of Some ms \<Rightarrow> [byte_of RDB_OPCODE_EXPIRETIME_MS] @ le_bytes 8 (unat ms) | None \<Rightarrow> [])"

definition value_enc :: "bytes \<Rightarrow> prime_value \<Rightarrow> bytes" where
  "value_enc key v =
     (case v of
        PV_String d \<Rightarrow> [byte_of RDB_TYPE_STRING] @ string_enc key @ string_enc d
      | PV_Integer n \<Rightarrow> [byte_of RDB_TYPE_STRING] @ string_enc key @ int_enc n
      | _ \<Rightarrow> [])"

lemma writes_expire: "writes (write_expire e) (expire_enc e)"
  unfolding write_expire_def [abs_def] expire_enc_def
  by (cases e) (simp_all, intro writes_return, intro writes_bind [of _ "[_]", simplified] writes_byte writes_u64_le)

lemma writes_value: "writes (write_value key v) (value_enc key v)"
  unfolding write_value_def [abs_def] value_enc_def
  by (cases v) (simp_all only: prime_value.case, (intro writes_strings)+)

lemma writes_key_value:
  "writes (write_key_value k v e) (expire_enc e @ value_enc (key_as_bytes k) v)"
  unfolding write_key_value_def [abs_def] by (intro writes_bind writes_expire writes_value)

text \<open>The end of the file: the checksum of everything before it, which is not added to itself.\<close>

lemma write_eof_out:
  "write_eof s = None \<or> (\<exists>s'. write_eof s = Some s' \<and>
     out s' = out s @ [byte_of RDB_OPCODE_EOF]
       @ le_bytes 8 (unat (crc64 (save_crc s) [byte_of RDB_OPCODE_EOF])) \<and>
     bytes_written s' = bytes_written s + 9)"
  "(\<forall>b. accepts s b) \<Longrightarrow> write_eof s \<noteq> None"
proof -
  note w = writes_byte [of RDB_OPCODE_EOF, unfolded writes_def, rule_format, of s]
  show "write_eof s = None \<or> (\<exists>s'. write_eof s = Some s' \<and>
     out s' = out s @ [byte_of RDB_OPCODE_EOF]
       @ le_bytes 8 (unat (crc64 (save_crc s) [byte_of RDB_OPCODE_EOF])) \<and>
     bytes_written s' = bytes_written s + 9)"
    using w by (auto simp: write_eof_def write_all_def split: option.splits if_splits)
  show "write_eof s \<noteq> None" if "\<forall>b. accepts s b"
    using w that by (auto simp: write_eof_def write_all_def)
qed

end
