(* ===== verification/Rdb_Load.thy ===== *)
theory Rdb_Load
  imports Rdb_Save
begin

text \<open>
  \<^verbatim>\<open>crates/shrikedb-persistence/src/rdb_load.rs\<close>: the RDB reader. The underlying \<^verbatim>\<open>Read\<close> is the bytes
  that are still to be read; \<^verbatim>\<open>read_exact\<close> past the end is \<open>UnexpectedEof\<close> (other I/O errors of the
  device are not modelled beyond the constructor \<open>Io\<close>). A result is a value with the loader
  after it, an error, or a panic: \<^verbatim>\<open>vec![0u8; len]\<close> panics on a length of \<^verbatim>\<open>isize::MAX\<close> or more.
  The loop of \<^verbatim>\<open>read_entry\<close>, which also calls itself through \<^verbatim>\<open>read_entry_with_type\<close>, is one recursive
  function that ends because every round reads a byte.
\<close>

record rdb_entry =
  db_index :: u32
  entry_key :: bytes
  entry_value :: prime_value
  expire_ms :: "u64 option"

datatype rdb_load_error =
    Io
  | BadMagic
  | UnsupportedVersion u32
  | UnsupportedType u8
  | UnexpectedEof
  | CrcMismatch u64 u64
  | Corrupt bytes

record rdb_loader =
  reader :: bytes
  load_crc :: u64
  current_db :: u32
  rdb_version :: u32

datatype 'a load_result = L_Ok 'a | L_Err rdb_load_error | L_Panic

definition l_bind :: "'a load_result \<Rightarrow> ('a \<Rightarrow> 'b load_result) \<Rightarrow> 'b load_result" where
  "l_bind r f = (case r of L_Ok x \<Rightarrow> f x | L_Err e \<Rightarrow> L_Err e | L_Panic \<Rightarrow> L_Panic)"

lemma l_bind_simps [simp]:
  "l_bind (L_Ok x) f = f x" "l_bind (L_Err e) f = L_Err e" "l_bind L_Panic f = L_Panic"
  by (simp_all add: l_bind_def)

lemma l_bind_eq_Ok: "l_bind r f = L_Ok y \<longleftrightarrow> (\<exists>x. r = L_Ok x \<and> f x = L_Ok y)"
  by (cases r) simp_all

definition loader_new :: "bytes \<Rightarrow> rdb_loader" where
  "loader_new r = \<lparr>reader = r, load_crc = 0, current_db = 0, rdb_version = 0\<rparr>"

subsection \<open>Reading bytes, lengths and strings\<close>

definition read_raw :: "nat \<Rightarrow> rdb_loader \<Rightarrow> (bytes \<times> rdb_loader) load_result" where
  "read_raw n l =
     (if length (reader l) < n then L_Err UnexpectedEof
      else L_Ok (take n (reader l), l\<lparr>reader := drop n (reader l)\<rparr>))"

definition read_exact :: "nat \<Rightarrow> rdb_loader \<Rightarrow> (bytes \<times> rdb_loader) load_result" where
  "read_exact n l =
     l_bind (read_raw n l) (\<lambda>(d, l1). L_Ok (d, l1\<lparr>load_crc := crc64 (load_crc l1) d\<rparr>))"

definition read_byte :: "rdb_loader \<Rightarrow> (u8 \<times> rdb_loader) load_result" where
  "read_byte l = l_bind (read_exact 1 l) (\<lambda>(d, l1). L_Ok (u8_of (hd d), l1))"

definition read_u32_le :: "rdb_loader \<Rightarrow> (u32 \<times> rdb_loader) load_result" where
  "read_u32_le l = l_bind (read_exact 4 l) (\<lambda>(d, l1). L_Ok (of_nat (of_le_bytes d), l1))"

definition read_u64_le :: "rdb_loader \<Rightarrow> (u64 \<times> rdb_loader) load_result" where
  "read_u64_le l = l_bind (read_exact 8 l) (\<lambda>(d, l1). L_Ok (of_nat (of_le_bytes d), l1))"

definition read_u64_le_no_crc :: "rdb_loader \<Rightarrow> (u64 \<times> rdb_loader) load_result" where
  "read_u64_le_no_crc l = l_bind (read_raw 8 l) (\<lambda>(d, l1). L_Ok (of_nat (of_le_bytes d), l1))"

definition enc_type :: "u8 \<Rightarrow> u8" where
  "enc_type first = drop_bit 6 first AND 3"

definition read_long_length :: "u8 \<Rightarrow> rdb_loader \<Rightarrow> ((u64 \<times> bool) \<times> rdb_loader) load_result" where
  "read_long_length sub l =
     (if sub = 0 then l_bind (read_exact 4 l) (\<lambda>(d, l1). L_Ok ((ucast (of_nat (of_be_bytes d) :: u32), False), l1))
      else if sub = 1 then l_bind (read_exact 8 l) (\<lambda>(d, l1). L_Ok ((of_nat (of_be_bytes d), False), l1))
      else L_Err (Corrupt (''unknown length encoding sub-type '' @ show_nat (unat sub))))"

definition read_length_with_encoding :: "rdb_loader \<Rightarrow> ((u64 \<times> bool) \<times> rdb_loader) load_result" where
  "read_length_with_encoding l =
     l_bind (read_byte l) (\<lambda>(first, l1).
       if enc_type first = RDB_6BITLEN then L_Ok ((ucast (first AND 0x3F), False), l1)
       else if enc_type first = RDB_14BITLEN then
         l_bind (read_byte l1) (\<lambda>(second, l2).
           L_Ok ((push_bit 8 (ucast (first AND 0x3F)) OR ucast second, False), l2))
       else if enc_type first = 2 then read_long_length (first AND 0x3F) l1
       else if enc_type first = RDB_ENCVAL then L_Ok ((ucast (first AND 0x3F), True), l1)
       else L_Panic)"

definition read_length :: "rdb_loader \<Rightarrow> (u64 \<times> rdb_loader) load_result" where
  "read_length l = l_bind (read_length_with_encoding l) (\<lambda>((len, e), l1). L_Ok (len, l1))"

text \<open>\<^verbatim>\<open>vec![0u8; n]\<close> filled by \<^verbatim>\<open>read_exact\<close>.\<close>

definition read_vec :: "u64 \<Rightarrow> rdb_loader \<Rightarrow> (bytes \<times> rdb_loader) load_result" where
  "read_vec n l = (if 2 ^ 63 \<le> unat n then L_Panic else read_exact (unat n) l)"

definition read_encoded_string :: "u64 \<Rightarrow> rdb_loader \<Rightarrow> (bytes \<times> rdb_loader) load_result" where
  "read_encoded_string len l =
     (let enc = (ucast len :: u8) in
      if enc = RDB_ENC_INT8 then l_bind (read_byte l) (\<lambda>(b, l1). L_Ok (show_int (sint b), l1))
      else if enc = RDB_ENC_INT16 then
        l_bind (read_exact 2 l) (\<lambda>(d, l1). L_Ok (show_int (sint (of_nat (of_le_bytes d) :: u16)), l1))
      else if enc = RDB_ENC_INT32 then
        l_bind (read_exact 4 l) (\<lambda>(d, l1). L_Ok (show_int (sint (of_nat (of_le_bytes d) :: u32)), l1))
      else if enc = RDB_ENC_LZF then
        l_bind (read_length l) (\<lambda>(clen, l1). l_bind (read_length l1) (\<lambda>(ulen, l2).
          l_bind (read_vec clen l2) (\<lambda>(d, l3). L_Ok ([], l3))))
      else L_Err (Corrupt (''unknown string encoding '' @ u64_to_string len)))"

definition read_string :: "rdb_loader \<Rightarrow> (bytes \<times> rdb_loader) load_result" where
  "read_string l =
     l_bind (read_length_with_encoding l) (\<lambda>((len, is_encoded), l1).
       if is_encoded then read_encoded_string len l1 else read_vec len l1)"

subsection \<open>Header and entries\<close>

definition read_header :: "rdb_loader \<Rightarrow> (u32 \<times> rdb_loader) load_result" where
  "read_header l =
     l_bind (read_exact 5 l) (\<lambda>(magic, l1).
       if magic \<noteq> ''REDIS'' then L_Err BadMagic
       else l_bind (read_exact 4 l1) (\<lambda>(ver, l2).
         case Option.bind (from_utf8 ver) (parse_unsigned (2 ^ 32)) of
           None \<Rightarrow> L_Err BadMagic
         | Some v \<Rightarrow>
             if (of_nat v :: u32) > 12 then L_Err (UnsupportedVersion (of_nat v))
             else L_Ok (of_nat v, l2\<lparr>rdb_version := of_nat v\<rparr>)))"

text \<open>One round of the loop in \<^verbatim>\<open>read_entry\<close>: go on with another round, or return.\<close>

datatype entry_step = Next rdb_loader | Ret "rdb_entry option" rdb_loader

definition read_entry_with_type :: "u8 \<Rightarrow> u64 option \<Rightarrow> rdb_loader \<Rightarrow> entry_step load_result" where
  "read_entry_with_type type_byte e l =
     l_bind (read_string l) (\<lambda>(key, l1).
       if type_byte = RDB_TYPE_STRING then
         l_bind (read_string l1) (\<lambda>(data, l2).
           L_Ok (Ret (Some \<lparr>db_index = current_db l2, entry_key = key,
                            entry_value = from_bytes data, expire_ms = e\<rparr>) l2))
       else L_Ok (Next l1))"

definition read_typed_entry :: "u64 option \<Rightarrow> rdb_loader \<Rightarrow> entry_step load_result" where
  "read_typed_entry e l = l_bind (read_byte l) (\<lambda>(t, l1). read_entry_with_type t e l1)"

definition read_eof :: "rdb_loader \<Rightarrow> entry_step load_result" where
  "read_eof l =
     l_bind (read_u64_le_no_crc l) (\<lambda>(stored, l1).
       if stored \<noteq> 0 \<and> stored \<noteq> load_crc l then L_Err (CrcMismatch (load_crc l) stored)
       else L_Ok (Ret None l1))"

definition read_opcode :: "u8 \<Rightarrow> rdb_loader \<Rightarrow> entry_step load_result" where
  "read_opcode opcode l =
     (if opcode = RDB_OPCODE_EOF then read_eof l
      else if opcode = RDB_OPCODE_SELECTDB then
        l_bind (read_length l) (\<lambda>(i, l1). L_Ok (Next (l1\<lparr>current_db := ucast i\<rparr>)))
      else if opcode = RDB_OPCODE_RESIZEDB then
        l_bind (read_length l) (\<lambda>(a, l1). l_bind (read_length l1) (\<lambda>(b, l2). L_Ok (Next l2)))
      else if opcode = RDB_OPCODE_AUX then
        l_bind (read_string l) (\<lambda>(a, l1). l_bind (read_string l1) (\<lambda>(b, l2). L_Ok (Next l2)))
      else if opcode = RDB_OPCODE_EXPIRETIME then
        l_bind (read_u32_le l) (\<lambda>(secs, l1). read_typed_entry (Some (ucast secs * 1000)) l1)
      else if opcode = RDB_OPCODE_EXPIRETIME_MS then
        l_bind (read_u64_le l) (\<lambda>(ms, l1). read_typed_entry (Some ms) l1)
      else if opcode = RDB_OPCODE_FREQ then l_bind (read_byte l) (\<lambda>(f, l1). L_Ok (Next l1))
      else if opcode = RDB_OPCODE_IDLE then l_bind (read_length l) (\<lambda>(f, l1). L_Ok (Next l1))
      else if opcode = RDB_OPCODE_MODULE_AUX \<or> opcode = RDB_OPCODE_FUNCTION
           \<or> opcode = RDB_OPCODE_FUNCTION2 \<or> opcode = RDB_OPCODE_SLOT_INFO
        then L_Err (UnsupportedType opcode)
      else read_entry_with_type opcode None l)"

definition entry_round :: "rdb_loader \<Rightarrow> entry_step load_result" where
  "entry_round l = l_bind (read_byte l) (\<lambda>(opcode, l1). read_opcode opcode l1)"

subsection \<open>Every round reads a byte\<close>

definition rest_le :: "rdb_loader \<Rightarrow> rdb_loader \<Rightarrow> bool" where
  "rest_le l' l \<longleftrightarrow> length (reader l') \<le> length (reader l)"

lemma rest_le_refl [simp]: "rest_le l l" "rest_le (l\<lparr>current_db := i\<rparr>) l"
  by (simp_all add: rest_le_def)

lemma rest_le_trans: "rest_le a b \<Longrightarrow> rest_le b c \<Longrightarrow> rest_le a c"
  by (simp add: rest_le_def)

lemma read_raw_le: "read_raw n l = L_Ok (d, l') \<Longrightarrow> length (reader l') + n = length (reader l)"
  by (auto simp: read_raw_def split: if_splits)

lemma read_exact_le: "read_exact n l = L_Ok (d, l') \<Longrightarrow> length (reader l') + n = length (reader l)"
  by (auto simp: read_exact_def l_bind_eq_Ok dest!: read_raw_le)

lemma read_byte_less: "read_byte l = L_Ok (b, l') \<Longrightarrow> length (reader l') < length (reader l)"
  by (auto simp: read_byte_def l_bind_eq_Ok dest!: read_exact_le)

lemma read_fixed_le:
  "read_exact n l = L_Ok (d, l') \<Longrightarrow> rest_le l' l"
  "read_byte l = L_Ok (b, l') \<Longrightarrow> rest_le l' l"
  "read_u32_le l = L_Ok (w, l') \<Longrightarrow> rest_le l' l"
  "read_u64_le l = L_Ok (v, l') \<Longrightarrow> rest_le l' l"
  "read_u64_le_no_crc l = L_Ok (v, l') \<Longrightarrow> rest_le l' l"
  "read_vec v l = L_Ok (d, l') \<Longrightarrow> rest_le l' l"
  by (auto simp: rest_le_def read_u32_le_def read_u64_le_def read_u64_le_no_crc_def read_vec_def l_bind_eq_Ok
      dest!: read_exact_le read_byte_less read_raw_le split: if_splits)

lemma read_length_enc_le: "read_length_with_encoding l = L_Ok (x, l') \<Longrightarrow> rest_le l' l"
  by (auto simp: read_length_with_encoding_def read_long_length_def l_bind_eq_Ok
      dest!: read_fixed_le elim: rest_le_trans split: if_splits)

lemma read_length_le: "read_length l = L_Ok (x, l') \<Longrightarrow> rest_le l' l"
  by (auto simp: read_length_def l_bind_eq_Ok dest!: read_length_enc_le)

lemma read_encoded_le: "read_encoded_string n l = L_Ok (x, l') \<Longrightarrow> rest_le l' l"
  by (auto simp: read_encoded_string_def l_bind_eq_Ok Let_def dest!: read_fixed_le read_length_le
      intro: rest_le_trans split: if_splits)

lemma read_string_le: "read_string l = L_Ok (x, l') \<Longrightarrow> rest_le l' l"
  by (auto simp: read_string_def l_bind_eq_Ok dest!: read_length_enc_le read_encoded_le read_fixed_le
      intro: rest_le_trans split: if_splits)

fun step_le :: "entry_step \<Rightarrow> rdb_loader \<Rightarrow> bool" where
  "step_le (Next l') l = rest_le l' l"
| "step_le (Ret e l') l = rest_le l' l"

lemma step_le_trans: "step_le s a \<Longrightarrow> rest_le a b \<Longrightarrow> step_le s b"
  by (cases s) (auto intro: rest_le_trans)

lemma read_entry_with_type_le: "read_entry_with_type t e l = L_Ok s \<Longrightarrow> step_le s l"
  by (auto simp: read_entry_with_type_def l_bind_eq_Ok dest!: read_string_le intro: rest_le_trans split: if_splits)

lemma read_typed_entry_le: "read_typed_entry e l = L_Ok s \<Longrightarrow> step_le s l"
  by (auto simp: read_typed_entry_def l_bind_eq_Ok dest!: read_fixed_le read_entry_with_type_le intro: step_le_trans)

lemma read_eof_le: "read_eof l = L_Ok s \<Longrightarrow> step_le s l"
  by (auto simp: read_eof_def l_bind_eq_Ok dest!: read_fixed_le split: if_splits)

lemma read_opcode_le: "read_opcode opc l = L_Ok s \<Longrightarrow> step_le s l"
  unfolding read_opcode_def
  by (auto simp: l_bind_eq_Ok split: if_splits
      dest!: read_eof_le read_length_le read_string_le read_fixed_le read_typed_entry_le read_entry_with_type_le
      intro: rest_le_trans step_le_trans)
     (auto simp: rest_le_def)

lemma entry_round_less:
  "entry_round l = L_Ok (Next l') \<Longrightarrow> length (reader l') < length (reader l)"
  "entry_round l = L_Ok (Ret e l') \<Longrightarrow> length (reader l') < length (reader l)"
  by (auto simp: entry_round_def l_bind_eq_Ok rest_le_def dest!: read_byte_less read_opcode_le)

function read_entry :: "rdb_loader \<Rightarrow> (rdb_entry option \<times> rdb_loader) load_result" where
  "read_entry l =
     (case entry_round l of
        L_Ok (Next l') \<Rightarrow> read_entry l'
      | L_Ok (Ret e l') \<Rightarrow> L_Ok (e, l')
      | L_Err e \<Rightarrow> L_Err e
      | L_Panic \<Rightarrow> L_Panic)"
  by pat_completeness auto
termination by (relation "measure (\<lambda>l. length (reader l))") (auto dest: entry_round_less)

declare read_entry.simps [simp del]

lemma read_entry_less: "read_entry l = L_Ok (e, l') \<Longrightarrow> length (reader l') < length (reader l)"
proof (induction l rule: read_entry.induct)
  case (1 l)
  show ?case
    using "1.prems" "1.IH" entry_round_less [of l]
    by (fastforce simp: read_entry.simps [of l] split: load_result.splits entry_step.splits)
qed

text \<open>The loop of \<^verbatim>\<open>load_all\<close>, with the entries collected so far.\<close>

function load_loop :: "rdb_loader \<Rightarrow> rdb_entry list \<Rightarrow> rdb_entry list load_result" where
  "load_loop l es =
     (case read_entry l of
        L_Ok (Some e, l') \<Rightarrow> load_loop l' (es @ [e])
      | L_Ok (None, l') \<Rightarrow> L_Ok es
      | L_Err e \<Rightarrow> L_Err e
      | L_Panic \<Rightarrow> L_Panic)"
  by pat_completeness auto
termination by (relation "measure (\<lambda>(l, es). length (reader l))") (auto dest: read_entry_less)

declare load_loop.simps [simp del]

definition load_all :: "bytes \<Rightarrow> rdb_entry list load_result" where
  "load_all r = l_bind (read_header (loader_new r)) (\<lambda>(v, l). load_loop l [])"

subsection \<open>Reading what was written\<close>

text \<open>The loader after it has read the bytes \<open>e\<close> and has \<open>rest\<close> left.\<close>

definition ate :: "bytes \<Rightarrow> bytes \<Rightarrow> rdb_loader \<Rightarrow> rdb_loader" where
  "ate e rest l = l\<lparr>reader := rest, load_crc := crc64 (load_crc l) e\<rparr>"

named_theorems reads \<open>reading an encoding that stands in front of the reader\<close>

lemma ate_sel [simp]:
  "reader (ate e rest l) = rest" "load_crc (ate e rest l) = crc64 (load_crc l) e"
  "current_db (ate e rest l) = current_db l"
  by (simp_all add: ate_def)

lemma ate_ate [simp]: "ate b r2 (ate a r1 l) = ate (a @ b) r2 l"
  by (simp add: ate_def crc64_append)

lemma read_exact_ate [reads]:
  "reader l = d @ rest \<Longrightarrow> length d = n \<Longrightarrow> read_exact n l = L_Ok (d, ate d rest l)"
  by (simp add: read_exact_def read_raw_def ate_def)

lemma read_byte_ate [reads]:
  "reader l = byte_of b # rest \<Longrightarrow> read_byte l = L_Ok (b, ate [byte_of b] rest l)"
  using read_exact_ate [of l "[byte_of b]" rest 1] by (simp add: read_byte_def)

lemma read_u64_le_ate [reads]:
  "reader l = le_bytes 8 (unat v) @ rest \<Longrightarrow> read_u64_le l = L_Ok (v, ate (le_bytes 8 (unat v)) rest l)"
  using unsigned_less [of v, where ?'a = nat]
  by (simp add: read_u64_le_def read_exact_ate of_le_bytes_le_bytes)

subsection \<open>Lengths\<close>

lemma unat_low6: "unat ((w :: u8) AND 0x3F) = unat w mod 64"
proof -
  have "w AND 0x3F = w mod 64" by (simp add: take_bit_eq_mask mask_numeral flip: take_bit_eq_mod [of 6, simplified])
  then show ?thesis by (simp add: unat_mod)
qed

lemma enc_type_unat: "unat (enc_type w) = unat w div 64"
proof -
  have "unat w < 256" using unsigned_less [of w, where ?'a = nat] by simp
  moreover have "enc_type w = (w div 64) mod 4"
    by (simp add: enc_type_def drop_bit_eq_div take_bit_eq_mask mask_numeral
        flip: take_bit_eq_mod [of 2, simplified])
  ultimately show ?thesis by (simp add: unat_mod unat_div less_mult_imp_div_less)
qed

lemma ucast_low_u8: "unat (x :: u64) < 256 \<Longrightarrow> unat (ucast x :: u8) = unat x"
  by (simp add: unsigned_ucast_eq take_bit_nat_eq_self)

lemma or_0x40: "unat (v :: u8) < 64 \<Longrightarrow> unat (0x40 OR v) = 64 + unat v"
proof -
  assume v: "unat v < 64"
  have "\<not> bit v n" if "6 \<le> n" for n using word_bit_small [of v 6 n] v that by simp
  moreover have "bit (0x40 :: u8) n \<Longrightarrow> n = 6" for n
    using bit_push_bit_iff [of 6 "1 :: u8" n] by (simp add: bit_1_iff)
  ultimately have "0x40 + v = 0x40 OR v" by (intro disjunctive_add) blast
  then show ?thesis using v unat_plus_if' [of "0x40 :: u8" v] by simp
qed

lemma word_unat_eqI: "unat a = unat b \<Longrightarrow> a = (b :: 'a::len word)"
  by (rule unsigned_word_eqI)

lemma length_two_bytes:
  assumes "len < (16384 :: u64)"
  shows "push_bit 8 (ucast ((0x40 OR ucast (drop_bit 8 len) :: u8) AND 0x3F)) OR ucast (ucast (len AND 0xFF) :: u8) = len"
    and "unat (0x40 OR ucast (drop_bit 8 len) :: u8) div 64 = 1"
proof -
  have "unat (drop_bit 8 len) < 64"
    using assms by (simp add: drop_bit_eq_div unat_div word_less_nat_alt less_mult_imp_div_less)
  then have v: "unat (ucast (drop_bit 8 len) :: u8) = unat (drop_bit 8 len)" "unat (ucast (drop_bit 8 len) :: u8) < 64"
    by (simp_all add: ucast_low_u8)
  show "unat (0x40 OR ucast (drop_bit 8 len) :: u8) div 64 = 1" using v(2) by (simp add: or_0x40)
  have "ucast ((0x40 OR ucast (drop_bit 8 len) :: u8) AND 0x3F) = drop_bit 8 len"
    using v by (intro word_unat_eqI) (simp add: unsigned_ucast_eq unat_low6 or_0x40 take_bit_nat_eq_self)
  moreover have "len AND 0xFF = take_bit 8 len" by (simp add: take_bit_eq_mask mask_numeral)
  then have "ucast (ucast (len AND 0xFF) :: u8) = take_bit 8 len"
    by (simp only:) (rule bit_word_eqI, auto simp: bit_simps)
  moreover have "push_bit 8 (drop_bit 8 len) OR take_bit 8 len = len"
    by (rule bit_word_eqI) (auto simp: bit_simps)
  ultimately show "push_bit 8 (ucast ((0x40 OR ucast (drop_bit 8 len) :: u8) AND 0x3F))
     OR ucast (ucast (len AND 0xFF) :: u8) = len" by simp
qed

lemma read_length_enc_ate [reads]:
  assumes "reader l = length_enc len @ rest"
  shows "read_length_with_encoding l = L_Ok ((len, False), ate (length_enc len) rest l)"
proof -
  consider (six) "len < 64" | (fourteen) "\<not> len < 64" "len < 16384"
    | (word) "\<not> len < 64" "\<not> len < 16384" "len \<le> 0xFFFFFFFF"
    | (long) "\<not> len < 64" "\<not> len < 16384" "\<not> len \<le> 0xFFFFFFFF" by blast
  then show ?thesis
  proof cases
    case six
    then have "unat (ucast len :: u8) = unat len" "unat len < 64"
      by (simp_all add: ucast_low_u8 word_less_nat_alt)
    then have "enc_type (ucast len) = 0" "ucast ((ucast len :: u8) AND 0x3F) = len"
      by (simp_all add: unat_eq_zero [symmetric] enc_type_unat word_unat_eqI unsigned_ucast_eq unat_low6 take_bit_nat_eq_self)
    moreover have "length_enc len = [byte_of (ucast len)]" using six by (simp add: length_enc_def)
    ultimately show ?thesis
      using assms by (simp add: read_length_with_encoding_def reads rdb_lengths)
  next
    case fourteen
    let ?f = "0x40 OR ucast (drop_bit 8 len) :: u8"
    have e: "length_enc len = [byte_of ?f, byte_of (ucast (len AND 0xFF))]" using fourteen by (simp add: length_enc_def)
    have "enc_type ?f = 1" using length_two_bytes(2) [OF fourteen(2)] by (intro word_unat_eqI) (simp add: enc_type_unat)
    then show ?thesis
      using assms e length_two_bytes(1) [OF fourteen(2)]
      by (simp add: read_length_with_encoding_def reads rdb_lengths)
  next
    case word
    then have e: "length_enc len = byte_of 0x80 # be_bytes 4 (unat (ucast len :: u32))" by (simp add: length_enc_def)
    have "unat (ucast len :: u32) < 256 ^ 4" using unsigned_less [of "ucast len :: u32", where ?'a = nat] by simp
    moreover have "ucast (ucast len :: u32) = len"
      using word(3) by (intro word_unat_eqI) (simp add: unsigned_ucast_eq unsigned_take_bit_eq take_bit_nat_eq_self word_le_nat_alt)
    ultimately show ?thesis
      using assms e
      by (simp add: read_length_with_encoding_def reads rdb_lengths enc_type_def read_long_length_def of_be_bytes_be_bytes)
  next
    case long
    then have e: "length_enc len = byte_of 0x81 # be_bytes 8 (unat len)" by (simp add: length_enc_def)
    have "unat len < 256 ^ 8" using unsigned_less [of len, where ?'a = nat] by simp
    then show ?thesis
      using assms e
      by (simp add: read_length_with_encoding_def reads rdb_lengths enc_type_def read_long_length_def of_be_bytes_be_bytes)
  qed
qed

lemma read_length_ate [reads]:
  "reader l = length_enc len @ rest \<Longrightarrow> read_length l = L_Ok (len, ate (length_enc len) rest l)"
  by (simp add: read_length_def reads)

subsection \<open>Strings\<close>

lemma read_vec_ate [reads]:
  "reader l = d @ rest \<Longrightarrow> length d < 2 ^ 63 \<Longrightarrow> read_vec (of_nat (length d)) l = L_Ok (d, ate d rest l)"
  by (simp add: read_vec_def reads unat_of_nat_u64)

lemma read_plain_ate:
  assumes "reader l = plain_enc d @ rest" and "length d < 2 ^ 63"
  shows "read_string l = L_Ok (d, ate (plain_enc d) rest l)"
  using assms by (simp add: read_string_def plain_enc_def reads)

lemma sint_narrow:
  "- (2 ^ 7) \<le> sint (n :: i64) \<and> sint n < 2 ^ 7 \<Longrightarrow> sint (ucast n :: u8) = sint n"
  "- (2 ^ 15) \<le> sint n \<and> sint n < 2 ^ 15 \<Longrightarrow> sint (ucast n :: u16) = sint n"
  "- (2 ^ 31) \<le> sint n \<and> sint n < 2 ^ 31 \<Longrightarrow> sint (ucast n :: u32) = sint n"
proof -
  have "ucast n = (word_of_int (sint n) :: u8)" "ucast n = (word_of_int (sint n) :: u16)"
    "ucast n = (word_of_int (sint n) :: u32)"
    by (rule bit_word_eqI, auto simp: bit_simps)+
  then show "- (2 ^ 7) \<le> sint n \<and> sint n < 2 ^ 7 \<Longrightarrow> sint (ucast n :: u8) = sint n"
    "- (2 ^ 15) \<le> sint n \<and> sint n < 2 ^ 15 \<Longrightarrow> sint (ucast n :: u16) = sint n"
    "- (2 ^ 31) \<le> sint n \<and> sint n < 2 ^ 31 \<Longrightarrow> sint (ucast n :: u32) = sint n"
    by (simp_all only: signed_of_int) (simp_all add: signed_take_bit_int_eq_self)
qed

lemma encoded_header:
  assumes "reader l = byte_of w # rest" and "enc_type w = RDB_ENCVAL"
  shows "read_string l = read_encoded_string (ucast (w AND 0x3F)) (ate [byte_of w] rest l)"
  using assms by (simp add: read_string_def read_length_with_encoding_def read_byte_ate rdb_lengths)

lemma word_of_le_bytes:
  "of_nat (of_le_bytes (le_bytes 2 (unat (w :: u16)))) = w"
  "of_nat (of_le_bytes (le_bytes 4 (unat (v :: u32)))) = v"
  using unsigned_less [of w, where ?'a = nat] unsigned_less [of v, where ?'a = nat]
  by (simp_all add: of_le_bytes_le_bytes)

lemma read_int_ate:
  assumes "reader l = int_enc n @ rest"
  shows "read_string l = L_Ok (i64_to_string n, ate (int_enc n) rest l)"
proof -
  consider (b1) "- 128 \<le> sint n \<and> sint n \<le> 127"
    | (b2) "\<not> (- 128 \<le> sint n \<and> sint n \<le> 127)" "- 32768 \<le> sint n \<and> sint n \<le> 32767"
    | (b4) "\<not> (- 128 \<le> sint n \<and> sint n \<le> 127)" "\<not> (- 32768 \<le> sint n \<and> sint n \<le> 32767)"
        "- 2147483648 \<le> sint n \<and> sint n \<le> 2147483647"
    | (str) "\<not> (- 128 \<le> sint n \<and> sint n \<le> 127)" "\<not> (- 32768 \<le> sint n \<and> sint n \<le> 32767)"
        "\<not> (- 2147483648 \<le> sint n \<and> sint n \<le> 2147483647)" by blast
  then show ?thesis
  proof cases
    case b1
    then have e: "int_enc n = [byte_of 0xC0, byte_of (ucast n)]" by (simp add: int_enc_def)
    have "sint (ucast n :: u8) = sint n" using b1 by (intro sint_narrow) simp
    then show ?thesis
      using assms encoded_header [of l "0xC0" "byte_of (ucast n) # rest"]
      by (simp add: e enc_type_def rdb_lengths read_encoded_string_def read_byte_ate i64_to_string_def Let_def)
  next
    case b2
    then have e: "int_enc n = byte_of 0xC1 # le_bytes 2 (unat (ucast n :: u16))" by (simp only: int_enc_def if_False if_True simp_thms append_Cons append_Nil)
    have "sint (ucast n :: u16) = sint n" using b2 by (intro sint_narrow) simp
    then show ?thesis
      using assms encoded_header [of l "0xC1" "le_bytes 2 (unat (ucast n :: u16)) @ rest"]
      by (simp add: e enc_type_def rdb_lengths read_encoded_string_def read_exact_ate i64_to_string_def Let_def word_of_le_bytes)
  next
    case b4
    then have e: "int_enc n = byte_of 0xC2 # le_bytes 4 (unat (ucast n :: u32))" by (simp only: int_enc_def if_False if_True simp_thms append_Cons append_Nil)
    have "sint (ucast n :: u32) = sint n" using b4 by (intro sint_narrow) simp
    then show ?thesis
      using assms encoded_header [of l "0xC2" "le_bytes 4 (unat (ucast n :: u32)) @ rest"]
      by (simp add: e enc_type_def rdb_lengths read_encoded_string_def read_exact_ate i64_to_string_def Let_def word_of_le_bytes)
  next
    case str
    then have e: "int_enc n = plain_enc (i64_to_string n)" by (simp only: int_enc_def if_False simp_thms)
    then show ?thesis using assms read_plain_ate i64_to_string_length [of n] by simp
  qed
qed

lemma read_string_ate [reads]:
  assumes "reader l = string_enc d @ rest" and "length d < 2 ^ 63"
  shows "read_string l = L_Ok (d, ate (string_enc d) rest l)"
proof (cases "length d \<le> 11 \<and> try_parse_integer d \<noteq> None")
  case True
  then obtain n where n: "try_parse_integer d = Some n" by auto
  then have "i64_to_string n = d"
    by (auto simp: try_parse_integer_def bind_eq_Some_conv split: if_splits)
  then show ?thesis using assms(1) True n read_int_ate [of l n rest] by (simp add: string_enc_def)
next
  case False
  then have "string_enc d = plain_enc d" by (auto simp: string_enc_def)
  then show ?thesis using assms read_plain_ate by simp
qed

end
