(* ===== verification/Snapshot.thy ===== *)
theory Snapshot
  imports Rdb_Load
begin

text \<open>
  \<^verbatim>\<open>crates/shrikedb-persistence/src/snapshot.rs\<close>: writing the snapshots of all shards to one RDB file and
  reading a file back. The file system is a map from paths to contents with the outcomes of
  the operations that may fail; what a failed write leaves in the temporary file is a field of
  its own. The results are the round trip of a save and a load, and that a failed save leaves
  the previous file as it was.
\<close>

record file_system =
  files :: "bytes \<Rightarrow> bytes option"
  can_create :: "bytes \<Rightarrow> bool"
  device :: "bytes \<Rightarrow> bool"
  can_flush :: bool
  can_rename :: bool
  leftover :: bytes

type_synonym snap_entry = "u16 \<times> bytes \<times> prime_value \<times> u64 option"
type_synonym db_entry = "bytes \<times> prime_value \<times> u64 option"

record shard_snapshot =
  entries :: "snap_entry list"

text \<open>
  \<^verbatim>\<open>Path::with_extension\<close> on a path that ends in a file name other than \<^verbatim>\<open>.\<close> and \<^verbatim>\<open>..\<close>: the extension starts at the last dot, unless that is the
  first character of the name.
\<close>

definition file_name :: "bytes \<Rightarrow> bytes" where
  "file_name path = rev (takeWhile (\<lambda>c. c \<noteq> CHR ''/'') (rev path))"

definition file_stem :: "bytes \<Rightarrow> bytes" where
  "file_stem name =
     (case dropWhile (\<lambda>c. c \<noteq> CHR ''.'') (rev name) of
        [] \<Rightarrow> name
      | _ # r \<Rightarrow> if r = [] then name else rev r)"

definition with_extension :: "bytes \<Rightarrow> bytes \<Rightarrow> bytes" where
  "with_extension path ext =
     take (length path - length (file_name path)) path @ file_stem (file_name path) @ ''.'' @ ext"

definition default_rdb_path :: bytes where
  "default_rdb_path = ''dump.rdb''"

subsection \<open>Saving\<close>

definition db_entries :: "u16 \<Rightarrow> shard_snapshot list \<Rightarrow> db_entry list" where
  "db_entries db_idx snaps =
     concat (map (\<lambda>snap. map snd (filter (\<lambda>(entry_db, r). entry_db = db_idx) (entries snap))) snaps)"

definition expire_count :: "db_entry list \<Rightarrow> nat" where
  "expire_count es = length (filter (\<lambda>(k, v, e). e \<noteq> None) es)"

fun write_entries :: "db_entry list \<Rightarrow> rdb_saver \<Rightarrow> rdb_saver option" where
  "write_entries [] s = Some s"
| "write_entries ((k, v, e) # es) s =
     Option.bind (write_key_value (prime_key_new k) v e s) (write_entries es)"

definition write_db :: "shard_snapshot list \<Rightarrow> u16 \<Rightarrow> rdb_saver \<Rightarrow> rdb_saver option" where
  "write_db snaps db_idx s =
     (let es = db_entries db_idx snaps in
      if es = [] then Some s
      else Option.bind (write_select_db (ucast db_idx) s) (\<lambda>s1.
        Option.bind (write_resize_db (of_nat (length es)) (of_nat (expire_count es)) s1) (write_entries es)))"

fun write_dbs :: "shard_snapshot list \<Rightarrow> u16 list \<Rightarrow> rdb_saver \<Rightarrow> rdb_saver option" where
  "write_dbs snaps [] s = Some s"
| "write_dbs snaps (i # js) s = Option.bind (write_db snaps i s) (write_dbs snaps js)"

definition all_dbs :: "u16 list" where
  "all_dbs = map of_nat [0..<16]"

definition write_snapshot :: "shard_snapshot list \<Rightarrow> rdb_saver \<Rightarrow> rdb_saver option" where
  "write_snapshot snaps s =
     Option.bind (write_header s) (\<lambda>s1.
       Option.bind (write_aux ''redis-ver'' ''7.0.0'' s1) (\<lambda>s2.
         Option.bind (write_aux ''shrikedb-ver'' ''0.1.0'' s2) (\<lambda>s3.
           Option.bind (write_dbs snaps all_dbs s3) write_eof)))"

definition save_rdb :: "file_system \<Rightarrow> bytes \<Rightarrow> shard_snapshot list \<Rightarrow> u64 option \<times> file_system" where
  "save_rdb fs path snaps =
     (let tmp_path = with_extension path ''rdb.tmp'' in
      if \<not> can_create fs tmp_path then (None, fs)
      else
        (case write_snapshot snaps (saver_new (device fs) []) of
           None \<Rightarrow> (None, fs\<lparr>files := (files fs)(tmp_path \<mapsto> leftover fs)\<rparr>)
         | Some s \<Rightarrow>
             if \<not> can_flush fs then (None, fs\<lparr>files := (files fs)(tmp_path \<mapsto> leftover fs)\<rparr>)
             else if \<not> can_rename fs then (None, fs\<lparr>files := (files fs)(tmp_path \<mapsto> out s)\<rparr>)
             else (Some (bytes_written s), fs\<lparr>files := (files fs)(tmp_path := None, path \<mapsto> out s)\<rparr>)))"

definition load_rdb :: "file_system \<Rightarrow> bytes \<Rightarrow> rdb_entry list load_result" where
  "load_rdb fs path = (case files fs path of None \<Rightarrow> L_Err Io | Some d \<Rightarrow> load_all d)"

subsection \<open>The bytes of a snapshot\<close>

definition entry_enc :: "db_entry \<Rightarrow> bytes" where
  "entry_enc r = (case r of (k, v, e) \<Rightarrow> expire_enc e @ value_enc k v)"

definition db_header_enc :: "u16 \<Rightarrow> db_entry list \<Rightarrow> bytes" where
  "db_header_enc i es =
     ([byte_of RDB_OPCODE_SELECTDB] @ length_enc (ucast (ucast i :: u32)))
     @ ([byte_of RDB_OPCODE_RESIZEDB] @ length_enc (of_nat (length es)) @ length_enc (of_nat (expire_count es)))"

definition db_enc :: "u16 \<Rightarrow> db_entry list \<Rightarrow> bytes" where
  "db_enc i es = (if es = [] then [] else db_header_enc i es @ concat (map entry_enc es))"

definition aux_enc :: "bytes \<Rightarrow> bytes \<Rightarrow> bytes" where
  "aux_enc k v = [byte_of RDB_OPCODE_AUX] @ string_enc k @ string_enc v"

definition body_enc :: "shard_snapshot list \<Rightarrow> bytes" where
  "body_enc snaps =
     aux_enc ''redis-ver'' ''7.0.0'' @ aux_enc ''shrikedb-ver'' ''0.1.0''
     @ concat (map (\<lambda>i. db_enc i (db_entries i snaps)) all_dbs)"

definition head_enc :: "shard_snapshot list \<Rightarrow> bytes" where
  "head_enc snaps = (''REDIS'' @ ''0009'') @ body_enc snaps"

definition image :: "shard_snapshot list \<Rightarrow> bytes" where
  "image snaps =
     (let e = head_enc snaps @ [byte_of RDB_OPCODE_EOF]
      in e @ le_bytes 8 (unat (crc64 0 e)))"

lemma writes_entries: "writes (write_entries es) (concat (map entry_enc es))"
proof (induction es)
  case Nil
  have "write_entries [] = Some" by (rule ext) simp
  then show ?case using writes_return by simp
next
  case (Cons r es)
  obtain k v e where r: "r = (k, v, e)" by (cases r)
  have "write_entries (r # es) = (\<lambda>s. Option.bind (write_key_value (prime_key_new k) v e s) (write_entries es))"
    by (rule ext) (simp add: r)
  moreover have "writes (write_key_value (prime_key_new k) v e) (entry_enc r)"
    using writes_key_value [of "prime_key_new k" v e] by (simp add: r entry_enc_def)
  ultimately show ?case using writes_bind [OF _ Cons.IH] by simp
qed

lemma writes_db: "writes (write_db snaps i) (db_enc i (db_entries i snaps))"
proof (cases "db_entries i snaps = []")
  case True
  then have "write_db snaps i = Some" by (intro ext) (simp add: write_db_def)
  then show ?thesis using writes_return True by (simp add: db_enc_def)
next
  case False
  let ?es = "db_entries i snaps"
  have "write_db snaps i = (\<lambda>s. Option.bind (write_select_db (ucast i) s) (\<lambda>s1.
        Option.bind (write_resize_db (of_nat (length ?es)) (of_nat (expire_count ?es)) s1) (write_entries ?es)))"
    using False by (intro ext) (simp add: write_db_def Let_def)
  then show ?thesis
    using False writes_bind [OF writes_select_db writes_bind [OF writes_resize_db writes_entries]]
    by (simp add: db_enc_def db_header_enc_def)
qed

lemma writes_dbs: "writes (write_dbs snaps js) (concat (map (\<lambda>i. db_enc i (db_entries i snaps)) js))"
proof (induction js)
  case Nil
  have "write_dbs snaps [] = Some" by (rule ext) simp
  then show ?case using writes_return by simp
next
  case (Cons j js)
  have "write_dbs snaps (j # js) = (\<lambda>s. Option.bind (write_db snaps j s) (write_dbs snaps js))"
    by (rule ext) simp
  then show ?case using writes_bind [OF writes_db Cons.IH] by simp
qed

lemma write_snapshot_image:
  "write_snapshot snaps (saver_new dev []) = None \<or>
   (\<exists>s. write_snapshot snaps (saver_new dev []) = Some s \<and> out s = image snaps
        \<and> bytes_written s = of_nat (length (image snaps)))"
  "(\<forall>b. dev b) \<Longrightarrow> write_snapshot snaps (saver_new dev []) \<noteq> None"
proof -
  let ?f = "\<lambda>s. Option.bind (write_header s) (\<lambda>s1. Option.bind (write_aux ''redis-ver'' ''7.0.0'' s1)
    (\<lambda>s2. Option.bind (write_aux ''shrikedb-ver'' ''0.1.0'' s2) (write_dbs snaps all_dbs)))"
  let ?e = "head_enc snaps" and ?s0 = "saver_new dev []"
  have "writes ?f ?e"
    using writes_bind [OF writes_header writes_bind [OF writes_aux writes_bind [OF writes_aux writes_dbs]]]
    by (simp add: head_enc_def body_enc_def aux_enc_def)
  then have f: "?f ?s0 = None \<or> ?f ?s0 = Some (append_out ?e ?s0)"
    "(\<forall>b. dev b) \<Longrightarrow> ?f ?s0 \<noteq> None"
    by (simp_all only: writes_def) (simp add: saver_new_def)
  have ws: "write_snapshot snaps ?s0 = Option.bind (?f ?s0) write_eof"
    by (simp add: write_snapshot_def)
  have acc: "accepts (append_out ?e ?s0) = dev" by (simp add: saver_new_def)
  note eof = write_eof_out [of "append_out ?e ?s0", unfolded acc]
  show "write_snapshot snaps ?s0 = None \<or> (\<exists>s. write_snapshot snaps ?s0 = Some s \<and> out s = image snaps
        \<and> bytes_written s = of_nat (length (image snaps)))"
    using f(1) eof(1) unfolding ws
    by (elim disjE) (auto simp: saver_new_def image_def crc64_append Let_def)
  show "write_snapshot snaps ?s0 \<noteq> None" if "\<forall>b. dev b"
    using f(1) f(2) [OF that] eof(2) [OF that] unfolding ws by auto
qed

subsection \<open>Loading it back\<close>

lemma load_loop_skip:
  assumes "entry_round l = L_Ok (Next l')"
  shows "load_loop l acc = load_loop l' acc"
proof -
  have "read_entry l = read_entry l'" using assms by (simp add: read_entry.simps [of l])
  then show ?thesis by (simp add: load_loop.simps [of l] load_loop.simps [of l'])
qed

lemma load_loop_entry:
  assumes "entry_round l = L_Ok (Ret (Some e) l')"
  shows "load_loop l acc = load_loop l' (acc @ [e])"
  using assms by (simp add: load_loop.simps [of l] read_entry.simps [of l])

lemma load_loop_end:
  assumes "entry_round l = L_Ok (Ret None l')"
  shows "load_loop l acc = L_Ok acc"
  using assms by (simp add: load_loop.simps [of l] read_entry.simps [of l])

lemma round_aux:
  assumes "reader l = aux_enc k v @ rest" and "length k < 2 ^ 63" "length v < 2 ^ 63"
  shows "entry_round l = L_Ok (Next (ate (aux_enc k v) rest l))"
  using assms by (simp add: entry_round_def aux_enc_def reads read_opcode_def rdb_opcodes)

lemma round_select:
  assumes "reader l = ([byte_of RDB_OPCODE_SELECTDB] @ length_enc i) @ rest"
  shows "entry_round l = L_Ok (Next ((ate ([byte_of RDB_OPCODE_SELECTDB] @ length_enc i) rest l)\<lparr>current_db := ucast i\<rparr>))"
  using assms by (simp add: entry_round_def reads read_opcode_def rdb_opcodes)

lemma round_resize:
  assumes "reader l = ([byte_of RDB_OPCODE_RESIZEDB] @ length_enc a @ length_enc b) @ rest"
  shows "entry_round l = L_Ok (Next (ate ([byte_of RDB_OPCODE_RESIZEDB] @ length_enc a @ length_enc b) rest l))"
  using assms by (simp add: entry_round_def reads read_opcode_def rdb_opcodes)

text \<open>What an entry becomes: its value is read back as the bytes of the string it held.\<close>

definition loaded :: "u32 \<Rightarrow> db_entry \<Rightarrow> rdb_entry" where
  "loaded i r = (case r of (k, v, e) \<Rightarrow>
     \<lparr>db_index = i, entry_key = k, entry_value = from_bytes (value_as_bytes v), expire_ms = e\<rparr>)"

definition storable :: "db_entry \<Rightarrow> bool" where
  "storable r = (case r of (k, v, e) \<Rightarrow> is_string v \<and> length k < 2 ^ 63 \<and> length (value_as_bytes v) < 2 ^ 63)"

text \<open>The type byte, the key and the value, after an optional expiry.\<close>

lemma read_value_ate:
  assumes "reader l = value_enc k v @ rest" and "storable (k, v, e)"
  shows "read_typed_entry x l = L_Ok (Ret (Some (loaded (current_db l) (k, v, x))) (ate (value_enc k v) rest l))"
  using assms
  by (cases v)
     (auto simp: storable_def value_enc_def read_typed_entry_def read_entry_with_type_def reads rdb_opcodes
       read_int_ate loaded_def)

lemma round_entry:
  assumes "reader l = entry_enc (k, v, e) @ rest" and "storable (k, v, e)"
  shows "entry_round l = L_Ok (Ret (Some (loaded (current_db l) (k, v, e))) (ate (entry_enc (k, v, e)) rest l))"
proof (cases e)
  case None
  have "entry_round l = read_typed_entry None l"
    using assms
    by (cases v)
       (auto simp: storable_def None entry_enc_def expire_enc_def value_enc_def entry_round_def read_typed_entry_def
         reads read_opcode_def rdb_opcodes)
  then show ?thesis
    using assms read_value_ate [of l k v rest e None] None by (simp add: entry_enc_def expire_enc_def)
next
  case (Some ms)
  let ?x = "byte_of RDB_OPCODE_EXPIRETIME_MS # le_bytes 8 (unat ms)"
  have l: "reader l = ?x @ value_enc k v @ rest" using assms(1) Some by (simp add: entry_enc_def expire_enc_def)
  have "entry_round l = read_typed_entry (Some ms) (ate ?x (value_enc k v @ rest) l)"
    using l by (simp add: entry_round_def reads read_opcode_def rdb_opcodes)
  then show ?thesis
    using assms read_value_ate [of "ate ?x (value_enc k v @ rest) l" k v rest e] Some
    by (simp add: entry_enc_def expire_enc_def)
qed

lemma load_entries:
  assumes "reader l = concat (map entry_enc es) @ rest" and "list_all storable es"
  shows "load_loop l acc = load_loop (ate (concat (map entry_enc es)) rest l) (acc @ map (loaded (current_db l)) es)"
  using assms
proof (induction es arbitrary: l acc)
  case Nil
  then have "ate [] rest l = l" by (simp add: ate_def)
  then show ?case by simp
next
  case (Cons r es)
  obtain k v e where r: "r = (k, v, e)" by (cases r)
  let ?l' = "ate (entry_enc r) (concat (map entry_enc es) @ rest) l"
  have "entry_round l = L_Ok (Ret (Some (loaded (current_db l) r)) ?l')"
    using round_entry [of l k v e] Cons.prems by (simp add: r)
  then have "load_loop l acc = load_loop ?l' (acc @ [loaded (current_db l) r])" by (rule load_loop_entry)
  then show ?case using Cons.IH [of ?l'] Cons.prems by simp
qed

definition in_db :: "u32 \<Rightarrow> rdb_loader \<Rightarrow> rdb_loader" where
  "in_db i l = l\<lparr>current_db := i\<rparr>"

lemma in_db_sel [simp]:
  "reader (in_db i l) = reader l" "current_db (in_db i l) = i" "load_crc (in_db i l) = load_crc l"
  "ate e rest (in_db i l) = in_db i (ate e rest l)" "in_db j (in_db i l) = in_db j l"
  by (simp_all add: in_db_def ate_def)

text \<open>
  The entries \<open>es\<close> were written and \<open>es'\<close> is what a reader makes of their bytes. Only strings and
  integers have an encoding, so the two differ when other values are among them.
\<close>

definition reads_as :: "db_entry list \<Rightarrow> db_entry list \<Rightarrow> bool" where
  "reads_as es es' \<longleftrightarrow> concat (map entry_enc es) = concat (map entry_enc es') \<and> list_all storable es' \<and> (es = [] \<longrightarrow> es' = [])"

lemma load_db:
  assumes "reader l = db_enc i es @ rest" and "reads_as es es'"
  shows "\<exists>j. load_loop l acc = load_loop (in_db j (ate (db_enc i es) rest l)) (acc @ map (loaded (ucast i)) es')"
proof (cases "es = []")
  case True
  then have "in_db (current_db l) (ate (db_enc i es) rest l) = l"
    using assms(1) by (simp add: db_enc_def in_db_def ate_def)
  then show ?thesis using True assms(2) by (intro exI [of _ "current_db l"]) (simp add: reads_as_def)
next
  case False
  define a where "a = [byte_of RDB_OPCODE_SELECTDB] @ length_enc (ucast (ucast i :: u32))"
  define b where "b = [byte_of RDB_OPCODE_RESIZEDB] @ length_enc (of_nat (length es)) @ length_enc (of_nat (expire_count es))"
  define c where "c = concat (map entry_enc es)"
  have c': "c = concat (map entry_enc es')" "list_all storable es'" using assms(2) by (simp_all add: reads_as_def c_def)
  have e: "db_enc i es = a @ b @ c" using False by (simp add: db_enc_def db_header_enc_def a_def b_def c_def)
  have "ucast (ucast (ucast i :: u32) :: u64) = (ucast i :: u32)"
    by (rule bit_word_eqI) (auto simp: bit_simps)
  then have "load_loop l acc = load_loop (in_db (ucast i) (ate a (b @ c @ rest) l)) acc"
    using round_select [of l "ucast (ucast i :: u32)" "b @ c @ rest"] assms(1)
    by (intro load_loop_skip) (simp add: e a_def in_db_def)
  also have "\<dots> = load_loop (in_db (ucast i) (ate (a @ b) (c @ rest) l)) acc"
    using round_resize [of "in_db (ucast i) (ate a (b @ c @ rest) l)"]
    by (intro load_loop_skip) (simp add: b_def)
  also have "\<dots> = load_loop (in_db (ucast i) (ate (a @ b @ c) rest l)) (acc @ map (loaded (ucast i)) es')"
    using load_entries [of "in_db (ucast i) (ate (a @ b) (c @ rest) l)" es' rest acc] c' by simp
  finally show ?thesis using e by auto
qed

lemma load_dbs:
  assumes "reader l = concat (map (\<lambda>i. db_enc i (f i)) js) @ rest" and "\<forall>i \<in> set js. reads_as (f i) (g i)"
  shows "\<exists>j. load_loop l acc = load_loop (in_db j (ate (concat (map (\<lambda>i. db_enc i (f i)) js)) rest l))
     (acc @ concat (map (\<lambda>i. map (loaded (ucast i)) (g i)) js))"
  using assms
proof (induction js arbitrary: l acc)
  case Nil
  then have "in_db (current_db l) (ate [] rest l) = l" by (simp add: ate_def in_db_def)
  then show ?case by (intro exI [of _ "current_db l"]) simp
next
  case (Cons i js)
  let ?r = "concat (map (\<lambda>i. db_enc i (f i)) js) @ rest"
  obtain j where j: "load_loop l acc = load_loop (in_db j (ate (db_enc i (f i)) ?r l)) (acc @ map (loaded (ucast i)) (g i))"
    using load_db [of l i "f i" ?r "g i" acc] Cons.prems by auto
  show ?case
    using Cons.IH [of "in_db j (ate (db_enc i (f i)) ?r l)" "acc @ map (loaded (ucast i)) (g i)"] Cons.prems
    unfolding j by simp
qed

lemma read_header_ate:
  assumes "reader l = (''REDIS'' @ ''0009'') @ rest"
  shows "read_header l = L_Ok (9, (ate (''REDIS'' @ ''0009'') rest l)\<lparr>rdb_version := 9\<rparr>)"
proof -
  have v: "Option.bind (from_utf8 ''0009'') (parse_unsigned (2 ^ 32)) = Some 9"
  proof -
    have "from_utf8 ''0009'' = Some ''0009''" by code_simp
    then show ?thesis by (simp add: parse_unsigned_def parse_nat_def is_digit_def byte_val_Char)
  qed
  have "read_exact 5 l = L_Ok (''REDIS'', ate ''REDIS'' (''0009'' @ rest) l)"
    using assms by (intro read_exact_ate) simp_all
  moreover have "read_exact 4 (ate ''REDIS'' (''0009'' @ rest) l) = L_Ok (''0009'', ate (''REDIS'' @ ''0009'') rest l)"
    by (subst read_exact_ate [where rest = rest and d = "''0009''"]) simp_all
  ultimately show ?thesis by (simp add: read_header_def v [simplified])
qed

lemma round_eof:
  assumes "reader l = byte_of RDB_OPCODE_EOF # le_bytes 8 (unat (crc64 (load_crc l) [byte_of RDB_OPCODE_EOF]))"
  shows "\<exists>l'. entry_round l = L_Ok (Ret None l')"
proof -
  let ?c = "crc64 (load_crc l) [byte_of RDB_OPCODE_EOF]"
  have "unat ?c < 256 ^ 8" using unsigned_less [of ?c, where ?'a = nat] by simp
  then show ?thesis
    using assms
    by (simp add: entry_round_def read_byte_ate [of _ RDB_OPCODE_EOF] read_opcode_def read_eof_def read_u64_le_no_crc_def
        read_raw_def of_le_bytes_le_bytes)
qed

text \<open>What a load of the file gives: the entries \<open>g i\<close> of every database \<open>i\<close> in order.\<close>

definition loaded_entries :: "(u16 \<Rightarrow> db_entry list) \<Rightarrow> rdb_entry list" where
  "loaded_entries g = concat (map (\<lambda>i. map (loaded (ucast i)) (g i)) all_dbs)"

lemma load_all_dbs:
  assumes "reader l = concat (map (\<lambda>i. db_enc i (db_entries i snaps)) all_dbs) @ byte_of RDB_OPCODE_EOF
      # le_bytes 8 (unat (crc64 (load_crc l) (concat (map (\<lambda>i. db_enc i (db_entries i snaps)) all_dbs) @ [byte_of RDB_OPCODE_EOF])))"
    and "\<forall>i \<in> set all_dbs. reads_as (db_entries i snaps) (g i)"
  shows "load_loop l [] = L_Ok (loaded_entries g)"
proof -
  let ?d = "concat (map (\<lambda>i. db_enc i (db_entries i snaps)) all_dbs)"
  let ?r = "byte_of RDB_OPCODE_EOF # le_bytes 8 (unat (crc64 (load_crc l) (?d @ [byte_of RDB_OPCODE_EOF])))"
  obtain j where j: "load_loop l [] = load_loop (in_db j (ate ?d ?r l)) (loaded_entries g)"
    using load_dbs [of l "\<lambda>i. db_entries i snaps" all_dbs ?r g "[]"] assms by (auto simp: loaded_entries_def)
  have "\<exists>l'. entry_round (in_db j (ate ?d ?r l)) = L_Ok (Ret None l')"
    by (rule round_eof) (simp add: crc64_append)
  then show ?thesis using load_loop_end j by fastforce
qed

lemma load_all_image:
  assumes "\<forall>i \<in> set all_dbs. reads_as (db_entries i snaps) (g i)"
  shows "load_all (image snaps) = L_Ok (loaded_entries g)"
proof -
  define a b d where "a = aux_enc ''redis-ver'' ''7.0.0''" and "b = aux_enc ''shrikedb-ver'' ''0.1.0''"
    and "d = concat (map (\<lambda>i. db_enc i (db_entries i snaps)) all_dbs)"
  define m :: bytes where "m = ''REDIS'' @ ''0009''"
  define t where "t = byte_of RDB_OPCODE_EOF # le_bytes 8 (unat (crc64 0 (m @ a @ b @ d @ [byte_of RDB_OPCODE_EOF])))"
  have im: "image snaps = m @ a @ b @ d @ t"
    by (simp add: image_def head_enc_def body_enc_def Let_def m_def a_def b_def d_def t_def)
  define l1 where "l1 = (ate m (a @ b @ d @ t) (loader_new (image snaps)))\<lparr>rdb_version := 9\<rparr>"
  have l1: "reader l1 = a @ b @ d @ t" "load_crc l1 = crc64 0 m" by (simp_all add: l1_def loader_new_def)
  have "load_all (image snaps) = load_loop l1 []"
    using read_header_ate [of "loader_new (image snaps)" "a @ b @ d @ t"]
    by (simp add: load_all_def l1_def m_def [symmetric]) (simp add: im m_def loader_new_def)
  also have "\<dots> = load_loop (ate a (b @ d @ t) l1) []"
    using l1(1) unfolding a_def by (intro load_loop_skip round_aux) simp_all
  also have "\<dots> = load_loop (ate b (d @ t) (ate a (b @ d @ t) l1)) []"
    unfolding b_def by (intro load_loop_skip round_aux) simp_all
  also have "\<dots> = L_Ok (loaded_entries g)"
    using assms unfolding d_def
    by (intro load_all_dbs) (simp_all add: l1(2) t_def d_def crc64_append)
  finally show ?thesis .
qed

subsection \<open>Properties\<close>

lemma with_extension_neq: "with_extension path ''rdb.tmp'' \<noteq> path"
proof
  assume eq: "with_extension path ''rdb.tmp'' = path"
  define nm where "nm = file_name path"
  have "path = take (length path - length nm) path @ nm"
  proof -
    obtain pre where "rev path = takeWhile (\<lambda>c. c \<noteq> CHR ''/'') (rev path) @ pre"
      by (metis takeWhile_dropWhile_id)
    then have "path = rev pre @ nm" unfolding nm_def file_name_def by (metis rev_append rev_rev_ident)
    then show ?thesis by simp
  qed
  then have n: "nm = file_stem nm @ ''.rdb.tmp''"
    using eq by (simp add: with_extension_def nm_def [symmetric]) (metis same_append_eq)
  define st where "st = file_stem nm"
  have r: "rev nm = ''pmt.bdr.'' @ rev st" using arg_cong [OF n, of rev] by (simp add: st_def [symmetric])
  have "file_stem nm = st @ ''.rdb''" unfolding file_stem_def r by simp
  then have "st = st @ ''.rdb''" by (simp only: st_def)
  then show False by simp
qed

lemma concat_map_insert:
  assumes "distinct js" and "f x \<in> set js"
  shows "mset (concat (map (\<lambda>j. (if f x = j then x # g j else g j)) js)) = add_mset x (mset (concat (map g js)))"
  using assms
proof (induction js)
  case (Cons j js)
  show ?case
  proof (cases "f x = j")
    case True
    have "map (\<lambda>i. if f x = i then x # g i else g i) js = map g js"
      using Cons.prems(1) True by (intro map_cong) auto
    then have "concat (map (\<lambda>i. if f x = i then x # g i else g i) (j # js)) = x # concat (map g (j # js))"
      using True by (simp only: list.map concat.simps append_Cons simp_thms if_True)
    then show ?thesis by (simp only: mset.simps)
  qed (use Cons in simp)
qed simp

lemma mset_grouped:
  assumes "distinct js" and "\<forall>x \<in> set xs. f x \<in> set js"
  shows "mset (concat (map (\<lambda>j. filter (\<lambda>x. f x = j) xs) js)) = mset xs"
  using assms(2)
proof (induction xs)
  case (Cons x xs)
  then show ?case using concat_map_insert [OF assms(1), of f x] by simp
qed simp

lemma distinct_all_dbs: "distinct all_dbs"
  by code_simp

lemma set_all_dbs: "i \<in> set all_dbs \<longleftrightarrow> unat i < 16"
proof
  assume "i \<in> set all_dbs"
  then obtain k where "k < 16" "i = of_nat k" by (auto simp: all_dbs_def)
  then show "unat i < 16" by (simp add: unat_of_nat take_bit_nat_eq_self)
next
  assume "unat i < 16"
  moreover have "i = of_nat (unat i)" by simp
  ultimately show "i \<in> set all_dbs" unfolding all_dbs_def by (metis atLeastLessThan_iff image_eqI le0 set_map set_upt)
qed

lemma db_entries_flat:
  "map (Pair i) (db_entries i snaps) = filter (\<lambda>r. fst r = i) (concat (map entries snaps))"
proof -
  have "map (Pair i) (map snd (filter (\<lambda>(d, r). d = i) xs)) = filter (\<lambda>r. fst r = i) xs" for xs :: "snap_entry list"
    by (induction xs) auto
  then show ?thesis by (induction snaps) (simp_all add: db_entries_def)
qed

text \<open>What a client can see of an entry: database, key, the bytes of the value and the deadline.\<close>

definition snap_view :: "snap_entry \<Rightarrow> u32 \<times> bytes \<times> bytes \<times> u64 option" where
  "snap_view r = (case r of (i, k, v, e) \<Rightarrow> (ucast i, k, value_as_bytes v, e))"

definition entry_view :: "rdb_entry \<Rightarrow> u32 \<times> bytes \<times> bytes \<times> u64 option" where
  "entry_view r = (db_index r, entry_key r, value_as_bytes (entry_value r), expire_ms r)"

definition snap_ok :: "snap_entry \<Rightarrow> bool" where
  "snap_ok r = (case r of (i, k, v, e) \<Rightarrow> unat i < 16 \<and> storable (k, v, e))"

lemma loaded_views:
  assumes "\<forall>r \<in> set (concat (map entries snaps)). unat (fst r) < 16"
  shows "mset (map entry_view (loaded_entries (\<lambda>i. db_entries i snaps))) = mset (map snap_view (concat (map entries snaps)))"
proof -
  have "entry_view (loaded (ucast i) r) = snap_view (i, r)" for i r
    by (cases r) (simp add: entry_view_def loaded_def snap_view_def)
  then have "map entry_view (loaded_entries (\<lambda>i. db_entries i snaps))
      = concat (map (\<lambda>i. map snap_view (map (Pair i) (db_entries i snaps))) all_dbs)"
    by (simp add: loaded_entries_def map_concat comp_def)
  also have "\<dots> = map snap_view (concat (map (\<lambda>i. filter (\<lambda>r. fst r = i) (concat (map entries snaps))) all_dbs))"
    by (simp only: db_entries_flat map_concat map_map comp_def)
  finally have eq: "map entry_view (loaded_entries (\<lambda>i. db_entries i snaps))
      = map snap_view (concat (map (\<lambda>i. filter (\<lambda>r. fst r = i) (concat (map entries snaps))) all_dbs))" .
  have "mset (concat (map (\<lambda>i. filter (\<lambda>r. fst r = i) (concat (map entries snaps))) all_dbs)) = mset (concat (map entries snaps))"
    using assms by (intro mset_grouped distinct_all_dbs) (simp add: set_all_dbs)
  then show ?thesis unfolding eq by (simp only: mset_map)
qed

lemma db_entries_storable:
  assumes "\<forall>r \<in> set (concat (map entries snaps)). snap_ok r"
  shows "reads_as (db_entries i snaps) (db_entries i snaps)"
proof -
  have "storable r" if "r \<in> set (db_entries i snaps)" for r
  proof -
    have "(i, r) \<in> set (map (Pair i) (db_entries i snaps))" using that by auto
    then have "(i, r) \<in> set (concat (map entries snaps))" by (simp only: db_entries_flat set_filter) blast
    then have "snap_ok (i, r)" using assms by blast
    then show ?thesis by (cases r) (simp add: snap_ok_def)
  qed
  then show ?thesis by (simp add: reads_as_def list_all_iff)
qed

text \<open>C13: saving the snapshots of all shards and loading the file gives back every entry exactly
  once, with its database, its key, the bytes of its value and its deadline, provided the values
  are strings or integers and the file system works; the checksum of the file is accepted.\<close>

theorem snapshot_round_trip:
  assumes "\<forall>r \<in> set (concat (map entries snaps)). snap_ok r"
    and "can_create fs (with_extension path ''rdb.tmp'')" and "\<forall>b. device fs b" and "can_flush fs" and "can_rename fs"
  shows "\<exists>n fs' es. save_rdb fs path snaps = (Some n, fs') \<and> load_rdb fs' path = L_Ok es
    \<and> mset (map entry_view es) = mset (map snap_view (concat (map entries snaps)))"
proof -
  obtain s where s: "write_snapshot snaps (saver_new (device fs) []) = Some s" "out s = image snaps"
    using write_snapshot_image [where snaps = snaps and dev = "device fs"] assms(3) by blast
  have l: "load_all (image snaps) = L_Ok (loaded_entries (\<lambda>i. db_entries i snaps))"
    using load_all_image db_entries_storable [OF assms(1)] by simp
  have "\<forall>r \<in> set (concat (map entries snaps)). unat (fst r) < 16"
    using assms(1) by (force simp: snap_ok_def split: prod.splits)
  note v = loaded_views [OF this]
  show ?thesis
    using assms(2,4,5) s l v with_extension_neq [of path] by (simp add: save_rdb_def load_rdb_def Let_def)
qed

text \<open>C18: a save is atomic for its target: when it reports an error, the file that was there before
  (and every file but the temporary one) is untouched, and when it succeeds the target holds the
  whole image, its length is what is reported, and the temporary file is gone.\<close>

theorem snapshot_save_atomic:
  "case save_rdb fs path snaps of
     (None, fs') \<Rightarrow> files fs' path = files fs path
        \<and> (files fs')(with_extension path ''rdb.tmp'' := None) = (files fs)(with_extension path ''rdb.tmp'' := None)
   | (Some n, fs') \<Rightarrow> files fs' = (files fs)(with_extension path ''rdb.tmp'' := None, path \<mapsto> image snaps)
        \<and> n = of_nat (length (image snaps))"
  using write_snapshot_image(1) [of snaps "device fs"] with_extension_neq [of path]
  by (auto simp: save_rdb_def Let_def split: option.splits)

definition demo_fs :: file_system where
  "demo_fs = \<lparr>files = (\<lambda>_. None), can_create = (\<lambda>_. True), device = (\<lambda>_. True), can_flush = True,
     can_rename = True, leftover = []\<rparr>"

definition demo_snaps :: "shard_snapshot list" where
  "demo_snaps = [\<lparr>entries = [(0, ''k'', PV_String ''v'', Some 5)]\<rparr>, \<lparr>entries = [(3, ''n'', PV_Integer 7, None)]\<rparr>]"

theorem snapshot_round_trip_witness:
  "\<exists>n fs' es. save_rdb demo_fs default_rdb_path demo_snaps = (Some n, fs') \<and> load_rdb fs' default_rdb_path = L_Ok es
    \<and> mset (map entry_view es) = {#(0, ''k'', ''v'', Some 5), (3, ''n'', ''7'', None)#}"
proof -
  have "i64_to_string 7 = ''7''" by code_simp
  then have v: "mset (map snap_view (concat (map entries demo_snaps))) = {#(0, ''k'', ''v'', Some 5), (3, ''n'', ''7'', None)#}"
    by (simp add: demo_snaps_def snap_view_def)
  have "\<forall>r \<in> set (concat (map entries demo_snaps)). snap_ok r"
    using i64_to_string_length [of 7] by (simp add: demo_snaps_def snap_ok_def storable_def)
  from snapshot_round_trip [OF this, of demo_fs default_rdb_path] show ?thesis
    unfolding v by (simp add: demo_fs_def)
qed

text \<open>C40: the writer skips the values it cannot encode (lists, sets, hashes, sorted sets) but still
  writes their deadline, and the reader attaches it to the next key: a list with a deadline
  followed by a string without one is loaded as the string with the list's deadline.\<close>

theorem snapshot_deadline_moves:
  assumes "length a < 2 ^ 63" and "length d < 2 ^ 63"
  shows "\<exists>s. write_snapshot [\<lparr>entries = [(0, k, PV_List xs, Some ms), (0, a, PV_String d, None)]\<rparr>]
        (saver_new (\<lambda>_. True) []) = Some s
    \<and> load_all (out s) = L_Ok [\<lparr>db_index = 0, entry_key = a, entry_value = from_bytes d, expire_ms = Some ms\<rparr>]"
proof -
  let ?snaps = "[\<lparr>entries = [(0, k, PV_List xs, Some ms), (0, a, PV_String d, None)]\<rparr>]"
  define g :: "u16 \<Rightarrow> db_entry list" where "g i = (if i = 0 then [(a, PV_String d, Some ms)] else [])" for i
  have "reads_as (db_entries i ?snaps) (g i)" for i
    using assms
    by (auto simp: reads_as_def db_entries_def g_def entry_enc_def expire_enc_def value_enc_def storable_def)
  then have "load_all (image ?snaps) = L_Ok (loaded_entries g)" by (intro load_all_image) simp
  moreover have "loaded_entries g = [\<lparr>db_index = 0, entry_key = a, entry_value = from_bytes d, expire_ms = Some ms\<rparr>]"
    by (simp add: loaded_entries_def all_dbs_def g_def loaded_def upt_rec)
  moreover obtain s where "write_snapshot ?snaps (saver_new (\<lambda>_. True) []) = Some s" "out s = image ?snaps"
    using write_snapshot_image [where snaps = ?snaps and dev = "\<lambda>_. True"] by blast
  ultimately show ?thesis by auto
qed

theorem snapshot_deadline_moves_witness:
  "\<exists>s. write_snapshot [\<lparr>entries = [(0, ''l'', PV_List [''x''], Some 9), (0, ''a'', PV_String ''b'', None)]\<rparr>]
        (saver_new (\<lambda>_. True) []) = Some s
    \<and> load_all (out s) = L_Ok [\<lparr>db_index = 0, entry_key = ''a'', entry_value = from_bytes ''b'', expire_ms = Some 9\<rparr>]"
  using snapshot_deadline_moves [of "''a''" "''b''"] by simp

end
