(* ===== verification/Persistence.thy ===== *)
theory Persistence
  imports Cluster Snapshot
begin

text \<open>
  How the data of a running cluster reaches a file and comes back: the control messages of a shard
  thread (\<^verbatim>\<open>shard_thread.rs\<close>), their use by the shard set (\<^verbatim>\<open>engine_shard_set.rs\<close>), SAVE and BGSAVE
  (\<^verbatim>\<open>main_service.rs\<close>), the start of the server (\<^verbatim>\<open>main.rs\<close>), and the periodic expiry of a shard.
  The main result is that a save followed by a start, with any other number of shards and other
  hashers, gives back what clients could read.
\<close>

subsection \<open>Snapshots of one shard\<close>

record shard_snapshot_data =
  data_entries :: "snap_entry list"

record load_entry =
  le_db :: u16
  le_key :: bytes
  le_value :: prime_value
  le_expire :: "u64 option"

datatype shard_control = Take_Snapshot | Load "load_entry list"

definition collect_db :: "db_slice \<Rightarrow> u16 \<Rightarrow> snap_entry list option" where
  "collect_db ds i =
     map_option (\<lambda>db. map (\<lambda>(k, v). (i, key_as_bytes k, v, tbl_find (expire db) k)) (tbl_iter (prime db))) (ds_db ds i)"

definition collect_snapshot :: "engine_shard \<Rightarrow> shard_snapshot_data option" where
  "collect_snapshot sh =
     map_option (\<lambda>es. \<lparr>data_entries = concat es\<rparr>) (those (map (collect_db (shard_slice sh)) all_dbs))"

definition load_one :: "u64 \<Rightarrow> load_entry \<Rightarrow> db_slice \<Rightarrow> db_slice option" where
  "load_one now e ds =
     (case le_expire e of
        None \<Rightarrow> map_option snd (add_or_update ds (le_db e) (le_key e) (le_value e))
      | Some d \<Rightarrow>
          if d \<le> now then Some ds
          else
            Option.bind (add_or_update ds (le_db e) (le_key e) (le_value e)) (\<lambda>(_, ds1).
              map_option snd (add_expire ds1 (le_db e) (le_key e) d)))"

fun load_each :: "u64 \<Rightarrow> load_entry list \<Rightarrow> db_slice \<Rightarrow> db_slice option" where
  "load_each now [] ds = Some ds"
| "load_each now (e # es) ds = Option.bind (load_one now e ds) (load_each now es)"

definition load_entries :: "u64 \<Rightarrow> load_entry list \<Rightarrow> engine_shard \<Rightarrow> engine_shard option" where
  "load_entries now es sh =
     (let sh1 = engine_shard_update_time sh now
      in map_option (\<lambda>ds. sh1\<lparr>shard_slice := ds\<rparr>) (load_each now es (shard_slice sh1)))"

text \<open>
  A control message at the main loop of shard \<open>i\<close>: the reply of a snapshot request, and the cluster. A
  panic ends the thread; a shard that is not running does not answer.
\<close>

definition handle_control :: "server \<Rightarrow> nat \<Rightarrow> shard_control \<Rightarrow> cluster \<Rightarrow> shard_snapshot_data option \<times> cluster" where
  "handle_control sv i ctrl cl =
     (case cl_shards cl ! i of
        None \<Rightarrow> (None, cl)
      | Some sh \<Rightarrow>
         (case ctrl of
            Take_Snapshot \<Rightarrow>
              (case collect_snapshot sh of
                 None \<Rightarrow> (None, cl\<lparr>cl_shards := (cl_shards cl)[i := None]\<rparr>)
               | Some d \<Rightarrow> (Some d, cl))
          | Load es \<Rightarrow>
              (None, cl\<lparr>cl_shards := (cl_shards cl)[i := load_entries (sv_clock sv (cl_reads cl)) es sh],
                        cl_reads := Suc (cl_reads cl)\<rparr>)))"

text \<open>The timer of a shard: every 100 ms the clock and one sweep of each database that has keys.\<close>

definition sweep_db :: "db_slice \<Rightarrow> u16 \<Rightarrow> db_slice option" where
  "sweep_db ds i =
     (case db_size ds i of
        None \<Rightarrow> None
      | Some n \<Rightarrow> if n > 0 then map_option snd (expire_sweep ds i 20) else Some ds)"

fun sweep_dbs :: "u16 list \<Rightarrow> db_slice \<Rightarrow> db_slice option" where
  "sweep_dbs [] ds = Some ds"
| "sweep_dbs (i # js) ds = Option.bind (sweep_db ds i) (sweep_dbs js)"

definition expiry_tick :: "u64 \<Rightarrow> engine_shard \<Rightarrow> engine_shard option" where
  "expiry_tick now sh =
     (let sh1 = engine_shard_update_time sh now
      in map_option (\<lambda>ds. sh1\<lparr>shard_slice := ds\<rparr>) (sweep_dbs all_dbs (shard_slice sh1)))"

subsection \<open>All shards\<close>

definition engine_shard_set_new :: "server \<Rightarrow> (nat \<Rightarrow> nat \<Rightarrow> bytes \<Rightarrow> u64) \<Rightarrow> cluster" where
  "engine_shard_set_new sv hs =
     \<lparr>cl_shards = map (\<lambda>i. Some (engine_shard_update_time (engine_shard_new (hs i)) (sv_clock sv i))) [0..<unat (sv_shards sv)],
      cl_reads = unat (sv_shards sv)\<rparr>"

fun snapshot_each :: "server \<Rightarrow> nat list \<Rightarrow> cluster \<Rightarrow> shard_snapshot_data option list \<times> cluster" where
  "snapshot_each sv [] cl = ([], cl)"
| "snapshot_each sv (i # js) cl =
     (let (r, cl1) = handle_control sv i Take_Snapshot cl; (rs, cl2) = snapshot_each sv js cl1 in (r # rs, cl2))"

definition collect_snapshots :: "server \<Rightarrow> cluster \<Rightarrow> shard_snapshot_data list option \<times> cluster" where
  "collect_snapshots sv cl = (let (rs, cl') = snapshot_each sv [0..<length (cl_shards cl)] cl in (those rs, cl'))"

definition to_load_entry :: "rdb_entry \<Rightarrow> load_entry" where
  "to_load_entry e = \<lparr>le_db = ucast (db_index e), le_key = entry_key e, le_value = entry_value e, le_expire = expire_ms e\<rparr>"

fun distribute :: "u32 \<Rightarrow> rdb_entry list \<Rightarrow> load_entry list list \<Rightarrow> load_entry list list option" where
  "distribute n [] groups = Some groups"
| "distribute n (e # es) groups =
     (case shard (entry_key e) n of
        None \<Rightarrow> None
      | Some sid \<Rightarrow>
          if unat sid < length groups
          then distribute n es (groups[unat sid := groups ! unat sid @ [to_load_entry e]])
          else None)"

fun send_groups :: "server \<Rightarrow> nat \<Rightarrow> load_entry list list \<Rightarrow> cluster \<Rightarrow> cluster" where
  "send_groups sv i [] cl = cl"
| "send_groups sv i (g # gs) cl =
     send_groups sv (Suc i) gs (if g \<noteq> [] then snd (handle_control sv i (Load g) cl) else cl)"

definition engine_load_entries :: "server \<Rightarrow> rdb_entry list \<Rightarrow> cluster \<Rightarrow> cluster option" where
  "engine_load_entries sv es cl =
     map_option (\<lambda>groups. send_groups sv 0 groups cl)
       (distribute (sv_shards sv) es (replicate (unat (sv_shards sv)) []))"

text \<open>SAVE and BGSAVE. The text of an I/O error is the argument \<open>io_text\<close>.\<close>

definition do_save :: "server \<Rightarrow> bytes \<Rightarrow> file_system \<Rightarrow> cluster \<Rightarrow> (bytes + unit) \<times> file_system \<times> cluster" where
  "do_save sv io_text fs cl =
     (case collect_snapshots sv cl of
        (None, cl') \<Rightarrow> (Inl ''failed to collect snapshots'', fs, cl')
      | (Some snapshots, cl') \<Rightarrow>
         (let persist_snapshots = map (\<lambda>s. \<lparr>entries = data_entries s\<rparr>) snapshots in
          case save_rdb fs default_rdb_path persist_snapshots of
            (Some n, fs') \<Rightarrow> (Inr (), fs', cl')
          | (None, fs') \<Rightarrow> (Inl (''RDB save failed: '' @ io_text), fs', cl')))"

definition handle_save ::
  "server \<Rightarrow> bytes \<Rightarrow> bytes \<Rightarrow> file_system \<Rightarrow> cluster \<Rightarrow> bytes \<times> file_system \<times> cluster" where
  "handle_save sv cmd io_text fs cl =
     (let (r, fs', cl') = do_save sv io_text fs cl in
      if cmd = ''BGSAVE'' then (reply_on sv [] (\<lambda>rb. send_simple_string rb ''Background saving started''), fs', cl')
      else
        (case r of
           Inr _ \<Rightarrow> (reply_on sv [] send_ok, fs', cl')
         | Inl e \<Rightarrow> (reply_on sv [] (\<lambda>rb. send_err rb e), fs', cl')))"

text \<open>The start of the server: fresh shards, and the file if there is one. A file that cannot be read is
  reported and ignored.\<close>

definition start_up :: "server \<Rightarrow> (nat \<Rightarrow> nat \<Rightarrow> bytes \<Rightarrow> u64) \<Rightarrow> file_system \<Rightarrow> cluster option" where
  "start_up sv hs fs =
     (let cl = engine_shard_set_new sv hs in
      if files fs default_rdb_path = None then Some cl
      else
        (case load_rdb fs default_rdb_path of
           L_Ok es \<Rightarrow> engine_load_entries sv es cl
         | L_Err _ \<Rightarrow> Some cl
         | L_Panic \<Rightarrow> None))"

subsection \<open>The databases of a shard as one map\<close>

definition ds_abs :: "db_slice \<Rightarrow> nat \<times> bytes \<Rightarrow> (prime_value \<times> u64 option) option" where
  "ds_abs ds p = db_abs (dbs ds ! fst p) (snd p)"

definition place :: "load_entry \<Rightarrow> nat \<times> bytes" where
  "place e = (unat (le_db e), le_key e)"

definition live :: "u64 \<Rightarrow> load_entry \<Rightarrow> bool" where
  "live now e \<longleftrightarrow> \<not> expired_at now (le_expire e)"

lemma on_db_abs:
  assumes "ds_inv ds" and "unat i < NUM_DBS" and "on_db ds i f = Some (a, ds')"
    and "\<And>db'. f (dbs ds ! unat i) = Some (a, db') \<Longrightarrow> db_inv db' \<and> db_abs db' = (db_abs (dbs ds ! unat i))(k := x)"
  shows "ds_inv ds' \<and> ds_abs ds' = (ds_abs ds)((unat i, k) := x)"
proof -
  have len: "length (dbs ds) = NUM_DBS" using assms(1) by (simp add: ds_inv_def)
  obtain db' where f: "f (dbs ds ! unat i) = Some (a, db')" and ds': "ds' = ds\<lparr>dbs := (dbs ds)[unat i := db']\<rparr>"
    using assms(2,3) len by (auto simp: on_db_def)
  note db' = assms(4) [OF f]
  have "ds_abs ds' p = ((ds_abs ds)((unat i, k) := x)) p" for p
    using db' assms(2) len by (cases p) (auto simp: ds' ds_abs_def nth_list_update_if)
  then show ?thesis using on_db_inv [OF assms(1)] db' by (auto simp: ds')
qed

lemma add_or_update_abs:
  assumes "ds_inv ds" and "unat i < NUM_DBS" and "add_or_update ds i k v = Some (b, ds')"
  shows "ds_inv ds' \<and> ds_abs ds' = (ds_abs ds)((unat i, k) \<mapsto> (v, Option.bind (ds_abs ds (unat i, k)) snd))"
proof -
  have "db_inv (dbs ds ! unat i)" using assms(1,2) by (simp add: ds_inv_def)
  then show ?thesis
    using assms(1,2) assms(3) [unfolded add_or_update_def]
    by (rule_tac on_db_abs) (auto simp: ds_abs_def dest: db_insert_spec)
qed

lemma add_expire_abs:
  assumes "ds_inv ds" and "unat i < NUM_DBS" and "add_expire ds i k d = Some (b, ds')" and "ds_abs ds (unat i, k) = Some (v, e)"
  shows "ds_inv ds' \<and> ds_abs ds' = (ds_abs ds)((unat i, k) \<mapsto> (v, Some d))"
proof -
  have "db_inv (dbs ds ! unat i)" using assms(1,2) by (simp add: ds_inv_def)
  then show ?thesis
    using assms(1,2,4) assms(3) [unfolded add_expire_def]
    by (rule_tac on_db_abs) (auto simp: ds_abs_def dest: db_add_expire_spec)
qed

lemma load_one_abs:
  assumes "ds_inv ds" and "unat (le_db e) < NUM_DBS" and "load_one now e ds = Some ds'" and "ds_abs ds (place e) = None"
  shows "ds_inv ds' \<and> ds_abs ds' = (if live now e then (ds_abs ds)(place e \<mapsto> (le_value e, le_expire e)) else ds_abs ds)"
proof (cases "le_expire e")
  case None
  then show ?thesis
    using assms add_or_update_abs [OF assms(1,2)]
    by (fastforce simp: load_one_def live_def expired_at_def place_def)
next
  case (Some d)
  show ?thesis
  proof (cases "d \<le> now")
    case False
    obtain b ds1 u where 1: "add_or_update ds (le_db e) (le_key e) (le_value e) = Some (b, ds1)"
      and 2: "add_expire ds1 (le_db e) (le_key e) d = Some (u, ds')"
      using assms(3) Some False by (auto simp: load_one_def bind_eq_Some_conv)
    note a = add_or_update_abs [OF assms(1,2) 1]
    show ?thesis
      using add_expire_abs [OF _ assms(2) 2] a Some False by (auto simp: live_def expired_at_def place_def)
  qed (use assms Some in \<open>auto simp: load_one_def live_def expired_at_def\<close>)
qed

lemma load_each_abs:
  assumes "ds_inv ds" and "load_each now es ds = Some ds'" and "\<forall>e \<in> set es. unat (le_db e) < NUM_DBS"
    and "distinct (map place es)" and "\<forall>e \<in> set es. ds_abs ds (place e) = None"
  shows "ds_inv ds' \<and> ds_abs ds' = ds_abs ds ++ map_of (map (\<lambda>e. (place e, le_value e, le_expire e)) (filter (live now) es))"
  using assms
proof (induction es arbitrary: ds)
  case (Cons e es)
  obtain ds1 where 1: "load_one now e ds = Some ds1" "load_each now es ds1 = Some ds'"
    using Cons.prems(2) by (auto simp: bind_eq_Some_conv)
  have a: "ds_inv ds1" "ds_abs ds1 = (if live now e then (ds_abs ds)(place e \<mapsto> (le_value e, le_expire e)) else ds_abs ds)"
    using load_one_abs [OF Cons.prems(1) _ 1(1)] Cons.prems(3,5) by auto
  have fresh: "\<forall>x \<in> set es. ds_abs ds1 (place x) = None" using Cons.prems(4,5) a(2) by (auto simp: image_iff)
  have ih: "ds_inv ds'" "ds_abs ds' = ds_abs ds1 ++ map_of (map (\<lambda>e. (place e, le_value e, le_expire e)) (filter (live now) es))"
    using Cons.IH [OF a(1) 1(2) _ _ fresh] Cons.prems(3,4) by auto
  have n: "place e \<notin> dom (map_of (map (\<lambda>e. (place e, le_value e, le_expire e)) (filter (live now) es)))"
    using Cons.prems(4) by (auto simp: dom_map_of_conv_image_fst)
  show ?case
    using ih n unfolding a(2) by (auto simp: map_add_upd_left)
qed simp

subsection \<open>What a snapshot holds\<close>

lemma those_map_Some: "(\<And>x. x \<in> set xs \<Longrightarrow> f x = Some (g x)) \<Longrightarrow> those (map f xs) = Some (map g xs)"
  by (induction xs) simp_all

definition db_items :: "db_slice \<Rightarrow> u16 \<Rightarrow> snap_entry list" where
  "db_items ds i =
     map (\<lambda>(k, v). (i, key_as_bytes k, v, tbl_find (expire (dbs ds ! unat i)) k)) (tbl_iter (prime (dbs ds ! unat i)))"

definition shard_items :: "engine_shard \<Rightarrow> snap_entry list" where
  "shard_items sh = concat (map (db_items (shard_slice sh)) all_dbs)"

lemma collect_snapshot_items:
  assumes "ds_inv (shard_slice sh)"
  shows "collect_snapshot sh = Some \<lparr>data_entries = shard_items sh\<rparr>"
proof -
  have "collect_db (shard_slice sh) i = Some (db_items (shard_slice sh) i)" if "i \<in> set all_dbs" for i
    using that assms by (simp add: collect_db_def db_items_def ds_db_def ds_inv_def set_all_dbs NUM_DBS_def)
  then show ?thesis by (simp add: collect_snapshot_def shard_items_def those_map_Some)
qed

lemma db_items_abs:
  assumes "ds_inv ds" and "unat i < NUM_DBS"
  shows "(j, key, v, e) \<in> set (db_items ds i) \<longleftrightarrow> j = i \<and> ds_abs ds (unat i, key) = Some (v, e)"
    and "distinct (map (\<lambda>(j, key, _). (j, key)) (db_items ds i))"
proof -
  let ?db = "dbs ds ! unat i"
  have inv: "db_inv ?db" using assms by (simp add: ds_inv_def)
  note it = dash.iter_map [OF db_invD(1) [OF inv]]
  obtain ks where ks: "map fst (tbl_iter (prime ?db)) = map prime_key_new ks" "distinct ks" by (rule iter_keys_new [OF inv])
  show "(j, key, v, e) \<in> set (db_items ds i) \<longleftrightarrow> j = i \<and> ds_abs ds (unat i, key) = Some (v, e)"
  proof -
    have "(j, key, v, e) \<in> set (db_items ds i) \<longleftrightarrow>
        j = i \<and> (\<exists>k. key = key_as_bytes k \<and> tbl_map (prime ?db) k = Some v \<and> tbl_map (expire ?db) k = e)"
      using it by (auto simp: db_items_def dash.find_map [OF db_invD(2) [OF inv]] image_iff split: prod.splits)
    also have "\<dots> \<longleftrightarrow> j = i \<and> ds_abs ds (unat i, key) = Some (v, e)"
      unfolding ds_abs_def fst_conv snd_conv db_abs_Some using db_invD(4) [OF inv] by (metis key_as_bytes_new)
    finally show ?thesis .
  qed
  have "map (\<lambda>(j, key, _). (j, key)) (db_items ds i) = map (\<lambda>k. (i, key_as_bytes k)) (map fst (tbl_iter (prime ?db)))"
    by (simp add: db_items_def comp_def case_prod_unfold)
  also have "\<dots> = map (Pair i) ks" by (simp add: ks(1) comp_def)
  finally show "distinct (map (\<lambda>(j, key, _). (j, key)) (db_items ds i))" using ks(2) by (simp add: distinct_map inj_on_def)
qed

lemma distinct_concat_by_tag:
  assumes "distinct js" and "\<And>j. j \<in> set js \<Longrightarrow> distinct (map p (f j))" and "\<And>j x. j \<in> set js \<Longrightarrow> x \<in> set (f j) \<Longrightarrow> tag (p x) = j"
  shows "distinct (map p (concat (map f js)))"
  using assms
proof (induction js)
  case (Cons j js)
  have "p x \<noteq> p y" if "x \<in> set (f j)" "k \<in> set js" "y \<in> set (f k)" for x y k
    using Cons.prems(1) Cons.prems(3) [of j x] Cons.prems(3) [of k y] that by auto
  then show ?case using Cons by (auto simp: image_iff)
qed simp

lemma shard_items_abs:
  assumes "ds_inv (shard_slice sh)"
  shows "(i, key, v, e) \<in> set (shard_items sh) \<longleftrightarrow> unat i < NUM_DBS \<and> ds_abs (shard_slice sh) (unat i, key) = Some (v, e)"
    and "distinct (map (\<lambda>(j, key, _). (j, key)) (shard_items sh))"
proof -
  have sixteen: "i \<in> set all_dbs \<longleftrightarrow> unat i < NUM_DBS" for i by (simp add: set_all_dbs NUM_DBS_def)
  show "(i, key, v, e) \<in> set (shard_items sh) \<longleftrightarrow> unat i < NUM_DBS \<and> ds_abs (shard_slice sh) (unat i, key) = Some (v, e)"
    using db_items_abs(1) [OF assms] sixteen by (auto simp: shard_items_def)
  show "distinct (map (\<lambda>(j, key, _). (j, key)) (shard_items sh))"
    unfolding shard_items_def
  proof (rule distinct_concat_by_tag [where tag = fst, OF distinct_all_dbs])
    show "distinct (map (\<lambda>(j, key, _). (j, key)) (db_items (shard_slice sh) j))" if "j \<in> set all_dbs" for j
      using db_items_abs(2) [OF assms] that sixteen by blast
    show "fst (case x of (j, key, _) \<Rightarrow> (j, key)) = j" if "j \<in> set all_dbs" "x \<in> set (db_items (shard_slice sh) j)" for j x
      using db_items_abs(1) [OF assms] that sixteen by (cases x) auto
  qed
qed

subsection \<open>The snapshots of a running cluster\<close>

lemma snapshot_each_running:
  assumes "\<forall>i \<in> set js. i < length shs" and "\<forall>sh \<in> set shs. ds_inv (shard_slice sh)" and "cl_shards cl = map Some shs"
  shows "snapshot_each sv js cl = (map (\<lambda>i. Some \<lparr>data_entries = shard_items (shs ! i)\<rparr>) js, cl)"
  using assms(1)
proof (induction js)
  case (Cons j js)
  then have "handle_control sv j Take_Snapshot cl = (Some \<lparr>data_entries = shard_items (shs ! j)\<rparr>, cl)"
    using assms(2,3) by (simp add: handle_control_def collect_snapshot_items)
  then show ?case using Cons by simp
qed simp

lemma collect_snapshots_running:
  assumes "\<forall>sh \<in> set shs. ds_inv (shard_slice sh)" and "cl_shards cl = map Some shs"
  shows "collect_snapshots sv cl = (Some (map (\<lambda>sh. \<lparr>data_entries = shard_items sh\<rparr>) shs), cl)"
proof -
  have "snapshot_each sv [0..<length shs] cl = (map (\<lambda>i. Some \<lparr>data_entries = shard_items (shs ! i)\<rparr>) [0..<length shs], cl)"
    using assms by (intro snapshot_each_running) simp_all
  moreover have "those (map (\<lambda>i. Some \<lparr>data_entries = shard_items (shs ! i)\<rparr>) [0..<length shs])
      = Some (map (\<lambda>sh. \<lparr>data_entries = shard_items sh\<rparr>) shs)"
    by (simp add: those_map_Some) (rule nth_equalityI, simp_all)
  ultimately show ?thesis by (simp add: collect_snapshots_def assms(2))
qed

subsection \<open>Loading into fresh shards\<close>

definition home :: "u32 \<Rightarrow> bytes \<Rightarrow> nat" where
  "home n key = unat (crc32 (hash_tag key) mod n)"

lemma shard_home:
  assumes "n \<noteq> 0"
  shows "\<exists>s. shard key n = Some s \<and> unat s = home n key" and "home n key < unat n"
  using assms by (simp_all add: shard_def home_def unat_mod_distrib unat_gt_0)

lemma distribute_groups:
  assumes "n \<noteq> 0" and "length groups = unat n"
  shows "\<exists>gs. distribute n es groups = Some gs \<and> length gs = unat n
    \<and> (\<forall>j < unat n. gs ! j = groups ! j @ map to_load_entry (filter (\<lambda>e. home n (entry_key e) = j) es))"
  using assms(2)
proof (induction es arbitrary: groups)
  case (Cons e es)
  let ?j = "home n (entry_key e)"
  have j: "?j < unat n" using shard_home(2) [OF assms(1)] by blast
  have "distribute n (e # es) groups = distribute n es (groups[?j := groups ! ?j @ [to_load_entry e]])"
    using shard_home(1) [OF assms(1), of "entry_key e"] j Cons.prems by auto
  then show ?case
    using Cons.IH [of "groups[?j := groups ! ?j @ [to_load_entry e]]"] Cons.prems by (auto simp: nth_list_update_if)
qed simp

lemma load_control_shard:
  assumes "i < length (cl_shards cl)"
  shows "\<exists>r. cl_shards (snd (handle_control sv i (Load g) cl)) =
    (cl_shards cl)[i := Option.bind (cl_shards cl ! i) (load_entries (sv_clock sv r) g)]"
proof (cases "cl_shards cl ! i")
  case None
  then have "(cl_shards cl)[i := None] = cl_shards cl" by (metis list_update_id)
  then show ?thesis using None by (simp add: handle_control_def)
qed (auto simp: handle_control_def)

lemma send_groups_shard:
  assumes "i + length gs \<le> length (cl_shards cl)"
  shows "length (cl_shards (send_groups sv i gs cl)) = length (cl_shards cl)
    \<and> (\<forall>j. \<exists>r. cl_shards (send_groups sv i gs cl) ! j =
        (if i \<le> j \<and> j < i + length gs \<and> gs ! (j - i) \<noteq> []
         then Option.bind (cl_shards cl ! j) (load_entries (sv_clock sv r) (gs ! (j - i)))
         else cl_shards cl ! j))"
  using assms
proof (induction gs arbitrary: i cl)
  case (Cons g gs)
  let ?cl = "if g \<noteq> [] then snd (handle_control sv i (Load g) cl) else cl"
  have i: "i < length (cl_shards cl)" using Cons.prems by simp
  obtain r where r: "cl_shards ?cl = (if g \<noteq> []
      then (cl_shards cl)[i := Option.bind (cl_shards cl ! i) (load_entries (sv_clock sv r) g)] else cl_shards cl)"
    using load_control_shard [OF i, of sv g] by (cases "g = []") auto
  have len: "length (cl_shards ?cl) = length (cl_shards cl)" unfolding r by simp
  have ih: "length (cl_shards (send_groups sv (Suc i) gs ?cl)) = length (cl_shards cl)
    \<and> (\<forall>j. \<exists>r. cl_shards (send_groups sv (Suc i) gs ?cl) ! j =
        (if Suc i \<le> j \<and> j < Suc i + length gs \<and> gs ! (j - Suc i) \<noteq> []
         then Option.bind (cl_shards ?cl ! j) (load_entries (sv_clock sv r) (gs ! (j - Suc i)))
         else cl_shards ?cl ! j))"
    using Cons.IH [of "Suc i" ?cl] Cons.prems len by simp
  have "\<exists>r. cl_shards (send_groups sv (Suc i) gs ?cl) ! j =
        (if i \<le> j \<and> j < i + length (g # gs) \<and> (g # gs) ! (j - i) \<noteq> []
         then Option.bind (cl_shards cl ! j) (load_entries (sv_clock sv r) ((g # gs) ! (j - i)))
         else cl_shards cl ! j)" for j
  proof (cases "j = i")
    case True
    have "cl_shards (send_groups sv (Suc i) gs ?cl) ! i = cl_shards ?cl ! i"
      using ih [THEN conjunct2, THEN spec, of i] by (simp del: if_not_P if_P not_None_eq)
    then show ?thesis using True i unfolding r by (intro exI [of _ r]) simp
  next
    case False
    have "cl_shards ?cl ! j = cl_shards cl ! j" using False unfolding r by simp
    moreover have "Suc i \<le> j \<longleftrightarrow> i \<le> j" using False by auto
    moreover have "i \<le> j \<Longrightarrow> (g # gs) ! (j - i) = gs ! (j - Suc i)" using False by (simp add: nth_Cons')
    moreover obtain s where "cl_shards (send_groups sv (Suc i) gs ?cl) ! j =
        (if Suc i \<le> j \<and> j < Suc i + length gs \<and> gs ! (j - Suc i) \<noteq> []
         then Option.bind (cl_shards ?cl ! j) (load_entries (sv_clock sv s) (gs ! (j - Suc i)))
         else cl_shards ?cl ! j)" using ih by blast
    ultimately show ?thesis by (intro exI [of _ s]) auto
  qed
  then show ?case using ih by simp
qed auto

lemma fresh_abs: "fst p < NUM_DBS \<Longrightarrow> ds_abs (update_time (update_time (db_slice_new hs) t) t') p = None"
  by (simp add: ds_abs_def update_time_def db_slice_new_def db_inv_new)

lemma load_entries_fresh:
  assumes "load_entries now g (engine_shard_update_time (engine_shard_new hs) t) = Some sh"
    and "\<forall>e \<in> set g. unat (le_db e) < NUM_DBS" and "distinct (map place g)" and "fst p < NUM_DBS"
  shows "ds_abs (shard_slice sh) p = map_of (map (\<lambda>e. (place e, le_value e, le_expire e)) (filter (live now) g)) p"
proof -
  let ?ds = "update_time (update_time (db_slice_new hs) t) now"
  have inv: "ds_inv ?ds" using ds_inv_new [of hs] by (simp add: ds_inv_def update_time_def)
  obtain ds' where ds': "load_each now g ?ds = Some ds'" "shard_slice sh = ds'"
    using assms(1) by (auto simp: load_entries_def Let_def engine_shard_update_time_def engine_shard_new_def)
  have "ds_abs ?ds (place e) = None" if "e \<in> set g" for e
    using assms(2) that by (intro fresh_abs) (simp add: place_def)
  then have "ds_abs ds' = ds_abs ?ds ++ map_of (map (\<lambda>e. (place e, le_value e, le_expire e)) (filter (live now) g))"
    using load_each_abs [OF inv ds'(1)] assms(2,3) by blast
  then show ?thesis using fresh_abs [OF assms(4)] ds'(2) by (simp add: map_add_def split: option.splits)
qed

subsection \<open>A save and a start\<close>

text \<open>What a client can read of a key, with its deadline; and what is left of it at a given time.\<close>

definition bytes_at :: "engine_shard \<Rightarrow> nat \<Rightarrow> bytes \<Rightarrow> (bytes \<times> u64 option) option" where
  "bytes_at sh i key = map_option (\<lambda>(v, e). (value_as_bytes v, e)) (ds_abs (shard_slice sh) (i, key))"

definition unexpired :: "u64 \<Rightarrow> (bytes \<times> u64 option) option \<Rightarrow> (bytes \<times> u64 option) option" where
  "unexpired now x = (case x of None \<Rightarrow> None | Some (b, e) \<Rightarrow> if expired_at now e then None else Some (b, e))"

text \<open>Every key lives on the shard it is hashed to.\<close>

definition homed :: "u32 \<Rightarrow> engine_shard list \<Rightarrow> bool" where
  "homed n shs \<longleftrightarrow> length shs = unat n
     \<and> (\<forall>j < length shs. \<forall>i < NUM_DBS. \<forall>key. ds_abs (shard_slice (shs ! j)) (i, key) \<noteq> None \<longrightarrow> home n key = j)"

definition only_strings :: "engine_shard \<Rightarrow> bool" where
  "only_strings sh \<longleftrightarrow> (\<forall>i < NUM_DBS. \<forall>key v e. ds_abs (shard_slice sh) (i, key) = Some (v, e) \<longrightarrow> storable (key, v, e))"

lemma items_of_shards:
  assumes "\<forall>sh \<in> set shs. ds_inv (shard_slice sh)" and "homed n shs" and "n \<noteq> 0"
  shows "(i, key, v, e) \<in> set (concat (map shard_items shs)) \<longleftrightarrow>
      unat i < NUM_DBS \<and> ds_abs (shard_slice (shs ! home n key)) (unat i, key) = Some (v, e)"
    and "distinct (map (\<lambda>(i, key, _). (unat i, key)) (concat (map shard_items shs)))"
proof -
  have len: "length shs = unat n" and hm: "\<And>j i key x. j < length shs \<Longrightarrow> i < NUM_DBS \<Longrightarrow>
      ds_abs (shard_slice (shs ! j)) (i, key) = Some x \<Longrightarrow> home n key = j"
    using assms(2) by (auto simp: homed_def)
  have it: "(i, key, v, e) \<in> set (shard_items (shs ! j)) \<longleftrightarrow> unat i < NUM_DBS \<and> ds_abs (shard_slice (shs ! j)) (unat i, key) = Some (v, e)"
    if "j < length shs" for i key v e j
    using shard_items_abs(1) assms(1) that by simp
  show "(i, key, v, e) \<in> set (concat (map shard_items shs)) \<longleftrightarrow>
      unat i < NUM_DBS \<and> ds_abs (shard_slice (shs ! home n key)) (unat i, key) = Some (v, e)"
  proof -
    have "(i, key, v, e) \<in> set (concat (map shard_items shs)) \<longleftrightarrow> (\<exists>j < length shs. (i, key, v, e) \<in> set (shard_items (shs ! j)))"
      by (auto simp: set_conv_nth [of shs])
    also have "\<dots> \<longleftrightarrow> unat i < NUM_DBS \<and> ds_abs (shard_slice (shs ! home n key)) (unat i, key) = Some (v, e)"
      using it hm shard_home(2) [OF assms(3), of key] len by metis
    finally show ?thesis .
  qed
  have cc: "concat (map shard_items shs) = concat (map (\<lambda>j. shard_items (shs ! j)) [0..<length shs])"
    by (rule arg_cong [of _ _ concat], rule nth_equalityI) simp_all
  have "distinct (map (\<lambda>(i, key, _). (i, key)) (concat (map shard_items shs)))"
    unfolding cc
  proof (rule distinct_concat_by_tag [where tag = "\<lambda>(i, key). home n key"])
    show "distinct (map (\<lambda>(i, key, _). (i, key)) (shard_items (shs ! j)))" if "j \<in> set [0..<length shs]" for j
      using shard_items_abs(2) assms(1) that by simp
    show "(case case x of (i, key, _) \<Rightarrow> (i, key) of (i, key) \<Rightarrow> home n key) = j"
      if "j \<in> set [0..<length shs]" "x \<in> set (shard_items (shs ! j))" for j x
      using that it hm by (cases x) auto
  qed simp
  then have "distinct (map (\<lambda>(i, key). (unat i, key)) (map (\<lambda>(i, key, _). (i, key)) (concat (map shard_items shs))))"
    by (subst distinct_map) (auto simp: inj_on_def intro: unsigned_word_eqI)
  then show "distinct (map (\<lambda>(i, key, _). (unat i, key)) (concat (map shard_items shs)))"
    by (simp add: comp_def case_prod_unfold)
qed

text \<open>The two ends of the file agree on the views of the entries; \<open>es\<close> is then loaded.\<close>

definition view_place :: "u32 \<times> bytes \<times> bytes \<times> u64 option \<Rightarrow> nat \<times> bytes" where
  "view_place r = (case r of (i, key, _) \<Rightarrow> (unat (ucast i :: u16), key))"

lemma view_place_simps:
  "view_place (entry_view e) = place (to_load_entry e)" "view_place (snap_view (i, key, v, x)) = (unat i, key)"
proof -
  have "ucast (ucast i :: u32) = (i :: u16)" by (rule bit_word_eqI) (auto simp: bit_simps)
  then show "view_place (snap_view (i, key, v, x)) = (unat i, key)" by (simp add: view_place_def snap_view_def)
qed (simp add: view_place_def entry_view_def place_def to_load_entry_def)

lemma loaded_places:
  assumes "mset (map entry_view es) = mset (map snap_view items)" and "distinct (map (\<lambda>(i, key, _). (unat i, key)) items)"
  shows "distinct (map (\<lambda>e. place (to_load_entry e)) es)"
proof -
  have "mset (map view_place (map entry_view es)) = mset (map view_place (map snap_view items))"
    using assms(1) by (simp only: mset_map)
  moreover have "map view_place (map snap_view items) = map (\<lambda>(i, key, _). (unat i, key)) items"
    by (auto simp: view_place_simps)
  ultimately have "distinct (map view_place (map entry_view es))" using assms(2) by (metis mset_eq_imp_distinct_iff)
  then show ?thesis by (simp add: comp_def view_place_simps)
qed

lemma to_load_entry_sel:
  "le_db (to_load_entry e) = ucast (db_index e)" "le_key (to_load_entry e) = entry_key e"
  "le_value (to_load_entry e) = entry_value e" "le_expire (to_load_entry e) = expire_ms e"
  by (simp_all add: to_load_entry_def)

lemma loaded_bytes:
  assumes "mset (map entry_view es) = mset (map snap_view items)" and "distinct (map (\<lambda>(i, key, _). (unat i, key)) items)"
    and "\<And>p. fst p < NUM_DBS \<Longrightarrow> ds_abs (shard_slice sh) p = map_of (map (\<lambda>e. (place e, le_value e, le_expire e))
        (filter (live now) (map to_load_entry (filter (\<lambda>e. home m (entry_key e) = home m key) es)))) p"
    and "i < NUM_DBS"
  shows "bytes_at sh i key = Some (b, x) \<longleftrightarrow>
    (\<exists>j v. (j, key, v, x) \<in> set items \<and> unat j = i \<and> value_as_bytes v = b) \<and> \<not> expired_at now x"
proof -
  let ?g = "filter (live now) (map to_load_entry (filter (\<lambda>e. home m (entry_key e) = home m key) es))"
  have "distinct (map place (map to_load_entry es))" using loaded_places [OF assms(1,2)] by (simp add: comp_def)
  then have "distinct (map place ?g)" by (simp add: distinct_map_filter filter_map)
  then have d: "distinct (map fst (map (\<lambda>e. (place e, le_value e, le_expire e)) ?g))" by (simp add: comp_def)
  have ds: "ds_abs (shard_slice sh) (i, key) = Some (v, x) \<longleftrightarrow>
      ((i, key), v, x) \<in> set (map (\<lambda>e. (place e, le_value e, le_expire e)) ?g)" for v
    by (subst assms(3)) (simp_all only: fst_conv assms(4) map_of_eq_Some_iff [OF d])
  have "bytes_at sh i key = Some (b, x) \<longleftrightarrow>
      (\<exists>e \<in> set es. place (to_load_entry e) = (i, key) \<and> value_as_bytes (entry_value e) = b \<and> expire_ms e = x) \<and> \<not> expired_at now x"
  proof -
    have "ds_abs (shard_slice sh) (i, key) = Some (v, x) \<longleftrightarrow>
        (\<exists>e \<in> set es. place (to_load_entry e) = (i, key) \<and> entry_value e = v \<and> expire_ms e = x) \<and> \<not> expired_at now x" for v
      unfolding ds set_map set_filter bex_simps image_iff by (auto simp: live_def to_load_entry_sel place_def)
    then show ?thesis unfolding bytes_at_def by auto
  qed
  also have "\<dots> \<longleftrightarrow> (\<exists>w \<in> set (map entry_view es). view_place w = (i, key) \<and> snd (snd w) = (b, x)) \<and> \<not> expired_at now x"
    by (auto simp: view_place_simps) (auto simp: entry_view_def)
  also have "set (map entry_view es) = set (map snap_view items)" using assms(1) by (metis set_mset_mset)
  also have "(\<exists>w \<in> set (map snap_view items). view_place w = (i, key) \<and> snd (snd w) = (b, x)) \<longleftrightarrow>
      (\<exists>j v. (j, key, v, x) \<in> set items \<and> unat j = i \<and> value_as_bytes v = b)"
  proof -
    have "view_place (snap_view (j, k, v, y)) = (i, key) \<and> snd (snd (snap_view (j, k, v, y))) = (b, x) \<longleftrightarrow>
        unat j = i \<and> k = key \<and> value_as_bytes v = b \<and> y = x" for j k v y
      unfolding view_place_simps by (auto simp: snap_view_def)
    then show ?thesis by (simp add: Bex_def split_paired_Ex)
  qed
  finally show ?thesis .
qed

definition fs_works :: "file_system \<Rightarrow> bytes \<Rightarrow> bool" where
  "fs_works fs path \<longleftrightarrow> can_create fs (with_extension path ''rdb.tmp'') \<and> (\<forall>b. device fs b) \<and> can_flush fs \<and> can_rename fs"

lemma save_load_views:
  assumes "fs_works fs path" and "\<forall>r \<in> set (concat (map entries snaps)). snap_ok r"
  shows "\<exists>n fs' es. save_rdb fs path snaps = (Some n, fs') \<and> load_rdb fs' path = L_Ok es \<and> files fs' path \<noteq> None
    \<and> mset (map entry_view es) = mset (map snap_view (concat (map entries snaps)))"
proof -
  obtain s where s: "write_snapshot snaps (saver_new (device fs) []) = Some s" "out s = image snaps"
    using write_snapshot_image [where snaps = snaps and dev = "device fs"] assms(1) by (auto simp: fs_works_def)
  have l: "load_all (image snaps) = L_Ok (loaded_entries (\<lambda>i. db_entries i snaps))"
    using load_all_image db_entries_storable [OF assms(2)] by simp
  have "\<forall>r \<in> set (concat (map entries snaps)). unat (fst r) < 16"
    using assms(2) by (force simp: snap_ok_def split: prod.splits)
  note v = loaded_views [OF this]
  show ?thesis
    using assms(1) s l v with_extension_neq [of path] by (simp add: fs_works_def save_rdb_def load_rdb_def Let_def)
qed

lemma save_running:
  assumes "\<forall>sh \<in> set shs. ds_inv (shard_slice sh) \<and> only_strings sh" and "cl_shards cl = map Some shs" and "fs_works fs default_rdb_path"
  shows "\<exists>fs' es. do_save sv io_text fs cl = (Inr (), fs', cl) \<and> load_rdb fs' default_rdb_path = L_Ok es
    \<and> files fs' default_rdb_path \<noteq> None \<and> mset (map entry_view es) = mset (map snap_view (concat (map shard_items shs)))"
proof -
  let ?snaps = "map (\<lambda>sh. \<lparr>entries = shard_items sh\<rparr>) shs"
  have c: "concat (map entries ?snaps) = concat (map shard_items shs)" by (simp add: comp_def)
  have "snap_ok r" if "sh \<in> set shs" "r \<in> set (shard_items sh)" for sh r
    using that assms(1) shard_items_abs(1) [of sh]
    by (cases r) (auto simp: snap_ok_def only_strings_def NUM_DBS_def)
  then have ok: "\<forall>r \<in> set (concat (map entries ?snaps)). snap_ok r" unfolding c by auto
  show ?thesis
    using save_load_views [OF assms(3) ok] collect_snapshots_running [of shs cl sv] assms(1,2)
    unfolding c by (fastforce simp: do_save_def comp_def)
qed

lemma unexpired_Some: "unexpired now x = Some (b, e) \<longleftrightarrow> x = Some (b, e) \<and> \<not> expired_at now e"
  by (auto simp: unexpired_def split: option.splits)

lemma loaded_shard:
  assumes "m \<noteq> 0" and "sv_shards sv = m" and "engine_load_entries sv es (engine_shard_set_new sv hs) = Some cl"
    and "\<forall>e \<in> set es. fst (place (to_load_entry e)) < NUM_DBS" and "distinct (map (\<lambda>e. place (to_load_entry e)) es)"
    and "cl_shards cl ! home m key = Some sh"
  shows "\<exists>now \<in> range (sv_clock sv). \<forall>p. fst p < NUM_DBS \<longrightarrow> ds_abs (shard_slice sh) p =
      map_of (map (\<lambda>e. (place e, le_value e, le_expire e))
        (filter (live now) (map to_load_entry (filter (\<lambda>e. home m (entry_key e) = home m key) es)))) p"
proof -
  let ?cl = "engine_shard_set_new sv hs" and ?j = "home m key"
  let ?g = "map to_load_entry (filter (\<lambda>e. home m (entry_key e) = ?j) es)"
  have j: "?j < unat m" by (rule shard_home(2) [OF assms(1)])
  have len: "length (cl_shards ?cl) = unat m" by (simp add: engine_shard_set_new_def assms(2))
  have new: "cl_shards ?cl ! ?j = Some (engine_shard_update_time (engine_shard_new (hs ?j)) (sv_clock sv ?j))"
    using j by (simp add: engine_shard_set_new_def assms(2))
  obtain gs where gs: "distribute m es (replicate (unat m) []) = Some gs" "length gs = unat m" "gs ! ?j = ?g"
    using distribute_groups [OF assms(1), of "replicate (unat m) []" es] j by auto
  have cl: "cl = send_groups sv 0 gs ?cl" using assms(2,3) gs(1) by (simp add: engine_load_entries_def)
  obtain r where r: "cl_shards cl ! ?j =
      (if ?g \<noteq> [] then Option.bind (cl_shards ?cl ! ?j) (load_entries (sv_clock sv r) ?g) else cl_shards ?cl ! ?j)"
  proof -
    have "0 + length gs \<le> length (cl_shards ?cl)" using len gs(2) by simp
    note sg = send_groups_shard [OF this, of sv, THEN conjunct2, THEN spec, of ?j]
    show thesis using sg j gs(2) that by (simp only: cl [symmetric] gs(3) diff_zero add_0 le0 simp_thms) blast
  qed
  show ?thesis
  proof (cases "?g = []")
    case True
    then have "shard_slice sh = update_time (db_slice_new (hs ?j)) (sv_clock sv ?j)"
      using r new assms(6) by (simp add: engine_shard_update_time_def engine_shard_new_def)
    then show ?thesis
      using fresh_abs [of _ "hs ?j" "sv_clock sv ?j" "sv_clock sv ?j"] True
      by (intro bexI [of _ "sv_clock sv 0"]) (simp_all add: update_time_def filter_empty_conv)
  next
    case False
    then have "load_entries (sv_clock sv r) ?g (engine_shard_update_time (engine_shard_new (hs ?j)) (sv_clock sv ?j)) = Some sh"
      using r new assms(6) by simp
    moreover have "\<forall>e \<in> set ?g. unat (le_db e) < NUM_DBS" using assms(4) by (auto simp: place_def)
    moreover have "distinct (map place ?g)" using assms(5) by (simp add: comp_def distinct_map_filter)
    ultimately show ?thesis using load_entries_fresh by (intro bexI [of _ "sv_clock sv r"]) auto
  qed
qed

lemma restart_bytes:
  assumes "\<forall>sh \<in> set shs. ds_inv (shard_slice sh)" and "homed n shs" and "n \<noteq> 0"
    and "mset (map entry_view es) = mset (map snap_view (concat (map shard_items shs)))"
    and "m \<noteq> 0" and "sv_shards sv = m" and "engine_load_entries sv es (engine_shard_set_new sv hs) = Some cl"
    and "cl_shards cl ! home m key = Some sh"
  shows "\<exists>now \<in> range (sv_clock sv). \<forall>i < NUM_DBS. bytes_at sh i key = unexpired now (bytes_at (shs ! home n key) i key)"
proof -
  let ?items = "concat (map shard_items shs)"
  note items = items_of_shards [OF assms(1-3)]
  have "fst (place (to_load_entry e)) < NUM_DBS" if "e \<in> set es" for e
  proof -
    have "entry_view e \<in> set (map snap_view ?items)" using that assms(4) by (metis image_eqI set_map set_mset_mset)
    then obtain w where w: "w \<in> set ?items" "entry_view e = snap_view w" unfolding set_map by blast
    obtain i k v x where "w = (i, k, v, x)" by (cases w)
    then show ?thesis using w items(1) view_place_simps by (metis fst_conv)
  qed
  then obtain now where now: "now \<in> range (sv_clock sv)" "\<And>p. fst p < NUM_DBS \<Longrightarrow> ds_abs (shard_slice sh) p =
      map_of (map (\<lambda>e. (place e, le_value e, le_expire e))
        (filter (live now) (map to_load_entry (filter (\<lambda>e. home m (entry_key e) = home m key) es)))) p"
    using loaded_shard [OF assms(5-7) _ loaded_places [OF assms(4) items(2)] assms(8)] by blast
  have "bytes_at sh i key = Some (b, x) \<longleftrightarrow> unexpired now (bytes_at (shs ! home n key) i key) = Some (b, x)"
    if "i < NUM_DBS" for i b x
  proof -
    have i: "unat (of_nat i :: u16) = i" using that by (simp add: NUM_DBS_def unat_of_nat take_bit_nat_eq_self)
    have "(\<exists>j v. (j, key, v, x) \<in> set ?items \<and> unat j = i \<and> value_as_bytes v = b) \<longleftrightarrow> bytes_at (shs ! home n key) i key = Some (b, x)"
      unfolding items(1) bytes_at_def using that i by (auto intro!: exI [of _ "of_nat i :: u16"])
    then show ?thesis using loaded_bytes [OF assms(4) items(2) now(2) that, of b x] unexpired_Some by blast
  qed
  then show ?thesis using now(1) by (intro bexI [of _ now] allI impI option_eqI) auto
qed

text \<open>C4: a save followed by a start of the server keeps the data. The running cluster may have any
  number of shards, the restarted one any other number and other hashers; every key that was stored
  on its shard is found on the shard it is now hashed to, with the same bytes and the same deadline,
  unless the deadline has passed when it is loaded, and no other key appears.\<close>

theorem restart_keeps_data:
  assumes "cl_shards cl = map Some shs" and "homed (sv_shards sv) shs" and "sv_shards sv \<noteq> 0"
    and "\<forall>sh \<in> set shs. ds_inv (shard_slice sh) \<and> only_strings sh" and "fs_works fs default_rdb_path" and "sv_shards sv' \<noteq> 0"
  shows "\<exists>fs' cl'. handle_save sv ''SAVE'' io_text fs cl = (''+OK'' @ CRLF, fs', cl) \<and> start_up sv' hs fs' = Some cl'
    \<and> (\<forall>key sh. cl_shards cl' ! home (sv_shards sv') key = Some sh \<longrightarrow>
        (\<exists>now \<in> range (sv_clock sv'). \<forall>i < NUM_DBS.
           bytes_at sh i key = unexpired now (bytes_at (shs ! home (sv_shards sv) key) i key)))"
proof -
  obtain fs' es where s: "do_save sv io_text fs cl = (Inr (), fs', cl)" "load_rdb fs' default_rdb_path = L_Ok es"
    "files fs' default_rdb_path \<noteq> None" "mset (map entry_view es) = mset (map snap_view (concat (map shard_items shs)))"
    using save_running [OF assms(4,1,5)] by blast
  obtain gs where "distribute (sv_shards sv') es (replicate (unat (sv_shards sv')) []) = Some gs"
    using distribute_groups [OF assms(6), of "replicate (unat (sv_shards sv')) []" es] by auto
  then obtain cl' where cl': "engine_load_entries sv' es (engine_shard_set_new sv' hs) = Some cl'"
    by (auto simp: engine_load_entries_def)
  have "handle_save sv ''SAVE'' io_text fs cl = (''+OK'' @ CRLF, fs', cl)"
    by (simp add: handle_save_def s(1) reply_on_def send_fixed_buf)
  moreover have "start_up sv' hs fs' = Some cl'" using s(2,3) cl' by (auto simp: start_up_def Let_def)
  moreover have "\<forall>sh \<in> set shs. ds_inv (shard_slice sh)" using assms(4) by blast
  ultimately show ?thesis using restart_bytes [OF _ assms(2,3) s(4) assms(6) refl cl'] by blast
qed

subsection \<open>A small cluster\<close>

lemma fresh_insert: "tbl_insert (tbl_with_hasher h :: ('k, 'v) dash_table) k v \<noteq> None"
  using dash.ins_total [OF tbl_new_inv, of h k v]
  by (simp add: tbl_has_room_def tbl_with_hasher_def seg_id_def segment_new_def dash_consts)

lemma load_one_fresh:
  assumes "unat (le_db e) < NUM_DBS"
  shows "load_one now e (update_time (update_time (db_slice_new hs) t) now) \<noteq> None"
proof -
  let ?ds = "update_time (update_time (db_slice_new hs) t) now" and ?k = "prime_key_new (le_key e)"
  let ?h = "\<lambda>i. prime_key_hash (hs (2 * unat (le_db e) + i))"
  have db: "dbs ?ds ! unat (le_db e) = \<lparr>prime = tbl_with_hasher (?h 0), expire = tbl_with_hasher (?h 1)\<rparr>" "length (dbs ?ds) = NUM_DBS"
    using assms by (simp_all add: update_time_def db_slice_new_def db_table_new_def)
  obtain old p where p: "tbl_insert (tbl_with_hasher (?h 0)) ?k (le_value e) = Some (old, p)"
    using fresh_insert [of "?h 0" ?k "le_value e"] by auto
  obtain ds1 where ds1: "add_or_update ?ds (le_db e) (le_key e) (le_value e) = Some (old = None, ds1)"
    "dbs ds1 = (dbs ?ds)[unat (le_db e) := \<lparr>prime = p, expire = tbl_with_hasher (?h 1)\<rparr>]"
    using assms db p by (auto simp: add_or_update_def on_db_def db_insert_def)
  have "add_expire ds1 (le_db e) (le_key e) d \<noteq> None" for d
    using assms db(2) fresh_insert [of "?h 1" ?k d] by (auto simp: add_expire_def on_db_def ds1(2) db_add_expire_def)
  then show ?thesis using ds1(1) by (auto simp: load_one_def split: option.splits)
qed

lemma single_load_runs:
  assumes "sv_shards sv \<noteq> 0" and "unat (ucast (db_index e) :: u16) < NUM_DBS"
    and "engine_load_entries sv [e] (engine_shard_set_new sv hs) = Some cl"
  shows "cl_shards cl ! home (sv_shards sv) key \<noteq> None"
proof -
  let ?m = "sv_shards sv" and ?cl = "engine_shard_set_new sv hs" and ?j = "home (sv_shards sv) key"
  have j: "?j < unat ?m" by (rule shard_home(2) [OF assms(1)])
  obtain gs where gs: "distribute ?m [e] (replicate (unat ?m) []) = Some gs" "length gs = unat ?m"
    "gs ! ?j = map to_load_entry (filter (\<lambda>e. home ?m (entry_key e) = ?j) [e])"
    using distribute_groups [OF assms(1), of "replicate (unat ?m) []" "[e]"] j by auto
  have cl: "cl = send_groups sv 0 gs ?cl" using assms(3) gs(1) by (simp add: engine_load_entries_def)
  have "0 + length gs \<le> length (cl_shards ?cl)" using gs(2) by (simp add: engine_shard_set_new_def)
  note sg = send_groups_shard [OF this, of sv, THEN conjunct2, THEN spec, of ?j]
  have new: "cl_shards ?cl ! ?j = Some (engine_shard_update_time (engine_shard_new (hs ?j)) (sv_clock sv ?j))"
    using j by (simp add: engine_shard_set_new_def)
  have "load_entries now [to_load_entry e] (engine_shard_update_time (engine_shard_new (hs ?j)) t) \<noteq> None" for now t
    using load_one_fresh [of "to_load_entry e" now "hs ?j" t] assms(2)
    by (auto simp: load_entries_def Let_def engine_shard_update_time_def engine_shard_new_def to_load_entry_sel)
  then show ?thesis using sg j gs(2,3) unfolding cl [symmetric] new by (auto split: if_splits)
qed

definition demo_shard :: engine_shard where
  "demo_shard = \<lparr>shard_slice = snd (the (add_or_update demo_slice 0 ''k'' (PV_String ''v''))), commands_processed = 0\<rparr>"

lemma demo_shard_facts:
  "ds_inv (shard_slice demo_shard)"
  "i < NUM_DBS \<Longrightarrow> ds_abs (shard_slice demo_shard) (i, key) = (if i = 0 \<and> key = ''k'' then Some (PV_String ''v'', None) else None)"
proof -
  have inv: "ds_inv demo_slice" unfolding demo_slice_def by (rule ds_inv_new)
  have none: "ds_abs demo_slice (i, key) = None" if "i < NUM_DBS" for i key
    using that by (simp add: ds_abs_def demo_slice_db db_inv_new)
  have "add_or_update demo_slice 0 ''k'' (PV_String ''v'') \<noteq> None"
    using fresh_insert [of "prime_key_hash (\<lambda>_. 0)" "prime_key_new ''k''" "PV_String ''v''"]
    by (simp add: add_or_update_def on_db_def demo_slice_db NUM_DBS_def db_insert_def db_table_new_def)
  then obtain b ds where "add_or_update demo_slice 0 ''k'' (PV_String ''v'') = Some (b, ds)" by auto
  then have a: "ds_inv (shard_slice demo_shard)
      \<and> ds_abs (shard_slice demo_shard) = (ds_abs demo_slice)((0, ''k'') \<mapsto> (PV_String ''v'', Option.bind (ds_abs demo_slice (0, ''k'')) snd))"
    using add_or_update_abs [OF inv, of 0] by (auto simp: demo_shard_def NUM_DBS_def)
  then show "ds_inv (shard_slice demo_shard)" by blast
  show "ds_abs (shard_slice demo_shard) (i, key) = (if i = 0 \<and> key = ''k'' then Some (PV_String ''v'', None) else None)" if "i < NUM_DBS"
    using a none that by (simp add: NUM_DBS_def)
qed

theorem restart_keeps_data_witness:
  "\<exists>fs' cl' sh. handle_save (demo_server\<lparr>sv_shards := 1\<rparr>) ''SAVE'' [] demo_fs \<lparr>cl_shards = [Some demo_shard], cl_reads = 0\<rparr>
      = (''+OK'' @ CRLF, fs', \<lparr>cl_shards = [Some demo_shard], cl_reads = 0\<rparr>)
    \<and> start_up demo_server (\<lambda>_ _ _. 0) fs' = Some cl' \<and> cl_shards cl' ! home 2 ''k'' = Some sh
    \<and> bytes_at sh 0 ''k'' = Some (''v'', None) \<and> bytes_at sh 0 ''j'' = None"
proof -
  let ?sv = "demo_server\<lparr>sv_shards := 1\<rparr>" and ?cl = "\<lparr>cl_shards = [Some demo_shard], cl_reads = 0\<rparr>"
  have ok: "\<forall>sh \<in> set [demo_shard]. ds_inv (shard_slice sh) \<and> only_strings sh"
    by (auto simp: demo_shard_facts only_strings_def storable_def split: if_splits)
  have h1: "home 1 key = 0" for key by (simp add: home_def unat_mod_distrib)
  have fsw: "fs_works demo_fs default_rdb_path" by (simp add: fs_works_def demo_fs_def)
  have hm: "homed (sv_shards ?sv) [demo_shard]" by (simp add: homed_def h1)
  have two: "sv_shards demo_server = 2" by (simp add: demo_server_def)
  obtain fs' cl' where r: "handle_save ?sv ''SAVE'' [] demo_fs ?cl = (''+OK'' @ CRLF, fs', ?cl)"
    "start_up demo_server (\<lambda>_ _ _. 0) fs' = Some cl'"
    and b: "\<And>key sh. cl_shards cl' ! home 2 key = Some sh \<Longrightarrow> \<exists>now \<in> range (sv_clock demo_server). \<forall>i < NUM_DBS.
           bytes_at sh i key = unexpired now (bytes_at demo_shard i key)"
    using restart_keeps_data [of ?cl "[demo_shard]" ?sv demo_fs demo_server "[]" "\<lambda>_ _ _. 0"] ok fsw hm by (auto simp: h1 two)
  obtain fs'' es where s: "do_save ?sv [] demo_fs ?cl = (Inr (), fs'', ?cl)" "load_rdb fs'' default_rdb_path = L_Ok es"
    "files fs'' default_rdb_path \<noteq> None" "mset (map entry_view es) = mset (map snap_view (concat (map shard_items [demo_shard])))"
    using save_running [OF ok _ fsw, of ?cl ?sv "[]"] by auto
  have "fs'' = fs'" using r(1) s(1) by (simp add: handle_save_def reply_on_def send_fixed_buf)
  then have ld: "engine_load_entries demo_server es (engine_shard_set_new demo_server (\<lambda>_ _ _. 0)) = Some cl'"
    using r(2) s(2,3) by (auto simp: start_up_def Let_def)
  note it = shard_items_abs [OF demo_shard_facts(1)]
  have "set (shard_items demo_shard) = {(0, ''k'', PV_String ''v'', None)}"
    using it(1) by (auto simp: demo_shard_facts(2) NUM_DBS_def unsigned_eq_0_iff split: if_splits)
  moreover have "distinct (shard_items demo_shard)" using it(2) unfolding distinct_map by blast
  ultimately have "mset (shard_items demo_shard) = {#(0, ''k'', PV_String ''v'', None)#}"
    by (simp add: mset_set_set [symmetric])
  then have "mset (map entry_view es) = {#(0, ''k'', ''v'', None)#}" using s(4) by (simp add: snap_view_def)
  then obtain e where "es = [e]" "entry_view e = (0, ''k'', ''v'', None)" by (cases es) auto
  then obtain sh where sh: "cl_shards cl' ! home 2 ''k'' = Some sh"
    using single_load_runs [of demo_server e _ cl' "''k''"] ld by (auto simp: two entry_view_def NUM_DBS_def)
  have w: "home 2 ''j'' = home 2 ''k''" by code_simp
  have d: "bytes_at demo_shard 0 key = (if key = ''k'' then Some (''v'', None) else None)" for key
    by (simp add: bytes_at_def demo_shard_facts NUM_DBS_def)
  have "bytes_at sh 0 ''k'' = Some (''v'', None)" "bytes_at sh 0 ''j'' = None"
    using b [of "''k''" sh] b [of "''j''" sh] sh w d by (auto simp: NUM_DBS_def unexpired_def expired_at_def)
  then show ?thesis using r sh by blast
qed

subsection \<open>The periodic sweep\<close>

definition sweepable :: "u64 \<Rightarrow> db_table \<Rightarrow> bool" where
  "sweepable now db \<longleftrightarrow> all_db_removable db (sweep_keys db 20 now)"

lemma sweep_db_step:
  assumes "ds_inv ds" and "unat i < NUM_DBS" and "sweepable (now_ms ds) (dbs ds ! unat i)"
  shows "\<exists>ds'. sweep_db ds i = Some ds' \<and> ds_inv ds' \<and> now_ms ds' = now_ms ds
    \<and> (\<forall>j key. j < NUM_DBS \<longrightarrow> ds_visible ds' j key = ds_visible ds j key) \<and> (\<forall>j. j \<noteq> unat i \<longrightarrow> dbs ds' ! j = dbs ds ! j)"
proof -
  let ?db = "dbs ds ! unat i"
  have len: "length (dbs ds) = NUM_DBS" and inv: "db_inv ?db" using assms(1,2) by (simp_all add: ds_inv_def)
  obtain db' where db': "db_expire_sweep ?db 20 (now_ms ds) = Some (length (sweep_keys ?db 20 (now_ms ds)), db')" "db_inv db'"
    "db_abs db' = (\<lambda>key. if key \<in> set (sweep_keys ?db 20 (now_ms ds)) then None else db_abs ?db key)"
    using db_sweep_spec(1) [OF inv] assms(3) by (auto simp: sweepable_def)
  have vis: "visible (db_abs db') (now_ms ds) key = visible (db_abs ?db) (now_ms ds) key" for key
    using db_sweep_spec(2) [OF inv, of 20 "now_ms ds" key] assms(3) by (auto simp: sweepable_def db'(3) visible_def)
  have "expire_sweep ds i 20 = Some (length (sweep_keys ?db 20 (now_ms ds)), ds\<lparr>dbs := (dbs ds)[unat i := db']\<rparr>)"
    unfolding expire_sweep_def using assms(2) len db'(1) by (intro on_db_Some) simp_all
  moreover have "db_size ds i \<noteq> None" using assms(2) len by (simp add: db_size_def ds_db_def)
  ultimately show ?thesis
    using on_db_inv [OF assms(1) db'(2)] len vis assms(1)
    by (cases "db_size ds i") (auto simp: sweep_db_def ds_visible_def nth_list_update_if)
qed

lemma sweep_dbs_steps:
  assumes "ds_inv ds" and "distinct js" and "\<forall>i \<in> set js. unat i < NUM_DBS \<and> sweepable (now_ms ds) (dbs ds ! unat i)"
  shows "\<exists>ds'. sweep_dbs js ds = Some ds' \<and> ds_inv ds' \<and> now_ms ds' = now_ms ds
    \<and> (\<forall>j key. j < NUM_DBS \<longrightarrow> ds_visible ds' j key = ds_visible ds j key)"
  using assms
proof (induction js arbitrary: ds)
  case (Cons i js)
  obtain ds1 where ds1: "sweep_db ds i = Some ds1" "ds_inv ds1" "now_ms ds1 = now_ms ds"
    "\<forall>j key. j < NUM_DBS \<longrightarrow> ds_visible ds1 j key = ds_visible ds j key" "\<forall>j. j \<noteq> unat i \<longrightarrow> dbs ds1 ! j = dbs ds ! j"
    using sweep_db_step [of ds i] Cons.prems by auto
  have "\<forall>k \<in> set js. unat k < NUM_DBS \<and> sweepable (now_ms ds1) (dbs ds1 ! unat k)"
    using Cons.prems(2,3) ds1(3,5) by (metis distinct.simps(2) list.set_intros(2) unsigned_word_eqI)
  then obtain ds2 where "sweep_dbs js ds1 = Some ds2" "ds_inv ds2" "now_ms ds2 = now_ms ds1"
    "\<forall>j key. j < NUM_DBS \<longrightarrow> ds_visible ds2 j key = ds_visible ds1 j key"
    using Cons.IH [OF ds1(2)] Cons.prems(2) by auto
  then show ?case using ds1(1,3,4) by auto
qed simp



end
