(* ===== verification/Handler_Rules.thy ===== *)
theory Handler_Rules
  imports Service_Reply
begin

text \<open>
  Three facts about every registered handler, proved together by one set of rules that follows the
  structure of the definitions: it keeps all tables of its shard memory safe, it leaves the
  connection alone (SELECT and RESET excepted), and what it does and appends does not depend on what
  is already in the reply buffer.
\<close>

subsection \<open>Operations of a slice keep its tables safe\<close>

definition db_safe :: "db_table \<Rightarrow> bool" where
  "db_safe db \<longleftrightarrow> tbl_safe (prime db) \<and> tbl_safe (expire db)"

definition ds_safe :: "db_slice \<Rightarrow> bool" where
  "ds_safe ds \<longleftrightarrow> length (dbs ds) = NUM_DBS \<and> (\<forall>db \<in> set (dbs ds). db_safe db)"

definition safe_op :: "(db_slice \<Rightarrow> ('a \<times> db_slice) option) \<Rightarrow> bool" where
  "safe_op f \<longleftrightarrow> (\<forall>ds a ds'. ds_safe ds \<longrightarrow> f ds = Some (a, ds') \<longrightarrow> ds_safe ds')"

named_theorems safe_ops \<open>slice operations that keep tables safe\<close>

lemma safe_opD: "safe_op f \<Longrightarrow> ds_safe ds \<Longrightarrow> f ds = Some (a, ds') \<Longrightarrow> ds_safe ds'"
  by (auto simp: safe_op_def)

lemma ds_safe_new: "ds_safe (db_slice_new hs)"
  by (auto simp: ds_safe_def db_slice_new_def db_safe_def db_table_new_def tbl_invD(1) [OF tbl_new_inv])

lemma ds_safe_update_time [simp]: "ds_safe (update_time ds t) \<longleftrightarrow> ds_safe ds"
  by (simp add: ds_safe_def update_time_def)

lemma safe_on_db:
  assumes "\<And>ds db a db'. db_safe db \<Longrightarrow> f ds db = Some (a, db') \<Longrightarrow> db_safe db'"
  shows "safe_op (\<lambda>ds. on_db ds i (f ds))"
  unfolding safe_op_def
proof (intro allI impI)
  fix ds a ds' assume ds: "ds_safe ds" "on_db ds i (f ds) = Some (a, ds')"
  then obtain db' where i: "unat i < length (dbs ds)" "f ds (dbs ds ! unat i) = Some (a, db')"
      "ds' = ds\<lparr>dbs := (dbs ds)[unat i := db']\<rparr>"
    by (auto simp: on_db_def split: if_splits)
  have "db_safe db'" using assms [OF _ i(2)] ds(1) i(1) by (auto simp: ds_safe_def)
  then show "ds_safe ds'" using ds(1) by (auto simp: ds_safe_def i(3) dest!: set_update_subset_insert [THEN subsetD])
qed

lemma remove_safe: "tbl_safe t \<Longrightarrow> tbl_safe (snd (tbl_remove t k))"
  using tbl_remove_safe [of t k] by (cases "tbl_remove t k") auto

lemma safe_remove_both: "db_safe db \<Longrightarrow> db_safe (remove_both db k)"
  by (simp add: db_safe_def remove_both_def remove_safe)

lemma safe_remove_all: "db_safe db \<Longrightarrow> db_safe (foldl remove_both db ks)"
  by (induction ks arbitrary: db) (simp_all add: safe_remove_both)

lemma safe_check_and_expire: "db_safe db \<Longrightarrow> check_and_expire db k now = (b, db') \<Longrightarrow> db_safe db'"
  by (auto simp: check_and_expire_def safe_remove_both split: option.splits if_splits)

lemma safe_find: "db_safe db \<Longrightarrow> db_find db k now = (r, db') \<Longrightarrow> db_safe db'"
  by (auto simp: db_find_def Let_def dest: safe_check_and_expire split: prod.splits if_splits option.splits)

lemma safe_find_mut:
  assumes "db_safe db" and "db_find_mut db k now f = (r, db')"
  shows "db_safe db'"
proof -
  obtain b db1 where c: "check_and_expire db k now = (b, db1)" by fastforce
  have s: "db_safe db1" by (rule safe_check_and_expire [OF assms(1) c])
  have "db_safe (db1\<lparr>prime := p\<rparr>)" if "tbl_find_mut (prime db1) k g = Some p" for p g
    using s tbl_find_mut_safe [OF _ that] by (simp add: db_safe_def)
  then show ?thesis
    using assms(2) s c by (auto simp: db_find_mut_def Let_def split: if_splits option.splits prod.splits)
qed

lemma safe_insert: "db_safe db \<Longrightarrow> db_insert db k v = Some (b, db') \<Longrightarrow> db_safe db'"
  by (auto simp: db_insert_def db_safe_def dest: tbl_insert_safe)

lemma safe_add_expire: "db_safe db \<Longrightarrow> db_add_expire db k d = Some (b, db') \<Longrightarrow> db_safe db'"
  by (auto simp: db_add_expire_def db_safe_def dest: tbl_insert_safe split: if_splits)

lemma safe_rename:
  assumes "db_safe db" and "db_rename db k l = Some (b, db')"
  shows "db_safe db'"
  using assms remove_safe [of "expire db" k] remove_safe [of "prime db" k]
  by (cases "tbl_remove (expire db) k"; cases "tbl_remove (prime db) k")
     (auto simp: db_rename_def Let_def db_safe_def bind_eq_Some_conv split: option.splits prod.splits
       intro: remove_safe dest: tbl_insert_safe tbl_insert_safe [OF remove_safe])

lemma safe_slice_ops [safe_ops]:
  "safe_op (\<lambda>ds. ds_find ds i key)" "safe_op (\<lambda>ds. ds_find_mut ds i key g)" "safe_op (\<lambda>ds. add_or_update ds i key v)"
  "safe_op (\<lambda>ds. add_if_absent ds i key v)" "safe_op (\<lambda>ds. ds_del ds i key)" "safe_op (\<lambda>ds. add_expire ds i key (d ds))"
  "safe_op (\<lambda>ds. remove_expire ds i key)" "safe_op (\<lambda>ds. ttl_ms ds i key)" "safe_op (\<lambda>ds. rename ds i key dest)"
  "safe_op (\<lambda>ds. ds_keys ds i pat)" "safe_op (\<lambda>ds. flush_db ds i)" "safe_op (\<lambda>ds. expire_sweep ds i n)"
  unfolding ds_find_def ds_find_mut_def add_or_update_def add_if_absent_def ds_del_def add_expire_def remove_expire_def
    ttl_ms_def rename_def ds_keys_def flush_db_def expire_sweep_def
  by (rule safe_on_db; auto simp: db_add_if_absent_def db_del_def db_remove_expire_def db_ttl_ms_def db_keys_def
      db_expire_sweep_def db_table_clear_def Let_def safe_remove_all tbl_invD(1) [OF tbl_clear_inv]
      dest: safe_find safe_find_mut safe_insert safe_check_and_expire safe_add_expire safe_rename
      intro: safe_remove_both split: if_splits option.splits prod.splits;
      auto simp: db_safe_def tbl_invD(1) [OF tbl_clear_inv] dest: tbl_remove_safe remove_safe)+

lemma safe_ds_exists [safe_ops]: "safe_op (\<lambda>ds. ds_exists ds i key)"
  using safe_slice_ops(1) [of i key] by (auto simp: safe_op_def ds_exists_def)

lemma safe_return: "safe_op (\<lambda>ds. Some (a, ds))"
  by (simp add: safe_op_def)

lemma safe_bind:
  assumes "safe_op f" and "\<And>a. safe_op (g a)"
  shows "safe_op (\<lambda>ds. Option.bind (f ds) (\<lambda>(a, ds'). g a ds'))"
  unfolding safe_op_def
proof (intro allI impI)
  fix ds b ds' assume ds: "ds_safe ds" "Option.bind (f ds) (\<lambda>(a, ds'). g a ds') = Some (b, ds')"
  then obtain a ds1 where f: "f ds = Some (a, ds1)" "g a ds1 = Some (b, ds')" by (auto simp: bind_eq_Some_conv)
  show "ds_safe ds'" by (rule safe_opD [OF assms(2) safe_opD [OF assms(1) ds(1) f(1)] f(2)])
qed

lemma safe_set_expiry [safe_ops]: "safe_op (set_expiry db key so old)"
proof -
  have "safe_op (\<lambda>ds. map_option (\<lambda>(_, ds'). ((), ds')) (remove_expire ds db key))"
    using safe_slice_ops(7) [of db key] by (auto simp: safe_op_def)
  then show ?thesis
    by (cases "so_expire so"; cases old; cases "so_keep_ttl so") (simp_all add: set_expiry_def [abs_def] safe_slice_ops(6) safe_return)
qed

lemma safe_any_exists [safe_ops]: "safe_op (any_exists ks db)"
  unfolding safe_op_def
proof (intro allI impI)
  show "ds_safe ds'" if "ds_safe ds" "any_exists ks db ds = Some (a, ds')" for ds a ds'
    using that
  proof (induction ks db ds rule: any_exists.induct)
    case (2 key ks db ds)
    then show ?case
      using safe_opD [OF safe_ds_exists] by (fastforce split: option.splits prod.splits bool.splits)
  qed simp
qed

lemma safe_flush_dbs [safe_ops]: "safe_op (flush_dbs js)"
proof (induction js)
  case (Cons j js)
  show ?case using safe_bind [OF safe_slice_ops(11) Cons.IH, of j] by (simp add: flush_dbs.simps [abs_def])
qed (simp add: safe_op_def)

lemma safe_count_keys [safe_ops]:
  assumes "\<And>key. safe_op (\<lambda>ds. f ds db key)"
  shows "safe_op (count_keys f db ks n)"
proof (induction ks arbitrary: n)
  case (Cons k ks)
  show ?case
    using safe_bind [OF assms [of k], of "\<lambda>b. count_keys f db ks (if b then n + 1 else n)"] Cons.IH
    by (simp add: count_keys.simps [abs_def])
qed (simp add: safe_op_def)

subsection \<open>Runs that differ in the reply buffer only\<close>

definition prefixed :: "bytes \<Rightarrow> command_context \<Rightarrow> command_context" where
  "prefixed w ctx = ctx\<lparr>cc_reply := (cc_reply ctx)\<lparr>buf := w @ buf (cc_reply ctx)\<rparr>\<rparr>"

text \<open>
  \<open>runs w conn r r'\<close>: the result \<open>r'\<close> of a run whose buffer began with \<open>w\<close> is the result \<open>r\<close> of the run
  without it, \<open>w\<close> prepended; the tables are safe and the connection is \<open>conn\<close>.
\<close>

definition runs :: "bytes \<Rightarrow> conn_context \<Rightarrow> command_context option \<Rightarrow> command_context option \<Rightarrow> bool" where
  "runs w conn r r' \<longleftrightarrow> r' = map_option (prefixed w) r \<and> (\<forall>c. r = Some c \<longrightarrow> ds_safe (slice c) \<and> cc_conn c = conn)"

definition proper :: "handler \<Rightarrow> bool" where
  "proper h \<longleftrightarrow> (\<forall>w ctx. ds_safe (slice ctx) \<longrightarrow> runs w (cc_conn ctx) (h ctx) (h (prefixed w ctx)))"

definition sends :: "(reply_builder \<Rightarrow> reply_builder) \<Rightarrow> bool" where
  "sends f \<longleftrightarrow> (\<forall>rb w. f (rb\<lparr>buf := w @ buf rb\<rparr>) = (f rb)\<lparr>buf := w @ buf (f rb)\<rparr>)"

named_theorems runs_intros \<open>how runs with a prefixed buffer are related\<close>

lemma prefixed_sel [simp]:
  "cc_args (prefixed w c) = cc_args c" "cc_conn (prefixed w c) = cc_conn c" "cc_shard (prefixed w c) = cc_shard c"
  "slice (prefixed w c) = slice c" "ctx_db (prefixed w c) = ctx_db c" "set_slice ds (prefixed w c) = prefixed w (set_slice ds c)"
  "arg (prefixed w c) = arg c" "arg_str (prefixed w c) = arg_str c" "arg_int (prefixed w c) = arg_int c"
  "arg_positive_int (prefixed w c) = arg_positive_int c" "arg_word (prefixed w c) = arg_word c"
  by (auto simp: prefixed_def slice_def ctx_db_def set_slice_def arg_def arg_str_def arg_int_def arg_positive_int_def arg_word_def fun_eq_iff)

lemma collect_args_prefixed [simp]: "collect_args (prefixed w c) js = collect_args c js"
  by (induction js) simp_all

lemma args_prefixed [simp]: "key_args (prefixed w c) = key_args c" "args_from (prefixed w c) i = args_from c i"
  by (simp_all add: key_args_def args_from_def)

lemma sends_extend: "sends f \<Longrightarrow> sends (\<lambda>rb. Reply_Builder.extend (f rb) d)"
  by (simp add: sends_def Reply_Builder.extend_def)

lemma sends_write_int: "sends f \<Longrightarrow> sends (\<lambda>rb. write_int (f rb) n)"
  by (simp add: sends_def write_int_def Reply_Builder.extend_def)

lemma sends_id: "sends (\<lambda>rb. rb)"
  by (simp add: sends_def)

lemma sends_values [runs_intros]:
  "sends send_ok" "sends send_pong" "sends send_null" "sends (\<lambda>rb. send_simple_string rb m)" "sends (\<lambda>rb. send_err rb m)"
 "sends (\<lambda>rb. send_integer rb n)" "sends (\<lambda>rb. send_bulk_string rb m)"
  "sends (\<lambda>rb. send_array_len rb l)"
  by (auto simp: send_ok_def [abs_def] send_pong_def [abs_def] send_null_def [abs_def] send_simple_string_def send_err_def
      send_integer_def send_bulk_string_def send_array_len_def intro!: sends_extend sends_write_int sends_id)

lemma sends_choices [runs_intros]: "sends (\<lambda>rb. send_wrong_type rb m)" "sends (\<lambda>rb. send_opt rb d)"
  by (cases "m = []"; cases d; simp add: send_wrong_type_def [abs_def] send_opt_def [abs_def] sends_values sends_extend sends_id)+

lemma sends_comp: "sends f \<Longrightarrow> sends g \<Longrightarrow> sends (\<lambda>rb. g (f rb))"
  by (simp add: sends_def)

lemma sends_foldl: "(\<And>d. sends (\<lambda>rb. f rb d)) \<Longrightarrow> sends (\<lambda>rb. foldl f rb ds)"
proof (induction ds)
  case (Cons d ds)
  show ?case using sends_comp [OF Cons.prems Cons.IH [OF Cons.prems], of d] by simp
qed (simp add: sends_id)

definition context_ok :: "conn_context \<Rightarrow> command_context \<Rightarrow> bool" where
  "context_ok conn c \<longleftrightarrow> ds_safe (slice c) \<and> cc_conn c = conn"

lemma context_ok_set [simp]: "context_ok conn (set_slice ds c) \<longleftrightarrow> ds_safe ds \<and> cc_conn c = conn"
  by (simp add: context_ok_def)

lemma proper_iff: "proper h \<longleftrightarrow> (\<forall>w conn c. context_ok conn c \<longrightarrow> runs w conn (h c) (h (prefixed w c)))"
  by (auto simp: proper_def context_ok_def)

lemma runs_proper: "proper h \<Longrightarrow> context_ok conn c \<Longrightarrow> runs w conn (h c) (h (prefixed w c))"
  by (simp add: proper_iff)

lemma runs_None: "runs w conn None None"
  by (simp add: runs_def)

lemma runs_Some: "context_ok conn c \<Longrightarrow> runs w conn (Some c) (Some (prefixed w c))"
  by (simp add: runs_def context_ok_def)

lemma proper_rep: "sends f \<Longrightarrow> proper (rep f)"
  by (simp add: proper_def runs_def rep_def sends_def prefixed_def slice_def)

lemma proper_leaves:
  "proper (rep send_ok)" "proper (rep send_pong)" "proper (rep send_null)" "proper (rep_err m)" "proper (rep_int n)"
  "proper (rep_bulk m)" "proper rep_wrong_type" "proper (rep_simple m)" "proper (rep_array_len l)" "proper (rep_bulks ks)"
  "proper (rep_opt d)" "proper (rep (\<lambda>rb. foldl send_opt rb ds))" "proper (rep (\<lambda>rb. foldl send_integer rb ns))"
  unfolding rep_err_def rep_int_def rep_bulk_def rep_wrong_type_def rep_simple_def rep_array_len_def rep_bulks_def rep_opt_def
  by (rule proper_rep sends_values sends_choices sends_foldl)+

lemma runs_on_slice:
  assumes "safe_op f" and "context_ok conn c" and "\<And>a c2. context_ok conn c2 \<Longrightarrow> runs w conn (k a c2) (k' a (prefixed w c2))"
  shows "runs w conn (on_slice c f k) (on_slice (prefixed w c) f k')"
proof (cases "f (slice c)")
  case (Some x)
  obtain a ds where x: "x = (a, ds)" by (cases x)
  have "context_ok conn (set_slice ds c)"
    using safe_opD [OF assms(1), of "slice c" a ds] assms(2) Some x by (simp add: context_ok_def)
  then show ?thesis using assms(3) Some x by (simp add: on_slice_def)
qed (simp add: on_slice_def runs_None)

lemma runs_bind: "(\<And>a. runs w conn (k a) (k' a)) \<Longrightarrow> runs w conn (Option.bind r k) (Option.bind r k')"
  by (cases r) (simp_all add: runs_None)

lemma runs_with_arg: "(\<And>a. runs w conn (k a) (k' a)) \<Longrightarrow> runs w conn (with_arg c i k) (with_arg (prefixed w c) i k')"
  by (simp add: with_arg_def runs_bind)

lemma runs_then:
  assumes "runs w conn r r'" and "\<And>c. context_ok conn c \<Longrightarrow> runs w conn (h c) (h' (prefixed w c))"
  shows "runs w conn (Option.bind r h) (Option.bind r' h')"
proof (cases r)
  case (Some c)
  then have "r' = Some (prefixed w c)" "context_ok conn c" using assms(1) by (simp_all add: runs_def context_ok_def)
  then show ?thesis using Some assms(2) by simp
qed (use assms(1) in \<open>simp add: runs_def\<close>)

lemma proper_then: "proper g \<Longrightarrow> proper h \<Longrightarrow> proper (\<lambda>c. Option.bind (g c) h)"
  by (auto simp: proper_iff intro!: runs_then)

lemma proper_arrays: "proper (rep_array ks)" "proper (rep_opt_array ds)" "proper (rep_int_array ns)"
  unfolding rep_array_def [abs_def] rep_opt_array_def [abs_def] rep_int_array_def [abs_def]
  by (intro proper_then proper_leaves)+

lemma runs_find_string:
  assumes "context_ok conn c" and "\<And>v c2. context_ok conn c2 \<Longrightarrow> runs w conn (k v c2) (k' v (prefixed w c2))"
  shows "runs w conn (find_string c key k) (find_string (prefixed w c) key k')"
  unfolding find_string_def using assms
  by (auto intro!: runs_on_slice safe_ops runs_proper [OF proper_leaves(7)] split: option.splits)

lemma runs_read_value:
  assumes "context_ok conn c" and "\<And>a c2. context_ok conn c2 \<Longrightarrow> runs w conn (found a c2) (found' a (prefixed w c2))"
    and "\<And>c2. context_ok conn c2 \<Longrightarrow> runs w conn (absent c2) (absent' (prefixed w c2))"
  shows "runs w conn (read_value key sel found absent c) (read_value key sel found' absent' (prefixed w c))"
  unfolding read_value_def using assms
  by (auto intro!: runs_on_slice safe_ops runs_proper [OF proper_leaves(7)] split: option.splits)

lemma runs_edit_value:
  assumes "context_ok conn c" and "\<And>a c2. context_ok conn c2 \<Longrightarrow> runs w conn (found a c2) (found' a (prefixed w c2))"
    and "\<And>c2. context_ok conn c2 \<Longrightarrow> runs w conn (absent c2) (absent' (prefixed w c2))"
  shows "runs w conn (edit_value key f found absent c) (edit_value key f found' absent' (prefixed w c))"
  unfolding edit_value_def using assms
  by (auto intro!: runs_on_slice safe_ops runs_proper [OF proper_leaves(7)] split: option.splits)

lemma runs_upsert:
  assumes "context_ok conn c" and "\<And>a c2. context_ok conn c2 \<Longrightarrow> runs w conn (k a c2) (k' a (prefixed w c2))"
  shows "runs w conn (upsert key f fresh k c) (upsert key f fresh k' (prefixed w c))"
  unfolding upsert_def using assms by (auto intro!: runs_edit_value runs_on_slice safe_ops)

lemma proper_drop_if: "proper (drop_if b key)"
  by (auto simp: proper_iff drop_if_def intro!: runs_on_slice safe_ops runs_Some)

lemmas runs_leaves = proper_leaves [THEN runs_proper] proper_arrays [THEN runs_proper] proper_drop_if [THEN runs_proper]

lemmas runs_rules = runs_None runs_Some runs_with_arg runs_bind runs_then runs_find_string runs_read_value runs_edit_value runs_upsert
  runs_on_slice runs_leaves safe_slice_ops safe_ds_exists safe_set_expiry safe_any_exists safe_flush_dbs safe_count_keys

subsection \<open>String commands\<close>

lemma set_options_prefixed [simp]: "set_options (prefixed w c) i so = set_options c i so"
proof (induction c i so rule: set_options.induct)
  case (1 c i so)
  show ?case
    unfolding set_options.simps [of "prefixed w c" i so] set_options.simps [of c i so]
    using 1 by (auto simp: Let_def split: option.splits)
qed

lemma proper_rep_old: "proper (rep_old old)"
  by (cases old) (simp_all add: rep_old_def [abs_def] proper_leaves)

lemmas runs_strings = runs_rules proper_rep_old [THEN runs_proper]

lemma proper_set_store: "proper (set_store key v so old oe)"
  by (auto simp: proper_iff set_store_def intro!: runs_strings)

lemma proper_set_checked: "proper (set_checked key v so old)"
  by (auto simp: proper_iff set_checked_def split: ttl_result.splits intro!: runs_strings proper_set_store [THEN runs_proper])

lemma proper_set: "proper cmd_set"
  by (auto simp: proper_iff cmd_set_def split: sum.splits intro!: runs_strings proper_set_checked [THEN runs_proper])

lemma proper_get: "proper cmd_get" "proper cmd_setnx" "proper cmd_getset" "proper (set_with_ttl scale)" "proper cmd_strlen"
  "proper cmd_getrange"
  by (auto simp: proper_iff cmd_get_def cmd_setnx_def cmd_getset_def set_with_ttl_def cmd_strlen_def cmd_getrange_def
      split: option.splits intro!: runs_strings)

lemma proper_getex: "proper cmd_getex" "proper cmd_getdel"
  by (auto simp: proper_iff cmd_getex_def getex_option_def cmd_getdel_def Let_def split: option.splits intro!: runs_strings)

lemma proper_incr: "proper (incr_by d)" "proper (cmd_incrbyfloat fo)"
  by (auto simp: proper_iff incr_by_def incr_store_def cmd_incrbyfloat_def incr_float_store_def Let_def split: option.splits
      intro!: runs_strings)

lemma proper_incrby: "proper cmd_incrby" "proper cmd_decrby"
  by (auto simp: proper_iff cmd_incrby_def cmd_decrby_def split: option.splits
      intro!: runs_strings proper_incr [THEN runs_proper])

lemma proper_edits: "proper cmd_append" "proper cmd_setrange"
  by (auto simp: proper_iff cmd_append_def cmd_setrange_def edit_or_create_def split: option.splits intro!: runs_strings)

lemma proper_mget_loop: "proper (mget_loop ks)"
proof (induction ks)
  case (Cons key ks)
  then show ?case by (auto simp: proper_iff split: option.splits intro!: runs_strings)
qed (auto simp: proper_iff intro: runs_Some)

lemma proper_mget: "proper cmd_mget"
  by (auto simp: proper_iff cmd_mget_def rep_array_len_def [symmetric]
      intro!: runs_strings proper_mget_loop [THEN runs_proper])

lemma proper_mset_loop: "proper (mset_loop b kvs)"
  unfolding proper_iff
proof (intro allI impI)
  show "runs w conn (mset_loop b kvs c) (mset_loop b kvs (prefixed w c))" if "context_ok conn c" for w conn c
    using that by (induction b kvs c rule: mset_loop.induct) (auto intro!: runs_strings)
qed

lemma key_value_args_prefixed [simp]: "key_value_args (prefixed w c) = key_value_args c"
  by (simp add: key_value_args_def)

lemma proper_mset: "proper cmd_mset" "proper cmd_msetnx"
  by (auto simp: proper_iff cmd_mset_def cmd_msetnx_def intro!: runs_strings proper_mset_loop [THEN runs_proper])

lemma proper_strings: "(name, h, arity) \<in> set (string_commands fo) \<Longrightarrow> proper h"
  by (auto simp: string_commands_def cmd_setex_def cmd_psetex_def cmd_incr_def cmd_decr_def
      intro: proper_set proper_get proper_getex proper_incr proper_incrby proper_edits proper_mget proper_mset)

subsection \<open>Generic commands\<close>

lemma scan_options_prefixed [simp]: "scan_options (prefixed w c) i st = scan_options c i st"
proof (induction c i st rule: scan_options.induct)
  case (1 c i st)
  show ?case
    unfolding scan_options.simps [of "prefixed w c" i st] scan_options.simps [of c i st]
    using 1 by (auto simp: Let_def split: option.splits)
qed

lemma proper_server: "proper cmd_ping" "proper cmd_echo" "proper cmd_command" "proper cmd_info" "proper cmd_dbsize"
  "proper cmd_flushdb" "proper cmd_flushall" "proper cmd_client" "proper cmd_config"
  by (auto simp: proper_iff cmd_ping_def cmd_echo_def cmd_command_def cmd_info_def cmd_dbsize_def
      cmd_flushdb_def cmd_flushall_def cmd_client_def cmd_config_def Let_def intro!: runs_rules)

lemma proper_keyspace: "proper cmd_del" "proper cmd_exists" "proper cmd_type" "proper cmd_rename" "proper cmd_renamenx"
  "proper cmd_persist" "proper cmd_randomkey" "proper cmd_keys"
  by (auto simp: proper_iff cmd_del_def cmd_exists_def cmd_type_def cmd_rename_def cmd_renamenx_def cmd_persist_def
      cmd_randomkey_def cmd_keys_def split: option.splits intro!: runs_rules)

lemma proper_expiry: "proper (set_expire_relative m)" "proper (set_expire_absolute m)" "proper (rep_ttl u)"
  by (auto simp: proper_iff set_expire_relative_def set_expire_absolute_def expire_now_def rep_ttl_def
      split: option.splits ttl_result.splits intro!: runs_rules)

lemma proper_scan: "proper cmd_scan"
  by (auto simp: proper_iff cmd_scan_def split: option.splits prod.splits intro!: runs_rules)

lemma proper_hello: "proper cmd_hello"
  unfolding cmd_hello_def
  by (rule proper_rep) (simp add: sends_def hello_reply_def send_array_len_def send_integer_def send_bulk_string_def
      write_int_def Reply_Builder.extend_def)

lemma proper_generic:
  assumes "(name, h, arity, fk) \<in> set generic_commands" and "name \<noteq> ''SELECT''" and "name \<noteq> ''RESET''"
  shows "proper h"
proof -
  have "list_all (\<lambda>(name, h, _). name = ''SELECT'' \<or> name = ''RESET'' \<or> proper h) generic_commands"
    unfolding generic_commands_def list.pred_inject(2) prod.case
      cmd_expire_def cmd_pexpire_def cmd_expireat_def cmd_pexpireat_def cmd_ttl_def cmd_pttl_def
    by (simp add: proper_server proper_keyspace proper_expiry proper_scan proper_hello)
  then show ?thesis using assms by (auto simp: list_all_iff)
qed

subsection \<open>Lists, sets, hashes and sorted sets\<close>

lemma reads_prefixed [simp]:
  "int_or (prefixed w c) = int_or c" "pop_count (prefixed w c) = pop_count c" "str_int_or (prefixed w c) = str_int_or c"
  "zpop_count (prefixed w c) = zpop_count c" "score_bounds ft (prefixed w c) = score_bounds ft c"
  by (simp_all add: fun_eq_iff int_or_def pop_count_def str_int_or_def zpop_count_def score_bounds_def)

lemma proper_list_kit: "proper (rep_len n)" "proper (push_command push)" "proper (pop_command pop)"
  by (auto simp: proper_iff rep_len_def push_command_def pop_command_def split: option.splits intro!: runs_rules)

lemma proper_list_reads: "proper cmd_llen" "proper cmd_lrange" "proper cmd_lindex"
  by (auto simp: proper_iff cmd_llen_def cmd_lrange_def cmd_lindex_def rep_len_def split: option.splits intro!: runs_rules)

lemma proper_list_edits: "proper cmd_lset" "proper cmd_lrem" "proper cmd_ltrim" "proper cmd_linsert"
  by (auto simp: proper_iff cmd_lset_def cmd_lrem_def cmd_ltrim_def cmd_linsert_def split: option.splits intro!: runs_rules)

lemma proper_lists: "(name, h, arity) \<in> set list_commands \<Longrightarrow> proper h"
  by (auto simp: list_commands_def cmd_lpush_def cmd_rpush_def cmd_lpop_def cmd_rpop_def
      proper_list_kit proper_list_reads proper_list_edits)

lemma proper_set_edits: "proper cmd_sadd" "proper cmd_srem" "proper (cmd_spop ord)"
  by (auto simp: proper_iff cmd_sadd_def cmd_srem_def cmd_spop_def split: option.splits intro!: runs_rules)

lemma proper_set_reads: "proper (cmd_smembers ord)" "proper cmd_sismember" "proper cmd_smismember" "proper cmd_scard"
  "proper (cmd_srandmember ord)"
  by (auto simp: proper_iff cmd_smembers_def cmd_sismember_def cmd_smismember_def cmd_scard_def cmd_srandmember_def
      intro!: runs_rules)

lemma runs_gather_sets:
  assumes "context_ok conn c" and "\<And>ss c2. context_ok conn c2 \<Longrightarrow> runs w conn (k ss c2) (k' ss (prefixed w c2))"
  shows "runs w conn (gather_sets ks sets k c) (gather_sets ks sets k' (prefixed w c))"
  using assms
proof (induction ks arbitrary: sets c)
  case (Cons key ks)
  show ?case unfolding gather_sets.simps by (intro runs_read_value Cons.prems(1) Cons.IH Cons.prems(2)) assumption+
qed simp

lemma proper_set_op: "proper (set_op ord op)"
  unfolding proper_iff set_op_def args_prefixed
  by (auto intro!: runs_bind runs_gather_sets runs_rules simp: Let_def split: list.splits)

lemma proper_sets: "(name, h, arity) \<in> set (set_commands ord) \<Longrightarrow> proper h"
  by (auto simp: set_commands_def cmd_sinter_def cmd_sunion_def cmd_sdiff_def
      proper_set_edits proper_set_reads proper_set_op)

lemma proper_hset: "(\<And>n. proper (k n)) \<Longrightarrow> proper (hset_command name k)"
  by (auto simp: proper_iff hset_command_def intro!: runs_rules)

lemma proper_hash_edits: "proper cmd_hset" "proper cmd_hmset" "proper cmd_hsetnx" "proper cmd_hdel" "proper cmd_hincrby"
  "proper (cmd_hincrbyfloat ft)"
  by (auto simp: cmd_hset_def cmd_hmset_def intro!: proper_hset proper_leaves)
     (auto simp: proper_iff cmd_hsetnx_def cmd_hdel_def cmd_hincrby_def cmd_hincrbyfloat_def split: option.splits intro!: runs_rules)

lemma proper_hash_reads: "proper cmd_hget" "proper cmd_hexists" "proper (list_hash ord n sel)" "proper cmd_hlen" "proper cmd_hmget"
  by (auto simp: proper_iff cmd_hget_def cmd_hexists_def list_hash_def cmd_hlen_def cmd_hmget_def rep_len_def intro!: runs_rules)

lemma proper_hashes: "(name, h, arity) \<in> set (hash_commands ft ord) \<Longrightarrow> proper h"
  by (auto simp: hash_commands_def cmd_hgetall_def cmd_hkeys_def cmd_hvals_def proper_hash_edits proper_hash_reads)

lemma zadd_pairs_prefixed [simp]: "zadd_pairs ft (prefixed w c) js = zadd_pairs ft c js"
  by (induction js) (simp_all split: option.splits)

lemma proper_zset_edits: "proper (cmd_zadd ft)" "proper cmd_zrem" "proper (cmd_zincrby ft)" "proper (zpop_impl ft b)"
  by (auto simp: proper_iff cmd_zadd_def cmd_zrem_def cmd_zincrby_def zpop_impl_def split: option.splits intro!: runs_rules)

lemma proper_zset_reads: "proper (cmd_zscore ft)" "proper (cmd_zmscore ft)" "proper (zrank_impl b)" "proper (cmd_zrange ft)"
  "proper (cmd_zrangebyscore ft)" "proper (cmd_zcount ft)" "proper cmd_zcard"
  by (auto simp: proper_iff cmd_zscore_def cmd_zmscore_def zrank_impl_def cmd_zrange_def cmd_zrangebyscore_def cmd_zcount_def
      cmd_zcard_def rep_len_def Let_def split: option.splits intro!: runs_rules)

lemma proper_zsets: "(name, h, arity) \<in> set (zset_commands ft) \<Longrightarrow> proper h"
  by (auto simp: zset_commands_def cmd_zpopmin_def cmd_zpopmax_def cmd_zrank_def cmd_zrevrank_def
      proper_zset_edits proper_zset_reads)

subsection \<open>The whole registry\<close>

lemma registered_proper:
  assumes "build_command_registry rt name = Some e" and "name \<noteq> ''SELECT''" and "name \<noteq> ''RESET''"
  shows "proper (ce_handler e)"
proof -
  consider h a where "(name, h, a) \<in> set (zset_commands (rt_text rt))" "ce_handler e = h"
    | h a where "(name, h, a) \<in> set (hash_commands (rt_text rt) (rt_map rt))" "ce_handler e = h"
    | h a where "(name, h, a) \<in> set (set_commands (rt_set rt))" "ce_handler e = h"
    | h a where "(name, h, a) \<in> set list_commands" "ce_handler e = h"
    | h a where "(name, h, a) \<in> set (string_commands (rt_text rt))" "ce_handler e = h"
    | h a fk where "(name, h, a, fk) \<in> set generic_commands" "ce_handler e = h"
    using assms(1) unfolding build_command_registry_def register_zset_def register_hash_def register_set_def register_list_def
      register_string_def
    by (metis register_all_lookup register_generic_lookup option.distinct(1) registry_new_def)
  then show ?thesis
    using assms(2,3) by cases (auto intro: proper_zsets proper_hashes proper_sets proper_lists proper_strings proper_generic)
qed

text \<open>SELECT and RESET change the connection; the rest holds for them too.\<close>

definition uniform :: "handler \<Rightarrow> bool" where
  "uniform h \<longleftrightarrow> (\<forall>w c. ds_safe (slice c) \<longrightarrow>
     h (prefixed w c) = map_option (prefixed w) (h c) \<and> (\<forall>c'. h c = Some c' \<longrightarrow> ds_safe (slice c')))"

lemma uniformD:
  assumes "uniform h" and "ds_safe (slice c)"
  shows "h (prefixed w c) = map_option (prefixed w) (h c)" and "h c = Some c' \<Longrightarrow> ds_safe (slice c')"
  using assms unfolding uniform_def by blast+

lemma proper_uniform: "proper h \<Longrightarrow> uniform h"
  unfolding proper_def uniform_def runs_def by blast

lemma uniform_select: "uniform cmd_select" "uniform cmd_reset"
proof -
  have up: "(prefixed w c)\<lparr>cc_conn := x\<rparr> = prefixed w (c\<lparr>cc_conn := x\<rparr>)" "slice (c\<lparr>cc_conn := x\<rparr>) = slice c" for w c x
    by (simp_all add: prefixed_def slice_def)
  have r: "uniform (rep send_ok)" "uniform (rep_err m)" "uniform (rep_simple m)" for m
    by (intro proper_uniform proper_leaves)+
  show "uniform cmd_select"
    unfolding uniform_def
  proof (intro allI impI)
    fix w c assume s: "ds_safe (slice c)"
    show "cmd_select (prefixed w c) = map_option (prefixed w) (cmd_select c) \<and>
        (\<forall>c'. cmd_select c = Some c' \<longrightarrow> ds_safe (slice c'))"
      using uniformD [OF r(1), of "c\<lparr>cc_conn := x\<rparr>" for x] uniformD [OF r(2) s] s
      by (simp add: cmd_select_def up split: option.split)
  qed
  show "uniform cmd_reset"
    unfolding uniform_def
  proof (intro allI impI)
    fix w c assume s: "ds_safe (slice c)"
    show "cmd_reset (prefixed w c) = map_option (prefixed w) (cmd_reset c) \<and>
        (\<forall>c'. cmd_reset c = Some c' \<longrightarrow> ds_safe (slice c'))"
      using uniformD [OF r(3), of "c\<lparr>cc_conn := x\<rparr>" for x] s by (simp add: cmd_reset_def up)
  qed
qed

lemma select_reset_entries:
  "build_command_registry rt ''SELECT'' = Some (generic_entry (''SELECT'', cmd_select, 2, 0))"
  "build_command_registry rt ''RESET'' = Some (generic_entry (''RESET'', cmd_reset, 1, 0))"
  by (simp_all add: build_command_registry_def register_zset_def register_hash_def register_set_def register_list_def
      register_string_def register_generic_def register_all_def register_def registry_new_def generic_commands_def
      zset_commands_def hash_commands_def set_commands_def list_commands_def string_commands_def)

lemma registered_uniform:
  assumes "build_command_registry rt name = Some e"
  shows "uniform (ce_handler e)"
proof (cases "name = ''SELECT'' \<or> name = ''RESET''")
  case True
  then show ?thesis using assms uniform_select by (auto simp: select_reset_entries)
next
  case False
  then show ?thesis using registered_proper [OF assms] proper_uniform by blast
qed

subsection \<open>Dispatching with a non-empty reply buffer\<close>

lemma send_prefixed: "sends f \<Longrightarrow> f (rb_new fmt (w @ d)) = (f (rb_new fmt d))\<lparr>buf := w @ buf (f (rb_new fmt d))\<rparr>"
  by (auto simp: sends_def rb_new_def dest: spec [of _ "\<lparr>itoa = fmt, buf = d\<rparr>"])

definition with_prefix :: "bytes \<Rightarrow> bool \<times> conn_context \<times> engine_shard \<times> reply_builder \<Rightarrow> bool \<times> conn_context \<times> engine_shard \<times> reply_builder" where
  "with_prefix w r = (case r of (keep, conn, sh, rb) \<Rightarrow> (keep, conn, sh, rb\<lparr>buf := w @ buf rb\<rparr>))"

text \<open>A command is answered by the dispatcher itself or by one registered handler.\<close>

definition run_entry :: "command_entry \<Rightarrow> resp_expr list \<Rightarrow> conn_context \<Rightarrow> engine_shard \<Rightarrow> reply_builder
    \<Rightarrow> (bool \<times> conn_context \<times> engine_shard \<times> reply_builder) option" where
  "run_entry e as conn sh rb = map_option (\<lambda>c. (True, cc_conn c, cc_shard c, cc_reply c))
     (ce_handler e \<lparr>cc_args = as, cc_conn = conn, cc_shard = bump_commands sh, cc_reply = rb\<rparr>)"

lemma dispatch_cases:
  obtains keep f where "sends f" and "\<And>conn sh rb. dispatch lc reg as conn sh rb = Some (keep, conn, sh, f rb)"
  | a rest n u e where "as = a # rest" and "expr_as_bytes a = Some n" and "from_utf8 (ascii_upper n) = Some u" and "u \<noteq> ''QUIT''"
      and "reg u = Some e" and "\<And>conn sh rb. dispatch lc reg as conn sh rb = run_entry e as conn sh rb"
proof (cases "\<exists>a rest n u e. as = a # rest \<and> expr_as_bytes a = Some n \<and> from_utf8 (ascii_upper n) = Some u \<and> u \<noteq> ''QUIT''
    \<and> reg u = Some e \<and> arity_ok (ce_arity e) as")
  case True
  then obtain a rest n u e where h: "as = a # rest" "expr_as_bytes a = Some n" "from_utf8 (ascii_upper n) = Some u" "u \<noteq> ''QUIT''"
    "reg u = Some e" "arity_ok (ce_arity e) as" by blast
  then show thesis
    by (intro that(2) [of a rest n u e]) (simp_all add: dispatch_def run_entry_def map_option_case)
next
  case False
  have "(\<exists>m. \<forall>conn sh rb. dispatch lc reg as conn sh rb = Some (True, conn, sh, send_err rb m))
      \<or> (\<forall>conn sh rb. dispatch lc reg as conn sh rb = Some (False, conn, sh, send_ok rb))"
  proof (cases as)
    case (Cons a rest)
    show ?thesis
    proof (cases "expr_as_bytes a")
      case (Some n)
      show ?thesis
      proof (cases "from_utf8 (ascii_upper n)")
        case u: (Some u)
        show ?thesis
          using False Cons Some u by (cases "u = ''QUIT''"; cases "reg u") (auto simp: dispatch_def)
      qed (use Cons Some in \<open>auto simp: dispatch_def\<close>)
    qed (use Cons in \<open>auto simp: dispatch_def\<close>)
  qed (auto simp: dispatch_def)
  then show thesis using that(1) [OF sends_values(1)] that(1) [OF sends_values(5)] by blast
qed

lemma run_entry_uniform:
  assumes "build_command_registry rt u = Some e" and "ds_safe (shard_slice sh)"
  shows "run_entry e as conn sh (rb_new fmt (w @ d)) = map_option (with_prefix w) (run_entry e as conn sh (rb_new fmt d))"
    and "run_entry e as conn sh rb = Some (keep, conn', sh', rb') \<Longrightarrow> ds_safe (shard_slice sh')"
proof -
  define ctx where "ctx rb = \<lparr>cc_args = as, cc_conn = conn, cc_shard = bump_commands sh, cc_reply = rb\<rparr>" for rb
  have s: "ds_safe (slice (ctx rb))" for rb
    using assms(2) by (simp add: ctx_def slice_def bump_commands_def)
  note u = uniformD [OF registered_uniform [OF assms(1)] s]
  have "ctx (rb_new fmt (w @ d)) = prefixed w (ctx (rb_new fmt d))"
    by (simp add: ctx_def prefixed_def rb_new_def)
  then show "run_entry e as conn sh (rb_new fmt (w @ d)) = map_option (with_prefix w) (run_entry e as conn sh (rb_new fmt d))"
    using u(1) [of w "rb_new fmt d"]
    by (simp add: run_entry_def ctx_def [symmetric] option.map_comp o_def with_prefix_def) (simp add: prefixed_def)
  show "ds_safe (shard_slice sh')" if "run_entry e as conn sh rb = Some (keep, conn', sh', rb')"
    using that u(2) by (auto simp: run_entry_def ctx_def [symmetric] slice_def)
qed

lemma dispatch_uniform:
  assumes "ds_safe (shard_slice sh)"
  shows "dispatch lc (build_command_registry rt) as conn sh (rb_new fmt (w @ d))
      = map_option (with_prefix w) (dispatch lc (build_command_registry rt) as conn sh (rb_new fmt d))"
    and "dispatch lc (build_command_registry rt) as conn sh rb = Some (keep, conn', sh', rb')
      \<Longrightarrow> ds_safe (shard_slice sh')"
proof -
  show "dispatch lc (build_command_registry rt) as conn sh (rb_new fmt (w @ d))
      = map_option (with_prefix w) (dispatch lc (build_command_registry rt) as conn sh (rb_new fmt d))"
    by (rule dispatch_cases [of lc "build_command_registry rt" as])
       (simp_all add: send_prefixed with_prefix_def run_entry_uniform(1) [OF _ assms])
  show "ds_safe (shard_slice sh')"
    if "dispatch lc (build_command_registry rt) as conn sh rb = Some (keep, conn', sh', rb')"
    using that by (rule_tac dispatch_cases [of lc "build_command_registry rt" as])
      (use assms run_entry_uniform(2) in \<open>auto\<close>)
qed

lemma run_entry_keeps_conn:
  assumes "run_entry e as conn sh rb = Some (keep, conn', sh', rb')" and "u \<noteq> ''SELECT''" and "u \<noteq> ''RESET''"
    and "build_command_registry rt u = Some e" and "ds_safe (shard_slice sh)"
  shows "conn' = conn"
proof -
  let ?ctx = "\<lparr>cc_args = as, cc_conn = conn, cc_shard = bump_commands sh, cc_reply = rb\<rparr>"
  have s: "ds_safe (slice ?ctx)" using assms(5) by (simp add: slice_def bump_commands_def)
  obtain c where c: "ce_handler e ?ctx = Some c" "conn' = cc_conn c" using assms(1) by (auto simp: run_entry_def)
  have "runs [] (cc_conn ?ctx) (ce_handler e ?ctx) (ce_handler e (prefixed [] ?ctx))"
    using registered_proper [OF assms(4,2,3)] s unfolding proper_def by blast
  then show ?thesis using c by (simp add: runs_def)
qed

end
