(* ===== verification/System.thy ===== *)
theory System
  imports Persistence Handler_Rules
begin

text \<open>
  The cluster as a transition system. Its steps are what one shard thread does without giving up
  control (\<^verbatim>\<open>shard_thread.rs\<close>): a command on its own data, for a connection of its own or for another
  shard, a control message, and the two timers. A command of a connection is a sequence of such
  steps, between which the steps of other connections may come; the invariant holds for every
  interleaving. A second result is that it does not matter to a client on which shard its connection
  lives.
\<close>

subsection \<open>Steps of shard threads\<close>

definition put_shard :: "nat \<Rightarrow> engine_shard option \<Rightarrow> cluster \<Rightarrow> cluster" where
  "put_shard i sh cl = cl\<lparr>cl_shards := (cl_shards cl)[i := sh], cl_reads := Suc (cl_reads cl)\<rparr>"

inductive shard_step :: "server \<Rightarrow> cluster \<Rightarrow> cluster \<Rightarrow> bool" for sv where
  task: "exec_task sv i args conn data cl = Some (r, cl') \<Longrightarrow> shard_step sv cl cl'"
| control: "i < length (cl_shards cl) \<Longrightarrow> handle_control sv i ctrl cl = (r, cl') \<Longrightarrow> shard_step sv cl cl'"
| time_tick: "i < length (cl_shards cl) \<Longrightarrow> cl_shards cl ! i = Some sh
    \<Longrightarrow> shard_step sv cl (put_shard i (Some (engine_shard_update_time sh (sv_clock sv (cl_reads cl)))) cl)"
| expiry_tick: "i < length (cl_shards cl) \<Longrightarrow> cl_shards cl ! i = Some sh
    \<Longrightarrow> expiry_tick (sv_clock sv (cl_reads cl)) sh = Some sh' \<Longrightarrow> shard_step sv cl (put_shard i (Some sh') cl)"

inductive_cases shard_stepE: "shard_step sv cl cl'"

text \<open>Systems given by initial states and steps, and what holds in all their reachable states.\<close>

locale transition_system =
  fixes init :: "'s \<Rightarrow> bool" and step :: "'s \<Rightarrow> 's \<Rightarrow> bool"
begin

definition reachable :: "'s \<Rightarrow> bool" where
  "reachable s \<longleftrightarrow> (\<exists>s0. init s0 \<and> step\<^sup>*\<^sup>* s0 s)"

lemma run_keeps:
  assumes "step\<^sup>*\<^sup>* s s'" and "P s" and "\<And>s s'. P s \<Longrightarrow> step s s' \<Longrightarrow> P s'"
  shows "P s'"
  using assms(1,2) by (induction rule: rtranclp_induct) (blast intro: assms(3))+

lemma invariant:
  assumes "reachable s" and "\<And>s. init s \<Longrightarrow> P s" and "\<And>s s'. P s \<Longrightarrow> step s s' \<Longrightarrow> P s'"
  shows "P s"
  using assms run_keeps [where P = P] unfolding reachable_def by blast

lemma reachable_run: "reachable s \<Longrightarrow> step\<^sup>*\<^sup>* s s' \<Longrightarrow> reachable s'"
  unfolding reachable_def by (blast intro: rtranclp_trans)

end

text \<open>A server starts with fresh shards or with the contents of a file.\<close>

definition server_init :: "server \<Rightarrow> cluster \<Rightarrow> bool" where
  "server_init sv cl \<longleftrightarrow> (\<exists>hs fs. start_up sv hs fs = Some cl)"

interpretation cluster_system: transition_system "server_init sv" "shard_step sv" for sv .

subsection \<open>The tables of running shards are safe\<close>

definition cluster_safe :: "cluster \<Rightarrow> bool" where
  "cluster_safe cl \<longleftrightarrow> (\<forall>i sh. i < length (cl_shards cl) \<longrightarrow> cl_shards cl ! i = Some sh \<longrightarrow> ds_safe (shard_slice sh))"

lemma cluster_safeD: "cluster_safe cl \<Longrightarrow> i < length (cl_shards cl) \<Longrightarrow> cl_shards cl ! i = Some sh \<Longrightarrow> ds_safe (shard_slice sh)"
  by (simp add: cluster_safe_def)

lemma cluster_safe_put:
  assumes "cluster_safe cl" and "cl_shards cl' = (cl_shards cl)[i := x]" and "\<And>sh. x = Some sh \<Longrightarrow> ds_safe (shard_slice sh)"
  shows "cluster_safe cl'"
  using assms by (auto simp: cluster_safe_def nth_list_update_if split: if_splits)

lemma put_shard_safe: "cluster_safe cl \<Longrightarrow> ds_safe (shard_slice sh) \<Longrightarrow> cluster_safe (put_shard i (Some sh) cl)"
  by (rule cluster_safe_put [of cl _ i "Some sh"]) (simp_all add: put_shard_def)

lemma shard_time_safe [simp]: "ds_safe (shard_slice (engine_shard_update_time sh t)) \<longleftrightarrow> ds_safe (shard_slice sh)"
  by (simp add: engine_shard_update_time_def)

lemma safe_snd: "safe_op f \<Longrightarrow> ds_safe ds \<Longrightarrow> map_option snd (f ds) = Some ds' \<Longrightarrow> ds_safe ds'"
  by (auto dest: safe_opD)

lemma load_one_safe:
  assumes "ds_safe ds" and "load_one now e ds = Some ds'"
  shows "ds_safe ds'"
proof -
  note add = safe_opD [OF safe_slice_ops(3)] and exp = safe_opD [OF safe_slice_ops(6)]
  show ?thesis
    using assms by (auto simp: load_one_def bind_eq_Some_conv split: option.splits if_splits dest: add exp)
qed

lemma load_each_safe: "ds_safe ds \<Longrightarrow> load_each now es ds = Some ds' \<Longrightarrow> ds_safe ds'"
  by (induction es arbitrary: ds) (auto simp: bind_eq_Some_conv dest: load_one_safe)

lemma load_entries_safe: "ds_safe (shard_slice sh) \<Longrightarrow> load_entries now es sh = Some sh' \<Longrightarrow> ds_safe (shard_slice sh')"
  by (auto simp: load_entries_def Let_def intro: load_each_safe [rotated])

lemma sweep_dbs_safe: "ds_safe ds \<Longrightarrow> sweep_dbs is ds = Some ds' \<Longrightarrow> ds_safe ds'"
proof (induction "is" arbitrary: ds)
  case (Cons i js)
  obtain ds1 where 1: "sweep_db ds i = Some ds1" "sweep_dbs js ds1 = Some ds'"
    using Cons.prems(2) by (auto simp: bind_eq_Some_conv)
  have "ds_safe ds1"
    using 1(1) Cons.prems(1) safe_opD [OF safe_slice_ops(12)] by (auto simp: sweep_db_def split: option.splits if_splits)
  then show ?case using Cons.IH 1(2) by blast
qed simp

lemma expiry_tick_safe: "ds_safe (shard_slice sh) \<Longrightarrow> expiry_tick now sh = Some sh' \<Longrightarrow> ds_safe (shard_slice sh')"
  by (auto simp: expiry_tick_def Let_def intro: sweep_dbs_safe [rotated])

lemma exec_task_safe:
  assumes "server_ok sv" and "cluster_safe cl" and "exec_task sv i args conn data cl = Some (r, cl')"
  shows "cluster_safe cl'"
proof (cases "i < length (cl_shards cl) \<and> (\<exists>sh. cl_shards cl ! i = Some sh)")
  case True
  then obtain sh where sh: "i < length (cl_shards cl)" "cl_shards cl ! i = Some sh" by blast
  have reg: "sv_registry sv = build_command_registry (sv_rt sv)" using assms(1) by (simp add: server_ok_def)
  let ?d = "dispatch (rt_lower (sv_rt sv)) (build_command_registry (sv_rt sv)) args conn
      (engine_shard_update_time sh (sv_clock sv (cl_reads cl))) (rb_new (sv_itoa sv) data)"
  have s: "ds_safe (shard_slice sh')" if "?d = Some (keep, conn', sh', rb)" for keep conn' sh' rb
    using dispatch_uniform(2) [OF _ that] cluster_safeD [OF assms(2) sh] by simp
  have "cl_shards cl' = (cl_shards cl)[i := map_option (\<lambda>(keep, conn', sh', rb). sh') ?d]"
    using assms(3) sh by (auto simp: exec_task_def reg Let_def split: option.splits)
  then show ?thesis by (rule cluster_safe_put [OF assms(2)]) (auto dest: s)
next
  case False
  then show ?thesis using assms(2,3) by (auto simp: exec_task_def split: if_splits option.splits)
qed

lemma handle_control_safe:
  assumes "cluster_safe cl" and "handle_control sv i ctrl cl = (r, cl')" and "i < length (cl_shards cl)"
  shows "cluster_safe cl'"
proof (cases "cl_shards cl ! i")
  case (Some sh)
  have s: "ds_safe (shard_slice sh)" using cluster_safeD [OF assms(1,3) Some] .
  show ?thesis
  proof (cases ctrl)
    case Take_Snapshot
    then show ?thesis
      using assms(1,2) Some cluster_safe_put [OF assms(1), of cl' i None]
      by (auto simp: handle_control_def split: option.splits)
  next
    case (Load es)
    then have "cl_shards cl' = (cl_shards cl)[i := load_entries (sv_clock sv (cl_reads cl)) es sh]"
      using assms(2) Some by (auto simp: handle_control_def)
    then show ?thesis by (rule cluster_safe_put [OF assms(1)]) (rule load_entries_safe [OF s])
  qed
qed (use assms(1,2) in \<open>simp add: handle_control_def\<close>)

lemma shard_step_safe:
  assumes "server_ok sv" and "cluster_safe cl" and "shard_step sv cl cl'"
  shows "cluster_safe cl'"
  using assms(3)
proof cases
  case (task i args conn data r)
  then show ?thesis using exec_task_safe [OF assms(1,2)] by blast
next
  case (control i ctrl r)
  then show ?thesis using handle_control_safe [OF assms(2)] by blast
next
  case (time_tick i sh)
  then show ?thesis using put_shard_safe [OF assms(2)] cluster_safeD [OF assms(2)] by simp
next
  case (expiry_tick i sh sh')
  then show ?thesis using put_shard_safe [OF assms(2) expiry_tick_safe [OF cluster_safeD [OF assms(2)]]] by simp
qed

subsection \<open>Commands and control operations are sequences of steps\<close>

named_theorems steps \<open>operations of the cluster as sequences of shard steps\<close>

abbreviation shard_steps :: "server \<Rightarrow> cluster \<Rightarrow> cluster \<Rightarrow> bool" where
  "shard_steps sv \<equiv> (shard_step sv)\<^sup>*\<^sup>*"

lemma exec_task_steps [steps]: "exec_task sv i args conn data cl = Some (r, cl') \<Longrightarrow> shard_steps sv cl cl'"
  by (blast intro: shard_step.task)

lemma exec_local_steps [steps]: "exec_local sv i args conn data cl = Some (conn', data', cl') \<Longrightarrow> shard_steps sv cl cl'"
  by (auto simp: exec_local_def intro: exec_task_steps split: option.splits)

lemma exec_remote_steps [steps]: "exec_remote sv t args db cl = Some (r, cl') \<Longrightarrow> shard_steps sv cl cl'"
  by (auto simp: exec_remote_def intro: exec_task_steps)

lemma route_steps [steps]: "route sv self t args conn data cl = Some (conn', data', cl') \<Longrightarrow> shard_steps sv cl cl'"
  by (auto simp: route_def dispatch_remote_def intro: exec_local_steps exec_remote_steps split: if_splits)

lemma fan_out_steps [steps]: "fan_out sv mk db merge g acc cl = Some (acc', cl') \<Longrightarrow> shard_steps sv cl cl'"
proof (induction g arbitrary: acc cl)
  case (Cons sg g)
  then show ?case
    by (cases sg) (auto split: option.splits intro: rtranclp_trans [OF exec_remote_steps])
qed simp

lemma run_groups_steps [steps]:
  assumes "run_groups sv self mk merge g conn acc cl = Some (acc', conn', cl')"
  shows "shard_steps sv cl cl'"
  using assms
  by (auto simp: run_groups_def split: option.splits intro: fan_out_steps rtranclp_trans [OF exec_local_steps fan_out_steps])

lemma collect_remote_steps [steps]: "collect_remote sv args db sids cl = Some (ds, cl') \<Longrightarrow> shard_steps sv cl cl'"
proof (induction sids arbitrary: ds cl)
  case (Cons sid sids)
  then show ?case by (auto split: option.splits intro: rtranclp_trans [OF exec_remote_steps])
qed simp

lemma dispatch_known_steps [steps]:
  assumes "dispatch_known sv self args cmd e conn data cl = Some (conn', data', cl')"
  shows "shard_steps sv cl cl'"
proof (cases "classify_command cmd e")
  case NoKeys
  then show ?thesis using assms by (auto simp: dispatch_known_def intro: steps)
next
  case SingleKey
  then show ?thesis using assms by (auto simp: dispatch_known_def bind_eq_Some_conv intro: steps split: if_splits)
next
  case MultiKeySameHandler
  then show ?thesis
    using assms by (auto simp: dispatch_known_def dispatch_multi_key_sum_def bind_eq_Some_conv intro: steps split: list.splits)
next
  case MGet
  then show ?thesis
    using assms by (auto simp: dispatch_known_def dispatch_mget_def Let_def bind_eq_Some_conv intro: steps)
next
  case MSet
  then show ?thesis
    using assms by (auto simp: dispatch_known_def dispatch_mset_def bind_eq_Some_conv intro: steps split: if_splits option.splits)
next
  case Rename
  then show ?thesis using assms by (auto simp: dispatch_known_def bind_eq_Some_conv intro: steps split: if_splits)
next
  case Global
  then show ?thesis
    using assms
    by (auto simp: dispatch_known_def dispatch_global_def split: option.splits if_splits
        intro: steps rtranclp_trans [OF exec_local_steps collect_remote_steps])
qed

lemma dispatch_command_steps:
  assumes "dispatch_command sv self args conn data cl = Some (keep, conn', data', cl')"
  shows "shard_steps sv cl cl'"
  using assms
  by (auto simp: dispatch_command_def still_open_def Let_def intro: dispatch_known_steps
      split: list.splits option.splits if_splits prod.splits)

lemma handle_control_steps: "i < length (cl_shards cl) \<Longrightarrow> handle_control sv i ctrl cl = (r, cl') \<Longrightarrow> shard_steps sv cl cl'"
  by (blast intro: shard_step.control)

lemma handle_control_length: "handle_control sv i ctrl cl = (r, cl') \<Longrightarrow> length (cl_shards cl') = length (cl_shards cl)"
  by (auto simp: handle_control_def split: option.splits shard_control.splits)

lemma snapshot_each_steps:
  "snapshot_each sv js cl = (rs, cl') \<Longrightarrow> \<forall>j \<in> set js. j < length (cl_shards cl) \<Longrightarrow> shard_steps sv cl cl'"
proof (induction js arbitrary: rs cl)
  case (Cons j js)
  obtain r cl1 where 1: "handle_control sv j Take_Snapshot cl = (r, cl1)" by fastforce
  obtain rs2 where 2: "snapshot_each sv js cl1 = (rs2, cl')" using Cons.prems(1) 1 by (auto split: prod.splits)
  have "shard_steps sv cl1 cl'" using Cons.IH [OF 2] Cons.prems(2) handle_control_length [OF 1] by simp
  then show ?case using handle_control_steps [OF _ 1] Cons.prems(2) by simp
qed simp

lemma handle_save_steps: "handle_save sv cmd io_text fs cl = (data, fs', cl') \<Longrightarrow> shard_steps sv cl cl'"
  using snapshot_each_steps [of sv "[0..<length (cl_shards cl)]" cl]
  by (auto simp: handle_save_def do_save_def collect_snapshots_def Let_def split: prod.splits option.splits if_splits sum.splits)

lemma send_groups_steps:
  "i + length gs \<le> length (cl_shards cl) \<Longrightarrow> shard_steps sv cl (send_groups sv i gs cl)"
proof (induction gs arbitrary: i cl)
  case (Cons g gs)
  obtain r cl1 where 1: "handle_control sv i (Load g) cl = (r, cl1)" by fastforce
  have "shard_steps sv cl cl1" using handle_control_steps [OF _ 1] Cons.prems by simp
  moreover have "shard_steps sv cl1 (send_groups sv (Suc i) gs cl1)" "shard_steps sv cl (send_groups sv (Suc i) gs cl)"
    using Cons.IH [of "Suc i"] Cons.prems handle_control_length [OF 1] by simp_all
  ultimately show ?case using 1 by (auto intro: rtranclp_trans)
qed simp

lemma distribute_length: "distribute n es gs = Some gs' \<Longrightarrow> length gs' = length gs"
  by (induction es arbitrary: gs) (auto split: option.splits if_splits)

lemma start_up_steps: "start_up sv hs fs = Some cl \<Longrightarrow> shard_steps sv (engine_shard_set_new sv hs) cl"
  using distribute_length [of "sv_shards sv" _ "replicate (unat (sv_shards sv)) []"]
    send_groups_steps [of 0 _ "engine_shard_set_new sv hs" sv]
  by (fastforce simp: start_up_def engine_load_entries_def engine_shard_set_new_def Let_def
      split: if_splits option.splits load_result.splits)

subsection \<open>Reachable clusters\<close>

lemma shard_step_length: "shard_step sv cl cl' \<Longrightarrow> length (cl_shards cl') = length (cl_shards cl)"
  by (erule shard_stepE) (auto simp: put_shard_def dest: exec_task_frame handle_control_length)

lemma fresh_cluster_safe: "cluster_safe (engine_shard_set_new sv hs)"
  by (auto simp: cluster_safe_def engine_shard_set_new_def engine_shard_new_def ds_safe_new)

lemma start_up_inv:
  assumes "server_ok sv" and "server_init sv cl"
  shows "cluster_safe cl \<and> length (cl_shards cl) = unat (sv_shards sv)"
proof -
  obtain hs fs where s: "start_up sv hs fs = Some cl" using assms(2) by (auto simp: server_init_def)
  show ?thesis
    by (rule cluster_system.run_keeps [OF start_up_steps [OF s]])
       (use fresh_cluster_safe shard_step_safe [OF assms(1)] shard_step_length in \<open>auto simp: engine_shard_set_new_def\<close>)
qed

lemma reachable_inv:
  assumes "server_ok sv" and "cluster_system.reachable sv cl"
  shows "cluster_safe cl \<and> length (cl_shards cl) = unat (sv_shards sv)"
  by (rule cluster_system.invariant [OF assms(2)])
     (use start_up_inv [OF assms(1)] shard_step_safe [OF assms(1)] shard_step_length in auto)

subsection \<open>Where a connection lives does not matter\<close>

lemma exec_task_prefix:
  assumes "server_ok sv" and "cluster_safe cl"
  shows "exec_task sv i args conn (w @ d) cl
    = map_option (\<lambda>(r, cl'). (map_option (\<lambda>(c, d'). (c, w @ d')) r, cl')) (exec_task sv i args conn d cl)"
proof (cases "i < length (cl_shards cl) \<and> (\<exists>sh. cl_shards cl ! i = Some sh)")
  case True
  then obtain sh where sh: "i < length (cl_shards cl)" "cl_shards cl ! i = Some sh" by blast
  have reg: "sv_registry sv = build_command_registry (sv_rt sv)" using assms(1) by (simp add: server_ok_def)
  define sh1 where "sh1 = engine_shard_update_time sh (sv_clock sv (cl_reads cl))"
  have "ds_safe (shard_slice sh1)" using cluster_safeD [OF assms(2) sh] by (simp add: sh1_def)
  note u = dispatch_uniform(1) [OF this, of "rt_lower (sv_rt sv)" "sv_rt sv" args conn "sv_itoa sv" w d]
  show ?thesis
    using sh by (simp add: exec_task_def Let_def reg u sh1_def [symmetric] with_prefix_def split: option.split)
qed (auto simp: exec_task_def)

definition keeps_connection :: "server \<Rightarrow> resp_expr list \<Rightarrow> bool" where
  "keeps_connection sv args \<longleftrightarrow>
     (\<forall>b rest u. args = R_String b # rest \<longrightarrow> from_utf8 (ascii_upper b) = Some u \<longrightarrow> u \<noteq> ''SELECT'' \<and> u \<noteq> ''RESET'')"

lemma exec_task_conn:
  assumes "server_ok sv" and "cluster_safe cl" and "keeps_connection sv args"
    and "exec_task sv i args conn d cl = Some (Some (conn', d'), cl')"
  shows "conn' = conn"
proof -
  have reg: "sv_registry sv = build_command_registry (sv_rt sv)" using assms(1) by (simp add: server_ok_def)
  obtain sh keep sh' rb where sh: "i < length (cl_shards cl)" "cl_shards cl ! i = Some sh"
    and d: "dispatch (rt_lower (sv_rt sv)) (build_command_registry (sv_rt sv)) args conn
      (engine_shard_update_time sh (sv_clock sv (cl_reads cl))) (rb_new (sv_itoa sv) d) = Some (keep, conn', sh', rb)"
    using assms(4) by (auto simp: exec_task_def Let_def reg split: if_splits option.splits)
  have s: "ds_safe (shard_slice (engine_shard_update_time sh t))" for t using cluster_safeD [OF assms(2) sh] by simp
  show ?thesis
  proof (rule dispatch_cases [of "rt_lower (sv_rt sv)" "build_command_registry (sv_rt sv)" args])
    fix a rest n u e
    assume a: "args = a # rest" "expr_as_bytes a = Some n" "from_utf8 (ascii_upper n) = Some u"
      "build_command_registry (sv_rt sv) u = Some e"
      and r: "\<And>conn sh rb. dispatch (rt_lower (sv_rt sv)) (build_command_registry (sv_rt sv)) args conn sh rb = run_entry e args conn sh rb"
    have "a = R_String n" using a(2) by (cases a) simp_all
    then have "u \<noteq> ''SELECT''" "u \<noteq> ''RESET''" using assms(3) a by (auto simp: keeps_connection_def)
    then show "conn' = conn" using run_entry_keeps_conn [OF d [unfolded r] _ _ a(4) s] by simp
  qed (use d in simp)
qed

lemma exec_task_data:
  assumes "server_ok sv" and "cluster_safe cl"
  shows "exec_task sv i args conn data cl
    = map_option (\<lambda>(r, cl'). (map_option (\<lambda>(c, d). (c, data @ d)) r, cl')) (exec_task sv i args conn [] cl)"
  using exec_task_prefix [OF assms, of i args conn data "[]"] by simp

lemma route_remote:
  assumes "t \<noteq> self"
  shows "route sv self t args conn data cl = map_option (\<lambda>(r, cl').
     (conn, case r of Some (_, d) \<Rightarrow> data @ d | None \<Rightarrow> reply_on sv data (\<lambda>rb. send_err rb ''shard unavailable''), cl'))
     (exec_task sv (unat t) args conn [] cl)"
proof -
  have eq: "\<lparr>conn_db = conn_db conn\<rparr> = conn" by simp
  show ?thesis
    using assms unfolding route_def dispatch_remote_def exec_remote_def eq
    by (cases "exec_task sv (unat t) args conn [] cl") (auto split: option.split)
qed

lemma route_done:
  assumes "server_ok sv" and "cluster_safe cl" and "keeps_connection sv args"
    and "exec_task sv (unat t) args conn data cl = Some (Some (conn', data'), cl')"
  shows "route sv self t args conn data cl = Some (conn', data', cl')"
proof (cases "t = self")
  case False
  have c: "conn' = conn" by (rule exec_task_conn [OF assms])
  obtain d' where d: "exec_task sv (unat t) args conn [] cl = Some (Some (conn', d'), cl')" "data' = data @ d'"
    using assms(4) [unfolded exec_task_data [OF assms(1,2), of _ _ _ data]] by auto
  then show ?thesis using False c by (simp add: route_remote)
qed (use assms(4) in \<open>simp add: route_def exec_local_def\<close>)

lemma route_executed:
  assumes "server_ok sv" and "cluster_safe cl" and "keeps_connection sv args"
    and "route sv self t args conn data cl = Some (conn', data', cl')" and "None \<notin> set (cl_shards cl')"
  shows "exec_task sv (unat t) args conn data cl = Some (Some (conn', data'), cl')"
proof (cases "t = self")
  case False
  obtain r where r: "exec_task sv (unat t) args conn [] cl = Some (r, cl')" "conn' = conn"
    "data' = (case r of Some (_, d) \<Rightarrow> data @ d | None \<Rightarrow> reply_on sv data (\<lambda>rb. send_err rb ''shard unavailable''))"
    using assms(4) unfolding route_remote [OF False] by auto
  have "r \<noteq> None"
  proof
    assume "r = None"
    then have "unat t < length (cl_shards cl') \<and> cl_shards cl' ! unat t = None"
      using r(1) by (auto simp: exec_task_def Let_def split: if_splits option.splits)
    then show False using assms(5) by (metis nth_mem)
  qed
  then obtain c d where rd: "r = Some (c, d)" by auto
  have "c = conn" using exec_task_conn [OF assms(1-3)] r(1) rd by simp
  then show ?thesis
    using r rd unfolding exec_task_data [OF assms(1,2), of _ _ _ data] by simp
qed (use assms(4) in \<open>auto simp: route_def exec_local_def split: option.splits\<close>)

lemma route_anywhere:
  assumes "server_ok sv" and "cluster_safe cl" and "keeps_connection sv args"
    and "route sv self t args conn data cl = Some (conn', data', cl')" and "None \<notin> set (cl_shards cl')"
  shows "route sv self' t args conn data cl = Some (conn', data', cl')"
  by (rule route_done [OF assms(1-3) route_executed [OF assms]])

text \<open>The commands that are executed as a whole on one shard.\<close>

definition one_shard_command :: "bytes \<Rightarrow> command_entry \<Rightarrow> bool" where
  "one_shard_command u e \<longleftrightarrow>
     classify_command u e = SingleKey \<or> classify_command u e = Rename \<or> classify_command u e = MSet \<and> u = ''MSETNX''"

lemma one_shard_cases:
  assumes "one_shard_command u e"
  obtains r where "\<And>self. dispatch_known sv self args u e conn data cl = r"
  | t where "\<And>self. dispatch_known sv self args u e conn data cl = route sv self t args conn data cl"
proof -
  have "(\<exists>r. \<forall>self. dispatch_known sv self args u e conn data cl = r)
      \<or> (\<exists>t. \<forall>self. dispatch_known sv self args u e conn data cl = route sv self t args conn data cl)"
    using assms unfolding one_shard_command_def
  proof (elim disjE conjE)
    assume "classify_command u e = SingleKey"
    then show ?thesis
      by (cases "shard_of sv (args ! unat (ce_first_key e))") (auto simp: dispatch_known_def)
  next
    assume "classify_command u e = Rename"
    then show ?thesis
      by (cases "shard_of sv (args ! 1)"; cases "shard_of sv (args ! 2)") (auto simp: dispatch_known_def)
  next
    assume "classify_command u e = MSet" "u = ''MSETNX''"
    then have eq: "dispatch_known sv self args u e conn data cl = dispatch_mset sv self args ''MSETNX'' conn data cl" for self
      by (simp add: dispatch_known_def)
    show ?thesis
    proof (cases "(length args - 1) mod 2 \<noteq> 0")
      case False
      let ?x = "common_shard sv (map fst (pairs_of (drop 1 args))) None"
      consider "?x = None" | "?x = Some None" | "?x = Some (Some None)" | t where "?x = Some (Some (Some t))"
        by (metis option.exhaust)
      then show ?thesis unfolding eq by cases (use False in \<open>auto simp: dispatch_mset_def\<close>)
    qed (auto simp: eq dispatch_mset_def)
  qed
  then show thesis using that by blast
qed

lemma one_shard_keeps_connection:
  assumes "server_ok sv" and "sv_registry sv u = Some e" and "one_shard_command u e"
    and "args = R_String b # rest" and "from_utf8 (ascii_upper b) = Some u"
  shows "keeps_connection sv args"
proof -
  have "classify_command ''SELECT'' e = NoKeys" if "u = ''SELECT''"
    using assms(1,2) that by (auto simp: server_ok_def select_reset_entries classify_command_def)
  moreover have "classify_command ''RESET'' e = NoKeys" if "u = ''RESET''"
    using assms(1,2) that by (auto simp: server_ok_def select_reset_entries classify_command_def)
  ultimately have "u \<noteq> ''SELECT''" "u \<noteq> ''RESET''" using assms(3) by (auto simp: one_shard_command_def)
  then show ?thesis using assms(4,5) by (simp add: keeps_connection_def)
qed

subsection \<open>Properties\<close>

text \<open>C10: whatever the connections of all shards send, whatever control messages and timers come and in
  whatever order the shards take their steps, from a start with or without a file: the number of
  shards stays, every running shard has its sixteen databases, and every table of keys or deadlines is
  memory safe (each entry in a slot of its own, under its fingerprint, in the segment of its hash, and
  counted once).\<close>

theorem reachable_tables_safe:
  assumes "server_ok sv" and "start_up sv hs fs = Some cl0" and "(shard_step sv)\<^sup>*\<^sup>* cl0 cl"
    and "i < length (cl_shards cl)" and "cl_shards cl ! i = Some sh"
  shows "length (cl_shards cl) = unat (sv_shards sv) \<and> length (dbs (shard_slice sh)) = NUM_DBS
    \<and> (\<forall>db \<in> set (dbs (shard_slice sh)). tbl_safe (prime db) \<and> tbl_safe (expire db))"
proof -
  have "cluster_system.reachable sv cl"
    using assms(2,3) by (auto simp: cluster_system.reachable_def server_init_def)
  from reachable_inv [OF assms(1) this] cluster_safeD [OF _ assms(4,5)] show ?thesis
    by (simp add: ds_safe_def db_safe_def)
qed

theorem reachable_tables_safe_witness:
  "\<exists>cl. (shard_step demo_server)\<^sup>*\<^sup>* (engine_shard_set_new demo_server (\<lambda>_ _ _. 0)) cl \<and> cl_reads cl = 3 \<and> length (cl_shards cl) = 2"
proof -
  let ?cl0 = "engine_shard_set_new demo_server (\<lambda>_ _ _. 0)"
  have s: "start_up demo_server (\<lambda>_ _ _. 0) demo_fs = Some ?cl0" by (simp add: start_up_def demo_fs_def)
  obtain sh where sh: "1 < length (cl_shards ?cl0)" "cl_shards ?cl0 ! 1 = Some sh"
    by (simp add: engine_shard_set_new_def demo_server_def)
  note st = shard_step.time_tick [OF sh, of demo_server]
  have "length (cl_shards (put_shard 1 (Some (engine_shard_update_time sh (sv_clock demo_server (cl_reads ?cl0)))) ?cl0))
      = unat (sv_shards demo_server)"
    using reachable_tables_safe [OF demo_server_ok s r_into_rtranclp [of "shard_step demo_server", OF st], of 1] sh
    by (simp add: put_shard_def)
  then show ?thesis
    by (intro exI [of _ "put_shard 1 (Some (engine_shard_update_time sh (sv_clock demo_server (cl_reads ?cl0)))) ?cl0"]
        conjI r_into_rtranclp [of "shard_step demo_server", OF st]) (simp_all add: put_shard_def engine_shard_set_new_def demo_server_def)
qed

text \<open>a command of a connection, whatever its class and however many shards take part, is a sequence of
  steps of single shards, so it keeps every invariant of the interleaved system.\<close>

theorem command_is_steps:
  assumes "dispatch_command sv self args conn data cl = Some (keep, conn', data', cl')"
  shows "(shard_step sv)\<^sup>*\<^sup>* cl cl'"
  using dispatch_command_steps [OF assms] .

theorem command_is_steps_witness:
  "\<exists>cl'. (shard_step demo_server)\<^sup>*\<^sup>* demo_cluster cl' \<and> cl_shards cl' = [None, Some (engine_shard_new (\<lambda>_ _. 0))]"
proof -
  obtain cl' where r: "dispatch_command demo_server 1 [R_String ''GET'', R_Nil] conn_context_new [] demo_cluster
      = Some (True, conn_context_new, [] @ ''-ERR shard unavailable'' @ CRLF, cl')"
    "cl_shards cl' = [None, Some (engine_shard_new (\<lambda>_ _. 0))]"
    using null_key_run [OF demo_server_ok, of 1 demo_cluster "engine_shard_new (\<lambda>_ _. 0)"
        "[Some (engine_shard_new (\<lambda>_ _. 0))]" conn_context_new "[]"]
    by (auto simp: demo_server_def demo_cluster_def numeral_2_eq_2)
  then show ?thesis using command_is_steps [OF r(1)] by blast
qed

text \<open>C14: a command that one shard executes (one key, RENAME, MSETNX) has the same reply and the same effect
  on the cluster from a connection of every shard, as long as the shards keep running: it does not
  matter where the listener has put the connection.\<close>

theorem placement_transparent:
  assumes "server_ok sv" and "cluster_safe cl" and "sv_registry sv u = Some e" and "one_shard_command u e"
    and "args = R_String b # rest" and "from_utf8 (ascii_upper b) = Some u"
    and "dispatch_command sv self args conn data cl = Some (keep, conn', data', cl')" and "None \<notin> set (cl_shards cl')"
  shows "dispatch_command sv self' args conn data cl = Some (keep, conn', data', cl')"
proof -
  have k: "keeps_connection sv args" by (rule one_shard_keeps_connection [OF assms(1,3-6)])
  note named = dispatch_command_named [OF assms(5,6), of sv _ conn data cl]
  show ?thesis
  proof (cases "u \<notin> {''QUIT'', ''SELECT'', ''SAVE'', ''BGSAVE''} \<and> arity_ok (ce_arity e) args")
    case True
    then have eq: "dispatch_command sv s args conn data cl = still_open True (dispatch_known sv s args u e conn data cl)" for s
      using assms(3) by (simp add: named)
    show ?thesis
    proof (rule one_shard_cases [OF assms(4), of sv args conn data cl])
      show ?thesis if "\<And>self. dispatch_known sv self args u e conn data cl = r" for r
        using assms(7) unfolding eq that .
      show ?thesis if r: "\<And>self. dispatch_known sv self args u e conn data cl = route sv self t args conn data cl" for t
      proof -
        have s: "route sv self t args conn data cl = Some (conn', data', cl')" "keep"
          using assms(7) unfolding eq r by (auto simp: still_open_def)
        show ?thesis
          using s(2) unfolding eq r route_anywhere [OF assms(1,2) k s(1) assms(8)] by (simp add: still_open_def)
      qed
    qed
  next
    case False
    have "dispatch_command sv self' args conn data cl = dispatch_command sv self args conn data cl"
      unfolding named using False assms(3) by (simp, blast)
    then show ?thesis using assms(7) by simp
  qed
qed

lemma find_fresh:
  assumes "unat i < NUM_DBS"
  shows "ds_find (update_time (db_slice_new hs) t) i key = Some (None, update_time (db_slice_new hs) t)"
proof -
  have f: "tbl_find (tbl_with_hasher h :: ('k, 'v) dash_table) k = None" for h k
    using dash.find_map [OF tbl_new_inv, of h k] by (simp add: tbl_new_map)
  define ds where "ds = update_time (db_slice_new hs) t"
  have i: "dbs ds ! unat i = db_table_new (hs (2 * unat i)) (hs (2 * unat i + 1))" "unat i < length (dbs ds)"
    using assms by (simp_all add: ds_def update_time_def db_slice_new_def)
  have "db_find (db_table_new h h') k n = (None, db_table_new h h')" for h h' k n
    by (simp add: db_find_def check_and_expire_def db_table_new_def f)
  then have "db_find (dbs ds ! unat i) (prime_key_new key) (now_ms ds) = (None, dbs ds ! unat i)" by (simp add: i(1))
  then show ?thesis using i(2) by (simp add: ds_find_def on_db_def ds_def [symmetric])
qed

lemma demo_cluster_safe: "cluster_safe demo_cluster"
  by (auto simp: cluster_safe_def demo_cluster_def engine_shard_new_def ds_safe_new)

lemma get_empty_run:
  "\<exists>cl'. dispatch_command demo_server 0 [R_String ''GET'', R_String []] conn_context_new [] demo_cluster
      = Some (True, conn_context_new, ''$-1'' @ CRLF, cl') \<and> None \<notin> set (cl_shards cl')"
proof -
  let ?args = "[R_String ''GET'', R_String []]" and ?e = "keyed_entry (''GET'', cmd_get, 2)" and ?sh = "engine_shard_new (\<lambda>_ _. 0)"
  have u: "from_utf8 (ascii_upper ''GET'') = Some ''GET''" by code_simp
  have reg: "sv_registry demo_server ''GET'' = Some ?e" by (simp add: demo_server_def get_entry)
  have ar: "arity_ok 2 ?args" by (simp add: arity_ok_def argc_i16_def)
  have c: "classify_command ''GET'' ?e = SingleKey" by (simp add: classify_command_def)
  have sh: "shard_of demo_server (R_String []) = Some 0"
    by (simp add: shard_of_def key_bytes_def shard_def hash_tag_Nil crc32_Nil demo_server_def)
  have eq: "dispatch_command demo_server 0 ?args conn_context_new [] demo_cluster
      = still_open True (route demo_server 0 0 ?args conn_context_new [] demo_cluster)"
    unfolding dispatch_command_named [OF refl u] using reg ar sh c by (simp add: dispatch_known_def)
  have "\<exists>sh'. dispatch (rt_lower (sv_rt demo_server)) (sv_registry demo_server) ?args conn_context_new
      (engine_shard_update_time ?sh t) (rb_new i64_to_string []) = Some (True, conn_context_new, sh', send_null (rb_new i64_to_string []))" for t
    using reg ar u find_fresh [of 0 "\<lambda>_ _. 0" t "[]"]
    by (simp add: dispatch_def Let_def cmd_get_def with_arg_def arg_def find_string_def on_slice_def rep_def slice_def set_slice_def
        bump_commands_def engine_shard_update_time_def engine_shard_new_def ctx_db_def conn_context_new_def NUM_DBS_def)
  then obtain sh' where "dispatch (rt_lower (sv_rt demo_server)) (sv_registry demo_server) ?args conn_context_new
      (engine_shard_update_time ?sh (sv_clock demo_server 0)) (rb_new i64_to_string [])
      = Some (True, conn_context_new, sh', send_null (rb_new i64_to_string []))" by blast
  then have run: "dispatch_command demo_server 0 ?args conn_context_new [] demo_cluster
      = Some (True, conn_context_new, ''$-1'' @ CRLF, \<lparr>cl_shards = [Some sh', Some ?sh], cl_reads = 1\<rparr>)"
    unfolding eq
    by (simp add: route_def exec_local_def exec_task_def still_open_def demo_cluster_def numeral_2_eq_2 demo_server_def send_fixed_buf)
  then show ?thesis by auto
qed

theorem placement_transparent_witness:
  "\<exists>cl'. dispatch_command demo_server 1 [R_String ''GET'', R_String []] conn_context_new [] demo_cluster
      = Some (True, conn_context_new, ''$-1'' @ CRLF, cl')"
proof -
  obtain cl' where r: "dispatch_command demo_server 0 [R_String ''GET'', R_String []] conn_context_new [] demo_cluster
      = Some (True, conn_context_new, ''$-1'' @ CRLF, cl')" "None \<notin> set (cl_shards cl')"
    using get_empty_run by blast
  have u: "from_utf8 (ascii_upper ''GET'') = Some ''GET''" by code_simp
  have reg: "sv_registry demo_server ''GET'' = Some (keyed_entry (''GET'', cmd_get, 2))" by (simp add: demo_server_def get_entry)
  have one: "one_shard_command ''GET'' (keyed_entry (''GET'', cmd_get, 2))" by (simp add: one_shard_command_def classify_command_def)
  from placement_transparent [OF demo_server_ok demo_cluster_safe reg one refl u r] show ?thesis by (rule exI)
qed

end
