(* ===== verification/Connection.thy ===== *)
theory Connection
  imports System
begin

text \<open>
  The read-parse-dispatch-write loop of a connection. The shard threads have one
  (\<^verbatim>\<open>shard_thread.rs\<close>, \<^verbatim>\<open>handle_connection\<close>); \<^verbatim>\<open>crates/shrikedb-facade/src/connection.rs\<close> has the same loop
  for synchronous and for asynchronous dispatchers. They are one function \<open>serve\<close> of the dispatcher, whose
  result \<open>None\<close> is a panic that ends the connection's task.

  The socket is what its calls return: the results of the reads in order (an error, or bytes; no
  bytes, and no more results, mean that the peer has closed) and, for each \<^verbatim>\<open>write_all\<close>, the number of bytes
  that get through before it fails, if it fails.

  Main result: however the bytes of a pipeline of commands are cut into reads, the client receives what
  the commands answer when they are executed one after the other.
\<close>

subsection \<open>The socket\<close>

record tcp_stream =
  incoming :: "bytes option list"
  outcomes :: "nat option list"
  sent :: bytes

definition stream_read_buf :: "tcp_stream \<Rightarrow> bytes option \<times> tcp_stream" where
  "stream_read_buf st = (case incoming st of [] \<Rightarrow> (Some [], st) | r # rs \<Rightarrow> (r, st\<lparr>incoming := rs\<rparr>))"

definition stream_write_all :: "tcp_stream \<Rightarrow> bytes \<Rightarrow> bool \<times> tcp_stream" where
  "stream_write_all st data =
     (case outcomes st of
        Some n # rs \<Rightarrow> (False, st\<lparr>outcomes := rs, sent := sent st @ take n data\<rparr>)
      | None # rs \<Rightarrow> (True, st\<lparr>outcomes := rs, sent := sent st @ data\<rparr>)
      | [] \<Rightarrow> (True, st\<lparr>sent := sent st @ data\<rparr>))"

lemma incoming_stream_write_all [simp]: "incoming (snd (stream_write_all st data)) = incoming st"
  by (simp add: stream_write_all_def split: list.split option.split)

subsection \<open>The loop\<close>

record connection =
  c_parser :: resp_parser
  c_read :: bytes
  c_write :: bytes
  c_ctx :: conn_context

definition connection_new :: connection where
  "connection_new = \<lparr>c_parser = parser_new, c_read = [], c_write = [], c_ctx = conn_context_new\<rparr>"

type_synonym 's dispatcher = "resp_expr list \<Rightarrow> conn_context \<Rightarrow> bytes \<Rightarrow> 's \<Rightarrow> (bool \<times> conn_context \<times> bytes \<times> 's) option"

definition protocol_error :: "(i64 \<Rightarrow> bytes) \<Rightarrow> bytes \<Rightarrow> parse_error \<Rightarrow> bytes" where
  "protocol_error fmt data e = buf (send_err (rb_new fmt data) (''Protocol error: '' @ parse_error_display e))"

text \<open>The inner loop over complete commands; the result says whether the connection stays open.\<close>

function drain :: "(i64 \<Rightarrow> bytes) \<Rightarrow> 's dispatcher \<Rightarrow> connection \<Rightarrow> 's \<Rightarrow> (bool \<times> connection \<times> 's) option" where
  "drain fmt disp c s =
     (case parse (c_parser c) (c_read c) of
        None \<Rightarrow> None
      | Some (Complete args, p, b) \<Rightarrow>
         (case disp args (c_ctx c) (c_write c) s of
            None \<Rightarrow> None
          | Some (keep_alive, ctx, w, s') \<Rightarrow>
             (let c' = \<lparr>c_parser = p, c_read = b, c_write = w, c_ctx = ctx\<rparr> in
              if keep_alive then drain fmt disp c' s' else Some (False, c', s')))
      | Some (Incomplete, p, b) \<Rightarrow> Some (True, c\<lparr>c_parser := p, c_read := b\<rparr>, s)
      | Some (Failed e, p, b) \<Rightarrow>
          Some (False, c\<lparr>c_parser := p, c_read := b, c_write := protocol_error fmt (c_write c) e\<rparr>, s))"
  by pat_completeness auto
termination
  by (relation "measure (\<lambda>(fmt, disp, c, s). length (c_read c))") (auto dest: parse_Complete_shorter)

declare drain.simps [simp del]

text \<open>The outer loop: execute, flush, read.\<close>

definition flush_replies :: "tcp_stream \<Rightarrow> connection \<Rightarrow> bool \<times> tcp_stream \<times> connection" where
  "flush_replies st c =
     (if c_write c \<noteq> [] then
        (case stream_write_all st (c_write c) of (ok, st') \<Rightarrow> (ok, st', if ok then c\<lparr>c_write := []\<rparr> else c))
      else (True, st, c))"

lemma incoming_flush [simp]: "flush_replies st c = (ok, st', c') \<Longrightarrow> incoming st' = incoming st"
  using incoming_stream_write_all [of st "c_write c"]
  by (cases "stream_write_all st (c_write c)") (auto simp: flush_replies_def split: if_splits)

function serve :: "(i64 \<Rightarrow> bytes) \<Rightarrow> 's dispatcher \<Rightarrow> connection \<Rightarrow> tcp_stream \<Rightarrow> 's \<Rightarrow> (connection \<times> tcp_stream \<times> 's) option" where
  "serve fmt disp c st s =
     (case drain fmt disp c s of
        None \<Rightarrow> None
      | Some (False, c1, s1) \<Rightarrow> Some (c1, snd (stream_write_all st (c_write c1)), s1)
      | Some (True, c1, s1) \<Rightarrow>
         (case flush_replies st c1 of
            (False, st1, c2) \<Rightarrow> Some (c2, st1, s1)
          | (True, st1, c2) \<Rightarrow>
             (case stream_read_buf st1 of
                (None, st2) \<Rightarrow> Some (c2, st2, s1)
              | (Some d, st2) \<Rightarrow>
                  if d = [] then Some (c2, st2, s1)
                  else serve fmt disp (c2\<lparr>c_read := c_read c2 @ d\<rparr>) st2 s1)))"
  by pat_completeness auto
termination
  by (relation "measure (\<lambda>(fmt, disp, c, st, s). length (incoming st))")
     (auto simp: stream_read_buf_def dest!: incoming_flush [OF sym] split: list.splits)

declare serve.simps [simp del]

subsection \<open>The loops of the program\<close>

definition handle_connection :: "server \<Rightarrow> u32 \<Rightarrow> tcp_stream \<Rightarrow> cluster \<Rightarrow> (connection \<times> tcp_stream \<times> cluster) option" where
  "handle_connection sv self st cl = serve (sv_itoa sv) (dispatch_command sv self) connection_new st cl"

definition handle_connection_ex :: "(i64 \<Rightarrow> bytes) \<Rightarrow> 's dispatcher \<Rightarrow> tcp_stream \<Rightarrow> 's \<Rightarrow> (connection \<times> tcp_stream \<times> 's) option" where
  "handle_connection_ex fmt dispatcher st s = serve fmt dispatcher connection_new st s"

text \<open>The legacy dispatcher gets a reply builder and cannot close the connection.\<close>

definition ex_dispatcher ::
  "(i64 \<Rightarrow> bytes) \<Rightarrow> (resp_expr list \<Rightarrow> conn_context \<Rightarrow> reply_builder \<Rightarrow> 's \<Rightarrow> (conn_context \<times> reply_builder \<times> 's) option)
    \<Rightarrow> 's dispatcher" where
  "ex_dispatcher fmt dispatcher args ctx data s =
     map_option (\<lambda>(ctx', rb, s'). (True, ctx', buf rb, s')) (dispatcher args ctx (rb_new fmt data) s)"

definition handle_connection_sync where
  "handle_connection_sync fmt dispatcher st s = handle_connection_ex fmt (ex_dispatcher fmt dispatcher) st s"

definition is_select_command :: "resp_expr list \<Rightarrow> bool" where
  "is_select_command args =
     (case args of [] \<Rightarrow> False | a # _ \<Rightarrow> (case expr_as_bytes a of Some cmd \<Rightarrow> eq_ignore_ascii_case cmd ''SELECT'' | None \<Rightarrow> False))"

text \<open>The facade's own \<^verbatim>\<open>handle_select\<close>; it does the same as that of the shard thread.\<close>

definition async_handle_select :: "(i64 \<Rightarrow> bytes) \<Rightarrow> resp_expr list \<Rightarrow> conn_context \<Rightarrow> bytes \<Rightarrow> conn_context \<times> bytes" where
  "async_handle_select fmt args ctx data =
     (let rb = rb_new fmt data;
          idx = Option.bind (Option.bind (expr_as_bytes (args ! 1)) from_utf8) parse_u16
      in if length args \<noteq> 2 then (ctx, buf (send_err rb (''wrong number of arguments for '' @ [CHR 0x27] @ ''select'' @ [CHR 0x27] @ '' command'')))
         else (case idx of
                 Some n \<Rightarrow> if n < 16 then (ctx\<lparr>conn_db := n\<rparr>, buf (send_ok rb)) else (ctx, buf (send_err rb ''DB index is out of range''))
               | None \<Rightarrow> (ctx, buf (send_err rb ''DB index is out of range''))))"

lemma async_handle_select_eq [simp]: "async_handle_select = handle_select"
  by (intro ext) (simp add: async_handle_select_def handle_select_def quoted_arity_error_def expr_as_str_def Let_def)

type_synonym 's async_dispatcher = "resp_expr list \<Rightarrow> u16 \<Rightarrow> 's \<Rightarrow> (bytes \<times> bool \<times> 's) option"

definition async_step :: "(i64 \<Rightarrow> bytes) \<Rightarrow> 's async_dispatcher \<Rightarrow> 's dispatcher" where
  "async_step fmt dispatcher args ctx data s =
     (if is_select_command args then
        (case async_handle_select fmt args ctx data of (ctx', data') \<Rightarrow> Some (True, ctx', data', s))
      else map_option (\<lambda>(reply, keep_alive, s'). (keep_alive, ctx, data @ reply, s')) (dispatcher args (conn_db ctx) s))"

definition handle_connection_async where
  "handle_connection_async fmt dispatcher st s = serve fmt (async_step fmt dispatcher) connection_new st s"

subsection \<open>Dispatchers that only append to the reply buffer\<close>

definition prepend :: "bytes \<Rightarrow> bool \<times> conn_context \<times> bytes \<times> 's \<Rightarrow> bool \<times> conn_context \<times> bytes \<times> 's" where
  "prepend w r = (case r of (keep, ctx, d, s) \<Rightarrow> (keep, ctx, w @ d, s))"

lemma prepend_simps [simp]: "prepend w (keep, ctx, d, s) = (keep, ctx, w @ d, s)" "prepend v \<circ> prepend w = prepend (v @ w)"
  by (auto simp: prepend_def fun_eq_iff)

text \<open>The commands one after the other, until one closes the connection.\<close>

fun run_commands :: "'s dispatcher \<Rightarrow> bytes list list \<Rightarrow> conn_context \<Rightarrow> bytes \<Rightarrow> 's \<Rightarrow> (bool \<times> conn_context \<times> bytes \<times> 's) option" where
  "run_commands disp [] ctx d s = Some (True, ctx, d, s)"
| "run_commands disp (cmd # cmds) ctx d s =
     (case disp (map R_String cmd) ctx d s of
        None \<Rightarrow> None
      | Some (keep, ctx', d', s') \<Rightarrow> if keep then run_commands disp cmds ctx' d' s' else Some (False, ctx', d', s'))"

text \<open>The bytes that are buffered and the bytes \<open>w\<close> still to arrive are the rest of the commands \<open>cmds\<close>.\<close>

definition pending :: "connection \<Rightarrow> bytes list list \<Rightarrow> bytes \<Rightarrow> bool" where
  "pending c cmds w \<longleftrightarrow>
     awaits (max_arr_len (c_parser c)) (max_bulk_len (c_parser c)) [] (state (c_parser c)) cmds (c_read c @ w)"

lemma pending_parse:
  assumes "pending c (cmd # cmds) w"
  shows "(\<exists>p b. parse (c_parser c) (c_read c) = Some (Incomplete, p, b) \<and> w \<noteq> []
      \<and> pending (c\<lparr>c_parser := p, c_read := b\<rparr>) (cmd # cmds) w)
    \<or> (\<exists>p b. parse (c_parser c) (c_read c) = Some (Complete (map R_String cmd), p, b)
      \<and> (\<forall>d x. pending \<lparr>c_parser = p, c_read = b, c_write = d, c_ctx = x\<rparr> cmds w))"
proof -
  let ?al = "max_arr_len (c_parser c)" and ?bl = "max_bulk_len (c_parser c)"
  obtain r s b where p: "parse_loop ?al ?bl (state (c_parser c)) (c_read c) = Some (r, s, b)"
    and g: "good_step ?al ?bl [] (cmd # cmds) w (Return r s b)"
    using good_parse_loop [of ?al ?bl "[]"] assms unfolding pending_def by blast
  show ?thesis using g p by (cases r) (auto simp: parse_def pending_def)
qed

lemma pending_none:
  assumes "pending c [] w"
  shows "w = []" "parse (c_parser c) (c_read c) = Some (Incomplete, c_parser c, c_read c)"
proof -
  have s: "state (c_parser c) = S_Init" "c_read c = []" "w = []"
    using assms by (cases "state (c_parser c)"; auto simp: pending_def stream_def)+
  then show "w = []" "parse (c_parser c) (c_read c) = Some (Incomplete, c_parser c, c_read c)"
    by (simp_all add: parse_def parse_loop.simps [of _ _ S_Init] init_step_def)
qed

lemma flush_ok: "outcomes st = [] \<Longrightarrow> flush_replies st c = (True, st\<lparr>sent := sent st @ c_write c\<rparr>, c\<lparr>c_write := []\<rparr>)"
  by (auto simp: flush_replies_def stream_write_all_def)

text \<open>What a dispatcher promises to the loop: the reply does not depend on the replies before it.\<close>

locale reply_dispatcher =
  fixes disp :: "'s dispatcher" and ok :: "'s \<Rightarrow> bool"
  assumes appends_only: "ok s \<Longrightarrow> disp args ctx (w @ d) s = map_option (prepend w) (disp args ctx d s)"
    and stays_ok: "ok s \<Longrightarrow> disp args ctx d s = Some (keep, ctx', d', s') \<Longrightarrow> ok s'"
begin

lemma run_appends: "ok s \<Longrightarrow> run_commands disp cmds ctx (w @ d) s = map_option (prepend w) (run_commands disp cmds ctx d s)"
proof (induction cmds arbitrary: ctx d s)
  case (Cons cmd cmds)
  show ?case
  proof (cases "disp (map R_String cmd) ctx d s")
    case (Some r)
    obtain keep ctx' d' s' where r: "r = (keep, ctx', d', s')" by (cases r)
    have "ok s'" using stays_ok [OF Cons.prems] Some r by blast
    from Cons.IH [OF this] show ?thesis using appends_only [OF Cons.prems] Some r by simp
  qed (use appends_only [OF Cons.prems] in simp)
qed simp

text \<open>
  One run of the inner loop: it executes the commands that are complete, up to the one that closes
  the connection or panics.
\<close>

lemma drain_stream:
  assumes "pending c cmds w"
  shows "(\<exists>c1 s1 cmds2. drain fmt disp c s = Some (True, c1, s1) \<and> (w = [] \<longrightarrow> cmds2 = []) \<and> pending c1 cmds2 w
        \<and> run_commands disp cmds2 (c_ctx c1) (c_write c1) s1 = run_commands disp cmds (c_ctx c) (c_write c) s \<and> (ok s \<longrightarrow> ok s1))
    \<or> drain fmt disp c s = None \<and> run_commands disp cmds (c_ctx c) (c_write c) s = None
    \<or> (\<exists>c1 s1. drain fmt disp c s = Some (False, c1, s1)
        \<and> run_commands disp cmds (c_ctx c) (c_write c) s = Some (False, c_ctx c1, c_write c1, s1))"
  using assms
proof (induction cmds arbitrary: c s)
  case Nil
  show ?case
    using pending_none(2) [OF Nil] Nil by (intro disjI1 exI [of _ c] exI [of _ s] exI [of _ "[]"]) (simp add: drain.simps [of _ _ c])
next
  case (Cons cmd cmds)
  show ?case
    using pending_parse [OF Cons.prems]
  proof (elim disjE exE conjE)
    fix p b assume "parse (c_parser c) (c_read c) = Some (Incomplete, p, b)" "w \<noteq> []"
      "pending (c\<lparr>c_parser := p, c_read := b\<rparr>) (cmd # cmds) w"
    then show ?case
      by (intro disjI1 exI [of _ "c\<lparr>c_parser := p, c_read := b\<rparr>"] exI [of _ s] exI [of _ "cmd # cmds"])
         (simp add: drain.simps [of _ _ c])
  next
    fix p b assume p: "parse (c_parser c) (c_read c) = Some (Complete (map R_String cmd), p, b)"
      and pend: "\<forall>d x. pending \<lparr>c_parser = p, c_read = b, c_write = d, c_ctx = x\<rparr> cmds w"
    show ?case
    proof (cases "disp (map R_String cmd) (c_ctx c) (c_write c) s")
      case None
      then show ?thesis using p by (simp add: drain.simps [of _ _ c])
    next
      case (Some r)
      obtain keep x d s' where r: "r = (keep, x, d, s')" by (cases r)
      define c' where "c' = \<lparr>c_parser = p, c_read = b, c_write = d, c_ctx = x\<rparr>"
      have c': "c_ctx c' = x" "c_write c' = d" "pending c' cmds w" using pend by (simp_all add: c'_def)
      have dr: "drain fmt disp c s = (if keep then drain fmt disp c' s' else Some (False, c', s'))"
        using p Some r by (simp add: drain.simps [of _ _ c] c'_def)
      have "ok s \<longrightarrow> ok s'" using stays_ok Some r by blast
      then show ?thesis using Cons.IH [OF c'(3), of s'] Some r c'(1,2) unfolding dr by (cases keep) auto
    qed
  qed
qed

text \<open>The whole connection, on writes that succeed.\<close>

lemma serve_stream:
  assumes "pending c cmds (concat chunks)" and "[] \<notin> set chunks" and "incoming st = map Some chunks" and "outcomes st = []" and "ok s"
  shows "case run_commands disp cmds (c_ctx c) (c_write c) s of
      None \<Rightarrow> serve fmt disp c st s = None
    | Some (keep, ctx', d, s') \<Rightarrow> \<exists>c' st'. serve fmt disp c st s = Some (c', st', s') \<and> sent st' = sent st @ d \<and> c_ctx c' = ctx'"
  using assms
proof (induction chunks arbitrary: c cmds st s)
  case Nil
  from drain_stream [OF Nil.prems(1), of fmt s] show ?case
  proof (elim disjE exE conjE)
    fix c1 s1 cmds2
    assume d: "drain fmt disp c s = Some (True, c1, s1)" and e: "concat [] = ([] :: bytes) \<longrightarrow> cmds2 = []"
      and r: "run_commands disp cmds2 (c_ctx c1) (c_write c1) s1 = run_commands disp cmds (c_ctx c) (c_write c) s"
    then show ?case
      using Nil.prems(3,4) by (simp add: serve.simps [of _ _ c] flush_ok stream_read_buf_def r [symmetric])
  qed (simp_all add: serve.simps [of _ _ c] stream_write_all_def Nil.prems(4))
next
  case (Cons d ds)
  from drain_stream [OF Cons.prems(1), of fmt s] show ?case
  proof (elim disjE exE conjE)
    fix c1 s1 cmds2
    assume dr: "drain fmt disp c s = Some (True, c1, s1)" and p: "pending c1 cmds2 (concat (d # ds))" and okk: "ok s \<longrightarrow> ok s1"
      and r: "run_commands disp cmds2 (c_ctx c1) (c_write c1) s1 = run_commands disp cmds (c_ctx c) (c_write c) s"
    define c2 where "c2 = c1\<lparr>c_write := [], c_read := c_read c1 @ d\<rparr>"
    define st2 where "st2 = st\<lparr>sent := sent st @ c_write c1, incoming := map Some ds\<rparr>"
    have sv: "serve fmt disp c st s = serve fmt disp c2 st2 s1"
      using dr Cons.prems(2,3,4) by (auto simp: serve.simps [of _ _ c] flush_ok stream_read_buf_def c2_def st2_def)
    have "pending c2 cmds2 (concat ds)" using p by (simp add: pending_def c2_def)
    moreover have o1: "ok s1" using okk Cons.prems(5) by blast
    ultimately have ih: "case run_commands disp cmds2 (c_ctx c1) [] s1 of
        None \<Rightarrow> serve fmt disp c st s = None
      | Some (keep, ctx', d, s') \<Rightarrow> \<exists>c' st'. serve fmt disp c st s = Some (c', st', s') \<and> sent st' = sent st @ c_write c1 @ d \<and> c_ctx c' = ctx'"
      using Cons.IH [of c2 cmds2 st2 s1] Cons.prems(2,4) unfolding sv by (auto simp: c2_def st2_def split: option.splits)
    have "run_commands disp cmds (c_ctx c) (c_write c) s = map_option (prepend (c_write c1)) (run_commands disp cmds2 (c_ctx c1) [] s1)"
      using run_appends [OF o1, of cmds2 "c_ctx c1" "c_write c1" "[]"] r by simp
    then show ?case using ih by (auto split: option.splits)
  qed (simp_all add: serve.simps [of _ _ c] stream_write_all_def Cons.prems(4))
qed

end

subsection \<open>The dispatchers of the program\<close>

lemma reply_on_prefix: "sends f \<Longrightarrow> reply_on sv (w @ d) f = w @ reply_on sv d f"
  by (simp add: reply_on_def send_prefixed)

lemma sends_opts: "sends (\<lambda>rb. foldl send_opt (send_array_len rb n) ds)"
  by (rule sends_comp [OF sends_values(8) sends_foldl [OF sends_choices(2)]])

lemma sends_bulks: "sends (\<lambda>rb. foldl send_bulk_string (send_array_len rb n) ds)"
  by (rule sends_comp [OF sends_values(8) sends_foldl [OF sends_values(7)]])

lemmas replies_prefix = reply_on_prefix [OF sends_values(1)] reply_on_prefix [OF sends_values(5)] reply_on_prefix [OF sends_values(6)]
  reply_on_prefix [OF sends_opts] reply_on_prefix [OF sends_bulks]

definition prepend_result :: "bytes \<Rightarrow> conn_context \<times> bytes \<times> cluster \<Rightarrow> conn_context \<times> bytes \<times> cluster" where
  "prepend_result w r = (case r of (ctx, d, cl) \<Rightarrow> (ctx, w @ d, cl))"

lemma prepend_result_simp [simp]: "prepend_result w (ctx, d, cl) = (ctx, w @ d, cl)"
  by (simp add: prepend_result_def)

lemma exec_local_prefix:
  assumes "server_ok sv" and "cluster_safe cl"
  shows "exec_local sv i args ctx (w @ d) cl = map_option (prepend_result w) (exec_local sv i args ctx d cl)"
  unfolding exec_local_def exec_task_prefix [OF assms]
  by (cases "exec_task sv i args ctx d cl") (auto split: option.splits)

lemma route_prefix:
  assumes "server_ok sv" and "cluster_safe cl"
  shows "route sv self t args ctx (w @ d) cl = map_option (prepend_result w) (route sv self t args ctx d cl)"
  by (auto simp: route_def dispatch_remote_def exec_local_prefix [OF assms] replies_prefix option.map_comp o_def
      split: option.splits intro!: option.map_cong)

lemma dispatch_mset_prefix:
  assumes "server_ok sv" and "cluster_safe cl"
  shows "dispatch_mset sv self args cmd ctx (w @ d) cl = map_option (prepend_result w) (dispatch_mset sv self args cmd ctx d cl)"
  unfolding dispatch_mset_def
  by (auto simp: route_prefix [OF assms] replies_prefix option.map_comp o_def split: option.splits bind_splits intro!: option.map_cong)

lemma merge_global_prefix: "merge_global sv cmd (w @ d) l bufs = w @ merge_global sv cmd d l bufs"
  by (simp add: merge_global_def Let_def replies_prefix)

lemma dispatch_known_prefix:
  assumes "server_ok sv" and "cluster_safe cl"
  shows "dispatch_known sv self args cmd e ctx (w @ d) cl = map_option (prepend_result w) (dispatch_known sv self args cmd e ctx d cl)"
proof (cases "classify_command cmd e")
  case NoKeys
  then show ?thesis by (simp add: dispatch_known_def exec_local_prefix [OF assms])
next
  case SingleKey
  then show ?thesis by (auto simp: dispatch_known_def route_prefix [OF assms] split: bind_splits)
next
  case MultiKeySameHandler
  then show ?thesis
    by (auto simp: dispatch_known_def dispatch_multi_key_sum_def replies_prefix option.map_comp o_def
        split: bind_splits list.splits intro!: option.map_cong)
next
  case MGet
  then show ?thesis
    by (auto simp: dispatch_known_def dispatch_mget_def Let_def replies_prefix option.map_comp o_def
        split: bind_splits intro!: option.map_cong)
next
  case MSet
  then show ?thesis by (simp add: dispatch_known_def dispatch_mset_prefix [OF assms])
next
  case Rename
  then show ?thesis by (auto simp: dispatch_known_def route_prefix [OF assms] replies_prefix split: bind_splits)
next
  case Global
  then show ?thesis
    by (auto simp: dispatch_known_def dispatch_global_def merge_global_prefix option.map_comp o_def
        split: option.splits intro!: option.map_cong)
qed

lemma handle_select_prefix: "handle_select fmt args ctx (w @ d) = (case handle_select fmt args ctx d of (ctx', d') \<Rightarrow> (ctx', w @ d'))"
  by (simp add: handle_select_def Let_def send_prefixed [OF sends_values(1)] send_prefixed [OF sends_values(5)] split: option.split)

lemma dispatch_command_prefix:
  assumes "server_ok sv" and "cluster_safe cl"
  shows "dispatch_command sv self args ctx (w @ d) cl = map_option (prepend w) (dispatch_command sv self args ctx d cl)"
proof -
  have k: "still_open b (map_option (prepend_result w) r) = map_option (prepend w) (still_open b r)" for b r
    by (cases r) (auto simp: still_open_def)
  have s: "(case handle_select (sv_itoa sv) args ctx (w @ d) of (ctx', d') \<Rightarrow> Some (True, ctx', d', cl))
      = map_option (prepend w) (case handle_select (sv_itoa sv) args ctx d of (ctx', d') \<Rightarrow> Some (True, ctx', d', cl))"
    by (simp add: handle_select_prefix split: prod.split)
  show ?thesis
    unfolding dispatch_command_def Let_def s dispatch_known_prefix [OF assms] replies_prefix k
    by (simp split: list.split option.split)
qed

interpretation shard_connection: reply_dispatcher "dispatch_command sv self" "\<lambda>cl. server_ok sv \<and> cluster_safe cl" for sv self
proof
  show "dispatch_command sv self args ctx (w @ d) cl = map_option (prepend w) (dispatch_command sv self args ctx d cl)"
    if "server_ok sv \<and> cluster_safe cl" for args ctx w d cl
    using dispatch_command_prefix that by blast
  show "server_ok sv \<and> cluster_safe cl'"
    if "server_ok sv \<and> cluster_safe cl" "dispatch_command sv self args ctx d cl = Some (keep, ctx', d', cl')" for args ctx d cl keep ctx' d' cl'
    using cluster_system.run_keeps [OF dispatch_command_steps [OF that(2)], of cluster_safe] shard_step_safe that(1) by blast
qed

interpretation async_connection: reply_dispatcher "async_step enc dispatcher" "\<lambda>_. True" for enc dispatcher
  by unfold_locales (auto simp: async_step_def handle_select_prefix option.map_comp o_def split: prod.split intro!: option.map_cong)

text \<open>A fresh connection and its pipeline.\<close>

lemma pending_new:
  assumes "list_all (cmd_ok (1024 * 1024) (512 * 1024 * 1024)) cmds" and "concat chunks = stream cmds"
  shows "pending connection_new cmds (concat chunks)"
  using assms by (simp add: pending_def connection_new_def parser_new_def)

subsection \<open>Properties\<close>

text \<open>C9: the connection loop is transparent. However the network cuts the bytes of a pipeline of commands into
  reads, a connection of a shard leaves the cluster in the state and sends the client exactly the bytes
  that the commands give when they are executed one after the other (up to the one that closes the
  connection); the selected database follows as well.\<close>

theorem connection_transparent:
  assumes "server_ok sv" and "cluster_safe cl"
    and "list_all (cmd_ok (1024 * 1024) (512 * 1024 * 1024)) cmds" and "concat chunks = stream cmds" and "[] \<notin> set chunks"
    and "incoming st = map Some chunks" and "outcomes st = []" and "sent st = []"
    and "run_commands (dispatch_command sv self) cmds conn_context_new [] cl = Some (keep, ctx', replies, cl')"
  shows "\<exists>c' st'. handle_connection sv self st cl = Some (c', st', cl') \<and> sent st' = replies \<and> c_ctx c' = ctx'"
  using shard_connection.serve_stream [OF pending_new [OF assms(3,4)] assms(5-7), where sv = sv and self = self and s = cl and fmt = "sv_itoa sv"] assms(1,2,8,9)
  by (simp add: handle_connection_def connection_new_def)

theorem connection_transparent_witness:
  "\<exists>c' st'. handle_connection demo_server 0
      \<lparr>incoming = [Some (''*1'' @ CRLF @ ''$4'' @ [CHR 0x0D]), Some ([CHR 0x0A] @ ''quit'' @ CRLF)], outcomes = [], sent = []\<rparr> demo_cluster
    = Some (c', st', demo_cluster) \<and> sent st' = ''+OK'' @ CRLF"
proof -
  have s: "concat [''*1'' @ CRLF @ ''$4'' @ [CHR 0x0D], [CHR 0x0A] @ ''quit'' @ CRLF] = stream [[''quit'']]"
    by (simp add: stream_def resp_cmd_def bulk_def CRLF_def) (code_simp)
  have safe: "cluster_safe demo_cluster"
    by (auto simp: cluster_safe_def demo_cluster_def engine_shard_new_def ds_safe_new)
  have "from_utf8 (ascii_upper ''quit'') = Some ''QUIT''" by code_simp
  then have r: "run_commands (dispatch_command demo_server 0) [[''quit'']] conn_context_new [] demo_cluster
      = Some (False, conn_context_new, ''+OK'' @ CRLF, demo_cluster)"
    by (simp add: dispatch_command_def reply_on_def send_fixed_buf)
  have "list_all (cmd_ok (1024 * 1024) (512 * 1024 * 1024)) [[''quit'']]" by (simp add: cmd_ok_def)
  from connection_transparent [OF demo_server_ok safe this s _ _ _ _ r,
      of "\<lparr>incoming = [Some (''*1'' @ CRLF @ ''$4'' @ [CHR 0x0D]), Some ([CHR 0x0A] @ ''quit'' @ CRLF)], outcomes = [], sent = []\<rparr>"]
  show ?thesis by auto
qed

text \<open>the same holds of the asynchronous loop of \<^verbatim>\<open>connection.rs\<close> with every dispatcher: SELECT is answered by
  the loop and every other command gets the database selected at that point, in order.\<close>

theorem async_connection_transparent:
  assumes "list_all (cmd_ok (1024 * 1024) (512 * 1024 * 1024)) cmds" and "concat chunks = stream cmds" and "[] \<notin> set chunks"
    and "incoming st = map Some chunks" and "outcomes st = []" and "sent st = []"
    and "run_commands (async_step fmt dispatcher) cmds conn_context_new [] s = Some (keep, ctx', replies, s')"
  shows "\<exists>c' st'. handle_connection_async fmt dispatcher st s = Some (c', st', s') \<and> sent st' = replies \<and> c_ctx c' = ctx'"
  using async_connection.serve_stream [OF pending_new [OF assms(1,2)] assms(3-5), where enc = fmt and fmt = fmt and dispatcher = dispatcher and s = s] assms(6,7)
  by (auto simp: handle_connection_async_def connection_new_def)

theorem async_connection_transparent_witness:
  "\<exists>c' st'. handle_connection_async i64_to_string (\<lambda>args db n. Some (''+PONG'' @ CRLF, True, Suc n))
      \<lparr>incoming = [Some (stream [[''PING''], [''PING'']])], outcomes = [], sent = []\<rparr> 0
    = Some (c', st', 2) \<and> sent st' = ''+PONG'' @ CRLF @ ''+PONG'' @ CRLF"
proof -
  let ?d = "\<lambda>args db n. Some (''+PONG'' @ CRLF, True, Suc n)"
  have n: "\<not> is_select_command [R_String ''PING'']" by (simp add: is_select_command_def) code_simp
  have r: "run_commands (async_step i64_to_string ?d) [[''PING''], [''PING'']] conn_context_new [] 0
      = Some (True, conn_context_new, ''+PONG'' @ CRLF @ ''+PONG'' @ CRLF, 2)"
    using n by (simp add: async_step_def numeral_2_eq_2)
  have "list_all (cmd_ok (1024 * 1024) (512 * 1024 * 1024)) [[''PING''], [''PING'']]" by (simp add: cmd_ok_def)
  moreover have "concat [stream [[''PING''], [''PING'']]] = stream [[''PING''], [''PING'']]" by simp
  ultimately show ?thesis
    using async_connection_transparent [where chunks = "[stream [[''PING''], [''PING'']]]"
        and st = "\<lparr>incoming = [Some (stream [[''PING''], [''PING'']])], outcomes = [], sent = []\<rparr>", OF _ _ _ _ _ _ r]
    by (auto simp: stream_def resp_cmd_def)
qed

end
