(* ===== verification/Main_Service.thy ===== *)
theory Main_Service
  imports Connection
begin

text \<open>
  \<^verbatim>\<open>crates/shrikedb-server/src/main_service.rs\<close>: the service that routes commands from outside the shard
  threads. Every command reaches its shards through \<^verbatim>\<open>ShardHandle::dispatch\<close> (\<^verbatim>\<open>engine_shard_set.rs\<close>), which
  sends the shard a task and waits for the reply; SAVE and BGSAVE are answered here. The result of a
  command is the reply and whether the connection stays open, so \<open>ms_dispatch\<close> is a dispatcher for the
  asynchronous connection loop. Tasks that run in parallel are for different shards; they are executed
  in the order in which they were spawned.

  The service and the connections of the shard threads agree on every command that one shard
  executes, and every answer is one RESP value.
\<close>

definition shard_handle_dispatch :: "server \<Rightarrow> u32 \<Rightarrow> resp_expr list \<Rightarrow> u16 \<Rightarrow> cluster \<Rightarrow> ((bytes \<times> bool) option \<times> cluster) option" where
  "shard_handle_dispatch sv sid args db cl =
     map_option (\<lambda>(r, cl'). (map_option (\<lambda>d. (d, True)) r, cl')) (exec_remote sv sid args db cl)"

type_synonym service_result = "(bytes \<times> bool \<times> cluster) option"

definition ms_to_shard :: "server \<Rightarrow> u32 \<Rightarrow> resp_expr list \<Rightarrow> u16 \<Rightarrow> cluster \<Rightarrow> service_result" where
  "ms_to_shard sv sid args db cl =
     map_option (\<lambda>(r, cl').
       (case r of
          Some (d, keep) \<Rightarrow> (d, keep, cl')
        | None \<Rightarrow> (reply_on sv [] (\<lambda>rb. send_err rb ''shard unavailable''), True, cl')))
       (shard_handle_dispatch sv sid args db cl)"

text \<open>The groups in the order in which the map happens to be iterated.\<close>

definition all_groups :: "server \<Rightarrow> cluster \<Rightarrow> (u32 \<times> 'a list) list \<Rightarrow> (u32 \<times> 'a list) list" where
  "all_groups sv cl g = concat (map (\<lambda>s. filter (\<lambda>(t, _). t = s) g) (sv_order sv (cl_reads cl) (map fst g)))"

definition ms_multi_key_sum :: "server \<Rightarrow> resp_expr list \<Rightarrow> u16 \<Rightarrow> cluster \<Rightarrow> service_result" where
  "ms_multi_key_sum sv args db cl =
     (case args of
        [] \<Rightarrow> None
      | cmd # ks \<Rightarrow>
          Option.bind (group_by sv (\<lambda>x. x) ks []) (\<lambda>g.
            map_option (\<lambda>(total_count, cl'). (reply_on sv [] (\<lambda>rb. send_integer rb total_count), True, cl'))
              (fan_out sv ((#) cmd) db add_count (all_groups sv cl g) 0 cl)))"

definition ms_mget :: "server \<Rightarrow> resp_expr list \<Rightarrow> u16 \<Rightarrow> cluster \<Rightarrow> service_result" where
  "ms_mget sv args db cl =
     (let ks = drop 1 args in
      Option.bind (group_by sv snd (enumerate 0 ks) []) (\<lambda>g.
        map_option (\<lambda>(results, cl').
           (reply_on sv [] (\<lambda>rb. foldl send_opt (send_array_len rb (length ks)) results), True, cl'))
          (fan_out sv (\<lambda>kps. R_String ''MGET'' # map snd kps) db place_values (all_groups sv cl g)
             (replicate (length ks) None) cl)))"

definition ms_mset :: "server \<Rightarrow> resp_expr list \<Rightarrow> bytes \<Rightarrow> u16 \<Rightarrow> cluster \<Rightarrow> service_result" where
  "ms_mset sv args cmd_str db cl =
     (if (length args - 1) mod 2 \<noteq> 0
      then Some (reply_on sv [] (\<lambda>rb. send_err rb (quoted_arity_error (rt_lower (sv_rt sv) cmd_str))), True, cl)
      else if cmd_str = ''MSETNX'' then
        (case common_shard sv (map fst (pairs_of (drop 1 args))) None of
           None \<Rightarrow> None
         | Some (Some (Some sid)) \<Rightarrow> ms_to_shard sv sid args db cl
         | Some _ \<Rightarrow> Some (reply_on sv [] (\<lambda>rb. send_err rb CROSSSLOT), True, cl))
      else
        Option.bind (group_by sv fst (pairs_of (drop 1 args)) []) (\<lambda>g.
          map_option (\<lambda>(_, cl'). (reply_on sv [] send_ok, True, cl'))
            (fan_out sv (\<lambda>kvs. R_String ''MSET'' # concat (map (\<lambda>(k, v). [k, v]) kvs)) db
               (\<lambda>_ _ _. ()) (all_groups sv cl g) () cl)))"

definition ms_global :: "server \<Rightarrow> resp_expr list \<Rightarrow> bytes \<Rightarrow> u16 \<Rightarrow> cluster \<Rightarrow> service_result" where
  "ms_global sv args cmd_str db cl =
     (let broadcast = collect_remote sv args db (map of_nat [0..<unat (sv_shards sv)]) cl in
      if cmd_str = ''DBSIZE'' then
        map_option (\<lambda>(bufs, cl').
          (reply_on sv [] (\<lambda>rb. send_integer rb (foldl (\<lambda>t d. t + reply_count (Some d)) 0 bufs)), True, cl')) broadcast
      else if cmd_str = ''FLUSHDB'' \<or> cmd_str = ''FLUSHALL'' then
        map_option (\<lambda>(bufs, cl'). (reply_on sv [] send_ok, True, cl')) broadcast
      else if cmd_str = ''KEYS'' then
        map_option (\<lambda>(bufs, cl').
          (let all_keys = concat (map (\<lambda>d. present (parse_resp_array d)) bufs)
           in (reply_on sv [] (\<lambda>rb. foldl send_bulk_string (send_array_len rb (length all_keys)) all_keys), True, cl'))) broadcast
      else ms_to_shard sv 0 args db cl)"

definition ms_known :: "server \<Rightarrow> resp_expr list \<Rightarrow> bytes \<Rightarrow> command_entry \<Rightarrow> u16 \<Rightarrow> cluster \<Rightarrow> service_result" where
  "ms_known sv args cmd_str e db cl =
     (case classify_command cmd_str e of
        NoKeys \<Rightarrow> ms_to_shard sv 0 args db cl
      | SingleKey \<Rightarrow>
          if unat (ce_first_key e) < length args
          then Option.bind (shard_of sv (args ! unat (ce_first_key e))) (\<lambda>sid. ms_to_shard sv sid args db cl)
          else None
      | MultiKeySameHandler \<Rightarrow> ms_multi_key_sum sv args db cl
      | MGet \<Rightarrow> ms_mget sv args db cl
      | MSet \<Rightarrow> ms_mset sv args cmd_str db cl
      | Rename \<Rightarrow>
          if length args \<le> 2 then None
          else
            Option.bind (shard_of sv (args ! 1)) (\<lambda>s1.
              Option.bind (shard_of sv (args ! 2)) (\<lambda>s2.
                if s1 \<noteq> s2 then Some (reply_on sv [] (\<lambda>rb. send_err rb CROSSSLOT), True, cl)
                else ms_to_shard sv s1 args db cl))
      | Global \<Rightarrow> ms_global sv args cmd_str db cl)"

definition with_files :: "file_system \<Rightarrow> service_result \<Rightarrow> (bytes \<times> bool \<times> file_system \<times> cluster) option" where
  "with_files fs r = map_option (\<lambda>(d, keep, cl). (d, keep, fs, cl)) r"

definition ms_dispatch :: "server \<Rightarrow> bytes \<Rightarrow> (file_system \<times> cluster) async_dispatcher" where
  "ms_dispatch sv io_text args db s =
     (case s of (fs, cl) \<Rightarrow>
      let err = (\<lambda>msg. Some (reply_on sv [] (\<lambda>rb. send_err rb msg), True, fs, cl)) in
      case args of
        [] \<Rightarrow> err ''empty command''
      | a # _ \<Rightarrow>
         (case expr_as_bytes a of
            None \<Rightarrow> err ''invalid command''
          | Some b \<Rightarrow>
             (case from_utf8 (ascii_upper b) of
                None \<Rightarrow> err ''invalid command encoding''
              | Some cmd_str \<Rightarrow>
                  if cmd_str = ''QUIT'' then Some (reply_on sv [] send_ok, False, fs, cl)
                  else if cmd_str = ''SAVE'' \<or> cmd_str = ''BGSAVE'' then
                    (case handle_save sv cmd_str io_text fs cl of (d, fs', cl') \<Rightarrow> Some (d, True, fs', cl'))
                  else
                    (case sv_registry sv cmd_str of
                       None \<Rightarrow> err (''unknown command '' @ [CHR 0x27] @ rt_lower (sv_rt sv) cmd_str @ [CHR 0x27]
                                 @ '', with args beginning with: '')
                     | Some e \<Rightarrow>
                         if \<not> arity_ok (ce_arity e) args then err (quoted_arity_error (rt_lower (sv_rt sv) cmd_str))
                         else with_files fs (ms_known sv args cmd_str e db cl)))))"

subsection \<open>The service and the shard threads agree\<close>

lemma ms_to_shard_executed:
  assumes "exec_task sv (unat t) args conn [] cl = Some (Some (conn', d), cl')"
  shows "ms_to_shard sv t args (conn_db conn) cl = Some (d, True, cl')"
proof -
  have eq: "\<lparr>conn_db = conn_db conn\<rparr> = conn" by simp
  show ?thesis unfolding ms_to_shard_def shard_handle_dispatch_def exec_remote_def eq assms by simp
qed

lemma no_save_entry: "build_command_registry rt ''SAVE'' = None" "build_command_registry rt ''BGSAVE'' = None"
  by (simp_all add: build_command_registry_def register_zset_def register_hash_def register_set_def register_list_def
      register_string_def register_generic_def register_all_def register_def registry_new_def generic_commands_def
      zset_commands_def hash_commands_def set_commands_def list_commands_def string_commands_def)

text \<open>The target of a command that one shard executes, or the result that needs no shard.\<close>

lemma one_shard_same:
  assumes "one_shard_command u e" and "u = ''MSETNX'' \<longrightarrow> 3 \<le> length args"
  shows "(\<exists>r. dispatch_known sv self args u e conn [] cl = r
        \<and> ms_known sv args u e (conn_db conn) cl = map_option (\<lambda>(_, d, cl'). (d, True, cl')) r)
    \<or> (\<exists>t. dispatch_known sv self args u e conn [] cl = route sv self t args conn [] cl
        \<and> ms_known sv args u e (conn_db conn) cl = ms_to_shard sv t args (conn_db conn) cl)"
  using assms(1) unfolding one_shard_command_def
proof (elim disjE conjE)
  assume "classify_command u e = SingleKey"
  then show ?thesis
    by (cases "shard_of sv (args ! unat (ce_first_key e))") (auto simp: dispatch_known_def ms_known_def)
next
  assume "classify_command u e = Rename"
  then show ?thesis
    by (cases "shard_of sv (args ! 1)"; cases "shard_of sv (args ! 2)") (auto simp: dispatch_known_def ms_known_def)
next
  assume c: "classify_command u e = MSet" "u = ''MSETNX''"
  have eq: "dispatch_known sv self args u e conn [] cl = dispatch_mset sv self args ''MSETNX'' conn [] cl"
    "ms_known sv args u e (conn_db conn) cl = ms_mset sv args ''MSETNX'' (conn_db conn) cl"
    using c by (simp_all add: dispatch_known_def ms_known_def)
  show ?thesis
  proof (cases "(length args - 1) mod 2 \<noteq> 0")
    case False
    let ?x = "common_shard sv (map fst (pairs_of (drop 1 args))) None"
    have "pairs_of (drop 1 args) \<noteq> []" using assms(2) c(2) by (simp add: pairs_of_def)
    then have "?x \<noteq> Some (Some None)" by (intro common_shard_Some) simp
    then consider "?x = None" | "?x = Some None" | t where "?x = Some (Some (Some t))"
      by (metis option.exhaust)
    then show ?thesis unfolding eq by cases (use False in \<open>auto simp: dispatch_mset_def ms_mset_def\<close>)
  qed (auto simp: eq dispatch_mset_def ms_mset_def)
qed

lemma ms_dispatch_named:
  assumes "args = R_String b # rest" and "from_utf8 (ascii_upper b) = Some u" and "u \<notin> {''QUIT'', ''SAVE'', ''BGSAVE''}"
    and "sv_registry sv u = Some e"
  shows "ms_dispatch sv io_text args db (fs, cl) =
    (if \<not> arity_ok (ce_arity e) args
     then Some (reply_on sv [] (\<lambda>rb. send_err rb (quoted_arity_error (rt_lower (sv_rt sv) u))), True, fs, cl)
     else with_files fs (ms_known sv args u e db cl))"
  unfolding ms_dispatch_def prod.case Let_def assms(1) list.case expr_as_bytes.simps option.case assms(2,4)
  using assms(3) by (simp only: insert_iff empty_iff de_Morgan_disj simp_thms if_False)

lemma service_agrees_run:
  assumes "server_ok sv" and "cluster_safe cl" and "sv_registry sv u = Some e" and "one_shard_command u e"
    and "args = R_String b # rest" and "from_utf8 (ascii_upper b) = Some u" and "u \<noteq> ''QUIT''"
    and "dispatch_command sv self args conn [] cl = Some (keep, conn', d, cl')" and "None \<notin> set (cl_shards cl')"
  shows "ms_dispatch sv io_text args (conn_db conn) (fs, cl) = Some (d, keep, fs, cl')"
proof -
  have k: "keeps_connection sv args" by (rule one_shard_keeps_connection [OF assms(1,3-6)])
  have reg: "sv_registry sv = build_command_registry (sv_rt sv)" using assms(1) by (simp add: server_ok_def)
  have s: "u \<noteq> ''SAVE''" "u \<noteq> ''BGSAVE''" using assms(3) no_save_entry [of "sv_rt sv"] by (auto simp: reg)
  then have n: "u \<notin> {''QUIT'', ''SAVE'', ''BGSAVE''}" using assms(7) by simp
  have "classify_command ''SELECT'' e = NoKeys" if "u = ''SELECT''"
    using assms(3) that by (auto simp: reg select_reset_entries classify_command_def)
  then have "u \<noteq> ''SELECT''" using assms(4) by (auto simp: one_shard_command_def)
  then have eq: "dispatch_command sv self args conn [] cl =
      (if \<not> arity_ok (ce_arity e) args
       then Some (True, conn, reply_on sv [] (\<lambda>rb. send_err rb (quoted_arity_error (rt_lower (sv_rt sv) u))), cl)
       else still_open True (dispatch_known sv self args u e conn [] cl))"
    unfolding dispatch_command_named [OF assms(5,6)] using s assms(3,7) by simp
  note ms = ms_dispatch_named [OF assms(5,6) n assms(3), of io_text "conn_db conn" fs cl]
  show ?thesis
  proof (cases "arity_ok (ce_arity e) args")
    case True
    then have dk: "dispatch_known sv self args u e conn [] cl = Some (conn', d, cl')" "keep"
      using assms(8) unfolding eq by (auto simp: still_open_def)
    have "u = ''MSETNX'' \<longrightarrow> 3 \<le> length args"
      using assms(3) True msetnx_entry [of "sv_rt sv" e] argc_le [of args] by (auto simp: reg arity_ok_def)
    from one_shard_same [OF assms(4) this, of sv self conn cl] show ?thesis
    proof (elim disjE exE conjE)
      fix r assume "dispatch_known sv self args u e conn [] cl = r"
        "ms_known sv args u e (conn_db conn) cl = map_option (\<lambda>(_, d, cl'). (d, True, cl')) r"
      then show ?thesis unfolding ms using True dk by (auto simp: with_files_def)
    next
      fix t assume r: "dispatch_known sv self args u e conn [] cl = route sv self t args conn [] cl"
        "ms_known sv args u e (conn_db conn) cl = ms_to_shard sv t args (conn_db conn) cl"
      have "exec_task sv (unat t) args conn [] cl = Some (Some (conn', d), cl')"
        by (rule route_executed [OF assms(1,2) k _ assms(9)]) (use r(1) dk(1) in simp)
      from ms_to_shard_executed [OF this] show ?thesis unfolding ms r(2) using True dk(2) by (simp add: with_files_def)
    qed
  next
    case False
    then show ?thesis using assms(8) unfolding ms eq by simp
  qed
qed

subsection \<open>One reply per command\<close>

lemma reply_value: "server_ok sv \<Longrightarrow> appends (Suc 0) f \<Longrightarrow> resp_value (reply_on sv [] f)"
  using reply_on_one [of sv f "[]"] by (simp add: one_more_def)

lemma reply_err_value: "server_ok sv \<Longrightarrow> one_line m \<Longrightarrow> resp_value (reply_on sv [] (\<lambda>rb. send_err rb m))"
  by (intro reply_value appends_err)

lemma ms_to_shard_one:
  assumes "server_ok sv" and "name_ok args" and "ms_to_shard sv t args db cl = Some (d, keep, cl')"
  shows "resp_value d"
  using assms(3) exec_remote_one [OF assms(1,2)] reply_err_value [OF assms(1), of "''shard unavailable''"]
  by (auto simp: ms_to_shard_def shard_handle_dispatch_def split: option.splits)

lemma ms_mget_one:
  assumes "server_ok sv" and "ms_mget sv args db cl = Some (d, keep, cl')"
  shows "resp_value d"
proof -
  obtain g results where g: "fan_out sv (\<lambda>kps. R_String ''MGET'' # map snd kps) db place_values (all_groups sv cl g)
      (replicate (length (drop 1 args)) None) cl = Some (results, cl')"
    "d = reply_on sv [] (\<lambda>rb. foldl send_opt (send_array_len rb (length (drop 1 args))) results)"
    using assms(2) by (auto simp: ms_mget_def Let_def bind_eq_Some_conv)
  have len: "length results = length (drop 1 args)"
    using fan_out_keeps [OF g(1), where P = "\<lambda>rs. length rs = length (drop 1 args)"] place_values_length by fastforce
  have "appends (length results) (\<lambda>rb. foldl send_opt rb results)" by (intro appends_foldl appends_opt)
  then have "appends (Suc 0) (\<lambda>rb. foldl send_opt (send_array_len rb (length results)) results)" by (rule appends_array)
  then show ?thesis using reply_value [OF assms(1)] unfolding g(2) len [symmetric] by blast
qed

lemma ms_mset_one:
  assumes "server_ok sv" and "name_ok args" and "one_line cmd" and "ms_mset sv args cmd db cl = Some (d, keep, cl')"
  shows "resp_value d"
proof -
  have "one_line (rt_lower (sv_rt sv) cmd)" using assms(1,3) by (simp add: server_ok_def runtime_ok_def)
  then have "resp_value (reply_on sv [] (\<lambda>rb. send_err rb (quoted_arity_error (rt_lower (sv_rt sv) cmd))))"
    by (intro reply_err_value assms(1)) simp
  moreover have "resp_value (reply_on sv [] (\<lambda>rb. send_err rb CROSSSLOT))"
    by (intro reply_err_value assms(1)) (simp add: CROSSSLOT_def)
  ultimately show ?thesis
    using assms(4) ms_to_shard_one [OF assms(1,2)] reply_value [OF assms(1) appends_line(1)]
    by (auto simp: ms_mset_def bind_eq_Some_conv split: if_splits option.splits)
qed

lemma ms_global_one:
  assumes "server_ok sv" and "name_ok args" and "ms_global sv args cmd db cl = Some (d, keep, cl')"
  shows "resp_value d"
proof -
  have "appends (Suc 0) (\<lambda>rb. foldl send_bulk_string (send_array_len rb (length ks)) ks)" for ks
    by (intro appends_array appends_foldl appends_bulk)
  note bulks = reply_value [OF assms(1) this]
  show ?thesis
    using assms(3) ms_to_shard_one [OF assms(1,2)] reply_value [OF assms(1) appends_int] reply_value [OF assms(1) appends_line(1)] bulks
    by (auto simp: ms_global_def Let_def split: if_splits simp del: length_concat)
qed

lemma ms_known_one:
  assumes "server_ok sv" and "name_ok args" and "one_line cmd" and "ms_known sv args cmd e db cl = Some (d, keep, cl')"
  shows "resp_value d"
proof (cases "classify_command cmd e")
  case NoKeys
  then show ?thesis using assms(4) ms_to_shard_one [OF assms(1,2)] by (simp add: ms_known_def)
next
  case SingleKey
  then show ?thesis
    using assms(4) ms_to_shard_one [OF assms(1,2)] by (auto simp: ms_known_def bind_eq_Some_conv split: if_splits)
next
  case MultiKeySameHandler
  then show ?thesis
    using assms(4) reply_value [OF assms(1) appends_int]
    by (auto simp: ms_known_def ms_multi_key_sum_def bind_eq_Some_conv split: list.splits)
next
  case MGet
  then show ?thesis using assms(4) ms_mget_one [OF assms(1)] by (simp add: ms_known_def)
next
  case MSet
  then show ?thesis using assms(4) ms_mset_one [OF assms(1-3)] by (simp add: ms_known_def)
next
  case Rename
  have "resp_value (reply_on sv [] (\<lambda>rb. send_err rb CROSSSLOT))"
    by (intro reply_err_value assms(1)) (simp add: CROSSSLOT_def)
  then show ?thesis
    using assms(4) Rename ms_to_shard_one [OF assms(1,2)] by (auto simp: ms_known_def bind_eq_Some_conv split: if_splits)
next
  case Global
  then show ?thesis using assms(4) ms_global_one [OF assms(1,2)] by (simp add: ms_known_def)
qed

lemma handle_save_one:
  assumes "server_ok sv" and "one_line io_text" and "handle_save sv cmd io_text fs cl = (d, fs', cl')"
  shows "resp_value d"
proof -
  have "one_line m" if "do_save sv io_text fs cl = (Inl m, fs1, cl1)" for m fs1 cl1
    using that assms(2) by (auto simp: do_save_def Let_def one_line_append split: prod.splits option.splits)
  then show ?thesis
    using assms(3) reply_err_value [OF assms(1)] reply_value [OF assms(1) appends_line(1)]
      reply_value [OF assms(1) appends_simple, of "''Background saving started''"]
    by (auto simp: handle_save_def Let_def split: prod.splits if_splits sum.splits)
qed

lemma ms_dispatch_one:
  assumes "server_ok sv" and "name_ok args" and "one_line io_text"
    and d: "ms_dispatch sv io_text args db (fs, cl) = Some (data, keep, fs', cl')"
  shows "resp_value data"
proof -
  note err = reply_err_value [OF assms(1)]
  have ok: "resp_value (reply_on sv [] send_ok)" by (intro reply_value assms(1) appends_line)
  show ?thesis
  proof (cases "case args of [] \<Rightarrow> None | a # _ \<Rightarrow> Option.bind (expr_as_bytes a) (\<lambda>b. from_utf8 (ascii_upper b))")
    case None
    then show ?thesis using d err by (auto simp: ms_dispatch_def Let_def split: list.splits option.splits)
  next
    case (Some u)
    then obtain b rest where a: "args = R_String b # rest" and u: "from_utf8 (ascii_upper b) = Some u"
      by (cases args) (auto simp: bind_eq_Some_conv elim: expr_as_bytes.elims)
    have line: "one_line u" "one_line (rt_lower (sv_rt sv) u)"
      using assms(1,2) a u by (auto simp: server_ok_def runtime_ok_def from_utf8_def one_line_upper split: if_splits)
    have errs: "resp_value (reply_on sv [] (\<lambda>rb. send_err rb
        (''unknown command '' @ [CHR 0x27] @ rt_lower (sv_rt sv) u @ [CHR 0x27] @ '', with args beginning with: '')))"
      "resp_value (reply_on sv [] (\<lambda>rb. send_err rb (quoted_arity_error (rt_lower (sv_rt sv) u))))"
      using line(2) by (intro err; simp add: one_line_append)+
    have eq: "ms_dispatch sv io_text args db (fs, cl) =
      (if u = ''QUIT'' then Some (reply_on sv [] send_ok, False, fs, cl)
       else if u = ''SAVE'' \<or> u = ''BGSAVE'' then
         (case handle_save sv u io_text fs cl of (d, fs', cl') \<Rightarrow> Some (d, True, fs', cl'))
       else
         (case sv_registry sv u of
            None \<Rightarrow> Some (reply_on sv [] (\<lambda>rb. send_err rb
                (''unknown command '' @ [CHR 0x27] @ rt_lower (sv_rt sv) u @ [CHR 0x27] @ '', with args beginning with: '')), True, fs, cl)
          | Some e \<Rightarrow> if \<not> arity_ok (ce_arity e) args
                     then Some (reply_on sv [] (\<lambda>rb. send_err rb (quoted_arity_error (rt_lower (sv_rt sv) u))), True, fs, cl)
                     else with_files fs (ms_known sv args u e db cl)))"
      unfolding ms_dispatch_def prod.case Let_def a list.case expr_as_bytes.simps option.case u ..
    show ?thesis
    proof (cases "u = ''QUIT'' \<or> u = ''SAVE'' \<or> u = ''BGSAVE''")
      case True
      obtain d1 fs1 cl1 where h: "handle_save sv u io_text fs cl = (d1, fs1, cl1)" by (metis prod_cases3)
      show ?thesis using True d ok handle_save_one [OF assms(1,3) h] h unfolding eq by (auto split: if_splits)
    next
      case False
      then have d': "(case sv_registry sv u of
            None \<Rightarrow> Some (reply_on sv [] (\<lambda>rb. send_err rb
                (''unknown command '' @ [CHR 0x27] @ rt_lower (sv_rt sv) u @ [CHR 0x27] @ '', with args beginning with: '')), True, fs, cl)
          | Some e \<Rightarrow> if \<not> arity_ok (ce_arity e) args
                     then Some (reply_on sv [] (\<lambda>rb. send_err rb (quoted_arity_error (rt_lower (sv_rt sv) u))), True, fs, cl)
                     else with_files fs (ms_known sv args u e db cl)) = Some (data, keep, fs', cl')"
        using d unfolding eq by simp
      show ?thesis
      proof (cases "sv_registry sv u")
        case None
        then show ?thesis using d' errs(1) by simp
      next
        case (Some e)
        then show ?thesis
          using d' errs(2) ms_known_one [OF assms(1,2) line(1)] by (cases "arity_ok (ce_arity e) args") (auto simp: with_files_def)
      qed
    qed
  qed
qed

subsection \<open>Properties\<close>

text \<open>C19: the two front ends agree. A command that one shard executes (one key, RENAME, MSETNX) gets from the
  service, for the database of the connection, the reply it gets on a connection of a shard
  thread, and leaves the cluster in the same state, as long as the shards keep running.\<close>

theorem service_agrees_with_shards:
  assumes "server_ok sv" and "cluster_safe cl" and "sv_registry sv u = Some e" and "one_shard_command u e"
    and "args = R_String b # rest" and "from_utf8 (ascii_upper b) = Some u" and "u \<noteq> ''QUIT''"
    and "dispatch_command sv self args conn [] cl = Some (keep, conn', d, cl')" and "None \<notin> set (cl_shards cl')"
  shows "ms_dispatch sv io_text args (conn_db conn) (fs, cl) = Some (d, keep, fs, cl')"
  using service_agrees_run [OF assms] .

theorem service_agrees_with_shards_witness:
  "\<exists>cl'. ms_dispatch demo_server [] [R_String ''GET'', R_String []] 0 (demo_fs, demo_cluster)
      = Some (''$-1'' @ CRLF, True, demo_fs, cl')"
proof -
  obtain cl' where r: "dispatch_command demo_server 0 [R_String ''GET'', R_String []] conn_context_new [] demo_cluster
      = Some (True, conn_context_new, ''$-1'' @ CRLF, cl')" "None \<notin> set (cl_shards cl')"
    using get_empty_run by blast
  have u: "from_utf8 (ascii_upper ''GET'') = Some ''GET''" by code_simp
  have reg: "sv_registry demo_server ''GET'' = Some (keyed_entry (''GET'', cmd_get, 2))" by (simp add: demo_server_def get_entry)
  have one: "one_shard_command ''GET'' (keyed_entry (''GET'', cmd_get, 2))" by (simp add: one_shard_command_def classify_command_def)
  have q: "''GET'' \<noteq> ''QUIT''" by simp
  have c: "conn_db conn_context_new = 0" by (simp add: conn_context_new_def)
  from service_agrees_with_shards [OF demo_server_ok demo_cluster_safe reg one refl u q r, of "[]" demo_fs] show ?thesis
    unfolding c by (rule exI)
qed

text \<open>the service answers every command, SAVE and BGSAVE included, with exactly one RESP value.\<close>

theorem service_one_reply:
  assumes "server_ok sv" and "name_ok args" and "one_line io_text"
    and "ms_dispatch sv io_text args db (fs, cl) = Some (data, keep, fs', cl')"
  shows "resp_value data"
  using ms_dispatch_one [OF assms] .

theorem service_one_reply_witness:
  "resp_value (''+OK'' @ CRLF)"
proof -
  have "from_utf8 (ascii_upper ''quit'') = Some ''QUIT''" by code_simp
  then have "ms_dispatch demo_server [] [R_String ''quit''] 0 (demo_fs, demo_cluster) = Some (''+OK'' @ CRLF, False, demo_fs, demo_cluster)"
    by (simp add: ms_dispatch_def reply_on_def send_fixed_buf)
  from service_one_reply [OF demo_server_ok _ _ this] show ?thesis by simp
qed

end
