(* ===== verification/Listener.thy ===== *)
theory Listener
  imports Main_Service
begin

text \<open>
  \<^verbatim>\<open>crates/shrikedb-facade/src/listener.rs\<close> and \<^verbatim>\<open>crates/shrikedb-bin/src/main.rs\<close>: how the server chooses the
  number of its shards and how new connections are handed to them. The results of \<^verbatim>\<open>accept\<close> are a list, an
  error being \<open>None\<close>; the environment variable and the number of processors are arguments.
\<close>

definition parse_u32 :: "bytes \<Rightarrow> u32 option" where
  "parse_u32 s = map_option of_nat (parse_unsigned (2 ^ 32) s)"

definition num_shards_setting :: "bytes option \<Rightarrow> nat option \<Rightarrow> u32" where
  "num_shards_setting env parallelism =
     max (case Option.bind env parse_u32 of
            Some n \<Rightarrow> n
          | None \<Rightarrow> (case parallelism of Some n \<Rightarrow> of_nat n | None \<Rightarrow> 4)) 1"

text \<open>
  The accept loop on the results of \<^verbatim>\<open>accept\<close>: the connections with the shard whose channel each is sent to.
  \<open>None\<close> is the panic of an index out of range.
\<close>

fun distribute_from :: "nat \<Rightarrow> nat \<Rightarrow> 'c option list \<Rightarrow> (nat \<times> 'c) list option" where
  "distribute_from num_shards next [] = Some []"
| "distribute_from num_shards next (None # rs) = distribute_from num_shards next rs"
| "distribute_from num_shards next (Some conn # rs) =
     (if next < num_shards
      then map_option ((#) (next, conn)) (distribute_from num_shards ((next + 1) mod num_shards) rs)
      else None)"

definition run_distributed :: "nat \<Rightarrow> 'c option list \<Rightarrow> (nat \<times> 'c) list option" where
  "run_distributed num_shards results = distribute_from num_shards 0 results"

text \<open>
  The address of the server. The two older accept loops spawn one task per connection and leave with the first error of
  \<^verbatim>\<open>accept\<close>; \<open>accept_loop\<close> gives the accepted connections and whether the loop has been left. The result of a run
  is the list of the spawned tasks, each waiting for the state of the dispatcher, and whether an error was returned.
\<close>

definition server_addr :: "bytes option \<Rightarrow> bytes" where
  "server_addr env = ''127.0.0.1:'' @ (case env of Some port \<Rightarrow> port | None \<Rightarrow> ''6379'')"

fun accept_loop :: "'c option list \<Rightarrow> 'c list \<times> bool" where
  "accept_loop [] = ([], False)"
| "accept_loop (None # rs) = ([], True)"
| "accept_loop (Some conn # rs) = (let (conns, failed) = accept_loop rs in (conn # conns, failed))"

definition run_sync ::
  "(i64 \<Rightarrow> bytes) \<Rightarrow> 's dispatcher \<Rightarrow> bool \<Rightarrow> tcp_stream option list
    \<Rightarrow> ('s \<Rightarrow> (connection \<times> tcp_stream \<times> 's) option) list \<times> bool" where
  "run_sync fmt dispatcher bound results =
     (if \<not> bound then ([], True)
      else let (conns, failed) = accept_loop results in (map (handle_connection_ex fmt dispatcher) conns, failed))"

definition run_async ::
  "(i64 \<Rightarrow> bytes) \<Rightarrow> 's async_dispatcher \<Rightarrow> bool \<Rightarrow> tcp_stream option list
    \<Rightarrow> ('s \<Rightarrow> (connection \<times> tcp_stream \<times> 's) option) list \<times> bool" where
  "run_async fmt dispatcher bound results =
     (if \<not> bound then ([], True)
      else let (conns, failed) = accept_loop results in (map (handle_connection_async fmt dispatcher) conns, failed))"

lemma accept_loop_eq: "accept_loop rs = (present (takeWhile (\<lambda>r. r \<noteq> None) rs), None \<in> set rs)"
  by (induction rs rule: accept_loop.induct) (simp_all add: present_def)

subsection \<open>Balance\<close>

lemma distribute_from_eq:
  assumes "0 < n"
  shows "distribute_from n (k mod n) rs = Some (map (\<lambda>(j, c). (j mod n, c)) (enumerate k (present rs)))"
proof (induction rs arbitrary: k)
  case (Cons r rs)
  have "(k mod n + 1) mod n = Suc k mod n" by (simp add: mod_Suc_eq)
  then show ?case using Cons.IH [of k] Cons.IH [of "Suc k"] assms by (cases r) (simp_all add: present_def)
qed (simp add: present_def)

lemma run_distributed_eq:
  "0 < n \<Longrightarrow> run_distributed n rs = Some (map (\<lambda>(j, c). (j mod n, c)) (enumerate 0 (present rs)))"
  using distribute_from_eq [of n 0 rs] by (simp add: run_distributed_def)

lemma load_of_shard:
  assumes "i < n"
  shows "length (filter (\<lambda>(s, c). s = i) (map (\<lambda>(j, c). (j mod n, c)) (enumerate 0 cs)))
    = (length cs + n - 1 - i) div n"
proof (induction cs rule: rev_induct)
  case (snoc c cs)
  have e: "enumerate 0 (cs @ [c]) = enumerate 0 cs @ [(length cs, c)]" by (simp add: enumerate_append_eq)
  have "(length cs + n - i) div n = (length cs + n - 1 - i) div n + (if length cs mod n = i then 1 else 0)"
  proof -
    obtain q r where l: "length cs = n * q + r" "r < n" using assms by (metis mod_less_divisor mult_div_mod_eq not_less0 gr0I)
    have m: "length cs mod n = r" using l by simp
    have h: "x div n = p" if "x = n * p + y" "y < n" for x y p using that by simp
    consider "r < i" | "r = i" | "i < r" by linarith
    then show ?thesis
    proof cases
      case 1
      have "(length cs + n - i) div n = q" by (rule h [of _ _ "r + n - i"]) (use 1 l assms in auto)
      moreover have "(length cs + n - 1 - i) div n = q" by (rule h [of _ _ "r + n - 1 - i"]) (use 1 l assms in auto)
      ultimately show ?thesis using 1 m by simp
    next
      case 2
      have "(length cs + n - i) div n = q + 1" by (rule h [of _ _ 0]) (use 2 l assms in auto)
      moreover have "(length cs + n - 1 - i) div n = q" by (rule h [of _ _ "n - 1"]) (use 2 l assms in auto)
      ultimately show ?thesis using 2 m by simp
    next
      case 3
      have "(length cs + n - i) div n = q + 1" by (rule h [of _ _ "r - i"]) (use 3 l assms in auto)
      moreover have "(length cs + n - 1 - i) div n = q + 1" by (rule h [of _ _ "r - i - 1"]) (use 3 l assms in auto)
      ultimately show ?thesis using 3 m by simp
    qed
  qed
  then show ?case using snoc assms unfolding e by (simp add: Suc_diff_Suc split: if_splits)
qed (use assms in \<open>simp add: div_less\<close>)

lemma shard_count_positive: "0 < unat (num_shards_setting env parallelism)"
proof -
  have "1 \<le> num_shards_setting env parallelism" by (simp add: num_shards_setting_def)
  then show ?thesis by (simp add: word_le_nat_alt)
qed

subsection \<open>Properties\<close>

text \<open>the older accept loops serve the connections that come before the first failing \<^verbatim>\<open>accept\<close>, and no later one, whereas the
  distributing loop serves them all.\<close>

theorem accept_error_stops_listener:
  "map (\<lambda>task. task s) (fst (run_sync fmt dispatcher True (map Some before @ None # after)))
     = map (\<lambda>conn. handle_connection_ex fmt dispatcher conn s) before
   \<and> snd (run_sync fmt dispatcher True (map Some before @ None # after))
   \<and> length (fst (run_async fmt adispatcher True (map Some before @ None # after))) = length before
   \<and> map snd (the (run_distributed (Suc n) (map Some before @ None # after))) = before @ present after"
proof -
  have t: "takeWhile (\<lambda>r. r \<noteq> None) (map Some xs @ None # after) = map Some xs" for xs :: "tcp_stream list"
    by (induction xs) simp_all
  have p: "present (map Some xs @ ys) = xs @ present ys" for xs :: "tcp_stream list" and ys
    by (induction xs) (simp_all add: present_def)
  have a: "accept_loop (map Some before @ None # after) = (before, True)"
    using p [of before "[]"] by (simp only: accept_loop_eq t) (simp add: present_def)
  have "present (map Some before @ None # after) = before @ present after" using p [of before "None # after"] by (simp add: present_def)
  then show ?thesis
    using run_distributed_eq [of "Suc n" "map Some before @ None # after"]
    by (simp add: run_sync_def run_async_def a o_def case_prod_unfold)
qed

text \<open>C36: whatever the settings say, the server has at least one shard, the accept loop never panics, every
  accepted connection is handed to exactly one existing shard, in order, and the numbers of connections
  that two shards have been given differ by at most one.\<close>

theorem listener_balanced:
  assumes "n = unat (num_shards_setting env parallelism)"
  shows "\<exists>l. run_distributed n results = Some l \<and> map snd l = present results \<and> (\<forall>(s, c) \<in> set l. s < n)
    \<and> (\<forall>i < n. \<forall>j < n. length (filter (\<lambda>(s, c). s = i) l) \<le> length (filter (\<lambda>(s, c). s = j) l) + 1)"
proof -
  let ?l = "map (\<lambda>(j, c). (j mod n, c)) (enumerate 0 (present results))"
  have n: "0 < n" using shard_count_positive assms by simp
  have "length (filter (\<lambda>(s, c). s = i) ?l) \<le> length (filter (\<lambda>(s, c). s = j) ?l) + 1" if "i < n" "j < n" for i j
  proof -
    have "(length (present results) + n - 1 - i) div n \<le> (length (present results) + n - 1 - j + n) div n"
      using that by (intro div_le_mono) simp
    then show ?thesis using n unfolding load_of_shard [OF that(1)] load_of_shard [OF that(2)] by simp
  qed
  moreover have "map snd ?l = present results"
    by (simp add: o_def case_prod_unfold)
  moreover have "\<forall>(s, c) \<in> set ?l. s < n" using n by auto
  ultimately show ?thesis using run_distributed_eq [OF n, of results] by blast
qed

theorem listener_balanced_witness:
  "run_distributed 2 [Some ''a'', None, Some ''b'', Some ''c''] = Some [(0, ''a''), (1, ''b''), (0, ''c'')]
    \<and> (\<exists>l. run_distributed 2 [Some ''a'', None, Some ''b'', Some ''c''] = Some l
      \<and> map snd l = present [Some ''a'', None, Some ''b'', Some ''c''])"
proof -
  have "2 = unat (num_shards_setting None (Some 2))"
    by (simp add: num_shards_setting_def max_def word_le_nat_alt)
  from listener_balanced [OF this, of "[Some ''a'', None, Some ''b'', Some ''c'']"] show ?thesis
    by (auto simp: run_distributed_def)
qed

end
