(* ===== verification/Key_Space.thy ===== *)
theory Key_Space
  imports Persistence
begin

text \<open>
  A calculus for the handlers that work on one key. The state of such a handler is the entry of the key
  (its value and deadline); every operation of a slice moves it from one entry to the next and leaves all
  other entries alone. The rules follow the handlers operation by operation: what the entry is
  afterwards, what the reply is, and that the handler returns when the two tables have room for the key.
  As everywhere, removing an entry needs the hypothesis that the removal is clean (\<open>tbl_removable\<close>).
\<close>

subsection \<open>The entry of a key\<close>

type_synonym cell = "(prime_value \<times> u64 option) option"

definition unexpired_cell :: "u64 \<Rightarrow> cell \<Rightarrow> cell" where
  "unexpired_cell now x = (case x of Some (v, e) \<Rightarrow> if expired_at now e then None else x | None \<Rightarrow> None)"

definition key_place :: "command_context \<Rightarrow> bytes \<Rightarrow> nat \<times> bytes" where
  "key_place ctx key = (unat (ctx_db ctx), key)"

definition cell_of :: "command_context \<Rightarrow> bytes \<Rightarrow> cell" where
  "cell_of ctx key = unexpired_cell (now_ms (slice ctx)) (ds_abs (slice ctx) (key_place ctx key))"

definition key_ready :: "command_context \<Rightarrow> bytes \<Rightarrow> bool" where
  "key_ready ctx key \<longleftrightarrow> ds_inv (slice ctx) \<and> unat (ctx_db ctx) < NUM_DBS \<and> db_removable (dbs (slice ctx) ! unat (ctx_db ctx)) key"

text \<open>The outcome of a command: the new entry of its key, nothing else changed, the reply.\<close>

definition outcome :: "command_context \<Rightarrow> bytes \<Rightarrow> cell \<Rightarrow> (reply_builder \<Rightarrow> reply_builder) \<Rightarrow> command_context \<Rightarrow> bool" where
  "outcome ctx key x f ctx' \<longleftrightarrow> ds_inv (slice ctx') \<and> ds_abs (slice ctx') = (ds_abs (slice ctx))(key_place ctx key := x)
     \<and> now_ms (slice ctx') = now_ms (slice ctx) \<and> cc_reply ctx' = f (cc_reply ctx) \<and> cc_conn ctx' = cc_conn ctx"

text \<open>
  Room for a key in a table: without the key itself, its segment holds fewer than the 72 items that fit its
  home, next and stash buckets in any case, so that an insertion does not have to grow the table.
\<close>

definition tbl_spare :: "('k, 'v) dash_table \<Rightarrow> 'k \<Rightarrow> bool" where
  "tbl_spare t k \<longleftrightarrow> item_count (segments t ! seg_id t (hash_key t k))
     < 2 * NUM_SLOTS + NUM_STASH * NUM_SLOTS + (if tbl_find t k = None then 0 else 1)"

definition fits :: "bool \<Rightarrow> ('k, 'v) dash_table \<Rightarrow> 'k \<Rightarrow> bool" where
  "fits room t k \<longleftrightarrow> tbl_removable t k \<and> (room \<longrightarrow> tbl_spare t k)"

definition key_room :: "command_context \<Rightarrow> bytes \<Rightarrow> bool" where
  "key_room ctx key \<longleftrightarrow> tbl_spare (prime (dbs (slice ctx) ! unat (ctx_db ctx))) (prime_key_new key)
     \<and> tbl_spare (expire (dbs (slice ctx) ! unat (ctx_db ctx))) (prime_key_new key)"

text \<open>
  A handler ends with the entry \<open>x\<close> and the reply \<open>f\<close>: so it does whenever it returns, and it returns when there is room.
\<close>

definition ends :: "command_context \<Rightarrow> bytes \<Rightarrow> cell \<Rightarrow> (reply_builder \<Rightarrow> reply_builder) \<Rightarrow> command_context option \<Rightarrow> bool" where
  "ends ctx key x f r \<longleftrightarrow> (\<forall>ctx'. r = Some ctx' \<longrightarrow> outcome ctx key x f ctx') \<and> (key_room ctx key \<longrightarrow> r \<noteq> None)"

text \<open>
  Where a handler stands between two operations: the entry is \<open>y\<close>; \<open>bp\<close> and \<open>be\<close> say that the key still fits
  the table of values and of deadlines.
\<close>

definition stands :: "command_context \<Rightarrow> bytes \<Rightarrow> bool \<Rightarrow> bool \<Rightarrow> cell \<Rightarrow> command_context \<Rightarrow> bool" where
  "stands ctx key bp be y c \<longleftrightarrow> outcome ctx key y (\<lambda>rb. rb) c \<and> unat (ctx_db ctx) < NUM_DBS
     \<and> (bp \<longrightarrow> fits (key_room ctx key) (prime (dbs (slice c) ! unat (ctx_db ctx))) (prime_key_new key))
     \<and> (be \<longrightarrow> fits (key_room ctx key) (expire (dbs (slice c) ! unat (ctx_db ctx))) (prime_key_new key))"

named_theorems key_rules \<open>how the operations of a slice move the entry of a key\<close>

lemma slice_set_slice [simp]: "slice (set_slice ds c) = ds" "cc_reply (set_slice ds c) = cc_reply c"
  "cc_conn (set_slice ds c) = cc_conn c" "ctx_db (set_slice ds c) = ctx_db c"
  by (simp_all add: slice_def set_slice_def ctx_db_def)

lemma stands_start: "key_ready ctx key \<Longrightarrow> stands ctx key True True (ds_abs (slice ctx) (key_place ctx key)) ctx"
  by (auto simp: stands_def outcome_def key_ready_def db_removable_def fits_def key_room_def)

lemma ends_rep [key_rules]: "stands ctx key bp be x c \<Longrightarrow> ends ctx key x f (rep f c)"
  by (auto simp: ends_def stands_def outcome_def rep_def slice_def)

text \<open>
  An operation on the database of the key that changes only its entry, from \<open>y\<close> to \<open>y'\<close>, with a result that
  satisfies \<open>Q\<close>.
\<close>

definition moves :: "bool \<Rightarrow> bytes \<Rightarrow> (db_table \<Rightarrow> ('a \<times> db_table) option) \<Rightarrow> bool \<Rightarrow> bool \<Rightarrow> cell \<Rightarrow> bool \<Rightarrow> bool \<Rightarrow> cell \<Rightarrow> ('a \<Rightarrow> bool) \<Rightarrow> bool" where
  "moves room key h bp be y bp' be' y' Q \<longleftrightarrow>
     (\<forall>db. db_inv db \<longrightarrow> db_abs db key = y \<longrightarrow> (bp \<longrightarrow> fits room (prime db) (prime_key_new key))
        \<longrightarrow> (be \<longrightarrow> fits room (expire db) (prime_key_new key))
        \<longrightarrow> (room \<longrightarrow> h db \<noteq> None)
          \<and> (\<forall>a db'. h db = Some (a, db') \<longrightarrow> db_inv db' \<and> db_abs db' = (db_abs db)(key := y')
              \<and> (bp' \<longrightarrow> fits room (prime db') (prime_key_new key)) \<and> (be' \<longrightarrow> fits room (expire db') (prime_key_new key)) \<and> Q a))"

lemma movesI:
  assumes "\<And>db. db_inv db \<Longrightarrow> db_abs db key = y \<Longrightarrow> bp \<longrightarrow> fits room (prime db) (prime_key_new key)
      \<Longrightarrow> be \<longrightarrow> fits room (expire db) (prime_key_new key) \<Longrightarrow> room \<Longrightarrow> h db \<noteq> None"
    and "\<And>db a db'. db_inv db \<Longrightarrow> db_abs db key = y \<Longrightarrow> bp \<longrightarrow> fits room (prime db) (prime_key_new key)
      \<Longrightarrow> be \<longrightarrow> fits room (expire db) (prime_key_new key) \<Longrightarrow> h db = Some (a, db')
      \<Longrightarrow> db_inv db' \<and> db_abs db' = (db_abs db)(key := y') \<and> (bp' \<longrightarrow> fits room (prime db') (prime_key_new key))
          \<and> (be' \<longrightarrow> fits room (expire db') (prime_key_new key)) \<and> Q a"
  shows "moves room key h bp be y bp' be' y' Q"
  unfolding moves_def using assms by blast

lemma ends_moves:
  assumes "stands ctx key bp be y c" and "moves (key_room ctx key) key (h (slice c)) bp be y bp' be' y' Q"
    and "\<And>a c2. stands ctx key bp' be' y' c2 \<Longrightarrow> Q a \<Longrightarrow> ends ctx key x f (k a c2)"
  shows "ends ctx key x f (on_slice c (\<lambda>ds. on_db ds (ctx_db ctx) (h ds)) k)"
proof -
  let ?n = "unat (ctx_db ctx)" and ?room = "key_room ctx key" and ?pk = "prime_key_new key"
  let ?db = "dbs (slice c) ! ?n"
  let ?to = "\<lambda>db'. set_slice ((slice c)\<lparr>dbs := (dbs (slice c))[?n := db']\<rparr>) c"
  have inv: "ds_inv (slice c)" and i: "?n < NUM_DBS" and o: "outcome ctx key y (\<lambda>rb. rb) c"
    and rem: "bp \<longrightarrow> fits ?room (prime ?db) ?pk" "be \<longrightarrow> fits ?room (expire ?db) ?pk"
    using assms(1) by (simp_all add: stands_def outcome_def)
  have len: "length (dbs (slice c)) = NUM_DBS" and db: "db_inv ?db" using inv i by (simp_all add: ds_inv_def)
  have cell: "db_abs ?db key = y"
    using o by (auto simp: outcome_def key_place_def ds_abs_def dest!: fun_cong [of _ _ "(?n, key)"])
  have mv: "?room \<longrightarrow> h (slice c) ?db \<noteq> None" "\<And>a db'. h (slice c) ?db = Some (a, db') \<Longrightarrow> db_inv db' \<and> db_abs db' = (db_abs ?db)(key := y')
      \<and> (bp' \<longrightarrow> fits ?room (prime db') ?pk) \<and> (be' \<longrightarrow> fits ?room (expire db') ?pk) \<and> Q a"
    using assms(2) db cell rem unfolding moves_def by blast+
  have eq: "on_slice c (\<lambda>ds. on_db ds (ctx_db ctx) (h ds)) k = (case h (slice c) ?db of None \<Rightarrow> None | Some (a, db') \<Rightarrow> k a (?to db'))"
    using len i by (auto simp: on_slice_def on_db_def split: option.splits)
  show ?thesis
  proof (cases "h (slice c) ?db")
    case None
    then show ?thesis using mv(1) eq by (simp add: ends_def)
  next
    case (Some p)
    obtain a db' where p: "p = (a, db')" by (cases p)
    note s = mv(2) [OF Some [unfolded p]]
    let ?ds = "(slice c)\<lparr>dbs := (dbs (slice c))[?n := db']\<rparr>"
    have "ds_abs ?ds q = ((ds_abs (slice c))((?n, key) := y')) q" for q
      using s len i by (cases q) (auto simp: ds_abs_def nth_list_update_if)
    then have "ds_abs ?ds = (ds_abs (slice c))((?n, key) := y')" by (rule ext)
    then have "stands ctx key bp' be' y' (?to db')"
      using o s i len on_db_inv [OF inv conjunct1 [OF s], of ?n] by (auto simp: stands_def outcome_def key_place_def)
    then show ?thesis using assms(3) [of "?to db'" a] s Some p eq by simp
  qed
qed

lemma stands_now: "stands ctx key bp be y c \<Longrightarrow> now_ms (slice c) = now_ms (slice ctx)"
  by (simp add: stands_def outcome_def)

subsection \<open>The operations of a slice\<close>

lemma purge_upd: "purge m now key = m(key := unexpired_cell now (m key))"
  by (auto simp: purge_def unexpired_cell_def fun_eq_iff split: option.splits)

lemma spare_room: "tbl_spare t k \<Longrightarrow> tbl_has_room t k"
  by (auto simp: tbl_spare_def tbl_has_room_def split: if_splits)

lemma seg_delete_count: "seg_delete s pos h = (kv, s') \<Longrightarrow> item_count s' = item_count s - 1"
  by (auto simp: seg_delete_def Let_def item_count_unset split: prod.splits)

lemma fits_remove:
  assumes "tbl_inv t" and "fits room t k"
  shows "fits room (snd (tbl_remove t k)) k"
proof -
  obtain old t' where r: "tbl_remove t k = (old, t')" by fastforce
  have cl: "tbl_removable t k" using assms(2) by (simp add: fits_def)
  note ri = tbl_remove_inv [OF assms(1) cl r]
  let ?h = "hash_key t k"
  have fd: "tbl_find t' k = None" using dash.find_map [OF ri(1)] ri(2) by simp
  have "tbl_spare t' k" if sp: "tbl_spare t k"
  proof (cases "seg_find (segments t ! seg_id t ?h) ?h (\<lambda>k'. k' = k)")
    case None
    then show ?thesis using r sp by (simp add: tbl_remove_def Let_def)
  next
    case (Some pos)
    obtain kv s' where d: "seg_delete (segments t ! seg_id t ?h) pos ?h = (kv, s')" by fastforce
    have t': "t' = (upd_seg t (seg_id t ?h) s')\<lparr>tbl_size := tbl_size t - 1\<rparr>"
      using r Some d by (auto simp: tbl_remove_def Let_def split: prod.splits)
    have "seg_id t ?h < length (segments t)" using tbl_invD(1) [OF assms(1)] by (simp add: tbl_safe_def seg_id_def)
    then have "segments t' ! seg_id t' (hash_key t' k) = s'"
      by (simp add: t' upd_seg_def hash_key_def seg_id_def)
    then show ?thesis using sp fd seg_delete_count [OF d] by (simp add: tbl_spare_def dash_consts split: if_splits)
  qed
  then show ?thesis using assms(2) r tbl_removable_absent [OF ri(1)] ri(2) by (simp add: fits_def)
qed

lemma fits_remove_both:
  assumes "db_inv db" and "fits room (prime db) pk" and "fits room (expire db) pk"
  shows "fits room (prime (remove_both db pk)) pk" and "fits room (expire (remove_both db pk)) pk"
  using fits_remove [OF db_invD(1) [OF assms(1)] assms(2)] fits_remove [OF db_invD(2) [OF assms(1)] assms(3)]
  by (simp_all add: remove_both_def)

lemma fits_check:
  assumes "db_inv db" and "fits room (prime db) pk" and "fits room (expire db) pk" and "check_and_expire db pk now = (b, db')"
  shows "fits room (prime db') pk" and "fits room (expire db') pk"
  using assms(4) fits_remove_both [OF assms(1-3)] assms(2,3)
  by (auto simp: check_and_expire_def split: option.splits if_splits)

lemma fits_removable: "fits room (prime db) (prime_key_new key) \<Longrightarrow> fits room (expire db) (prime_key_new key) \<Longrightarrow> db_removable db key"
  by (simp add: fits_def db_removable_def)

lemma moves_find:
  "moves room key (\<lambda>db. Some (db_find db (prime_key_new key) now)) True True y True True (unexpired_cell now y)
     (\<lambda>r. map_option fr_value r = map_option fst (unexpired_cell now y))"
proof (rule movesI)
  fix db r db' assume inv: "db_inv db" and y: "db_abs db key = y" and f: "Some (db_find db (prime_key_new key) now) = Some (r, db')"
    and "True \<longrightarrow> fits room (prime db) (prime_key_new key)" "True \<longrightarrow> fits room (expire db) (prime_key_new key)"
  then have ft: "fits room (prime db) (prime_key_new key)" "fits room (expire db) (prime_key_new key)" by simp_all
  have f': "db_find db (prime_key_new key) now = (r, db')" using f by simp
  obtain b where "check_and_expire db (prime_key_new key) now = (b, db')"
    using f' by (auto simp: db_find_def split: prod.splits if_splits)
  note fc = fits_check [OF inv ft this]
  show "db_inv db' \<and> db_abs db' = (db_abs db)(key := unexpired_cell now y) \<and> (True \<longrightarrow> fits room (prime db') (prime_key_new key))
      \<and> (True \<longrightarrow> fits room (expire db') (prime_key_new key)) \<and> map_option fr_value r = map_option fst (unexpired_cell now y)"
    using db_find_spec [OF inv fits_removable [OF ft] f'] y fc by (auto simp: purge_upd visible_purge)
qed simp

text \<open>What TTL reports of an entry that has not expired.\<close>

definition ttl_cell :: "u64 \<Rightarrow> cell \<Rightarrow> ttl_result" where
  "ttl_cell now x = (case x of None \<Rightarrow> KeyNotFound | Some (v, None) \<Rightarrow> NoExpiry | Some (v, Some d) \<Rightarrow> Expires (d - now))"

lemma moves_ttl:
  "moves room key (\<lambda>db. Some (db_ttl_ms db (prime_key_new key) now)) True True y True True (unexpired_cell now y)
     (\<lambda>r. r = ttl_cell now (unexpired_cell now y))"
proof (rule movesI)
  fix db r db' assume inv: "db_inv db" and y: "db_abs db key = y" and f: "Some (db_ttl_ms db (prime_key_new key) now) = Some (r, db')"
    and "True \<longrightarrow> fits room (prime db) (prime_key_new key)" "True \<longrightarrow> fits room (expire db) (prime_key_new key)"
  then have ft: "fits room (prime db) (prime_key_new key)" "fits room (expire db) (prime_key_new key)" by simp_all
  have f': "db_ttl_ms db (prime_key_new key) now = (r, db')" using f by simp
  note ts = db_ttl_spec [OF inv fits_removable [OF ft] f']
  have "db' = db \<or> db' = remove_both db (prime_key_new key)"
    using f' by (auto simp: db_ttl_ms_def split: if_splits option.splits)
  then have "fits room (prime db') (prime_key_new key)" "fits room (expire db') (prime_key_new key)"
    using ft fits_remove_both [OF inv ft] by auto
  moreover have "r = ttl_cell now (unexpired_cell now y)"
    using ts(3) y by (auto simp: ttl_cell_def unexpired_cell_def expired_at_def split: option.splits)
  ultimately show "db_inv db' \<and> db_abs db' = (db_abs db)(key := unexpired_cell now y) \<and> (True \<longrightarrow> fits room (prime db') (prime_key_new key))
      \<and> (True \<longrightarrow> fits room (expire db') (prime_key_new key)) \<and> r = ttl_cell now (unexpired_cell now y)"
    using ts(1,2) y by (auto simp: purge_upd)
qed simp

lemma frames: "db_insert db pk v = Some (r, db') \<Longrightarrow> expire db' = expire db" "db_add_expire db pk d = Some (u, db') \<Longrightarrow> prime db' = prime db"
  by (auto simp: db_insert_def db_add_expire_def split: if_splits)

lemma moves_insert:
  "moves room key (\<lambda>db. db_insert db (prime_key_new key) v) True be y False be (Some (v, Option.bind y snd)) (\<lambda>r. r = (y = None))"
proof (rule movesI)
  fix db assume "db_inv db" "True \<longrightarrow> fits room (prime db) (prime_key_new key)" "room"
  then obtain t' where "tbl_insert (prime db) (prime_key_new key) v = Some (tbl_map (prime db) (prime_key_new key), t')"
    using tbl_insert_total [OF db_invD(1) [of db] spare_room] by (auto simp: fits_def)
  then show "db_insert db (prime_key_new key) v \<noteq> None" by (simp add: db_insert_def)
qed (use db_insert_spec frames(1) in \<open>metis (full_types)\<close>)

lemma moves_add_expire:
  "moves room key (\<lambda>db. db_add_expire db (prime_key_new key) d) bp True (Some (v, e)) bp False (Some (v, Some d)) (\<lambda>_. True)"
proof (rule movesI)
  fix db assume "db_inv db" "True \<longrightarrow> fits room (expire db) (prime_key_new key)" "room"
  then obtain t' where "tbl_insert (expire db) (prime_key_new key) d = Some (tbl_map (expire db) (prime_key_new key), t')"
    using tbl_insert_total [OF db_invD(2) [of db] spare_room] by (auto simp: fits_def)
  then show "db_add_expire db (prime_key_new key) d \<noteq> None" by (simp add: db_add_expire_def)
next
  fix db u db' assume "db_inv db" "db_abs db key = Some (v, e)" "db_add_expire db (prime_key_new key) d = Some (u, db')"
    "bp \<longrightarrow> fits room (prime db) (prime_key_new key)"
  then show "db_inv db' \<and> db_abs db' = (db_abs db)(key \<mapsto> (v, Some d)) \<and> (bp \<longrightarrow> fits room (prime db') (prime_key_new key))
      \<and> (False \<longrightarrow> fits room (expire db') (prime_key_new key)) \<and> True"
    using db_add_expire_spec [of db key d u db'] frames(2) [of db "prime_key_new key" d u db'] by simp
qed

lemma moves_remove_expire:
  "moves room key (\<lambda>db. Some (db_remove_expire db (prime_key_new key))) bp True y bp True (map_option (\<lambda>(v, e). (v, None)) y)
     (\<lambda>r. r = (\<exists>v d. y = Some (v, Some d)))"
proof (rule movesI)
  fix db r db' assume inv: "db_inv db" and y: "db_abs db key = y" and f: "Some (db_remove_expire db (prime_key_new key)) = Some (r, db')"
    and bp: "bp \<longrightarrow> fits room (prime db) (prime_key_new key)" and "True \<longrightarrow> fits room (expire db) (prime_key_new key)"
  then have ft: "fits room (expire db) (prime_key_new key)" by simp
  have f': "db_remove_expire db (prime_key_new key) = (r, db')" using f by simp
  have "prime db' = prime db" "expire db' = snd (tbl_remove (expire db) (prime_key_new key))"
    using f' by (auto simp: db_remove_expire_def split: prod.splits)
  moreover have "tbl_removable (expire db) (prime_key_new key)" using ft by (simp add: fits_def)
  ultimately show "db_inv db' \<and> db_abs db' = (db_abs db)(key := map_option (\<lambda>(v, e). (v, None)) y)
      \<and> (bp \<longrightarrow> fits room (prime db') (prime_key_new key)) \<and> (True \<longrightarrow> fits room (expire db') (prime_key_new key))
      \<and> r = (\<exists>v d. y = Some (v, Some d))"
    using db_remove_expire_spec [OF inv _ f'] fits_remove [OF db_invD(2) [OF inv] ft] bp y by simp
qed simp

lemma moves_del:
  "moves room key (\<lambda>db. Some (db_del db (prime_key_new key))) True True y False False None (\<lambda>r. r = (y \<noteq> None))"
  by (rule movesI) (use db_del_spec fits_removable in fastforce)+

lemma stands_db: "stands ctx key bp be y c \<Longrightarrow> ctx_db c = ctx_db ctx"
  by (simp add: stands_def outcome_def ctx_db_def)

text \<open>The rules for the handlers.\<close>

lemma ends_find:
  assumes "stands ctx key True True y c" and "i = ctx_db ctx"
    and "\<And>r c2. stands ctx key True True (unexpired_cell (now_ms (slice ctx)) y) c2 \<Longrightarrow>
      map_option fr_value r = map_option fst (unexpired_cell (now_ms (slice ctx)) y) \<Longrightarrow> ends ctx key x f (k r c2)"
  shows "ends ctx key x f (on_slice c (\<lambda>ds. ds_find ds i key) k)"
  unfolding ds_find_def assms(2)
  by (rule ends_moves [where h = "\<lambda>ds db. Some (db_find db (prime_key_new key) (now_ms ds))", OF assms(1) moves_find]) (simp_all only: stands_now [OF assms(1)] assms(3))

lemma ends_exists:
  assumes "stands ctx key True True y c" and "i = ctx_db ctx"
    and "\<And>c2. stands ctx key True True (unexpired_cell (now_ms (slice ctx)) y) c2 \<Longrightarrow>
      ends ctx key x f (k (unexpired_cell (now_ms (slice ctx)) y \<noteq> None) c2)"
  shows "ends ctx key x f (on_slice c (\<lambda>ds. ds_exists ds i key) k)"
proof -
  have "on_slice c (\<lambda>ds. ds_exists ds i key) k = on_slice c (\<lambda>ds. ds_find ds i key) (\<lambda>r. k (r \<noteq> None))"
    by (auto simp: on_slice_def ds_exists_def split: option.splits)
  moreover have "ends ctx key x f (on_slice c (\<lambda>ds. ds_find ds i key) (\<lambda>r. k (r \<noteq> None)))"
  proof (rule ends_find [OF assms(1,2)])
    fix r c2 assume s: "stands ctx key True True (unexpired_cell (now_ms (slice ctx)) y) c2"
      and r: "map_option fr_value r = map_option fst (unexpired_cell (now_ms (slice ctx)) y)"
    have "(r \<noteq> None) = (unexpired_cell (now_ms (slice ctx)) y \<noteq> None)" using r by (metis option.map_disc_iff)
    then show "ends ctx key x f (k (r \<noteq> None) c2)" using assms(3) [OF s] by simp
  qed
  ultimately show ?thesis by simp
qed

lemma ends_ttl:
  assumes "stands ctx key True True y c" and "i = ctx_db ctx"
    and "\<And>c2. stands ctx key True True (unexpired_cell (now_ms (slice ctx)) y) c2 \<Longrightarrow>
      ends ctx key x f (k (ttl_cell (now_ms (slice ctx)) (unexpired_cell (now_ms (slice ctx)) y)) c2)"
  shows "ends ctx key x f (on_slice c (\<lambda>ds. ttl_ms ds i key) k)"
  unfolding ttl_ms_def assms(2)
  by (rule ends_moves [where h = "\<lambda>ds db. Some (db_ttl_ms db (prime_key_new key) (now_ms ds))", OF assms(1) moves_ttl]) (simp_all only: stands_now [OF assms(1)] assms(3))

lemma ends_insert:
  assumes "stands ctx key True be y c" and "i = ctx_db ctx"
    and "\<And>c2. stands ctx key False be (Some (v, Option.bind y snd)) c2 \<Longrightarrow> ends ctx key x f (k (y = None) c2)"
  shows "ends ctx key x f (on_slice c (\<lambda>ds. add_or_update ds i key v) k)"
  unfolding add_or_update_def assms(2)
  by (rule ends_moves [where h = "\<lambda>_ db. db_insert db (prime_key_new key) v", OF assms(1) moves_insert]) (simp_all only: assms(3))

lemma ends_add_expire:
  assumes "stands ctx key bp True (Some (v, e)) c" and "i = ctx_db ctx"
    and "\<And>c2. stands ctx key bp False (Some (v, Some (d (slice c)))) c2 \<Longrightarrow> ends ctx key x f (k () c2)"
  shows "ends ctx key x f (on_slice c (\<lambda>ds. add_expire ds i key (d ds)) k)"
  unfolding add_expire_def assms(2)
  by (rule ends_moves [where h = "\<lambda>ds db. db_add_expire db (prime_key_new key) (d ds)", OF assms(1) moves_add_expire]) (simp add: assms(3))

lemma ends_remove_expire:
  assumes "stands ctx key bp True y c" and "i = ctx_db ctx"
    and "\<And>c2. stands ctx key bp True (map_option (\<lambda>(v, e). (v, None)) y) c2 \<Longrightarrow> ends ctx key x f (k (\<exists>v d. y = Some (v, Some d)) c2)"
  shows "ends ctx key x f (on_slice c (\<lambda>ds. remove_expire ds i key) k)"
  unfolding remove_expire_def assms(2)
  by (rule ends_moves [where h = "\<lambda>_ db. Some (db_remove_expire db (prime_key_new key))", OF assms(1) moves_remove_expire]) (simp_all only: assms(3))

lemma ends_del:
  assumes "stands ctx key True True y c" and "i = ctx_db ctx"
    and "\<And>c2. stands ctx key False False None c2 \<Longrightarrow> ends ctx key x f (k (y \<noteq> None) c2)"
  shows "ends ctx key x f (on_slice c (\<lambda>ds. ds_del ds i key) k)"
  unfolding ds_del_def assms(2)
  by (rule ends_moves [where h = "\<lambda>_ db. Some (db_del db (prime_key_new key))", OF assms(1) moves_del]) (simp_all only: assms(3))

text \<open>The lookup of a string: a missing key, a string, or another type.\<close>

definition string_of :: "cell \<Rightarrow> bytes option" where
  "string_of x = map_option (\<lambda>(v, e). value_as_bytes v) x"

definition wrong_type :: "cell \<Rightarrow> bool" where
  "wrong_type x \<longleftrightarrow> (\<exists>v e. x = Some (v, e) \<and> \<not> is_string v)"

lemma ends_find_string:
  assumes "stands ctx key True True y c" and "z = unexpired_cell (now_ms (slice ctx)) y"
    and "\<And>c2. stands ctx key True True z c2 \<Longrightarrow> \<not> wrong_type z \<Longrightarrow> ends ctx key x f (k (string_of z) c2)"
    and "wrong_type z \<Longrightarrow> x = z \<and> f = (\<lambda>rb. send_wrong_type rb [])"
  shows "ends ctx key x f (find_string c key k)"
  unfolding find_string_def
proof (rule ends_find [OF assms(1)])
  show "ctx_db c = ctx_db ctx" by (rule stands_db [OF assms(1)])
  fix r c2 assume s: "stands ctx key True True (unexpired_cell (now_ms (slice ctx)) y) c2"
    and r: "map_option fr_value r = map_option fst (unexpired_cell (now_ms (slice ctx)) y)"
  have s': "stands ctx key True True z c2" using s assms(2) by simp
  show "ends ctx key x f (case r of None \<Rightarrow> k None c2
      | Some fr \<Rightarrow> if is_string (fr_value fr) then k (Some (value_as_bytes (fr_value fr))) c2 else rep_wrong_type c2)"
  proof (cases r)
    case None
    then have "z = None" using r assms(2) by simp
    then show ?thesis using None assms(3) [OF s'] by (simp add: wrong_type_def string_of_def)
  next
    case (Some fr)
    then obtain e where z: "z = Some (fr_value fr, e)" using r unfolding assms(2) [symmetric] by (cases z) auto
    show ?thesis
      using assms(3) [OF s'] assms(4) ends_rep [OF s', of "\<lambda>rb. send_wrong_type rb []"] Some z
      by (auto simp: wrong_type_def string_of_def rep_wrong_type_def)
  qed
qed

subsection \<open>Editing a value in place\<close>

text \<open>Writing a value through a reference moves nothing: keys, fingerprints and stash pointers stay.\<close>

lemma set_value_frame:
  "\<exists>w. buckets (seg_set_value s pos v) ! j = (buckets s ! j)\<lparr>vals := w\<rparr>"
proof (cases "j = bucket_idx pos \<and> j < length (buckets s)")
  case True
  then show ?thesis by (auto simp: seg_set_value_def upd_bucket_def set_value_def)
next
  case False
  then have "buckets (seg_set_value s pos v) ! j = buckets s ! j"
    by (cases "j = bucket_idx pos") (simp_all add: seg_set_value_def upd_bucket_def list_update_beyond)
  then show ?thesis by (intro exI [of _ "vals (buckets s ! j)"]) simp
qed

lemma vals_irrelevant [simp]:
  "key_matches eq (b\<lparr>vals := w\<rparr>) = key_matches eq b" "find_matching (b\<lparr>vals := w\<rparr>) = find_matching b"
  "has_stash (b\<lparr>vals := w\<rparr>) = has_stash b" "has_stash_overflow (b\<lparr>vals := w\<rparr>) = has_stash_overflow b"
  by (simp_all add: fun_eq_iff key_matches_def bucket_key_def find_matching_def has_stash_def has_stash_overflow_def)

lemma unset_vals: "fst (unset_stash_ptr (b\<lparr>vals := w\<rparr>) fp p) = fst (unset_stash_ptr b fp p)"
  by (simp add: unset_stash_ptr_def split: option.split)

lemma find_set_value:
  fixes s :: "('k, 'v) segment"
  shows "seg_find (seg_set_value s pos v) h eq = seg_find s h eq"
    and "next_clean (seg_set_value s pos v) q h = next_clean s q h"
proof -
  define s' where "s' = seg_set_value s pos v"
  have b: "\<exists>w. buckets s' ! j = (buckets s ! j)\<lparr>vals := w\<rparr>" for j
    unfolding s'_def by (rule set_value_frame)
  have k: "key_matches eq (buckets s' ! j) = key_matches eq (buckets s ! j)" "find_matching (buckets s' ! j) = find_matching (buckets s ! j)"
    "has_stash (buckets s' ! j) = has_stash (buckets s ! j)" "has_stash_overflow (buckets s' ! j) = has_stash_overflow (buckets s ! j)"
    "stash_busy (buckets s' ! j) = stash_busy (buckets s ! j)" "stash_fps (buckets s' ! j) = stash_fps (buckets s ! j)"
    "stash_probe_mask (buckets s' ! j) = stash_probe_mask (buckets s ! j)" "stash_pos (buckets s' ! j) = stash_pos (buckets s ! j)"
    "fingerprints (buckets s' ! j) = fingerprints (buckets s ! j)" "slots (buckets s' ! j) = slots (buckets s ! j)"
    "fst (unset_stash_ptr (buckets s' ! j) fp p) = fst (unset_stash_ptr (buckets s ! j) fp p)" for j fp p
    using b [of j] by (auto simp: unset_vals)
  have f: "find_in_bucket s' j fp probe eq = find_in_bucket s j fp probe eq" for j fp probe
    by (simp add: find_in_bucket_def k Let_def)
  have l: "stash_ptr_loop s' (buckets s' ! j) fp probe eq js = stash_ptr_loop s (buckets s ! j) fp probe eq js" for j fp probe js
    by (induction js) (simp_all add: k Let_def split: option.split)
  have sc: "stash_scan s' fp eq js = stash_scan s fp eq js" for fp js
    by (induction js) (simp_all add: f split: option.split)
  show "seg_find (seg_set_value s pos v) h eq = seg_find s h eq"
    unfolding s'_def [symmetric] by (simp add: seg_find_def f k sc l find_in_stash_via_ptrs_def Let_def cong: option.case_cong if_cong)
  show "next_clean (seg_set_value s pos v) q h = next_clean s q h"
    unfolding s'_def [symmetric] by (simp add: next_clean_def k cong: option.case_cong if_cong)
qed

lemma set_value_count: "item_count (seg_set_value s pos v) = item_count s"
  by (simp add: seg_set_value_def)

lemma fits_find_mut:
  assumes "tbl_inv t" and "tbl_find_mut t k f = Some t'"
  shows "fits room t' k \<longleftrightarrow> fits room t k"
proof -
  let ?h = "hash_key t k"
  let ?sid = "seg_id t ?h"
  obtain pos v where p: "t' = upd_seg t ?sid (seg_set_value (segments t ! ?sid) pos v)"
    using assms(2) by (auto simp: tbl_find_mut_def Let_def split: option.splits)
  have same: "hash_key t' k = ?h" "seg_id t' ?h = ?sid" by (simp_all add: p upd_seg_def hash_key_def seg_id_def)
  have sid: "seg_id t' (hash_key t' k) = ?sid" using same by simp
  have "?sid < length (segments t)" using tbl_invD(1) [OF assms(1)] by (simp add: tbl_safe_def seg_id_def)
  then have "segments t' ! ?sid = seg_set_value (segments t ! ?sid) pos v" by (simp add: p upd_seg_def)
  then have "tbl_removable t' k \<longleftrightarrow> tbl_removable t k" "item_count (segments t' ! ?sid) = item_count (segments t ! ?sid)"
    unfolding tbl_removable_def Let_def same by (simp_all add: find_set_value set_value_count cong: option.case_cong)
  moreover have "tbl_find t' k \<noteq> None" "tbl_find t k \<noteq> None"
    using tbl_find_mut_inv(2) [OF assms] dash.find_map [of t k] dash.find_map [of t' k] assms(1) by auto
  ultimately show ?thesis by (auto simp: fits_def tbl_spare_def same)
qed

lemma moves_find_mut:
  assumes "z = unexpired_cell now y"
  shows "moves room key (\<lambda>db. Some (db_find_mut db (prime_key_new key) now (\<lambda>fr. g (fr_value fr)))) True True y True True
    (map_option (\<lambda>(v, e). (fst (g v), e)) z) (\<lambda>r. r = map_option (\<lambda>(v, e). snd (g v)) z)"
proof (rule movesI)
  let ?k = "prime_key_new key"
  fix db r db' assume inv: "db_inv db" and y: "db_abs db key = y"
    and f: "Some (db_find_mut db ?k now (\<lambda>fr. g (fr_value fr))) = Some (r, db')"
    and "True \<longrightarrow> fits room (prime db) ?k" "True \<longrightarrow> fits room (expire db) ?k"
  then have ft: "fits room (prime db) ?k" "fits room (expire db) ?k" by simp_all
  obtain b db1 where c: "check_and_expire db ?k now = (b, db1)" by fastforce
  note ce = check_and_expire_spec [OF inv fits_removable [OF ft] c]
  note ft1 = fits_check [OF inv ft c]
  have z: "db_abs db1 key = z" "db_abs db1 = (db_abs db)(key := z)" using ce(2) y assms by (simp_all add: purge_upd)
  have b: "b \<Longrightarrow> z = None" using ce(3) y assms by (auto simp: unexpired_cell_def)
  show "db_inv db' \<and> db_abs db' = (db_abs db)(key := map_option (\<lambda>(v, e). (fst (g v), e)) z) \<and> (True \<longrightarrow> fits room (prime db') ?k)
      \<and> (True \<longrightarrow> fits room (expire db') ?k) \<and> r = map_option (\<lambda>(v, e). snd (g v)) z"
  proof (cases z)
    case None
    then have "tbl_find (prime db1) ?k = None"
      using z(1) dash.find_map [OF db_invD(1) [OF ce(1)], of ?k] db_abs_None [of db1 key] by simp
    then have "r = None \<and> db' = db1" using f c by (auto simp: db_find_mut_def Let_def split: if_splits)
    then show ?thesis using None ce(1) ft1 z by simp
  next
    case (Some ve)
    obtain v e where ve: "ve = (v, e)" by (cases ve)
    have v: "tbl_map (prime db1) ?k = Some v" "tbl_map (expire db1) ?k = e" using z(1) Some ve by (simp_all add: db_abs_Some)
    have nb: "\<not> b" using b Some by auto
    have fd: "tbl_find (prime db1) ?k = Some v" using v dash.find_map [OF db_invD(1) [OF ce(1)]] by simp
    have "tbl_find_mut (prime db1) ?k (\<lambda>_. fst (g v)) \<noteq> None"
      using tbl_find_mut_inv(1) [OF db_invD(1) [OF ce(1)]] v by simp
    then obtain p where p: "tbl_find_mut (prime db1) ?k (\<lambda>_. fst (g v)) = Some p" by blast
    note pm = tbl_find_mut_inv(2) [OF db_invD(1) [OF ce(1)] p]
    have db': "db' = db1\<lparr>prime := p\<rparr>" "r = Some (snd (g v))"
      using f c nb fd p by (auto simp: db_find_mut_def Let_def split_def)
    have "db_inv db'" using ce(1) pm unfolding db'(1) db_inv_def by auto
    moreover have "db_abs db' key' = ((db_abs db1)(key \<mapsto> (fst (g v), e))) key'" for key'
      using pm v unfolding db'(1) db_abs_def by auto
    then have "db_abs db' = (db_abs db)(key \<mapsto> (fst (g v), e))" using z(2) by (auto simp: fun_eq_iff)
    moreover have "fits room (prime db') ?k" "fits room (expire db') ?k"
      using fits_find_mut [OF db_invD(1) [OF ce(1)] p] ft1 by (simp_all add: db'(1))
    ultimately show ?thesis using Some ve db'(2) by simp
  qed
qed simp


lemma ends_find_mut:
  assumes "stands ctx key True True y c" and "i = ctx_db ctx" and "z = unexpired_cell (now_ms (slice ctx)) y"
    and "\<And>c2. stands ctx key True True (map_option (\<lambda>(v, e). (fst (g v), e)) z) c2 \<Longrightarrow>
      ends ctx key x f (k (map_option (\<lambda>(v, e). snd (g v)) z) c2)"
  shows "ends ctx key x f (on_slice c (\<lambda>ds. ds_find_mut ds i key (\<lambda>fr. g (fr_value fr))) k)"
  unfolding ds_find_mut_def assms(2)
proof (rule ends_moves [where h = "\<lambda>ds db. Some (db_find_mut db (prime_key_new key) (now_ms ds) (\<lambda>fr. g (fr_value fr)))",
      OF assms(1) moves_find_mut])
  show "z = unexpired_cell (now_ms (slice c)) y" using assms(3) stands_now [OF assms(1)] by simp
qed (simp only: assms(4))
text \<open>The shapes of the handlers.\<close>

lemma ends_read_value:
  assumes "stands ctx key True True y c" and "z = unexpired_cell (now_ms (slice ctx)) y"
    and "\<And>c2 v e a. stands ctx key True True z c2 \<Longrightarrow> z = Some (v, e) \<Longrightarrow> sel v = Some a \<Longrightarrow> ends ctx key x f (found a c2)"
    and "\<And>c2. stands ctx key True True z c2 \<Longrightarrow> z = None \<Longrightarrow> ends ctx key x f (absent c2)"
    and "\<And>v e. z = Some (v, e) \<Longrightarrow> sel v = None \<Longrightarrow> x = z \<and> f = (\<lambda>rb. send_wrong_type rb [])"
  shows "ends ctx key x f (read_value key sel found absent c)"
  unfolding read_value_def
proof (rule ends_find [OF assms(1) stands_db [OF assms(1)]])
  fix r c2 assume s: "stands ctx key True True (unexpired_cell (now_ms (slice ctx)) y) c2"
    and r: "map_option fr_value r = map_option fst (unexpired_cell (now_ms (slice ctx)) y)"
  have s': "stands ctx key True True z c2" and r': "map_option fr_value r = map_option fst z" using s r assms(2) by simp_all
  show "ends ctx key x f (case r of None \<Rightarrow> absent c2
      | Some fr \<Rightarrow> (case sel (fr_value fr) of None \<Rightarrow> rep_wrong_type c2 | Some a \<Rightarrow> found a c2))"
  proof (cases r)
    case None
    then show ?thesis using assms(4) [OF s'] r' by simp
  next
    case (Some fr)
    then obtain e where z: "z = Some (fr_value fr, e)" using r' by (cases z) auto
    show ?thesis
      using assms(3) [OF s' z] assms(5) [OF z] ends_rep [OF s', of "\<lambda>rb. send_wrong_type rb []"] Some
      by (auto simp: rep_wrong_type_def split: option.split)
  qed
qed

lemma ends_edit_value:
  assumes "stands ctx key True True y c" and "z = unexpired_cell (now_ms (slice ctx)) y"
    and "\<And>c2 v e a v'. z = Some (v, e) \<Longrightarrow> g v = Some (a, v') \<Longrightarrow> stands ctx key True True (Some (v', e)) c2 \<Longrightarrow> ends ctx key x f (found a c2)"
    and "\<And>c2. z = None \<Longrightarrow> stands ctx key True True None c2 \<Longrightarrow> ends ctx key x f (absent c2)"
    and "\<And>v e. z = Some (v, e) \<Longrightarrow> g v = None \<Longrightarrow> x = z \<and> f = (\<lambda>rb. send_wrong_type rb [])"
  shows "ends ctx key x f (edit_value key g found absent c)"
  unfolding edit_value_def
proof (rule ends_find_mut [where g = "\<lambda>v. case g v of None \<Rightarrow> (v, None) | Some (a, v') \<Rightarrow> (v', Some a)", OF assms(1) stands_db [OF assms(1)] assms(2)])
  let ?g = "\<lambda>v. case g v of None \<Rightarrow> (v, None) | Some (a, v') \<Rightarrow> (v', Some a)"
  fix c2 assume s: "stands ctx key True True (map_option (\<lambda>(v, e). (fst (?g v), e)) z) c2"
  show "ends ctx key x f (case map_option (\<lambda>(v, e). snd (?g v)) z of None \<Rightarrow> absent c2 | Some None \<Rightarrow> rep_wrong_type c2 | Some (Some a) \<Rightarrow> found a c2)"
  proof (cases z)
    case None
    then show ?thesis using assms(4) s by simp
  next
    case (Some ve)
    then obtain v e where z: "z = Some (v, e)" by (cases ve) auto
    show ?thesis
    proof (cases "g v")
      case None
      then have "stands ctx key True True z c2" using s z by simp
      then show ?thesis using assms(5) [OF z None] None z ends_rep [of ctx key True True z c2 "\<lambda>rb. send_wrong_type rb []"]
        by (simp add: rep_wrong_type_def)
    next
      case (Some av)
      then show ?thesis using assms(3) [OF z, of "fst av" "snd av" c2] s z by (cases av) simp
    qed
  qed
qed

lemma stands_weaken: "stands ctx key bp be y c \<Longrightarrow> stands ctx key False False y c"
  by (simp add: stands_def)

lemma ends_upsert:
  assumes "stands ctx key True True y c" and "z = unexpired_cell (now_ms (slice ctx)) y"
    and "\<And>c2 v e a v'. z = Some (v, e) \<Longrightarrow> g v = Some (a, v') \<Longrightarrow> stands ctx key False False (Some (v', e)) c2 \<Longrightarrow> ends ctx key x f (k a c2)"
    and "\<And>c2. z = None \<Longrightarrow> stands ctx key False False (Some (snd fresh, None)) c2 \<Longrightarrow> ends ctx key x f (k (fst fresh) c2)"
    and "\<And>v e. z = Some (v, e) \<Longrightarrow> g v = None \<Longrightarrow> x = z \<and> f = (\<lambda>rb. send_wrong_type rb [])"
  shows "ends ctx key x f (upsert key g fresh k c)"
  unfolding upsert_def
proof (rule ends_edit_value [OF assms(1,2) _ _ assms(5)])
  fix c2 assume z: "z = None" and s: "stands ctx key True True None c2"
  show "ends ctx key x f (on_slice c2 (\<lambda>ds. add_or_update ds (ctx_db c2) key (snd fresh)) (\<lambda>_. k (fst fresh)))"
    by (rule ends_insert [OF s stands_db [OF s]]) (use assms(4) [OF z] stands_weaken in simp)
qed (use assms(3) stands_weaken in blast)+

lemma rep_drop: "Option.bind (rep g c) (drop_if b key) = Option.bind (drop_if b key c) (rep g)"
  by (auto simp: rep_def drop_if_def on_slice_def slice_def set_slice_def ctx_db_def split: option.splits)

lemma ends_drop:
  assumes "stands ctx key True True y c" and "x = (if b then None else y)"
  shows "ends ctx key x f (Option.bind (drop_if b key c) (rep f))"
proof (cases b)
  case True
  have "ends ctx key x f (on_slice c (\<lambda>ds. ds_del ds (ctx_db c) key) (\<lambda>_. rep f))"
    by (rule ends_del [OF assms(1) stands_db [OF assms(1)]]) (use assms(2) True ends_rep in simp)
  moreover have "Option.bind (drop_if b key c) (rep f) = on_slice c (\<lambda>ds. ds_del ds (ctx_db c) key) (\<lambda>_. rep f)"
    using True by (auto simp: drop_if_def on_slice_def split: option.splits)
  ultimately show ?thesis by simp
next
  case False
  then show ?thesis using ends_rep [OF assms(1), of f] assms(2) by (simp add: drop_if_def)
qed

lemma rep_array_eq: "rep_array ds = rep (\<lambda>rb. foldl send_bulk_string (send_array_len rb (length ds)) ds)"
  by (simp add: fun_eq_iff rep_array_def rep_array_len_def rep_bulks_def rep_def)


end
