(* ===== verification/Key_Commands.thy ===== *)
theory Key_Commands
  imports Key_Space
begin

text \<open>
  What the commands with one key mean: abstract specifications over the entry of the key (its value and
  deadline, if it has not expired), and the proofs that the handlers implement them on every branch.
\<close>

subsection \<open>What the commands mean\<close>

text \<open>SET: whether the conditions let it store, the deadline it sets, and its reply.\<close>

definition set_allowed :: "set_opts \<Rightarrow> cell \<Rightarrow> bool" where
  "set_allowed so old \<longleftrightarrow> \<not> (so_nx so \<and> old \<noteq> None) \<and> \<not> (so_xx so \<and> old = None)"

definition set_deadline :: "set_opts \<Rightarrow> u64 \<Rightarrow> cell \<Rightarrow> u64 option" where
  "set_deadline so now old =
     (case so_expire so of
        Some ms \<Rightarrow> Some (if so_absolute so then ms else now + ms)
      | None \<Rightarrow> if so_keep_ttl so then Option.bind old snd else None)"

definition send_old :: "cell \<Rightarrow> reply_builder \<Rightarrow> reply_builder" where
  "send_old x rb = (case string_of x of Some d \<Rightarrow> send_bulk_string rb d | None \<Rightarrow> send_null rb)"

definition set_cell :: "set_opts \<Rightarrow> u64 \<Rightarrow> bytes \<Rightarrow> cell \<Rightarrow> cell" where
  "set_cell so now v old =
     (if so_get so \<and> wrong_type old \<or> \<not> set_allowed so old then old else Some (from_bytes v, set_deadline so now old))"

definition set_reply :: "set_opts \<Rightarrow> cell \<Rightarrow> reply_builder \<Rightarrow> reply_builder" where
  "set_reply so old rb =
     (if so_get so \<and> wrong_type old then send_wrong_type rb []
      else if so_xx so \<and> old = None then send_null rb
      else if so_get so then send_old old rb
      else if set_allowed so old then send_ok rb
      else send_null rb)"

text \<open>INCR and its relatives: the number of the entry, 0 for a missing key, plus the increment, if both are in range.\<close>

definition incr_result :: "i64 \<Rightarrow> cell \<Rightarrow> bytes + int" where
  "incr_result delta old =
     (case (case old of None \<Rightarrow> Some 0 | Some (v, e) \<Rightarrow> as_integer v) of
        None \<Rightarrow> Inl ERR_INT
      | Some n \<Rightarrow>
          if - (2 ^ 63) \<le> sint n + sint delta \<and> sint n + sint delta < 2 ^ 63 then Inr (sint n + sint delta)
          else Inl ''increment or decrement would overflow'')"

definition incr_cell :: "i64 \<Rightarrow> cell \<Rightarrow> cell" where
  "incr_cell delta old =
     (case incr_result delta old of Inl _ \<Rightarrow> old | Inr s \<Rightarrow> Some (PV_Integer (word_of_int s), Option.bind old snd))"

definition incr_reply :: "i64 \<Rightarrow> cell \<Rightarrow> reply_builder \<Rightarrow> reply_builder" where
  "incr_reply delta old rb =
     (case incr_result delta old of Inl msg \<Rightarrow> send_err rb msg | Inr s \<Rightarrow> send_integer rb (word_of_int s))"

text \<open>EXPIRE and PEXPIRE: no entry, or the entry with the new deadline, or none where the time is not positive.\<close>

definition expire_cell :: "u64 \<Rightarrow> i64 \<Rightarrow> u64 \<Rightarrow> cell \<Rightarrow> cell" where
  "expire_cell now secs multiplier old =
     (if sint secs \<le> 0 then None else map_option (\<lambda>(v, e). (v, Some (now + secs * multiplier))) old)"

definition expireat_cell :: "u64 \<Rightarrow> u64 \<Rightarrow> cell \<Rightarrow> cell" where
  "expireat_cell now deadline old =
     (if deadline \<le> now then None else map_option (\<lambda>(v, e). (v, Some deadline)) old)"

definition found_reply :: "cell \<Rightarrow> reply_builder \<Rightarrow> reply_builder" where
  "found_reply old rb = send_integer rb (if old = None then 0 else 1)"

lemma unexpired_idem [simp]: "unexpired_cell now (unexpired_cell now y) = unexpired_cell now y"
  by (auto simp: unexpired_cell_def split: option.splits)

lemma rep_old_eq: "rep_old (string_of x) = rep (send_old x)"
  by (auto simp: rep_old_def rep_bulk_def send_old_def fun_eq_iff rep_def split: option.splits)

lemma ends_set_expiry:
  assumes "stands ctx key False True (Some (w, e)) c" and "i = ctx_db ctx" and "oe = (if so_keep_ttl so then e else None)"
    and "\<And>c2. stands ctx key False False (Some (w, case so_expire so of Some ms \<Rightarrow> Some (if so_absolute so then ms else now_ms (slice ctx) + ms)
        | None \<Rightarrow> oe)) c2 \<Longrightarrow> ends ctx key x f (k () c2)"
  shows "ends ctx key x f (on_slice c (set_expiry i key so oe) k)"
proof -
  have now: "now_ms (slice c) = now_ms (slice ctx)" by (rule stands_now [OF assms(1)])
  consider ms where "so_expire so = Some ms" | d where "so_expire so = None" "oe = Some d"
    | "so_expire so = None" "oe = None" "so_keep_ttl so" | "so_expire so = None" "oe = None" "\<not> so_keep_ttl so" by fastforce
  then show ?thesis
  proof cases
    case (1 ms)
    have "ends ctx key x f (on_slice c (\<lambda>ds. add_expire ds i key (if so_absolute so then ms else now_ms ds + ms)) k)"
      by (rule ends_add_expire [OF assms(1,2)]) (use assms(4) 1 now in \<open>simp cong: if_cong\<close>)
    then show ?thesis using 1 by (simp add: set_expiry_def [abs_def])
  next
    case (2 d)
    have "ends ctx key x f (on_slice c (\<lambda>ds. add_expire ds i key d) k)"
      by (rule ends_add_expire [OF assms(1,2)]) (use assms(4) 2 in simp)
    then show ?thesis using 2 by (simp add: set_expiry_def [abs_def])
  next
    case 3
    have "stands ctx key False False (Some (w, None)) c" using assms(1,3) 3 by (simp add: stands_def)
    moreover have "on_slice c (\<lambda>ds. Some ((), ds)) k = k () c" by (simp add: on_slice_def set_slice_def slice_def)
    ultimately show ?thesis using 3 assms(4) [of c] by (simp add: set_expiry_def [abs_def])
  next
    case 4
    have "ends ctx key x f (on_slice c (\<lambda>ds. remove_expire ds i key) (\<lambda>_. k ()))"
      by (rule ends_remove_expire [OF assms(1,2)]) (use assms(4) [OF stands_weaken] 4 in simp)
    moreover have "on_slice c (\<lambda>ds. map_option (\<lambda>(_, ds'). ((), ds')) (remove_expire ds i key)) k = on_slice c (\<lambda>ds. remove_expire ds i key) (\<lambda>_. k ())"
      by (auto simp: on_slice_def split: option.splits)
    ultimately show ?thesis using 4 by (simp add: set_expiry_def [abs_def])
  qed
qed

lemma ends_set_store:
  assumes "stands ctx key True True old c" and "oe = (if so_keep_ttl so then Option.bind old snd else None)"
  shows "ends ctx key (Some (from_bytes v, set_deadline so (now_ms (slice ctx)) old))
    (\<lambda>rb. if so_get so then send_old x rb else send_ok rb) (set_store key v so (string_of x) oe c)"
  unfolding set_store_def rep_old_eq
proof (rule ends_insert [OF assms(1) stands_db [OF assms(1)]])
  fix c1 assume 1: "stands ctx key False True (Some (from_bytes v, Option.bind old snd)) c1"
  show "ends ctx key (Some (from_bytes v, set_deadline so (now_ms (slice ctx)) old)) (\<lambda>rb. if so_get so then send_old x rb else send_ok rb)
      (on_slice c1 (set_expiry (ctx_db c) key so oe) (\<lambda>_ c2. if so_get so then rep (send_old x) c2 else rep send_ok c2))"
  proof (rule ends_set_expiry [OF 1 stands_db [OF assms(1)] assms(2)])
    fix c2 assume "stands ctx key False False (Some (from_bytes v, case so_expire so of
        Some ms \<Rightarrow> Some (if so_absolute so then ms else now_ms (slice ctx) + ms) | None \<Rightarrow> oe)) c2"
    then have 2: "stands ctx key False False (Some (from_bytes v, set_deadline so (now_ms (slice ctx)) old)) c2"
      using assms(2) by (simp add: set_deadline_def cong: option.case_cong)
    show "ends ctx key (Some (from_bytes v, set_deadline so (now_ms (slice ctx)) old)) (\<lambda>rb. if so_get so then send_old x rb else send_ok rb)
        (if so_get so then rep (send_old x) c2 else rep send_ok c2)"
      using ends_rep [OF 2, of "send_old x"] ends_rep [OF 2, of send_ok] by (cases "so_get so") simp_all
  qed
qed

lemma ends_set_checked:
  assumes "stands ctx key True True y c" and "old = unexpired_cell (now_ms (slice ctx)) y" and "so_get so \<longrightarrow> \<not> wrong_type old"
    and "so_get so \<longrightarrow> x = old"
  shows "ends ctx key (set_cell so (now_ms (slice ctx)) v old) (set_reply so old) (set_checked key v so (string_of x) c)"
  unfolding set_checked_def rep_old_eq
proof (rule ends_exists [OF assms(1) stands_db [OF assms(1)]])
  fix c1 assume "stands ctx key True True (unexpired_cell (now_ms (slice ctx)) y) c1"
  then have 1: "stands ctx key True True old c1" using assms(2) by simp
  let ?now = "now_ms (slice ctx)"
  let ?x = "set_cell so ?now v old" and ?f = "set_reply so old"
  have fin: "ends ctx key ?x ?f (set_store key v so (string_of x) oe c2)"
    if "stands ctx key True True old c2" "oe = (if so_keep_ttl so then Option.bind old snd else None)" "set_allowed so old" for c2 oe
  proof -
    have "?x = Some (from_bytes v, set_deadline so ?now old)" "?f = (\<lambda>rb. if so_get so then send_old x rb else send_ok rb)"
      using that(3) assms(3,4) by (auto simp: set_cell_def set_reply_def set_allowed_def fun_eq_iff)
    then show ?thesis using ends_set_store [OF that(1,2)] by simp
  qed
  have ttl: "ends ctx key ?x ?f (on_slice c1 (\<lambda>ds. ttl_ms ds (ctx_db c) key) (\<lambda>t c2. set_store key v so (string_of x)
      (case t of Expires ms \<Rightarrow> Some (now_ms (slice c2) + ms) | _ \<Rightarrow> None) c2))"
    if "so_keep_ttl so" "set_allowed so old"
  proof (rule ends_ttl [OF 1 stands_db [OF assms(1)]])
    fix c2 assume "stands ctx key True True (unexpired_cell ?now old) c2"
    then have 2: "stands ctx key True True old c2" using assms(2) by simp
    have "unexpired_cell ?now old = old" using assms(2) by simp
    then show "ends ctx key ?x ?f (set_store key v so (string_of x) (case ttl_cell ?now (unexpired_cell ?now old) of
          Expires ms \<Rightarrow> Some (now_ms (slice c2) + ms) | _ \<Rightarrow> None) c2)"
      using that stands_now [OF 2] by (intro fin [OF 2]) (auto simp: ttl_cell_def split: option.splits)
  qed
  note old = assms(2) [symmetric]
  show "ends ctx key ?x ?f
      (if so_nx so \<and> unexpired_cell ?now y \<noteq> None then if so_get so then rep (send_old x) c1 else rep send_null c1
       else if so_xx so \<and> \<not> unexpired_cell ?now y \<noteq> None then rep send_null c1
       else if so_keep_ttl so \<and> unexpired_cell ?now y \<noteq> None
       then on_slice c1 (\<lambda>ds. ttl_ms ds (ctx_db c) key) (\<lambda>t c2. set_store key v so (string_of x)
         (case t of Expires ms \<Rightarrow> Some (now_ms (slice c2) + ms) | _ \<Rightarrow> None) c2)
       else set_store key v so (string_of x) None c1)"
  proof (cases "set_allowed so old")
    case True
    then show ?thesis using ttl fin [OF 1, of None] by (cases old) (auto simp: set_allowed_def old)
  next
    case False
    have f: "?x = old" "?f = (if so_xx so \<and> old = None then send_null else if so_get so then send_old x else send_null)"
      using False assms(3,4) by (auto simp: set_cell_def set_reply_def fun_eq_iff)
    show ?thesis
      unfolding f using False ends_rep [OF 1, of "send_old x"] ends_rep [OF 1, of send_null]
      by (cases old) (auto simp: set_allowed_def old)
  qed
qed


lemma ends_start:
  assumes "key_ready ctx key"
  shows "stands ctx key True True (ds_abs (slice ctx) (key_place ctx key)) ctx"
    and "unexpired_cell (now_ms (slice ctx)) (ds_abs (slice ctx) (key_place ctx key)) = cell_of ctx key"
  using stands_start [OF assms] by (simp_all add: cell_of_def)

lemma ends_cmd_set:
  assumes "key_ready ctx key" and "arg ctx 1 = Some key" and "arg ctx 2 = Some v"
    and "set_options ctx 3 set_opts_new = Inr so" and "\<not> (so_nx so \<and> so_xx so)"
  shows "ends ctx key (set_cell so (now_ms (slice ctx)) v (cell_of ctx key)) (set_reply so (cell_of ctx key)) (cmd_set ctx)"
proof -
  let ?old = "cell_of ctx key" and ?now = "now_ms (slice ctx)"
  let ?x = "set_cell so ?now v ?old" and ?f = "set_reply so ?old"
  note st = ends_start [OF assms(1)]
  have eq: "cmd_set ctx = (if so_get so then find_string ctx key (\<lambda>old ctx1. set_checked key v so old ctx1) else set_checked key v so None ctx)"
    using assms(2-5) by (auto simp: cmd_set_def with_arg_def)
  have "ends ctx key ?x ?f (find_string ctx key (\<lambda>old ctx1. set_checked key v so old ctx1))" if g: "so_get so"
  proof (rule ends_find_string [OF st(1) st(2) [symmetric]])
    fix c2 assume s: "stands ctx key True True ?old c2" and w: "\<not> wrong_type ?old"
    show "ends ctx key ?x ?f (set_checked key v so (string_of ?old) c2)"
      by (rule ends_set_checked [OF s]) (use w in \<open>simp_all add: cell_of_def\<close>)
  next
    assume "wrong_type ?old"
    then show "?x = ?old \<and> ?f = (\<lambda>rb. send_wrong_type rb [])" using g by (simp add: set_cell_def set_reply_def fun_eq_iff)
  qed
  moreover have "ends ctx key ?x ?f (set_checked key v so (string_of None) ctx)" if g: "\<not> so_get so"
    by (rule ends_set_checked [OF st(1) st(2) [symmetric]]) (use g in simp_all)
  ultimately show ?thesis using eq by (simp add: string_of_def)
qed

lemma ends_incr_store:
  assumes "stands ctx key True True old c"
    and "(case old of None \<Rightarrow> Some 0 | Some (v, e) \<Rightarrow> as_integer v) = Some n"
  shows "ends ctx key (incr_cell delta old) (incr_reply delta old) (incr_store key n delta c)"
proof (cases "checked_add n delta")
  case None
  then have "incr_cell delta old = old" "incr_reply delta old = (\<lambda>rb. send_err rb ''increment or decrement would overflow'')"
    using assms(2) by (auto simp: incr_cell_def incr_reply_def incr_result_def checked_add_def Let_def fun_eq_iff split: if_splits)
  then show ?thesis using None ends_rep [OF assms(1)] by (simp add: incr_store_def rep_err_def)
next
  case (Some m)
  then have e: "incr_cell delta old = Some (PV_Integer m, Option.bind old snd)" "incr_reply delta old = (\<lambda>rb. send_integer rb m)"
    using assms(2) by (auto simp: incr_cell_def incr_reply_def incr_result_def checked_add_def Let_def fun_eq_iff split: if_splits)
  have "ends ctx key (incr_cell delta old) (incr_reply delta old)
      (on_slice c (\<lambda>ds. add_or_update ds (ctx_db c) key (PV_Integer m)) (\<lambda>_ ctx1. rep_int m ctx1))"
    unfolding e rep_int_def by (rule ends_insert [OF assms(1) stands_db [OF assms(1)] ends_rep])
  then show ?thesis using Some by (simp add: incr_store_def)
qed

lemma ends_incr_by:
  assumes "key_ready ctx key" and "arg ctx 1 = Some key"
  shows "ends ctx key (incr_cell delta (cell_of ctx key)) (incr_reply delta (cell_of ctx key)) (incr_by delta ctx)"
proof -
  let ?old = "cell_of ctx key"
  note st = ends_start [OF assms(1)]
  have "ends ctx key (incr_cell delta ?old) (incr_reply delta ?old) (on_slice ctx (\<lambda>ds. ds_find ds (ctx_db ctx) key) (\<lambda>r ctx1.
      case r of Some fr \<Rightarrow> (case as_integer (fr_value fr) of Some n \<Rightarrow> incr_store key n delta ctx1 | None \<Rightarrow> rep_err ERR_INT ctx1)
      | None \<Rightarrow> incr_store key 0 delta ctx1))"
  proof (rule ends_find [OF st(1) refl], unfold st(2))
    fix r c2 assume s: "stands ctx key True True ?old c2" and r: "map_option fr_value r = map_option fst ?old"
    show "ends ctx key (incr_cell delta ?old) (incr_reply delta ?old) (case r of
        None \<Rightarrow> incr_store key 0 delta c2
      | Some fr \<Rightarrow> (case as_integer (fr_value fr) of None \<Rightarrow> rep_err ERR_INT c2 | Some n \<Rightarrow> incr_store key n delta c2))"
    proof (cases r)
      case None
      then show ?thesis using ends_incr_store [OF s, of 0] r by simp
    next
      case (Some fr)
      then obtain e where o: "?old = Some (fr_value fr, e)" using r by (cases ?old) auto
      show ?thesis
      proof (cases "as_integer (fr_value fr)")
        case None
        then have "incr_cell delta ?old = ?old" "incr_reply delta ?old = (\<lambda>rb. send_err rb ERR_INT)"
          using o by (simp_all add: incr_cell_def incr_reply_def incr_result_def fun_eq_iff)
        then show ?thesis using None Some ends_rep [OF s] by (simp add: rep_err_def)
      next
        case (Some n)
        then show ?thesis using ends_incr_store [OF s, of n] o \<open>r = Some fr\<close> by simp
      qed
    qed
  qed
  then show ?thesis using assms(2) by (simp add: incr_by_def with_arg_def)
qed
lemma ends_expire_now:
  assumes "stands ctx key True True y c" and "old = unexpired_cell (now_ms (slice ctx)) y"
  shows "ends ctx key None (found_reply old) (expire_now key c)"
  unfolding expire_now_def rep_int_def
proof (rule ends_exists [OF assms(1) stands_db [OF assms(1)]], unfold assms(2) [symmetric])
  fix c2 assume s: "stands ctx key True True old c2"
  have f: "found_reply old = (\<lambda>rb. send_integer rb (if old = None then 0 else 1))" by (simp add: found_reply_def fun_eq_iff)
  show "ends ctx key None (found_reply old) (if old \<noteq> None then on_slice c2 (\<lambda>ds. ds_del ds (ctx_db c) key) (\<lambda>_ ctx2. rep (\<lambda>rb. send_integer rb 1) ctx2)
      else rep (\<lambda>rb. send_integer rb 0) c2)"
  proof (cases "old = None")
    case True
    then show ?thesis using ends_rep [OF s, of "\<lambda>rb. send_integer rb 0"] f by simp
  next
    case False
    have "ends ctx key None (found_reply old) (on_slice c2 (\<lambda>ds. ds_del ds (ctx_db c) key) (\<lambda>_ ctx2. rep (\<lambda>rb. send_integer rb 1) ctx2))"
      unfolding f using False by (intro ends_del [OF s stands_db [OF assms(1)]]) (simp only: if_False ends_rep)
    then show ?thesis using False by simp
  qed
qed

lemma ends_set_expire_relative:
  assumes "key_ready ctx key" and "arg ctx 1 = Some key" and "arg_int ctx 2 = Some secs"
  shows "ends ctx key (expire_cell (now_ms (slice ctx)) secs multiplier (cell_of ctx key)) (found_reply (cell_of ctx key))
    (set_expire_relative multiplier ctx)"
proof -
  let ?old = "cell_of ctx key" and ?now = "now_ms (slice ctx)"
  let ?x = "expire_cell ?now secs multiplier ?old" and ?f = "found_reply ?old"
  note st = ends_start [OF assms(1)]
  have f: "?f = (\<lambda>rb. send_integer rb (if ?old = None then 0 else 1))" by (simp add: found_reply_def fun_eq_iff)
  have "ends ctx key ?x ?f (on_slice ctx (\<lambda>ds. ds_exists ds (ctx_db ctx) key) (\<lambda>present ctx1.
      if \<not> present then rep_int 0 ctx1
      else on_slice ctx1 (\<lambda>ds. add_expire ds (ctx_db ctx) key (now_ms ds + secs * multiplier)) (\<lambda>_ ctx2. rep_int 1 ctx2)))"
    if pos: "\<not> sint secs \<le> 0"
  proof (rule ends_exists [OF st(1) refl], unfold st(2))
    fix c2 assume s: "stands ctx key True True ?old c2"
    show "ends ctx key ?x ?f (if \<not> ?old \<noteq> None then rep_int 0 c2
        else on_slice c2 (\<lambda>ds. add_expire ds (ctx_db ctx) key (now_ms ds + secs * multiplier)) (\<lambda>_ ctx2. rep_int 1 ctx2))"
    proof (cases ?old)
      case None
      then show ?thesis using ends_rep [OF s, of "\<lambda>rb. send_integer rb 0"] f pos by (simp add: expire_cell_def rep_int_def)
    next
      case (Some ve)
      then obtain v e where o: "?old = Some (v, e)" by (cases ve) auto
      have x: "?x = Some (v, Some (?now + secs * multiplier))" using o pos by (simp add: expire_cell_def)
      have "ends ctx key ?x ?f (on_slice c2 (\<lambda>ds. add_expire ds (ctx_db ctx) key (now_ms ds + secs * multiplier)) (\<lambda>_ ctx2. rep_int 1 ctx2))"
      proof (rule ends_add_expire [OF s [unfolded o] refl])
        fix c3 assume s3: "stands ctx key True False (Some (v, Some (now_ms (slice c2) + secs * multiplier))) c3"
        have "stands ctx key True False ?x c3" using s3 unfolding x stands_now [OF s] .
        then show "ends ctx key ?x ?f (rep_int 1 c3)" using ends_rep [of ctx key True False ?x c3 "\<lambda>rb. send_integer rb 1"] f o
          by (simp add: rep_int_def)
      qed
      then show ?thesis using o by simp
    qed
  qed
  moreover have "ends ctx key ?x ?f (expire_now key ctx)" if "sint secs \<le> 0"
    using ends_expire_now [OF st(1) st(2) [symmetric]] that by (simp add: expire_cell_def)
  ultimately show ?thesis using assms(2,3) by (auto simp: set_expire_relative_def with_arg_def)
qed

lemma ends_set_expire_absolute:
  assumes "key_ready ctx key" and "arg ctx 1 = Some key" and "arg_int ctx 2 = Some ts"
  shows "ends ctx key (expireat_cell (now_ms (slice ctx)) (ts * multiplier) (cell_of ctx key)) (found_reply (cell_of ctx key))
    (set_expire_absolute multiplier ctx)"
proof -
  let ?old = "cell_of ctx key" and ?now = "now_ms (slice ctx)"
  let ?x = "expireat_cell ?now (ts * multiplier) ?old" and ?f = "found_reply ?old"
  note st = ends_start [OF assms(1)]
  have f: "?f = (\<lambda>rb. send_integer rb (if ?old = None then 0 else 1))" by (simp add: found_reply_def fun_eq_iff)
  have "ends ctx key ?x ?f (on_slice ctx (\<lambda>ds. ds_exists ds (ctx_db ctx) key) (\<lambda>present ctx1.
      if \<not> present then rep_int 0 ctx1
      else if ts * multiplier \<le> now_ms (slice ctx1) then on_slice ctx1 (\<lambda>ds. ds_del ds (ctx_db ctx) key) (\<lambda>_ ctx2. rep_int 1 ctx2)
      else on_slice ctx1 (\<lambda>ds. add_expire ds (ctx_db ctx) key (ts * multiplier)) (\<lambda>_ ctx2. rep_int 1 ctx2)))"
  proof (rule ends_exists [OF st(1) refl], unfold st(2))
    fix c2 assume s: "stands ctx key True True ?old c2"
    show "ends ctx key ?x ?f (if \<not> ?old \<noteq> None then rep_int 0 c2
        else if ts * multiplier \<le> now_ms (slice c2) then on_slice c2 (\<lambda>ds. ds_del ds (ctx_db ctx) key) (\<lambda>_ ctx2. rep_int 1 ctx2)
        else on_slice c2 (\<lambda>ds. add_expire ds (ctx_db ctx) key (ts * multiplier)) (\<lambda>_ ctx2. rep_int 1 ctx2))"
    proof (cases ?old)
      case None
      then show ?thesis using ends_rep [OF s, of "\<lambda>rb. send_integer rb 0"] f by (simp add: expireat_cell_def rep_int_def)
    next
      case (Some ve)
      then obtain v e where o: "?old = Some (v, e)" by (cases ve) auto
      have "ends ctx key ?x ?f (on_slice c2 (\<lambda>ds. ds_del ds (ctx_db ctx) key) (\<lambda>_ ctx2. rep_int 1 ctx2))" if "ts * multiplier \<le> ?now"
        unfolding rep_int_def by (rule ends_del [OF s refl]) (use that f o ends_rep in \<open>simp add: expireat_cell_def\<close>)
      moreover have "ends ctx key ?x ?f (on_slice c2 (\<lambda>ds. add_expire ds (ctx_db ctx) key (ts * multiplier)) (\<lambda>_ ctx2. rep_int 1 ctx2))"
        if "\<not> ts * multiplier \<le> ?now"
        unfolding rep_int_def by (rule ends_add_expire [OF s [unfolded o] refl]) (use that f o ends_rep in \<open>simp add: expireat_cell_def\<close>)
      ultimately show ?thesis using o stands_now [OF s] by simp
    qed
  qed
  then show ?thesis using assms(2,3) by (simp add: set_expire_absolute_def with_arg_def)
qed
subsection \<open>Lists\<close>

text \<open>The two ends of a list, and what a push and a pop do to the entry.\<close>

definition push_ref :: "bool \<Rightarrow> bytes list \<Rightarrow> bytes list \<Rightarrow> bytes list" where
  "push_ref front vs l = (if front then rev vs @ l else l @ vs)"

definition push_cell :: "bool \<Rightarrow> bytes list \<Rightarrow> cell \<Rightarrow> cell" where
  "push_cell front vs old =
     (case old of
        None \<Rightarrow> Some (PV_List (push_ref front vs []), None)
      | Some (v, e) \<Rightarrow> (case as_list v of Some l \<Rightarrow> Some (PV_List (push_ref front vs l), e) | None \<Rightarrow> old))"

definition push_reply :: "bytes list \<Rightarrow> cell \<Rightarrow> reply_builder \<Rightarrow> reply_builder" where
  "push_reply vs old rb =
     (case old of
        None \<Rightarrow> send_integer rb (of_nat (length vs))
      | Some (v, e) \<Rightarrow> (case as_list v of
           Some l \<Rightarrow> send_integer rb (of_nat (length vs + length l))
         | None \<Rightarrow> send_wrong_type rb []))"

definition popped :: "bool \<Rightarrow> nat \<Rightarrow> bytes list \<Rightarrow> bytes list" where
  "popped front n l = take n (if front then l else rev l)"

definition unpopped :: "bool \<Rightarrow> nat \<Rightarrow> bytes list \<Rightarrow> bytes list" where
  "unpopped front n l = (if front then drop n l else take (length l - n) l)"

definition pop_cell :: "bool \<Rightarrow> nat \<Rightarrow> cell \<Rightarrow> cell" where
  "pop_cell front n old =
     (case old of
        None \<Rightarrow> None
      | Some (v, e) \<Rightarrow> (case as_list v of
           Some l \<Rightarrow> if unpopped front n l = [] then None else Some (PV_List (unpopped front n l), e)
         | None \<Rightarrow> old))"

definition pop_reply :: "bool \<Rightarrow> nat \<Rightarrow> cell \<Rightarrow> reply_builder \<Rightarrow> reply_builder" where
  "pop_reply front n old rb =
     (case old of
        None \<Rightarrow> send_null rb
      | Some (v, e) \<Rightarrow> (case as_list v of
           Some l \<Rightarrow> foldl send_bulk_string (send_array_len rb (length (popped front n l))) (popped front n l)
         | None \<Rightarrow> send_wrong_type rb []))"

definition head_of :: "'a list \<Rightarrow> 'a option" where
  "head_of l = (case l of [] \<Rightarrow> None | x # _ \<Rightarrow> Some x)"

definition pop_one_reply :: "bool \<Rightarrow> cell \<Rightarrow> reply_builder \<Rightarrow> reply_builder" where
  "pop_one_reply front old rb =
     (case old of
        None \<Rightarrow> send_null rb
      | Some (v, e) \<Rightarrow> (case as_list v of
           Some l \<Rightarrow> send_opt rb (head_of (popped front 1 l))
         | None \<Rightarrow> send_wrong_type rb []))"

definition pop_at :: "bool \<Rightarrow> bytes list \<Rightarrow> (bytes \<times> bytes list) option" where
  "pop_at front = (if front then pop_front else pop_back)"

lemma pop_n_ref: "pop_n (pop_at front) (min n (length l)) l = (popped front n l, unpopped front n l)"
  by (cases "n \<le> length l") (simp_all add: pop_at_def popped_def unpopped_def pop_n_front pop_n_back)

lemma pop_one_ref: "pop_one (pop_at front) l = (head_of (popped front 1 l), unpopped front 1 l)"
proof (cases front)
  case True
  then show ?thesis by (cases l) (simp_all add: pop_at_def pop_one_def popped_def unpopped_def head_of_def)
next
  case False
  then show ?thesis
    by (cases l rule: rev_cases) (simp_all add: pop_at_def pop_one_def popped_def unpopped_def pop_back_def head_of_def)
qed

lemma ends_push:
  assumes "key_ready ctx key" and "arg ctx 1 = Some key" and "args_from ctx 2 = Some vs"
  shows "ends ctx key (push_cell front vs (cell_of ctx key)) (push_reply vs (cell_of ctx key))
    ((if front then cmd_lpush else cmd_rpush) ctx)"
proof -
  let ?old = "cell_of ctx key" and ?push = "push_ref front vs"
  let ?x = "push_cell front vs ?old" and ?f = "push_reply vs ?old"
  let ?g = "on_list (\<lambda>l. (length (?push l), ?push l))" and ?fresh = "(length (?push []), PV_List (?push []))"
  note st = ends_start [OF assms(1)]
  have len: "length (?push l) = length vs + length l" for l by (simp add: push_ref_def)
  have "ends ctx key ?x ?f (upsert key ?g ?fresh rep_len ctx)"
  proof (rule ends_upsert [OF st(1) st(2) [symmetric]])
    fix c2 v e a v' assume o: "?old = Some (v, e)" and g: "?g v = Some (a, v')" and s: "stands ctx key False False (Some (v', e)) c2"
    obtain l where l: "as_list v = Some l" "v' = PV_List (?push l)" "a = length vs + length l"
      using g len by (auto simp: on_list_def)
    have "?x = Some (v', e)" "?f = (\<lambda>rb. send_integer rb (of_nat a))"
      using o l by (simp_all add: push_cell_def push_reply_def fun_eq_iff)
    then show "ends ctx key ?x ?f (rep_len a c2)" using ends_rep [OF s] by (simp add: rep_len_def rep_int_def)
  next
    fix c2 assume o: "?old = None" and s: "stands ctx key False False (Some (snd ?fresh, None)) c2"
    have "?x = Some (snd ?fresh, None)" "?f = (\<lambda>rb. send_integer rb (of_nat (fst ?fresh)))"
      using o len by (simp_all add: push_cell_def push_reply_def fun_eq_iff)
    then show "ends ctx key ?x ?f (rep_len (fst ?fresh) c2)" using ends_rep [OF s] by (simp add: rep_len_def rep_int_def)
  next
    fix v e assume "?old = Some (v, e)" and "?g v = None"
    then show "?x = ?old \<and> ?f = (\<lambda>rb. send_wrong_type rb [])" by (simp add: push_cell_def push_reply_def on_list_def fun_eq_iff)
  qed
  moreover have "push_front_all vs = ?push" if front using that by (simp add: push_ref_def push_eq fun_eq_iff)
  moreover have "push_back_all vs = ?push" if "\<not> front" using that by (simp add: push_ref_def push_eq fun_eq_iff)
  ultimately show ?thesis using assms(2,3)
    by (auto simp: cmd_lpush_def cmd_rpush_def push_command_def with_arg_def)
qed

lemma ends_edit_drop:
  assumes "stands ctx key True True y c" and "z = unexpired_cell (now_ms (slice ctx)) y"
    and "\<And>v e a b v'. z = Some (v, e) \<Longrightarrow> g v = Some ((a, b), v') \<Longrightarrow> x = (if b then None else Some (v', e)) \<and> f = r a"
    and "z = None \<Longrightarrow> x = None \<and> f = r0"
    and "\<And>v e. z = Some (v, e) \<Longrightarrow> g v = None \<Longrightarrow> x = z \<and> f = (\<lambda>rb. send_wrong_type rb [])"
  shows "ends ctx key x f (edit_value key g (\<lambda>(a, b) ctx1. Option.bind (drop_if b key ctx1) (rep (r a))) (rep r0) c)"
proof (rule ends_edit_value [OF assms(1,2) _ _ assms(5)])
  fix c2 v e p v' assume z: "z = Some (v, e)" and g: "g v = Some (p, v')" and s: "stands ctx key True True (Some (v', e)) c2"
  obtain a b where p: "p = (a, b)" by (cases p)
  show "ends ctx key x f ((case p of (a, b) \<Rightarrow> \<lambda>ctx1. Option.bind (drop_if b key ctx1) (rep (r a))) c2)"
    using assms(3) [OF z g [unfolded p]] ends_drop [OF s] p by simp
qed (use assms(4) ends_rep in auto)

lemma ends_pop:
  assumes "key_ready ctx key" and "arg ctx 1 = Some key"
  shows "ends ctx key (pop_cell front (if length (cc_args ctx) \<le> 2 then 1 else pop_count ctx) (cell_of ctx key))
    (if length (cc_args ctx) \<le> 2 then pop_one_reply front (cell_of ctx key) else pop_reply front (pop_count ctx) (cell_of ctx key))
    ((if front then cmd_lpop else cmd_rpop) ctx)"
proof -
  let ?old = "cell_of ctx key" and ?n = "pop_count ctx" and ?bulks = "\<lambda>vs rb. foldl send_bulk_string (send_array_len rb (length vs)) vs"
  note st = ends_start [OF assms(1)]
  have "ends ctx key (pop_cell front 1 ?old) (pop_one_reply front ?old)
      (edit_value key (on_list (\<lambda>l. and_empty (pop_one (pop_at front) l))) (\<lambda>(v, e) ctx1. Option.bind (drop_if e key ctx1) (rep (\<lambda>rb. send_opt rb v))) (rep send_null) ctx)"
    by (rule ends_edit_drop [OF st(1) st(2) [symmetric]])
      (auto simp: on_list_def and_empty_def pop_one_ref pop_cell_def pop_one_reply_def fun_eq_iff split: option.splits)
  moreover have "ends ctx key (pop_cell front ?n ?old) (pop_reply front ?n ?old)
      (edit_value key (on_list (\<lambda>l. and_empty (pop_n (pop_at front) (min ?n (length l)) l))) (\<lambda>(vs, e) ctx1. Option.bind (drop_if e key ctx1) (rep (?bulks vs))) (rep send_null) ctx)"
    by (rule ends_edit_drop [OF st(1) st(2) [symmetric]])
      (auto simp: on_list_def and_empty_def pop_n_ref pop_cell_def pop_reply_def fun_eq_iff split: option.splits)
  moreover have "(if front then cmd_lpop else cmd_rpop) = pop_command (pop_at front)" by (simp add: cmd_lpop_def cmd_rpop_def pop_at_def)
  ultimately show ?thesis using assms(2)
    by (simp add: pop_command_def with_arg_def rep_opt_def rep_array_eq rep_drop)
qed

subsection \<open>Properties\<close>

definition demo_ctx :: "bytes list \<Rightarrow> command_context" where
  "demo_ctx args = \<lparr>cc_args = map R_String args, cc_conn = conn_context_new,
     cc_shard = \<lparr>shard_slice = demo_slice, commands_processed = 0\<rparr>, cc_reply = rb_new i64_to_string []\<rparr>"

lemma demo_ctx_parts: "slice (demo_ctx args) = demo_slice" "ctx_db (demo_ctx args) = 0" "cc_reply (demo_ctx args) = rb_new i64_to_string []"
  "cc_args (demo_ctx args) = map R_String args"
  by (simp_all add: demo_ctx_def slice_def ctx_db_def conn_context_new_def)

lemma demo_ctx_ready: "key_ready (demo_ctx args) key" "key_room (demo_ctx args) key" "cell_of (demo_ctx args) key = None"
proof -
  show "key_ready (demo_ctx args) key"
    using ds_inv_new [of "\<lambda>_ _. 0"] by (simp add: key_ready_def demo_ctx_parts demo_slice_db fresh_removable NUM_DBS_def demo_slice_def [symmetric])
  show "key_room (demo_ctx args) key"
    by (simp add: key_room_def demo_ctx_parts demo_slice_db NUM_DBS_def tbl_spare_def db_table_new_def tbl_with_hasher_def seg_id_def segment_new_def dash_consts)
  show "cell_of (demo_ctx args) key = None"
    by (simp add: cell_of_def key_place_def demo_ctx_parts ds_abs_def demo_slice_db NUM_DBS_def db_inv_new unexpired_cell_def)
qed

lemma ends_returns:
  assumes "ends ctx key x f r" and "key_room ctx key"
  shows "\<exists>ctx'. r = Some ctx' \<and> ds_abs (slice ctx') (key_place ctx key) = x \<and> cc_reply ctx' = f (cc_reply ctx)"
  using assms by (auto simp: ends_def outcome_def)





text \<open>EXPIRE and PEXPIRE give the entry of a present key the deadline now plus the time (with the wrap-around of
  the code), delete it when the time is not positive, and answer 1; a missing key answers 0.\<close>

theorem expire_refines:
  assumes "key_ready ctx key" and "arg ctx 1 = Some key" and "arg_int ctx 2 = Some secs"
  shows "ends ctx key (expire_cell (now_ms (slice ctx)) secs multiplier (cell_of ctx key)) (found_reply (cell_of ctx key))
    (set_expire_relative multiplier ctx)"
  by (rule ends_set_expire_relative [OF assms])

theorem expire_refines_witness:
  "\<exists>ctx'. set_expire_relative 1000 (demo_ctx [''EXPIRE'', ''k'', ''3'']) = Some ctx'
     \<and> ds_abs (slice ctx') (0, ''k'') = None \<and> cc_reply ctx' = send_integer (rb_new i64_to_string []) 0"
proof -
  let ?c = "demo_ctx [''EXPIRE'', ''k'', ''3'']"
  have a: "arg ?c 1 = Some ''k''" "arg_int ?c 2 = Some 3" by code_simp+
  show ?thesis
    using ends_returns [OF expire_refines [OF demo_ctx_ready(1) a] demo_ctx_ready(2)]
    by (simp add: demo_ctx_ready demo_ctx_parts expire_cell_def found_reply_def key_place_def)
qed

text \<open>EXPIREAT and PEXPIREAT set the deadline they are given, or delete the key when it has passed.\<close>

theorem expireat_refines:
  assumes "key_ready ctx key" and "arg ctx 1 = Some key" and "arg_int ctx 2 = Some ts"
  shows "ends ctx key (expireat_cell (now_ms (slice ctx)) (ts * multiplier) (cell_of ctx key)) (found_reply (cell_of ctx key))
    (set_expire_absolute multiplier ctx)"
  by (rule ends_set_expire_absolute [OF assms])

text \<open>LPUSH and RPUSH put the values, one after the other, at their end of the list of the key, which they create when
  it is missing, keep its deadline and answer the new length; a value of another type stays and gets the type error.\<close>

theorem list_push_refines:
  assumes "key_ready ctx key" and "arg ctx 1 = Some key" and "args_from ctx 2 = Some vs"
  shows "ends ctx key (push_cell front vs (cell_of ctx key)) (push_reply vs (cell_of ctx key))
    ((if front then cmd_lpush else cmd_rpush) ctx)"
  by (rule ends_push [OF assms])

theorem list_push_refines_witness:
  "\<exists>ctx'. cmd_lpush (demo_ctx [''LPUSH'', ''k'', ''a'', ''b'']) = Some ctx'
     \<and> ds_abs (slice ctx') (0, ''k'') = Some (PV_List [''b'', ''a''], None) \<and> cc_reply ctx' = send_integer (rb_new i64_to_string []) 2"
proof -
  let ?c = "demo_ctx [''LPUSH'', ''k'', ''a'', ''b'']"
  have a: "arg ?c 1 = Some ''k''" "args_from ?c 2 = Some [''a'', ''b'']" by code_simp+
  show ?thesis
    using ends_returns [OF list_push_refines [OF demo_ctx_ready(1) a, of True] demo_ctx_ready(2)]
    by (simp add: demo_ctx_ready demo_ctx_parts push_cell_def push_reply_def push_ref_def key_place_def)
qed

text \<open>LPOP and RPOP take the given number of values, or one, from their end of the list, answer them, and remove the
  key with its deadline when the list has become empty; a missing key answers null and another type the type error.\<close>

theorem list_pop_refines:
  assumes "key_ready ctx key" and "arg ctx 1 = Some key"
  shows "ends ctx key (pop_cell front (if length (cc_args ctx) \<le> 2 then 1 else pop_count ctx) (cell_of ctx key))
    (if length (cc_args ctx) \<le> 2 then pop_one_reply front (cell_of ctx key) else pop_reply front (pop_count ctx) (cell_of ctx key))
    ((if front then cmd_lpop else cmd_rpop) ctx)"
  by (rule ends_pop [OF assms])

theorem list_pop_refines_witness:
  "\<exists>ctx'. cmd_lpop (demo_ctx [''LPOP'', ''k'']) = Some ctx'
     \<and> ds_abs (slice ctx') (0, ''k'') = None \<and> cc_reply ctx' = send_null (rb_new i64_to_string [])"
proof -
  let ?c = "demo_ctx [''LPOP'', ''k'']"
  have a: "arg ?c 1 = Some ''k''" by code_simp
  show ?thesis
    using ends_returns [OF list_pop_refines [OF demo_ctx_ready(1) a, of True] demo_ctx_ready(2)]
    by (simp add: demo_ctx_ready demo_ctx_parts pop_cell_def pop_one_reply_def key_place_def)
qed

end
