(* ===== verification/Client_View.thy ===== *)
theory Client_View
  imports System Key_Commands
begin

text \<open>
  What clients see of the whole cluster: all shards together are one map from databases and keys to entries,
  and a command with one key is an update of that map at the key, from whichever connection it comes.
\<close>

subsection \<open>The cluster as one map\<close>

definition cluster_abs :: "server \<Rightarrow> cluster \<Rightarrow> nat \<times> bytes \<Rightarrow> cell" where
  "cluster_abs sv cl p =
     (case shard_of sv (R_String (snd p)) of
        None \<Rightarrow> None
      | Some t \<Rightarrow>
          if unat t < length (cl_shards cl)
          then (case cl_shards cl ! unat t of None \<Rightarrow> None | Some sh \<Rightarrow> ds_abs (shard_slice sh) p)
          else None)"

text \<open>The shard of a key runs, its tables are in order, and the key fits them.\<close>

definition home :: "server \<Rightarrow> bytes \<Rightarrow> cluster \<Rightarrow> u32 \<Rightarrow> engine_shard \<Rightarrow> bool" where
  "home sv key cl t sh \<longleftrightarrow> shard_of sv (R_String key) = Some t \<and> unat t < length (cl_shards cl) \<and> cl_shards cl ! unat t = Some sh"

definition key_open :: "server \<Rightarrow> u16 \<Rightarrow> bytes \<Rightarrow> cluster \<Rightarrow> bool" where
  "key_open sv db key cl \<longleftrightarrow> (\<exists>t sh. home sv key cl t sh \<and> ds_inv (shard_slice sh) \<and> unat db < NUM_DBS
     \<and> fits True (prime (dbs (shard_slice sh) ! unat db)) (prime_key_new key)
     \<and> fits True (expire (dbs (shard_slice sh) ! unat db)) (prime_key_new key))"

text \<open>The context in which the shard of the key executes a command.\<close>

definition task_ctx :: "server \<Rightarrow> resp_expr list \<Rightarrow> conn_context \<Rightarrow> bytes \<Rightarrow> cluster \<Rightarrow> engine_shard \<Rightarrow> command_context" where
  "task_ctx sv args conn data cl sh =
     \<lparr>cc_args = args, cc_conn = conn, cc_shard = bump_commands (engine_shard_update_time sh (sv_clock sv (cl_reads cl))),
      cc_reply = rb_new (sv_itoa sv) data\<rparr>"

definition after_task :: "cluster \<Rightarrow> u32 \<Rightarrow> command_context \<Rightarrow> cluster" where
  "after_task cl t ctx = cl\<lparr>cl_reads := Suc (cl_reads cl), cl_shards := (cl_shards cl)[unat t := Some (cc_shard ctx)]\<rparr>"

lemma task_ctx_parts:
  "slice (task_ctx sv args conn data cl sh) = update_time (shard_slice sh) (sv_clock sv (cl_reads cl))"
  "ctx_db (task_ctx sv args conn data cl sh) = conn_db conn" "cc_reply (task_ctx sv args conn data cl sh) = rb_new (sv_itoa sv) data"
  "cc_args (task_ctx sv args conn data cl sh) = args" "cc_conn (task_ctx sv args conn data cl sh) = conn"
  by (simp_all add: task_ctx_def slice_def ctx_db_def bump_commands_def engine_shard_update_time_def)

lemma task_ready:
  assumes "ds_inv (shard_slice sh)" and "unat (conn_db conn) < NUM_DBS"
    and "fits True (prime (dbs (shard_slice sh) ! unat (conn_db conn))) (prime_key_new key)"
    and "fits True (expire (dbs (shard_slice sh) ! unat (conn_db conn))) (prime_key_new key)"
  shows "key_ready (task_ctx sv args conn data cl sh) key" and "key_room (task_ctx sv args conn data cl sh) key"
  using assms by (simp_all add: key_ready_def key_room_def task_ctx_parts update_time_def ds_inv_def fits_def db_removable_def)

lemma update_time_abs [simp]: "ds_abs (update_time ds t) = ds_abs ds"
  by (simp add: fun_eq_iff ds_abs_def update_time_def split: prod.split)

text \<open>A command with one key, on its shard or sent to it.\<close>

lemma keyed_run:
  assumes "server_ok sv" and "cluster_safe cl" and "None \<notin> set (cl_shards cl)" and "home sv key cl t sh"
    and "args = R_String u # R_String key # rest" and "from_utf8 (ascii_upper u) = Some u"
    and "sv_registry sv u = Some (keyed_entry (u, h, a))" and "arity_ok a args" and "classify_command u (keyed_entry (u, h, a)) = SingleKey"
    and "u \<notin> {''QUIT'', ''SELECT'', ''SAVE'', ''BGSAVE'', ''RESET''}"
    and "h (task_ctx sv args conn data cl sh) = Some ctx'" and "cc_conn ctx' = conn"
  shows "dispatch_command sv self args conn data cl = Some (True, conn, buf (cc_reply ctx'), after_task cl t ctx')"
proof -
  have hm: "shard_of sv (R_String key) = Some t" "unat t < length (cl_shards cl)" "cl_shards cl ! unat t = Some sh"
    using assms(4) by (simp_all add: home_def)
  have k: "keeps_connection sv args" using assms(5,6,10) by (simp add: keeps_connection_def)
  have "dispatch (rt_lower (sv_rt sv)) (sv_registry sv) args conn (engine_shard_update_time sh (sv_clock sv (cl_reads cl))) (rb_new (sv_itoa sv) data)
      = Some (True, conn, cc_shard ctx', cc_reply ctx')"
    using assms(5-8,10-12) by (simp add: dispatch_def Let_def task_ctx_def)
  then have loc: "route sv t t args conn data cl = Some (conn, buf (cc_reply ctx'), after_task cl t ctx')"
    using hm by (simp add: route_def exec_local_def exec_task_def Let_def after_task_def)
  have "None \<notin> set (cl_shards (after_task cl t ctx'))"
    using assms(3) by (auto simp: after_task_def dest!: subsetD [OF set_update_subset_insert])
  from route_anywhere [OF assms(1,2) k loc this]
  have "route sv self t args conn data cl = Some (conn, buf (cc_reply ctx'), after_task cl t ctx')" .
  then have "dispatch_known sv self args u (keyed_entry (u, h, a)) conn data cl = Some (conn, buf (cc_reply ctx'), after_task cl t ctx')"
    using assms(5,9) hm(1) by (simp add: dispatch_known_def)
  then show ?thesis
    unfolding dispatch_command_named [OF assms(5,6)] using assms(7,8,10) by (simp add: still_open_def)
qed

lemma after_task_abs:
  assumes "home sv key cl t sh" and "outcome (task_ctx sv args conn data cl sh) key x f ctx'"
  shows "cluster_abs sv (after_task cl t ctx') = (cluster_abs sv cl)((unat (conn_db conn), key) := x)"
proof
  fix p
  have hm: "shard_of sv (R_String key) = Some t" "unat t < length (cl_shards cl)" "cl_shards cl ! unat t = Some sh"
    using assms(1) by (simp_all add: home_def)
  have d: "ds_abs (shard_slice (cc_shard ctx')) = (ds_abs (shard_slice sh))((unat (conn_db conn), key) := x)"
    using assms(2) by (simp add: outcome_def key_place_def task_ctx_parts slice_def [symmetric])
  show "cluster_abs sv (after_task cl t ctx') p = ((cluster_abs sv cl)((unat (conn_db conn), key) := x)) p"
    using hm d by (auto simp: cluster_abs_def after_task_def nth_list_update_if split: option.split)
qed

lemma set_entry: "build_command_registry rt ''SET'' = Some (keyed_entry (''SET'', cmd_set, - 3))"
  by (simp add: build_command_registry_def register_zset_def register_hash_def register_set_def register_list_def
      register_string_def register_all_def zset_commands_def hash_commands_def set_commands_def list_commands_def
      string_commands_def register_def)

text \<open>SET without options, and GET of a string that has no deadline.\<close>

lemma plain_set:
  assumes "key_ready ctx key" and "key_room ctx key" and "cc_args ctx = [R_String ''SET'', R_String key, R_String v]"
  shows "\<exists>ctx'. cmd_set ctx = Some ctx' \<and> outcome ctx key (Some (from_bytes v, None)) send_ok ctx'"
proof -
  have a: "arg ctx 1 = Some key" "arg ctx 2 = Some v" using assms(3) by (simp_all add: arg_def)
  have o: "set_options ctx 3 set_opts_new = Inr set_opts_new" using assms(3) by (simp add: set_options.simps)
  have n: "\<not> (so_nx set_opts_new \<and> so_xx set_opts_new)" by (simp add: set_opts_new_def)
  have "set_cell set_opts_new now v old = Some (from_bytes v, None)" "set_reply set_opts_new old = send_ok" for now old
    by (auto simp: set_cell_def set_reply_def set_allowed_def set_deadline_def set_opts_new_def fun_eq_iff)
  then show ?thesis using ends_cmd_set [OF assms(1) a o n] assms(2) by (auto simp: ends_def)
qed

lemma find_plain:
  assumes "ds_inv ds" and "unat i < NUM_DBS" and "ds_abs ds (unat i, key) = Some (w, None)"
  shows "ds_find ds i key = Some (Some \<lparr>fr_value = w, has_expire = False\<rparr>, ds)"
    and "tbl_find (prime (dbs ds ! unat i)) (prime_key_new key) \<noteq> None"
proof -
  let ?db = "dbs ds ! unat i" and ?pk = "prime_key_new key"
  have inv: "db_inv ?db" and len: "unat i < length (dbs ds)" using assms(1,2) by (simp_all add: ds_inv_def)
  have "db_abs ?db key = Some (w, None)" using assms(3) by (auto simp: ds_abs_def split: if_splits)
  then have f: "tbl_find (prime ?db) ?pk = Some w" "tbl_find (expire ?db) ?pk = None"
    using dash.find_map [OF db_invD(1) [OF inv]] dash.find_map [OF db_invD(2) [OF inv]] by (auto simp: db_abs_Some)
  show "ds_find ds i key = Some (Some \<lparr>fr_value = w, has_expire = False\<rparr>, ds)"
    using len f by (simp add: ds_find_def on_db_def db_find_def check_and_expire_def tbl_contains_def)
  show "tbl_find (prime ?db) ?pk \<noteq> None" using f by simp
qed

lemma update_plain:
  assumes "ds_inv ds" and "unat i < NUM_DBS" and "ds_abs ds (unat i, key) = Some (w, None)"
  shows "\<exists>ds'. add_or_update ds i key v = Some (False, ds') \<and> ds_inv ds' \<and> ds_abs ds' = (ds_abs ds)((unat i, key) \<mapsto> (v, None)) \<and> now_ms ds' = now_ms ds"
proof -
  let ?db = "dbs ds ! unat i" and ?pk = "prime_key_new key"
  have inv: "db_inv ?db" and len: "unat i < length (dbs ds)" using assms(1,2) by (simp_all add: ds_inv_def)
  have "tbl_has_room (prime ?db) ?pk" using find_plain(2) [OF assms] by (simp add: tbl_has_room_def)
  then obtain t' where "tbl_insert (prime ?db) ?pk v = Some (tbl_map (prime ?db) ?pk, t')"
    using tbl_insert_total [OF db_invD(1) [OF inv]] by blast
  then obtain b ds' where a: "add_or_update ds i key v = Some (b, ds')" "now_ms ds' = now_ms ds" "b = (tbl_map (prime ?db) ?pk = None)"
    using len by (auto simp: add_or_update_def on_db_def db_insert_def)
  moreover have "tbl_map (prime ?db) ?pk \<noteq> None"
    using find_plain(2) [OF assms] dash.find_map [OF db_invD(1) [OF inv]] by simp
  ultimately show ?thesis using add_or_update_abs [OF assms(1,2) a(1)] assms(3) by auto
qed

lemma plain_get:
  assumes "ds_inv (slice ctx)" and "unat (ctx_db ctx) < NUM_DBS" and "arg ctx 1 = Some key"
    and "ds_abs (slice ctx) (key_place ctx key) = Some (w, None)" and "is_string w"
  shows "cmd_get ctx = Some (ctx\<lparr>cc_reply := send_bulk_string (cc_reply ctx) (value_as_bytes w)\<rparr>)"
  using find_plain(1) [OF assms(1,2) assms(4) [unfolded key_place_def]] assms(3,5)
  by (simp add: cmd_get_def with_arg_def find_string_def on_slice_def rep_bulk_def rep_def slice_def set_slice_def)

lemma running_after: "None \<notin> set (cl_shards cl) \<Longrightarrow> None \<notin> set (cl_shards (after_task cl t ctx))"
  by (auto simp: after_task_def dest!: subsetD [OF set_update_subset_insert])

lemma set_run:
  assumes "server_ok sv" and "cluster_safe cl" and "None \<notin> set (cl_shards cl)" and "key_open sv (conn_db conn) key cl"
  shows "\<exists>t sh c1. home sv key cl t sh
    \<and> dispatch_command sv i [R_String ''SET'', R_String key, R_String v] conn data cl = Some (True, conn, data @ ''+OK'' @ CRLF, after_task cl t c1)
    \<and> outcome (task_ctx sv [R_String ''SET'', R_String key, R_String v] conn data cl sh) key (Some (from_bytes v, None)) send_ok c1"
proof -
  let ?set = "[R_String ''SET'', R_String key, R_String v]"
  obtain t sh where hm: "home sv key cl t sh" and inv: "ds_inv (shard_slice sh)" and db: "unat (conn_db conn) < NUM_DBS"
    and ft: "fits True (prime (dbs (shard_slice sh) ! unat (conn_db conn))) (prime_key_new key)"
      "fits True (expire (dbs (shard_slice sh) ! unat (conn_db conn))) (prime_key_new key)"
    using assms(4) by (auto simp: key_open_def)
  have reg: "sv_registry sv ''SET'' = Some (keyed_entry (''SET'', cmd_set, - 3))" using assms(1) by (simp add: server_ok_def set_entry)
  let ?c = "task_ctx sv ?set conn data cl sh"
  obtain c1 where c1: "cmd_set ?c = Some c1" and o: "outcome ?c key (Some (from_bytes v, None)) send_ok c1"
    using plain_set [OF task_ready [OF inv db ft] task_ctx_parts(4)] by blast
  have cc: "cc_conn c1 = conn" and r1: "buf (cc_reply c1) = data @ ''+OK'' @ CRLF"
    using o by (simp_all add: outcome_def task_ctx_parts send_ok_def Reply_Builder.extend_def rb_new_def)
  have u: "from_utf8 (ascii_upper ''SET'') = Some ''SET''" by code_simp
  have "dispatch_command sv i ?set conn data cl = Some (True, conn, buf (cc_reply c1), after_task cl t c1)"
    by (rule keyed_run [OF assms(1-3) hm refl u reg _ _ _ c1 cc]) (simp_all add: classify_command_def arity_ok_def argc_i16_def)
  then show ?thesis using hm o r1 by metis
qed

lemma get_run:
  assumes "server_ok sv" and "cluster_safe cl" and "None \<notin> set (cl_shards cl)" and "home sv key cl t sh" and "ds_inv (shard_slice sh)"
    and "unat (conn_db conn) < NUM_DBS" and "ds_abs (shard_slice sh) (unat (conn_db conn), key) = Some (w, None)" and "is_string w"
    and "length (value_as_bytes w) < 2 ^ 63"
  shows "\<exists>cl'. dispatch_command sv j [R_String ''GET'', R_String key] conn data cl = Some (True, conn, data @ bulk (value_as_bytes w), cl')"
proof -
  let ?get = "[R_String ''GET'', R_String key]"
  let ?g = "task_ctx sv ?get conn data cl sh"
  let ?c = "?g\<lparr>cc_reply := send_bulk_string (cc_reply ?g) (value_as_bytes w)\<rparr>"
  have reg: "sv_registry sv ''GET'' = Some (keyed_entry (''GET'', cmd_get, 2))" and it: "itoa_ok (sv_itoa sv)"
    using assms(1) by (simp_all add: server_ok_def get_entry)
  have "ds_inv (slice ?g)" using assms(5) by (simp add: task_ctx_parts ds_inv_def update_time_def)
  moreover have "ds_abs (slice ?g) (key_place ?g key) = Some (w, None)" "arg ?g 1 = Some key"
    using assms(7) by (simp_all add: task_ctx_parts key_place_def arg_def)
  ultimately have c: "cmd_get ?g = Some ?c" using assms(6,8) by (intro plain_get) (simp_all add: task_ctx_parts)
  have r: "buf (cc_reply ?c) = data @ bulk (value_as_bytes w)"
    using send_bulk_buf [of "rb_new (sv_itoa sv) data" "value_as_bytes w"] it assms(9) by (simp add: task_ctx_parts rb_new_def)
  have cc: "cc_conn ?c = conn" by (simp add: task_ctx_parts)
  have u: "from_utf8 (ascii_upper ''GET'') = Some ''GET''" by code_simp
  have "dispatch_command sv j ?get conn data cl = Some (True, conn, buf (cc_reply ?c), after_task cl t ?c)"
    by (rule keyed_run [OF assms(1-4) refl u reg _ _ _ c cc]) (simp_all add: classify_command_def arity_ok_def argc_i16_def)
  then show ?thesis unfolding r by blast
qed

lemma command_keeps_safe:
  assumes "server_ok sv" and "cluster_safe cl" and "dispatch_command sv self args conn data cl = Some (keep, conn', data', cl')"
  shows "cluster_safe cl'"
  using cluster_system.run_keeps [OF dispatch_command_steps [OF assms(3)], of cluster_safe] assms(2) shard_step_safe [OF assms(1)] by blast

subsection \<open>Increments from many connections\<close>

text \<open>Commands of several connections, one after the other, with their replies.\<close>

fun run_each :: "server \<Rightarrow> (u32 \<times> conn_context \<times> resp_expr list) list \<Rightarrow> cluster \<Rightarrow> (bytes list \<times> cluster) option" where
  "run_each sv [] cl = Some ([], cl)"
| "run_each sv ((self, conn, args) # cmds) cl =
     (case dispatch_command sv self args conn [] cl of
        None \<Rightarrow> None
      | Some (_, _, d, cl1) \<Rightarrow> map_option (\<lambda>(ds, cl2). (d # ds, cl2)) (run_each sv cmds cl1))"

lemma plain_incr:
  assumes "ds_inv (slice ctx)" and "unat (ctx_db ctx) < NUM_DBS" and "arg ctx 1 = Some key"
    and "ds_abs (slice ctx) (key_place ctx key) = Some (PV_Integer n, None)" and "sint n < 2 ^ 63 - 1"
  shows "\<exists>ctx'. cmd_incr ctx = Some ctx' \<and> outcome ctx key (Some (PV_Integer (n + 1), None)) (\<lambda>rb. send_integer rb (n + 1)) ctx'"
proof -
  have abs: "ds_abs (slice ctx) (unat (ctx_db ctx), key) = Some (PV_Integer n, None)" using assms(4) by (simp add: key_place_def)
  obtain ds' where u: "add_or_update (slice ctx) (ctx_db ctx) key (PV_Integer (n + 1)) = Some (False, ds')" "ds_inv ds'"
    "ds_abs ds' = (ds_abs (slice ctx))((unat (ctx_db ctx), key) \<mapsto> (PV_Integer (n + 1), None))" "now_ms ds' = now_ms (slice ctx)"
    using update_plain [OF assms(1,2) abs] by blast
  have "- (2 ^ 63) \<le> sint n" using sint_i64_bounds(1) .
  then have "checked_add n 1 = Some (n + 1)" using assms(5) by (simp add: checked_add_def Let_def)
  then have "cmd_incr ctx = rep_int (n + 1) (set_slice ds' ctx)"
    using find_plain(1) [OF assms(1,2) abs] assms(3) u(1)
    by (simp add: cmd_incr_def incr_by_def with_arg_def on_slice_def incr_store_def) (simp add: set_slice_def slice_def ctx_db_def)
  then show ?thesis using u by (auto simp: outcome_def rep_int_def rep_def key_place_def slice_def set_slice_def)
qed

lemma incr_entry: "build_command_registry rt ''INCR'' = Some (keyed_entry (''INCR'', cmd_incr, 2))"
  by (simp add: build_command_registry_def register_zset_def register_hash_def register_set_def register_list_def
      register_string_def register_all_def zset_commands_def hash_commands_def set_commands_def list_commands_def
      string_commands_def register_def)

lemma incr_run:
  assumes "server_ok sv" and "cluster_safe cl" and "None \<notin> set (cl_shards cl)" and "home sv key cl t sh" and "ds_inv (shard_slice sh)"
    and "unat (conn_db conn) < NUM_DBS" and "ds_abs (shard_slice sh) (unat (conn_db conn), key) = Some (PV_Integer n, None)"
    and "sint n < 2 ^ 63 - 1"
  shows "\<exists>c1. dispatch_command sv j [R_String ''INCR'', R_String key] conn data cl
      = Some (True, conn, data @ '':'' @ i64_to_string (n + 1) @ CRLF, after_task cl t c1)
    \<and> outcome (task_ctx sv [R_String ''INCR'', R_String key] conn data cl sh) key (Some (PV_Integer (n + 1), None)) (\<lambda>rb. send_integer rb (n + 1)) c1"
proof -
  let ?g = "task_ctx sv [R_String ''INCR'', R_String key] conn data cl sh"
  have reg: "sv_registry sv ''INCR'' = Some (keyed_entry (''INCR'', cmd_incr, 2))" and it: "itoa_ok (sv_itoa sv)"
    using assms(1) by (simp_all add: server_ok_def incr_entry)
  have "ds_inv (slice ?g)" using assms(5) by (simp add: task_ctx_parts ds_inv_def update_time_def)
  moreover have "ds_abs (slice ?g) (key_place ?g key) = Some (PV_Integer n, None)" "arg ?g 1 = Some key"
    using assms(7) by (simp_all add: task_ctx_parts key_place_def arg_def)
  ultimately obtain c1 where c1: "cmd_incr ?g = Some c1" and o: "outcome ?g key (Some (PV_Integer (n + 1), None)) (\<lambda>rb. send_integer rb (n + 1)) c1"
    using plain_incr [of ?g key n] assms(6,8) by (auto simp: task_ctx_parts)
  have cc: "cc_conn c1 = conn" and r: "buf (cc_reply c1) = data @ '':'' @ i64_to_string (n + 1) @ CRLF"
    using o it send_integer_buf [of "rb_new (sv_itoa sv) data" "n + 1"] by (simp_all add: outcome_def task_ctx_parts rb_new_def)
  have u: "from_utf8 (ascii_upper ''INCR'') = Some ''INCR''" by code_simp
  have "dispatch_command sv j [R_String ''INCR'', R_String key] conn data cl = Some (True, conn, buf (cc_reply c1), after_task cl t c1)"
    by (rule keyed_run [OF assms(1-4) refl u reg _ _ _ c1 cc]) (simp_all add: classify_command_def arity_ok_def argc_i16_def)
  then show ?thesis using o r by metis
qed

lemma after_task_home:
  assumes "home sv key cl t sh" and "outcome (task_ctx sv args conn data cl sh) key x f c1"
  shows "home sv key (after_task cl t c1) t (cc_shard c1)" and "ds_inv (shard_slice (cc_shard c1))"
    and "ds_abs (shard_slice (cc_shard c1)) (unat (conn_db conn), key) = x"
  using assms by (simp_all add: home_def after_task_def outcome_def task_ctx_parts key_place_def slice_def [symmetric])

lemma increments:
  assumes "server_ok sv" and "unat (conn_db conn) < NUM_DBS"
  shows "cluster_safe cl \<Longrightarrow> None \<notin> set (cl_shards cl) \<Longrightarrow> home sv key cl t sh \<Longrightarrow> ds_inv (shard_slice sh)
    \<Longrightarrow> ds_abs (shard_slice sh) (unat (conn_db conn), key) = Some (PV_Integer m, None) \<Longrightarrow> sint m + int (length js) < 2 ^ 63
    \<Longrightarrow> \<exists>cl'. run_each sv (map (\<lambda>j. (j, conn, [R_String ''INCR'', R_String key])) js) cl
          = Some (map (\<lambda>k. '':'' @ i64_to_string (m + of_nat (Suc k)) @ CRLF) [0..<length js], cl')
        \<and> cluster_abs sv cl' = (cluster_abs sv cl)((unat (conn_db conn), key) \<mapsto> (PV_Integer (m + of_nat (length js)), None))"
proof (induction js arbitrary: m cl sh)
  case Nil
  then have "cluster_abs sv cl (unat (conn_db conn), key) = Some (PV_Integer m, None)" by (simp add: cluster_abs_def home_def)
  then show ?case by (simp add: fun_upd_idem)
next
  case (Cons j js)
  have "sint m < 2 ^ 63 - 1" using Cons.prems(6) by simp
  from incr_run [OF assms(1) Cons.prems(1-4) assms(2) Cons.prems(5) this, of j "[]"]
  obtain c1 where run: "dispatch_command sv j [R_String ''INCR'', R_String key] conn [] cl
      = Some (True, conn, '':'' @ i64_to_string (m + 1) @ CRLF, after_task cl t c1)"
    and o: "outcome (task_ctx sv [R_String ''INCR'', R_String key] conn [] cl sh) key (Some (PV_Integer (m + 1), None)) (\<lambda>rb. send_integer rb (m + 1)) c1"
    by auto
  note h = after_task_home [OF Cons.prems(3) o]
  have "sint (m + 1) = sint (word_of_int (sint m + 1) :: i64)" by simp
  also have "\<dots> = sint m + 1"
    using Cons.prems(6) sint_i64_bounds(1) [of m] by (simp only: signed_of_int) (simp add: signed_take_bit_int_eq_self)
  finally have "sint (m + 1) = sint m + 1" .
  then have "sint (m + 1) + int (length js) < 2 ^ 63" using Cons.prems(6) by simp
  from Cons.IH [OF command_keeps_safe [OF assms(1) Cons.prems(1) run] running_after [OF Cons.prems(2)] h this]
  obtain cl' where ih: "run_each sv (map (\<lambda>j. (j, conn, [R_String ''INCR'', R_String key])) js) (after_task cl t c1)
          = Some (map (\<lambda>k. '':'' @ i64_to_string (m + 1 + of_nat (Suc k)) @ CRLF) [0..<length js], cl')"
    "cluster_abs sv cl' = (cluster_abs sv (after_task cl t c1))((unat (conn_db conn), key) \<mapsto> (PV_Integer (m + 1 + of_nat (length js)), None))"
    by blast
  have "map (\<lambda>k. '':'' @ i64_to_string (m + of_nat (Suc k)) @ CRLF) [0..<length (j # js)]
      = ('':'' @ i64_to_string (m + 1) @ CRLF) # map (\<lambda>k. '':'' @ i64_to_string (m + 1 + of_nat (Suc k)) @ CRLF) [0..<length js]"
    by (simp add: upt_conv_Cons map_Suc_upt [symmetric] del: upt_Suc map_Suc_upt) (simp add: algebra_simps)
  then show ?case using run ih after_task_abs [OF Cons.prems(3) o] by (simp add: algebra_simps) (simp add: fun_upd_def)
qed

subsection \<open>Properties\<close>

lemma demo_open: "key_open demo_server (conn_db conn_context_new) key demo_cluster"
proof -
  obtain t where t: "shard_of demo_server (R_String key) = Some t" "t < 2"
    by (auto simp: shard_of_def key_bytes_def shard_def demo_server_def word_less_nat_alt unat_mod)
  then have lt: "unat t < 2" by (simp add: word_less_nat_alt)
  let ?sh = "engine_shard_new (\<lambda>_ _. 0)"
  have "home demo_server key demo_cluster t ?sh" using t(1) lt by (simp add: home_def demo_cluster_def)
  moreover have "fits True (prime (dbs (shard_slice ?sh) ! 0)) pk" "fits True (expire (dbs (shard_slice ?sh) ! 0)) pk" for pk
    by (simp_all add: fits_def engine_shard_new_def demo_slice_def [symmetric] demo_slice_db NUM_DBS_def tbl_spare_def db_table_new_def
        tbl_removable_absent [OF tbl_new_inv] tbl_new_map) (simp_all add: tbl_with_hasher_def seg_id_def segment_new_def dash_consts)
  ultimately show ?thesis using ds_inv_new [of "\<lambda>_ _. 0"]
    by (auto simp: key_open_def conn_context_new_def NUM_DBS_def engine_shard_new_def intro!: exI [of _ t])
qed



text \<open>C15: no increment is lost. INCR commands for one key (an integer without deadline), on connections of any shards and in any
  number, all return as long as the sum fits 64 bits; they answer the consecutive numbers, each exactly once, and the entry
  holds the sum in the end, with every other entry of the cluster unchanged.\<close>

theorem increments_not_lost:
  assumes "server_ok sv" and "cluster_safe cl" and "None \<notin> set (cl_shards cl)" and "home sv key cl t sh" and "ds_inv (shard_slice sh)"
    and "unat (conn_db conn) < NUM_DBS" and "cluster_abs sv cl (unat (conn_db conn), key) = Some (PV_Integer m, None)"
    and "sint m + int (length js) < 2 ^ 63"
  shows "\<exists>cl'. run_each sv (map (\<lambda>j. (j, conn, [R_String ''INCR'', R_String key])) js) cl
       = Some (map (\<lambda>k. '':'' @ i64_to_string (m + of_nat (Suc k)) @ CRLF) [0..<length js], cl')
     \<and> cluster_abs sv cl' = (cluster_abs sv cl)((unat (conn_db conn), key) \<mapsto> (PV_Integer (m + of_nat (length js)), None))"
proof -
  have "ds_abs (shard_slice sh) (unat (conn_db conn), key) = Some (PV_Integer m, None)"
    using assms(4,7) by (simp add: cluster_abs_def home_def)
  from increments [OF assms(1,6,2-5) this assms(8)] show ?thesis .
qed

theorem increments_not_lost_witness:
  "\<exists>cl1 cl'. dispatch_command demo_server 0 [R_String ''SET'', R_String ''k'', R_String ''5''] conn_context_new [] demo_cluster
       = Some (True, conn_context_new, ''+OK'' @ CRLF, cl1)
     \<and> run_each demo_server (map (\<lambda>j. (j, conn_context_new, [R_String ''INCR'', R_String ''k''])) [1, 0]) cl1
       = Some (['':6'' @ CRLF, '':7'' @ CRLF], cl')"
proof -
  have run: "None \<notin> set (cl_shards demo_cluster)" by (simp add: demo_cluster_def)
  have five: "from_bytes ''5'' = PV_Integer 5" by code_simp
  obtain t sh c1 where hm: "home demo_server ''k'' demo_cluster t sh"
    and r: "dispatch_command demo_server 0 [R_String ''SET'', R_String ''k'', R_String ''5''] conn_context_new [] demo_cluster
      = Some (True, conn_context_new, [] @ ''+OK'' @ CRLF, after_task demo_cluster t c1)"
    and o: "outcome (task_ctx demo_server [R_String ''SET'', R_String ''k'', R_String ''5''] conn_context_new [] demo_cluster sh) ''k''
      (Some (from_bytes ''5'', None)) send_ok c1"
    using set_run [OF demo_server_ok demo_cluster_safe run demo_open [of "''k''"]] by blast
  have db: "unat (conn_db conn_context_new) < NUM_DBS" by (simp add: conn_context_new_def NUM_DBS_def)
  have abs: "cluster_abs demo_server (after_task demo_cluster t c1) (unat (conn_db conn_context_new), ''k'') = Some (PV_Integer 5, None)"
    unfolding after_task_abs [OF hm o] by (simp add: five)
  have b: "sint (5 :: i64) + int (length [1 :: u32, 0]) < 2 ^ 63" by simp
  have sh: "map (\<lambda>k. '':'' @ i64_to_string (5 + of_nat (Suc k)) @ CRLF) [0..<length [1 :: u32, 0]] = ['':6'' @ CRLF, '':7'' @ CRLF]" by code_simp
  show ?thesis
    using r increments_not_lost [OF demo_server_ok command_keeps_safe [OF demo_server_ok demo_cluster_safe r] running_after [OF run]
        after_task_home(1,2) [OF hm o] db abs b] unfolding sh by auto
qed

end
