(* ===== verification/Value_Commands.thy ===== *)
theory Value_Commands
  imports Key_Commands
begin

text \<open>
  More commands with one key, specified and verified in the same way as those of \<open>Key_Commands\<close>: the other
  commands on strings, the queries and changes of deadlines, and the commands on sets and hashes.
\<close>

subsection \<open>The other commands on strings\<close>

lemma moves_add_if_absent:
  assumes "z = unexpired_cell now y"
  shows "moves room key (\<lambda>db. db_add_if_absent db (prime_key_new key) v now) True True y False False
    (if z = None then Some (v, None) else z) (\<lambda>r. r = (z = None))"
proof (rule movesI)
  fix db assume inv: "db_inv db" and y: "db_abs db key = y" and room
    and "True \<longrightarrow> fits room (prime db) (prime_key_new key)" "True \<longrightarrow> fits room (expire db) (prime_key_new key)"
  then have ft: "fits room (prime db) (prime_key_new key)" "fits room (expire db) (prime_key_new key)" by simp_all
  obtain b db1 where c: "check_and_expire db (prime_key_new key) now = (b, db1)" by fastforce
  have "tbl_has_room (prime db1) (prime_key_new key)" using fits_check(1) [OF inv ft c] spare_room \<open>room\<close> by (auto simp: fits_def)
  then obtain t' where "tbl_insert (prime db1) (prime_key_new key) v = Some (tbl_map (prime db1) (prime_key_new key), t')"
    using tbl_insert_total [OF db_invD(1) [OF check_and_expire_spec(1) [OF inv fits_removable [OF ft] c]]] by blast
  then show "db_add_if_absent db (prime_key_new key) v now \<noteq> None" using c by (auto simp: db_add_if_absent_def db_insert_def)
next
  fix db r db' assume inv: "db_inv db" and y: "db_abs db key = y" and a: "db_add_if_absent db (prime_key_new key) v now = Some (r, db')"
    and "True \<longrightarrow> fits room (prime db) (prime_key_new key)" "True \<longrightarrow> fits room (expire db) (prime_key_new key)"
  then have ft: "fits room (prime db) (prime_key_new key)" "fits room (expire db) (prime_key_new key)" by simp_all
  have vz: "visible (db_abs db) now key = map_option fst z"
    using y assms by (auto simp: visible_def unexpired_cell_def split: option.splits)
  have z: "z \<noteq> None \<Longrightarrow> z = y" using assms by (auto simp: unexpired_cell_def split: option.splits if_splits)
  show "db_inv db' \<and> db_abs db' = (db_abs db)(key := if z = None then Some (v, None) else z)
      \<and> (False \<longrightarrow> fits room (prime db') (prime_key_new key)) \<and> (False \<longrightarrow> fits room (expire db') (prime_key_new key)) \<and> r = (z = None)"
    using db_add_if_absent_spec [OF inv fits_removable [OF ft] a] y z by (cases "z = None") (auto simp: vz fun_upd_idem)
qed

lemma ends_add_if_absent:
  assumes "stands ctx key True True y c" and "i = ctx_db ctx" and "z = unexpired_cell (now_ms (slice ctx)) y"
    and "\<And>c2. stands ctx key False False (if z = None then Some (v, None) else z) c2 \<Longrightarrow> ends ctx key x f (k (z = None) c2)"
  shows "ends ctx key x f (on_slice c (\<lambda>ds. add_if_absent ds i key v) k)"
  unfolding add_if_absent_def assms(2)
proof (rule ends_moves [where h = "\<lambda>ds db. db_add_if_absent db (prime_key_new key) v (now_ms ds)", OF assms(1) moves_add_if_absent])
  show "z = unexpired_cell (now_ms (slice c)) y" using assms(3) stands_now [OF assms(1)] by simp
qed (simp only: assms(4))

text \<open>What they mean: \<open>typed\<close> is the reply unless the key holds another type.\<close>

definition typed_reply :: "cell \<Rightarrow> (reply_builder \<Rightarrow> reply_builder) \<Rightarrow> reply_builder \<Rightarrow> reply_builder" where
  "typed_reply old f rb = (if wrong_type old then send_wrong_type rb [] else f rb)"

definition typed_cell :: "cell \<Rightarrow> cell \<Rightarrow> cell" where
  "typed_cell old x = (if wrong_type old then old else x)"

definition string_or_empty :: "cell \<Rightarrow> bytes" where
  "string_or_empty x = (case string_of x of Some s \<Rightarrow> s | None \<Rightarrow> [])"

definition edit_result :: "(bytes \<Rightarrow> bytes) \<Rightarrow> cell \<Rightarrow> cell" where
  "edit_result g old = typed_cell old (Some (PV_String (g (string_or_empty old)), Option.bind old snd))"

definition edit_reply :: "(bytes \<Rightarrow> bytes) \<Rightarrow> cell \<Rightarrow> reply_builder \<Rightarrow> reply_builder" where
  "edit_reply g old = typed_reply old (\<lambda>rb. send_integer rb (of_nat (length (g (string_or_empty old)))))"

lemma typed_simps: "wrong_type old \<Longrightarrow> typed_cell old x = old \<and> typed_reply old f = (\<lambda>rb. send_wrong_type rb [])"
  "\<not> wrong_type old \<Longrightarrow> typed_cell old x = x \<and> typed_reply old f = f"
  by (simp_all add: typed_cell_def typed_reply_def fun_eq_iff)

lemma ends_typed:
  assumes "stands ctx key True True y c" and "old = unexpired_cell (now_ms (slice ctx)) y"
    and "\<And>c2. stands ctx key True True old c2 \<Longrightarrow> \<not> wrong_type old \<Longrightarrow> ends ctx key x f (k (string_of old) c2)"
  shows "ends ctx key (typed_cell old x) (typed_reply old f) (find_string c key k)"
proof (rule ends_find_string [OF assms(1,2)])
  fix c2 assume "stands ctx key True True old c2" "\<not> wrong_type old"
  then show "ends ctx key (typed_cell old x) (typed_reply old f) (k (string_of old) c2)"
    using assms(3) typed_simps(2) [of old x f] by simp
qed (use typed_simps(1) in blast)

lemma ends_get:
  assumes "key_ready ctx key" and "arg ctx 1 = Some key"
  shows "ends ctx key (cell_of ctx key) (typed_reply (cell_of ctx key) (send_old (cell_of ctx key))) (cmd_get ctx)"
proof -
  let ?old = "cell_of ctx key"
  note st = ends_start [OF assms(1)]
  have "ends ctx key (typed_cell ?old ?old) (typed_reply ?old (send_old ?old)) (find_string ctx key rep_old)"
    by (rule ends_typed [OF st(1) st(2) [symmetric]]) (simp add: rep_old_eq ends_rep)
  moreover have "cmd_get ctx = find_string ctx key rep_old"
  proof -
    have "(\<lambda>v ctx1. case v of Some d \<Rightarrow> rep_bulk d ctx1 | None \<Rightarrow> rep send_null ctx1) = rep_old"
      by (auto simp: fun_eq_iff rep_old_def split: option.split)
    then show ?thesis using assms(2) by (simp add: cmd_get_def with_arg_def)
  qed
  ultimately show ?thesis by (simp add: typed_cell_def)
qed

lemma ends_getset:
  assumes "key_ready ctx key" and "arg ctx 1 = Some key" and "arg ctx 2 = Some v"
  shows "ends ctx key (typed_cell (cell_of ctx key) (Some (from_bytes v, None))) (typed_reply (cell_of ctx key) (send_old (cell_of ctx key))) (cmd_getset ctx)"
proof -
  let ?old = "cell_of ctx key"
  note st = ends_start [OF assms(1)]
  have "ends ctx key (typed_cell ?old (Some (from_bytes v, None))) (typed_reply ?old (send_old ?old)) (find_string ctx key (\<lambda>old ctx1.
      on_slice ctx1 (\<lambda>ds. add_or_update ds (ctx_db ctx) key (from_bytes v)) (\<lambda>_ ctx2.
        on_slice ctx2 (\<lambda>ds. remove_expire ds (ctx_db ctx) key) (\<lambda>_ ctx3. rep_old old ctx3))))"
  proof (rule ends_typed [OF st(1) st(2) [symmetric]], rule ends_insert [OF _ refl])
    fix c2 c3 assume s: "stands ctx key False True (Some (from_bytes v, Option.bind ?old snd)) c3"
    show "ends ctx key (Some (from_bytes v, None)) (send_old ?old) (on_slice c3 (\<lambda>ds. remove_expire ds (ctx_db ctx) key) (\<lambda>_. rep_old (string_of ?old)))"
      by (rule ends_remove_expire [OF s refl]) (simp add: rep_old_eq ends_rep)
  qed
  then show ?thesis using assms(2,3) by (simp add: cmd_getset_def with_arg_def)
qed

lemma ends_getdel:
  assumes "key_ready ctx key" and "arg ctx 1 = Some key"
  shows "ends ctx key (typed_cell (cell_of ctx key) None) (typed_reply (cell_of ctx key) (send_old (cell_of ctx key))) (cmd_getdel ctx)"
proof -
  let ?old = "cell_of ctx key"
  note st = ends_start [OF assms(1)]
  let ?k = "\<lambda>v ctx1. case v of Some d \<Rightarrow> Option.bind (rep_bulk d ctx1) (\<lambda>ctx2. on_slice ctx2 (\<lambda>ds. ds_del ds (ctx_db ctx) key) (\<lambda>_ ctx3. Some ctx3))
      | None \<Rightarrow> rep send_null ctx1"
  have "ends ctx key (typed_cell ?old None) (typed_reply ?old (send_old ?old)) (find_string ctx key ?k)"
  proof (rule ends_typed [OF st(1) st(2) [symmetric]])
    fix c2 assume s: "stands ctx key True True ?old c2"
    show "ends ctx key None (send_old ?old) (?k (string_of ?old) c2)"
    proof (cases "string_of ?old")
      case None
      then have "?old = None" "send_old ?old = send_null" by (auto simp: string_of_def send_old_def fun_eq_iff)
      then show ?thesis using None ends_rep [OF s] by simp
    next
      case (Some d)
      have "ctx_db (c2\<lparr>cc_reply := rb\<rparr>) = ctx_db ctx" for rb using stands_db [OF s] by (simp add: ctx_db_def)
      then have "?k (string_of ?old) c2 = Option.bind (rep_bulk d c2) (drop_if True key)"
        using Some by (simp add: rep_bulk_def rep_def drop_if_def)
      moreover have "send_old ?old = (\<lambda>rb. send_bulk_string rb d)" using Some by (simp add: send_old_def fun_eq_iff)
      ultimately show ?thesis using ends_drop [OF s, of None True] by (simp add: rep_bulk_def rep_drop)
    qed
  qed
  then show ?thesis using assms(2) by (simp add: cmd_getdel_def with_arg_def)
qed

lemma ends_strlen:
  assumes "key_ready ctx key" and "arg ctx 1 = Some key"
  shows "ends ctx key (cell_of ctx key)
    (typed_reply (cell_of ctx key) (\<lambda>rb. send_integer rb (of_nat (length (string_or_empty (cell_of ctx key)))))) (cmd_strlen ctx)"
proof -
  let ?old = "cell_of ctx key"
  let ?f = "\<lambda>rb. send_integer rb (of_nat (length (string_or_empty ?old)))"
  let ?k = "\<lambda>v. rep (\<lambda>rb. send_integer rb (of_nat (length (case v of Some s \<Rightarrow> s | None \<Rightarrow> []))))"
  note st = ends_start [OF assms(1)]
  have "ends ctx key (typed_cell ?old ?old) (typed_reply ?old ?f) (find_string ctx key ?k)"
    by (rule ends_typed [OF st(1) st(2) [symmetric]]) (simp add: string_or_empty_def ends_rep)
  moreover have "cmd_strlen ctx = find_string ctx key ?k"
    using assms(2) by (auto simp: cmd_strlen_def with_arg_def find_string_def on_slice_def rep_int_def value_strlen_bytes split: option.splits)
  ultimately show ?thesis by (simp add: typed_cell_def)
qed

lemma ends_setnx:
  assumes "key_ready ctx key" and "arg ctx 1 = Some key" and "arg ctx 2 = Some v"
  shows "ends ctx key (if cell_of ctx key = None then Some (from_bytes v, None) else cell_of ctx key)
    (\<lambda>rb. send_integer rb (if cell_of ctx key = None then 1 else 0)) (cmd_setnx ctx)"
proof -
  let ?old = "cell_of ctx key"
  note st = ends_start [OF assms(1)]
  have "ends ctx key (if ?old = None then Some (from_bytes v, None) else ?old) (\<lambda>rb. send_integer rb (if ?old = None then 1 else 0))
      (on_slice ctx (\<lambda>ds. add_if_absent ds (ctx_db ctx) key (from_bytes v)) (\<lambda>added. rep_int (if added then 1 else 0)))"
    unfolding rep_int_def by (rule ends_add_if_absent [OF st(1) refl st(2) [symmetric] ends_rep])
  then show ?thesis using assms(2,3) by (simp add: cmd_setnx_def with_arg_def)
qed

lemma ends_set_with_ttl:
  assumes "key_ready ctx key" and "arg ctx 1 = Some key" and "arg_positive_int ctx 2 = Some n" and "arg ctx 3 = Some v"
  shows "ends ctx key (Some (from_bytes v, Some (now_ms (slice ctx) + n * scale))) send_ok (set_with_ttl scale ctx)"
proof -
  note st = ends_start [OF assms(1)]
  have "ends ctx key (Some (from_bytes v, Some (now_ms (slice ctx) + n * scale))) send_ok
      (on_slice ctx (\<lambda>ds. add_or_update ds (ctx_db ctx) key (from_bytes v)) (\<lambda>_ ctx1.
         on_slice ctx1 (\<lambda>ds. add_expire ds (ctx_db ctx) key (now_ms ds + n * scale)) (\<lambda>_. rep send_ok)))"
  proof (rule ends_insert [OF st(1) refl])
    fix c2 assume s: "stands ctx key False True (Some (from_bytes v, Option.bind (ds_abs (slice ctx) (key_place ctx key)) snd)) c2"
    show "ends ctx key (Some (from_bytes v, Some (now_ms (slice ctx) + n * scale))) send_ok
        (on_slice c2 (\<lambda>ds. add_expire ds (ctx_db ctx) key (now_ms ds + n * scale)) (\<lambda>_. rep send_ok))"
      by (rule ends_add_expire [OF s refl]) (simp add: stands_now [OF s] ends_rep)
  qed
  then show ?thesis using assms(2-4) by (simp add: set_with_ttl_def with_arg_def)
qed

lemma ends_edit_or_create:
  assumes "key_ready ctx key" and "\<And>s. f s = Some (g s)"
  shows "ends ctx key (edit_result g (cell_of ctx key)) (edit_reply g (cell_of ctx key)) (edit_or_create key f ctx)"
  unfolding edit_or_create_def
proof -
  let ?old = "cell_of ctx key"
  let ?x = "edit_result g ?old" and ?r = "edit_reply g ?old"
  let ?e = "\<lambda>v. if \<not> is_string v then (v, Some None) else (PV_String (g (value_as_bytes v)), Some (Some (length (g (value_as_bytes v)))))"
  note st = ends_start [OF assms(1)]
  have e: "edit_string f = (\<lambda>fr. ?e (fr_value fr))" by (simp add: edit_string_def assms(2) fun_eq_iff)
  show "ends ctx key ?x ?r (on_slice ctx (\<lambda>ds. ds_find_mut ds (ctx_db ctx) key (edit_string f)) (\<lambda>r ctx1.
      case r of Some None \<Rightarrow> None | Some (Some None) \<Rightarrow> rep_wrong_type ctx1 | Some (Some (Some n)) \<Rightarrow> rep_int (of_nat n) ctx1
      | None \<Rightarrow> Option.bind (f []) (\<lambda>s. on_slice ctx1 (\<lambda>ds. add_or_update ds (ctx_db ctx) key (PV_String s)) (\<lambda>_ ctx2.
               rep_int (of_nat (length s)) ctx2))))"
    unfolding e
  proof (rule ends_find_mut [OF st(1) refl st(2) [symmetric]])
    fix c2 assume s: "stands ctx key True True (map_option (\<lambda>(v, d). (fst (?e v), d)) ?old) c2"
    show "ends ctx key ?x ?r (case map_option (\<lambda>(v, d). snd (?e v)) ?old of
        None \<Rightarrow> Option.bind (f []) (\<lambda>s. on_slice c2 (\<lambda>ds. add_or_update ds (ctx_db ctx) key (PV_String s)) (\<lambda>_ ctx2.
               rep_int (of_nat (length s)) ctx2))
      | Some None \<Rightarrow> None | Some (Some None) \<Rightarrow> rep_wrong_type c2 | Some (Some (Some n)) \<Rightarrow> rep_int (of_nat n) c2)"
    proof (cases ?old)
      case None
      then have x: "?x = Some (PV_String (g []), None)" "?r = (\<lambda>rb. send_integer rb (of_nat (length (g []))))"
        by (simp_all add: edit_result_def edit_reply_def typed_cell_def typed_reply_def wrong_type_def string_or_empty_def string_of_def fun_eq_iff)
      have "ends ctx key ?x ?r (on_slice c2 (\<lambda>ds. add_or_update ds (ctx_db ctx) key (PV_String (g []))) (\<lambda>_. rep_int (of_nat (length (g [])))))"
        unfolding x rep_int_def by (rule ends_insert [OF s refl]) (simp add: None ends_rep)
      then show ?thesis using None by (simp add: assms(2))
    next
      case (Some ve)
      then obtain v d where o: "?old = Some (v, d)" by (cases ve) auto
      show ?thesis
      proof (cases "is_string v")
        case True
        then have "?x = Some (PV_String (g (value_as_bytes v)), d)" "?r = (\<lambda>rb. send_integer rb (of_nat (length (g (value_as_bytes v)))))"
          using o by (simp_all add: edit_result_def edit_reply_def typed_cell_def typed_reply_def wrong_type_def string_or_empty_def string_of_def fun_eq_iff)
        then show ?thesis using True o s ends_rep [of ctx key True True ?x c2 ?r] by (simp add: rep_int_def)
      next
        case False
        then have "?x = ?old" "?r = (\<lambda>rb. send_wrong_type rb [])"
          using o by (auto simp: edit_result_def edit_reply_def typed_cell_def typed_reply_def wrong_type_def fun_eq_iff)
        then show ?thesis using False o s ends_rep [of ctx key True True ?x c2 ?r] by (simp add: rep_wrong_type_def)
      qed
    qed
  qed
qed

lemma ends_append:
  assumes "key_ready ctx key" and "arg ctx 1 = Some key" and "arg ctx 2 = Some d"
  shows "ends ctx key (edit_result (\<lambda>s. s @ d) (cell_of ctx key)) (edit_reply (\<lambda>s. s @ d) (cell_of ctx key)) (cmd_append ctx)"
  using ends_edit_or_create [OF assms(1), of "\<lambda>s. Some (s @ d)" "\<lambda>s. s @ d"] assms(2,3) by (simp add: cmd_append_def with_arg_def)

subsection \<open>Deadlines\<close>

definition ttl_reply :: "u64 \<Rightarrow> u64 \<Rightarrow> cell \<Rightarrow> reply_builder \<Rightarrow> reply_builder" where
  "ttl_reply unit now old rb =
     send_integer rb (case old of None \<Rightarrow> - 2 | Some (v, None) \<Rightarrow> - 1 | Some (v, Some d) \<Rightarrow> (d - now) div unit)"

lemma ends_rep_ttl:
  assumes "key_ready ctx key" and "arg ctx 1 = Some key"
  shows "ends ctx key (cell_of ctx key) (ttl_reply unit (now_ms (slice ctx)) (cell_of ctx key)) (rep_ttl unit ctx)"
proof -
  let ?old = "cell_of ctx key" and ?now = "now_ms (slice ctx)"
  note st = ends_start [OF assms(1)]
  have "ends ctx key ?old (ttl_reply unit ?now ?old) (on_slice ctx (\<lambda>ds. ttl_ms ds (ctx_db ctx) key) (\<lambda>t ctx1. case t of
      KeyNotFound \<Rightarrow> rep_int (- 2) ctx1 | NoExpiry \<Rightarrow> rep_int (- 1) ctx1 | Expires ms \<Rightarrow> rep_int (ms div unit) ctx1))"
  proof (rule ends_ttl [OF st(1) refl], unfold st(2))
    fix c2 assume s: "stands ctx key True True ?old c2"
    have "(case ttl_cell ?now ?old of KeyNotFound \<Rightarrow> rep_int (- 2) c2 | NoExpiry \<Rightarrow> rep_int (- 1) c2 | Expires ms \<Rightarrow> rep_int (ms div unit) c2)
        = rep (ttl_reply unit ?now ?old) c2"
      by (auto simp: ttl_cell_def ttl_reply_def rep_int_def rep_def split: option.split)
    then show "ends ctx key ?old (ttl_reply unit ?now ?old) (case ttl_cell ?now ?old of
        KeyNotFound \<Rightarrow> rep_int (- 2) c2 | NoExpiry \<Rightarrow> rep_int (- 1) c2 | Expires ms \<Rightarrow> rep_int (ms div unit) c2)"
      using ends_rep [OF s] by simp
  qed
  then show ?thesis using assms(2) by (simp add: rep_ttl_def with_arg_def)
qed

definition persist_reply :: "cell \<Rightarrow> reply_builder \<Rightarrow> reply_builder" where
  "persist_reply old rb = send_integer rb (if \<exists>v d. old = Some (v, Some d) then 1 else 0)"

lemma ends_persist:
  assumes "key_ready ctx key" and "arg ctx 1 = Some key"
  shows "ends ctx key (map_option (\<lambda>(v, e). (v, None)) (cell_of ctx key)) (persist_reply (cell_of ctx key)) (cmd_persist ctx)"
proof -
  let ?old = "cell_of ctx key"
  let ?x = "map_option (\<lambda>(v, e). (v, None)) ?old :: cell"
  note st = ends_start [OF assms(1)]
  have f: "persist_reply ?old = (\<lambda>rb. send_integer rb (if \<exists>v d. ?old = Some (v, Some d) then 1 else 0))" by (simp add: persist_reply_def fun_eq_iff)
  have "ends ctx key ?x (persist_reply ?old) (on_slice ctx (\<lambda>ds. ds_exists ds (ctx_db ctx) key) (\<lambda>present ctx1.
      if \<not> present then rep_int 0 ctx1
      else on_slice ctx1 (\<lambda>ds. remove_expire ds (ctx_db ctx) key) (\<lambda>removed. rep_int (if removed then 1 else 0))))"
  proof (rule ends_exists [OF st(1) refl], unfold st(2))
    fix c2 assume s: "stands ctx key True True ?old c2"
    have "ends ctx key ?x (persist_reply ?old) (on_slice c2 (\<lambda>ds. remove_expire ds (ctx_db ctx) key) (\<lambda>removed. rep_int (if removed then 1 else 0)))"
      unfolding f rep_int_def by (rule ends_remove_expire [OF s refl ends_rep])
    then show "ends ctx key ?x (persist_reply ?old) (if \<not> ?old \<noteq> None then rep_int 0 c2
        else on_slice c2 (\<lambda>ds. remove_expire ds (ctx_db ctx) key) (\<lambda>removed. rep_int (if removed then 1 else 0)))"
      using ends_rep [OF s, of "\<lambda>rb. send_integer rb 0"] f by (cases ?old) (simp_all add: rep_int_def)
  qed
  then show ?thesis using assms(2) by (simp add: cmd_persist_def with_arg_def)
qed
subsection \<open>Sets and hashes\<close>

text \<open>
  The commands that store into a container, which they create when the key is missing; that take out of
  one, which they remove when it has become empty; and that read one. \<open>sel\<close> recognises the type of the container and \<open>mk\<close> wraps it.
\<close>

definition put_cell :: "(prime_value \<Rightarrow> 'c option) \<Rightarrow> ('c \<Rightarrow> prime_value) \<Rightarrow> 'c \<Rightarrow> ('c \<Rightarrow> 'c) \<Rightarrow> cell \<Rightarrow> cell" where
  "put_cell sel mk none g old =
     (case old of
        None \<Rightarrow> Some (mk (g none), None)
      | Some (v, e) \<Rightarrow> (case sel v of Some c \<Rightarrow> Some (mk (g c), e) | None \<Rightarrow> old))"

definition take_cell :: "(prime_value \<Rightarrow> 'c option) \<Rightarrow> ('c \<Rightarrow> prime_value) \<Rightarrow> 'c \<Rightarrow> ('c \<Rightarrow> 'c) \<Rightarrow> cell \<Rightarrow> cell" where
  "take_cell sel mk none g old =
     (case old of
        None \<Rightarrow> None
      | Some (v, e) \<Rightarrow> (case sel v of
           Some c \<Rightarrow> if g c = none then None else Some (mk (g c), e)
         | None \<Rightarrow> old))"

definition container_reply :: "(prime_value \<Rightarrow> 'c option) \<Rightarrow> 'c \<Rightarrow> ('c \<Rightarrow> reply_builder \<Rightarrow> reply_builder) \<Rightarrow> cell \<Rightarrow> reply_builder \<Rightarrow> reply_builder" where
  "container_reply sel none r old rb =
     (case old of None \<Rightarrow> r none rb | Some (v, e) \<Rightarrow> (case sel v of Some c \<Rightarrow> r c rb | None \<Rightarrow> send_wrong_type rb []))"

lemma ends_put:
  assumes "stands ctx key True True y c" and "old = unexpired_cell (now_ms (slice ctx)) y"
    and "\<And>v. g v = map_option (\<lambda>b. (a b, mk (h b))) (sel v)" and "fresh = (a none, mk (h none))" and "\<And>n. k n = rep (r n)"
  shows "ends ctx key (put_cell sel mk none h old) (container_reply sel none (\<lambda>b. r (a b)) old) (upsert key g fresh k c)"
proof (rule ends_upsert [OF assms(1,2)])
  let ?x = "put_cell sel mk none h old" and ?f = "container_reply sel none (\<lambda>b. r (a b)) old"
  fix c2 v e n v' assume o: "old = Some (v, e)" and g: "g v = Some (n, v')" and s: "stands ctx key False False (Some (v', e)) c2"
  obtain b where b: "sel v = Some b" "n = a b" "v' = mk (h b)" using g assms(3) by auto
  have "?x = Some (v', e)" "?f = r n" using o b by (simp_all add: put_cell_def container_reply_def fun_eq_iff)
  then show "ends ctx key ?x ?f (k n c2)" using ends_rep [OF s] by (simp add: assms(5))
next
  let ?x = "put_cell sel mk none h old" and ?f = "container_reply sel none (\<lambda>b. r (a b)) old"
  fix c2 assume o: "old = None" and s: "stands ctx key False False (Some (snd fresh, None)) c2"
  have "?x = Some (snd fresh, None)" "?f = r (fst fresh)" using o by (simp_all add: put_cell_def container_reply_def fun_eq_iff assms(4))
  then show "ends ctx key ?x ?f (k (fst fresh) c2)" using ends_rep [OF s] by (simp add: assms(5))
next
  fix v e assume "old = Some (v, e)" and "g v = None"
  then show "put_cell sel mk none h old = old \<and> container_reply sel none (\<lambda>b. r (a b)) old = (\<lambda>rb. send_wrong_type rb [])"
    using assms(3) by (simp add: put_cell_def container_reply_def fun_eq_iff)
qed

lemma ends_take:
  assumes "stands ctx key True True y c" and "old = unexpired_cell (now_ms (slice ctx)) y"
    and "\<And>v. g v = map_option (\<lambda>b. ((a b, h b = none), mk (h b))) (sel v)" and "r0 = r (a none)"
  shows "ends ctx key (take_cell sel mk none h old) (container_reply sel none (\<lambda>b. r (a b)) old)
    (edit_value key g (\<lambda>(n, e) ctx1. Option.bind (drop_if e key ctx1) (rep (r n))) (rep r0) c)"
proof (rule ends_edit_drop [OF assms(1,2)])
  let ?x = "take_cell sel mk none h old" and ?f = "container_reply sel none (\<lambda>b. r (a b)) old"
  show "?x = (if b then None else Some (v', e)) \<and> ?f = r n" if o: "old = Some (v, e)" and g: "g v = Some ((n, b), v')" for v e n b v'
  proof -
    obtain w where "sel v = Some w" "n = a w" "b = (h w = none)" "v' = mk (h w)" using g by (auto simp: assms(3))
    then show ?thesis using o by (simp add: take_cell_def container_reply_def fun_eq_iff)
  qed
  show "?x = None \<and> ?f = r0" if "old = None" using that by (simp add: take_cell_def container_reply_def fun_eq_iff assms(4))
  show "?x = old \<and> ?f = (\<lambda>rb. send_wrong_type rb [])" if "old = Some (v, e)" "g v = None" for v e
    using that by (simp add: take_cell_def container_reply_def fun_eq_iff assms(3))
qed

lemma ends_look:
  assumes "stands ctx key True True y c" and "old = unexpired_cell (now_ms (slice ctx)) y"
    and "\<And>b. found b = rep (r b)" and "absent = rep (r none)"
  shows "ends ctx key old (container_reply sel none r old) (read_value key sel found absent c)"
proof (rule ends_read_value [OF assms(1,2)])
  fix c2 v e b assume s: "stands ctx key True True old c2" and "old = Some (v, e)" "sel v = Some b"
  then have "container_reply sel none r old = r b" by (simp add: container_reply_def fun_eq_iff)
  then show "ends ctx key old (container_reply sel none r old) (found b c2)" using ends_rep [OF s] by (simp add: assms(3))
next
  fix c2 assume s: "stands ctx key True True old c2" and "old = None"
  then have "container_reply sel none r old = r none" by (simp add: container_reply_def fun_eq_iff)
  then show "ends ctx key old (container_reply sel none r old) (absent c2)" using ends_rep [OF s] by (simp add: assms(4))
qed (simp add: container_reply_def fun_eq_iff)

definition send_count :: "nat \<Rightarrow> reply_builder \<Rightarrow> reply_builder" where
  "send_count n rb = send_integer rb (of_nat n)"

lemma rep_count: "rep_int (of_nat n) = rep (send_count n)"
  by (simp add: rep_int_def send_count_def [abs_def])

lemma send_count_eq: "send_count n = (\<lambda>rb. send_integer rb (of_nat n))"
  by (simp add: send_count_def fun_eq_iff)

lemma ends_sadd:
  assumes "key_ready ctx key" and "arg ctx 1 = Some key" and "args_from ctx 2 = Some ms"
  shows "ends ctx key (put_cell as_set PV_Set {||} (\<lambda>s. s |\<union>| fset_of_list ms) (cell_of ctx key))
    (container_reply as_set {||} (\<lambda>s. send_count (card (set ms - fset s))) (cell_of ctx key)) (cmd_sadd ctx)"
  using ends_put [OF ends_start(1) [OF assms(1)] ends_start(2) [OF assms(1), symmetric],
      of "on_set (insert_all ms 0)" "\<lambda>s. of_nat (card (set ms - fset s))" PV_Set "\<lambda>s. s |\<union>| fset_of_list ms" as_set
        "map_prod id PV_Set (insert_all ms 0 {||})" "{||}" rep_int "\<lambda>n rb. send_integer rb n"] assms(2,3)
  by (simp add: on_set_def insert_all_eq rep_int_def cmd_sadd_def with_arg_def send_count_eq)

lemma ends_srem:
  assumes "key_ready ctx key" and "arg ctx 1 = Some key" and "args_from ctx 2 = Some ms"
  shows "ends ctx key (take_cell as_set PV_Set {||} (\<lambda>s. s |-| fset_of_list ms) (cell_of ctx key))
    (container_reply as_set {||} (\<lambda>s. send_count (card (set ms \<inter> fset s))) (cell_of ctx key)) (cmd_srem ctx)"
  using ends_take [OF ends_start(1) [OF assms(1)] ends_start(2) [OF assms(1), symmetric],
      of "on_set (\<lambda>s. let (n, s') = remove_all ms 0 s in ((n, s' = {||}), s'))" "\<lambda>s. of_nat (card (set ms \<inter> fset s))"
        "\<lambda>s. s |-| fset_of_list ms" "{||}" PV_Set as_set "\<lambda>rb. send_integer rb 0" "\<lambda>n rb. send_integer rb n"] assms(2,3)
  by (simp add: on_set_def remove_all_eq rep_int_def cmd_srem_def with_arg_def send_count_eq)

lemma ends_sismember:
  assumes "key_ready ctx key" and "arg ctx 1 = Some key" and "arg ctx 2 = Some m"
  shows "ends ctx key (cell_of ctx key) (container_reply as_set {||} (\<lambda>s rb. send_integer rb (if m |\<in>| s then 1 else 0)) (cell_of ctx key)) (cmd_sismember ctx)"
  using ends_look [OF ends_start(1) [OF assms(1)] ends_start(2) [OF assms(1), symmetric],
      of "\<lambda>s. rep_int (bool_int (m |\<in>| s))" "\<lambda>s rb. send_integer rb (if m |\<in>| s then 1 else 0)" "rep_int 0" "{||}" as_set] assms(2,3)
  by (simp add: bool_int_def rep_int_def cmd_sismember_def with_arg_def send_count_eq)

lemma hset_loop_eq: "hset_loop fvs 0 m = (of_nat (card (fst ` set fvs - fset (fmdom m))), m ++\<^sub>f fmap_of_list (rev fvs))"
proof (rule prod_eqI)
  show "snd (hset_loop fvs 0 m) = snd (of_nat (card (fst ` set fvs - fset (fmdom m))) :: i64, m ++\<^sub>f fmap_of_list (rev fvs))"
    by (rule fmap_ext) (simp add: hset_loop_lookup fmadd.rep_eq fmap_of_list.rep_eq)
qed (simp add: hset_loop_count)

lemma hdel_loop_eq: "hdel_loop fs n m = (n + of_nat (card (set fs \<inter> fset (fmdom m))), fmdrop_fset (fset_of_list fs) m)"
proof (induction fs arbitrary: n m)
  case (Cons f fs)
  have d: "fmdrop_fset (fset_of_list fs) (fmdrop f m) = fmdrop_fset (fset_of_list (f # fs)) m" by (rule fmap_ext) auto
  show ?case
  proof (cases "fmlookup m f")
    case None
    then have "f \<notin> fset (fmdom m)" by (rule fmdom_notI)
    then have "set fs \<inter> (fset (fmdom m) - {f}) = insert f (set fs) \<inter> fset (fmdom m)" by auto
    then show ?thesis using None by (simp add: Cons.IH d)
  next
    case (Some v)
    have "insert f (set fs) \<inter> fset (fmdom m) = insert f (set fs \<inter> (fset (fmdom m) - {f}))" using fmdomI [OF Some] by auto
    then have "card (insert f (set fs) \<inter> fset (fmdom m)) = Suc (card (set fs \<inter> (fset (fmdom m) - {f})))" by simp
    then show ?thesis using Some by (simp add: Cons.IH d)
  qed
qed simp

lemma ends_hset:
  assumes "key_ready ctx key" and "arg ctx 1 = Some key" and "args_from ctx 2 = Some as" and "(length (cc_args ctx) - 2) mod 2 = 0"
  shows "ends ctx key (put_cell as_hash PV_Hash fmempty (\<lambda>m. m ++\<^sub>f fmap_of_list (rev (pairs_of as))) (cell_of ctx key))
    (container_reply as_hash fmempty (\<lambda>m. send_count (card (fst ` set (pairs_of as) - fset (fmdom m)))) (cell_of ctx key)) (cmd_hset ctx)"
  using ends_put [OF ends_start(1) [OF assms(1)] ends_start(2) [OF assms(1), symmetric],
      of "on_hash (hset_loop (pairs_of as) 0)" "\<lambda>m. of_nat (card (fst ` set (pairs_of as) - fset (fmdom m)))" PV_Hash
        "\<lambda>m. m ++\<^sub>f fmap_of_list (rev (pairs_of as))" as_hash
        "map_prod id PV_Hash (hset_loop (pairs_of as) 0 fmempty)" fmempty rep_int "\<lambda>n rb. send_integer rb n"] assms(2-4)
  by (simp add: on_hash_def hset_loop_eq rep_int_def cmd_hset_def hset_command_def with_arg_def send_count_eq)

lemma ends_hdel:
  assumes "key_ready ctx key" and "arg ctx 1 = Some key" and "args_from ctx 2 = Some fs"
  shows "ends ctx key (take_cell as_hash PV_Hash fmempty (fmdrop_fset (fset_of_list fs)) (cell_of ctx key))
    (container_reply as_hash fmempty (\<lambda>m. send_count (card (set fs \<inter> fset (fmdom m)))) (cell_of ctx key)) (cmd_hdel ctx)"
  using ends_take [OF ends_start(1) [OF assms(1)] ends_start(2) [OF assms(1), symmetric],
      of "on_hash (\<lambda>m. let (n, m') = hdel_loop fs 0 m in ((n, m' = fmempty), m'))" "\<lambda>m. of_nat (card (set fs \<inter> fset (fmdom m)))"
        "fmdrop_fset (fset_of_list fs)" fmempty PV_Hash as_hash "\<lambda>rb. send_integer rb 0" "\<lambda>n rb. send_integer rb n"] assms(2,3)
  by (simp add: on_hash_def hdel_loop_eq rep_int_def cmd_hdel_def with_arg_def send_count_eq)

lemma ends_hget:
  assumes "key_ready ctx key" and "arg ctx 1 = Some key" and "arg ctx 2 = Some f"
  shows "ends ctx key (cell_of ctx key) (container_reply as_hash fmempty (\<lambda>m rb. send_opt rb (fmlookup m f)) (cell_of ctx key)) (cmd_hget ctx)"
  using ends_look [OF ends_start(1) [OF assms(1)] ends_start(2) [OF assms(1), symmetric],
      of "\<lambda>m. rep_opt (fmlookup m f)" "\<lambda>m rb. send_opt rb (fmlookup m f)" "rep send_null" fmempty as_hash] assms(2,3)
  by (simp add: rep_opt_def send_opt_def cmd_hget_def with_arg_def)
end
