(* ===== verification/Store_Refinement.thy ===== *)
theory Store_Refinement
  imports Client_View Value_Commands
begin

text \<open>
  The cluster as a key-value store. The abstract store is one map from databases and keys to values with
  deadlines, and a table of specifications says what a command does to the entry of its key and what it answers, given
  the clock. Commands of any connections, executed by the shards, refine commands of the abstract store:
  the same replies, byte for byte, and the same entries afterwards.
\<close>

subsection \<open>Arguments without a context\<close>

definition args_ctx :: "resp_expr list \<Rightarrow> command_context" where
  "args_ctx args = \<lparr>cc_args = args, cc_conn = conn_context_new, cc_shard = engine_shard_new (\<lambda>_ _. 0), cc_reply = rb_new i64_to_string []\<rparr>"

lemma args_ctx_args [simp]: "cc_args (args_ctx args) = args"
  by (simp add: args_ctx_def)

lemma arg_cong: "cc_args c = cc_args ctx \<Longrightarrow> arg c i = arg ctx i" "cc_args c = cc_args ctx \<Longrightarrow> arg_int c i = arg_int ctx i"
  "cc_args c = cc_args ctx \<Longrightarrow> arg_positive_int c i = arg_positive_int ctx i" "cc_args c = cc_args ctx \<Longrightarrow> arg_word c i = arg_word ctx i"
  by (simp_all add: arg_def arg_str_def arg_int_def arg_positive_int_def arg_word_def)

lemma collect_cong: "cc_args c = cc_args ctx \<Longrightarrow> collect_args c js = collect_args ctx js"
  by (induction js) (simp_all add: arg_cong(1) [of c ctx])

lemma set_options_cong: "cc_args c = cc_args ctx \<Longrightarrow> set_options c i so = set_options ctx i so"
proof (induction c i so rule: set_options.induct)
  case (1 c i so)
  show ?case
    unfolding set_options.simps [of c i so] set_options.simps [of ctx i so]
    using 1 arg_cong [OF "1.prems"] by (auto simp: Let_def split: option.splits)
qed

lemma args_ctx_eq [simp]:
  "arg (args_ctx (cc_args ctx)) i = arg ctx i" "arg_int (args_ctx (cc_args ctx)) i = arg_int ctx i"
  "arg_positive_int (args_ctx (cc_args ctx)) i = arg_positive_int ctx i" "args_from (args_ctx (cc_args ctx)) i = args_from ctx i"
  "set_options (args_ctx (cc_args ctx)) i so = set_options ctx i so" "pop_count (args_ctx (cc_args ctx)) = pop_count ctx"
  by (simp_all add: arg_cong [of "args_ctx (cc_args ctx)" ctx] collect_cong [of "args_ctx (cc_args ctx)" ctx] args_from_def
      set_options_cong [of "args_ctx (cc_args ctx)" ctx] pop_count_def)

subsection \<open>The contract of a command with one key\<close>

lemma key_open_frame:
  assumes "home sv key cl t sh" and "shard_of sv (R_String key') \<noteq> shard_of sv (R_String key)" and "key_open sv db key' cl"
  shows "key_open sv db key' (after_task cl t c)"
proof -
  obtain t' sh' where h: "home sv key' cl t' sh'" and r: "ds_inv (shard_slice sh')" "unat db < NUM_DBS"
    "fits True (prime (dbs (shard_slice sh') ! unat db)) (prime_key_new key')" "fits True (expire (dbs (shard_slice sh') ! unat db)) (prime_key_new key')"
    using assms(3) by (auto simp: key_open_def)
  have "t' \<noteq> t" using assms(1,2) h by (auto simp: home_def)
  then have "unat t' \<noteq> unat t" by (simp add: word_unat_eq_iff)
  then have "home sv key' (after_task cl t c) t' sh'" using h by (simp add: home_def after_task_def nth_list_update_if)
  then show ?thesis using r by (auto simp: key_open_def)
qed

type_synonym key_spec = "resp_expr list \<Rightarrow> u64 \<Rightarrow> cell \<Rightarrow> (cell \<times> (reply_builder \<Rightarrow> reply_builder)) option"

text \<open>
  A command with one key: how it is registered, and that its handler implements its specification. The specification maps
  arguments, clock and unexpired entry to the new entry and the reply; it is \<open>None\<close> for arguments that it does not cover.
\<close>

locale key_command =
  fixes name :: bytes and h :: handler and arity :: int and spec :: key_spec
  assumes registered: "build_command_registry rt name = Some (keyed_entry (name, h, arity))"
    and upper: "from_utf8 (ascii_upper name) = Some name"
    and single: "classify_command name (keyed_entry (name, h, arity)) = SingleKey"
    and ordinary: "name \<notin> {''QUIT'', ''SELECT'', ''SAVE'', ''BGSAVE'', ''RESET''}"
    and implements: "key_ready ctx key \<Longrightarrow> arg ctx 1 = Some key
      \<Longrightarrow> spec (cc_args ctx) (now_ms (slice ctx)) (cell_of ctx key) = Some (x, f) \<Longrightarrow> ends ctx key x f (h ctx)"
begin

text \<open>From a connection of any shard, the command is the update of the one map that its specification says.\<close>

lemma runs:
  assumes "server_ok sv" and "cluster_safe cl" and "None \<notin> set (cl_shards cl)" and "key_open sv (conn_db conn) key cl"
    and "args = R_String name # R_String key # rest" and "arity_ok arity args"
    and "spec args (sv_clock sv (cl_reads cl))
      (unexpired_cell (sv_clock sv (cl_reads cl)) (cluster_abs sv cl (unat (conn_db conn), key))) = Some (x, f)"
  shows "\<exists>cl'. dispatch_command sv self args conn data cl = Some (True, conn, buf (f (rb_new (sv_itoa sv) data)), cl')
    \<and> cluster_abs sv cl' = (cluster_abs sv cl)((unat (conn_db conn), key) := x)
    \<and> cluster_safe cl' \<and> None \<notin> set (cl_shards cl') \<and> cl_reads cl' = Suc (cl_reads cl)
    \<and> (\<forall>db' key'. shard_of sv (R_String key') \<noteq> shard_of sv (R_String key) \<longrightarrow> key_open sv db' key' cl \<longrightarrow> key_open sv db' key' cl')"
proof -
  obtain t sh where hm: "home sv key cl t sh" and inv: "ds_inv (shard_slice sh)" and db: "unat (conn_db conn) < NUM_DBS"
    and ft: "fits True (prime (dbs (shard_slice sh) ! unat (conn_db conn))) (prime_key_new key)"
      "fits True (expire (dbs (shard_slice sh) ! unat (conn_db conn))) (prime_key_new key)"
    using assms(4) by (auto simp: key_open_def)
  let ?c = "task_ctx sv args conn data cl sh"
  have abs: "cluster_abs sv cl (unat (conn_db conn), key) = ds_abs (shard_slice sh) (unat (conn_db conn), key)"
    using hm by (simp add: cluster_abs_def home_def)
  have "spec (cc_args ?c) (now_ms (slice ?c)) (cell_of ?c key) = Some (x, f)"
    using assms(7) by (simp add: task_ctx_parts cell_of_def key_place_def abs) (simp add: update_time_def)
  moreover have "arg ?c 1 = Some key" using assms(5) by (simp add: arg_def task_ctx_parts)
  ultimately have "ends ?c key x f (h ?c)" by (intro implements task_ready [OF inv db ft])
  then obtain c1 where c1: "h ?c = Some c1" and o: "outcome ?c key x f c1"
    using task_ready(2) [OF inv db ft] by (auto simp: ends_def)
  have cc: "cc_conn c1 = conn" and r: "cc_reply c1 = f (rb_new (sv_itoa sv) data)" using o by (simp_all add: outcome_def task_ctx_parts)
  have reg: "sv_registry sv name = Some (keyed_entry (name, h, arity))" using assms(1) registered by (simp add: server_ok_def)
  have run: "dispatch_command sv self args conn data cl = Some (True, conn, buf (f (rb_new (sv_itoa sv) data)), after_task cl t c1)"
    using keyed_run [OF assms(1-3) hm assms(5) upper reg assms(6) single ordinary c1 cc] r by simp
  have "cl_reads (after_task cl t c1) = Suc (cl_reads cl)" by (simp add: after_task_def)
  moreover have "key_open sv db' key' (after_task cl t c1)" if "shard_of sv (R_String key') \<noteq> shard_of sv (R_String key)" "key_open sv db' key' cl" for db' key'
    using key_open_frame [OF hm that] .
  ultimately show ?thesis
    using run after_task_abs [OF hm o] command_keeps_safe [OF assms(1,2) run] running_after [OF assms(3)] by blast
qed

end

subsection \<open>The specifications\<close>

text \<open>Specifications with one more argument, with all further arguments, or with an integer.\<close>

definition with_one :: "(bytes \<Rightarrow> u64 \<Rightarrow> cell \<Rightarrow> cell \<times> (reply_builder \<Rightarrow> reply_builder)) \<Rightarrow> key_spec" where
  "with_one g args now old = map_option (\<lambda>v. g v now old) (arg (args_ctx args) 2)"

definition with_all :: "(bytes list \<Rightarrow> u64 \<Rightarrow> cell \<Rightarrow> cell \<times> (reply_builder \<Rightarrow> reply_builder)) \<Rightarrow> key_spec" where
  "with_all g args now old = map_option (\<lambda>vs. g vs now old) (args_from (args_ctx args) 2)"

definition with_int :: "(i64 \<Rightarrow> u64 \<Rightarrow> cell \<Rightarrow> cell \<times> (reply_builder \<Rightarrow> reply_builder)) \<Rightarrow> key_spec" where
  "with_int g args now old = map_option (\<lambda>n. g n now old) (arg_int (args_ctx args) 2)"

definition get_spec :: key_spec where
  "get_spec args now old = Some (old, typed_reply old (send_old old))"

definition strlen_spec :: key_spec where
  "strlen_spec args now old = Some (old, typed_reply old (\<lambda>rb. send_integer rb (of_nat (length (string_or_empty old)))))"

definition set_spec :: key_spec where
  "set_spec args now old = Option.bind (arg (args_ctx args) 2) (\<lambda>v.
     case set_options (args_ctx args) 3 set_opts_new of
       Inl _ \<Rightarrow> None
     | Inr so \<Rightarrow> if so_nx so \<and> so_xx so then None else Some (set_cell so now v old, set_reply so old))"

definition setnx_spec :: key_spec where
  "setnx_spec = with_one (\<lambda>v now old. (if old = None then Some (from_bytes v, None) else old, \<lambda>rb. send_integer rb (if old = None then 1 else 0)))"

definition setex_spec :: "u64 \<Rightarrow> key_spec" where
  "setex_spec scale args now old = Option.bind (arg_positive_int (args_ctx args) 2) (\<lambda>n.
     map_option (\<lambda>v. (Some (from_bytes v, Some (now + n * scale)), send_ok)) (arg (args_ctx args) 3))"

definition getset_spec :: key_spec where
  "getset_spec = with_one (\<lambda>v now old. (typed_cell old (Some (from_bytes v, None)), typed_reply old (send_old old)))"

definition getdel_spec :: key_spec where
  "getdel_spec args now old = Some (typed_cell old None, typed_reply old (send_old old))"

definition append_spec :: key_spec where
  "append_spec = with_one (\<lambda>d now old. (edit_result (\<lambda>s. s @ d) old, edit_reply (\<lambda>s. s @ d) old))"

definition incr_spec :: "i64 \<Rightarrow> key_spec" where
  "incr_spec delta args now old = Some (incr_cell delta old, incr_reply delta old)"

definition incrby_spec :: "(i64 \<Rightarrow> i64) \<Rightarrow> key_spec" where
  "incrby_spec sg = with_int (\<lambda>n now old. (incr_cell (sg n) old, incr_reply (sg n) old))"

definition expire_spec :: "u64 \<Rightarrow> key_spec" where
  "expire_spec multiplier = with_int (\<lambda>n now old. (expire_cell now n multiplier old, found_reply old))"

definition expireat_spec :: "u64 \<Rightarrow> key_spec" where
  "expireat_spec multiplier = with_int (\<lambda>n now old. (expireat_cell now (n * multiplier) old, found_reply old))"

definition ttl_spec :: "u64 \<Rightarrow> key_spec" where
  "ttl_spec unit args now old = Some (old, ttl_reply unit now old)"

definition persist_spec :: key_spec where
  "persist_spec args now old = Some (map_option (\<lambda>(v, e). (v, None)) old, persist_reply old)"

definition push_spec :: "bool \<Rightarrow> key_spec" where
  "push_spec front = with_all (\<lambda>vs now old. (push_cell front vs old, push_reply vs old))"

definition pop_spec :: "bool \<Rightarrow> key_spec" where
  "pop_spec front args now old =
     Some (pop_cell front (if length args \<le> 2 then 1 else pop_count (args_ctx args)) old,
           if length args \<le> 2 then pop_one_reply front old else pop_reply front (pop_count (args_ctx args)) old)"

definition sadd_spec :: key_spec where
  "sadd_spec = with_all (\<lambda>ms now old. (put_cell as_set PV_Set {||} (\<lambda>s. s |\<union>| fset_of_list ms) old,
     container_reply as_set {||} (\<lambda>s. send_count (card (set ms - fset s))) old))"

definition srem_spec :: key_spec where
  "srem_spec = with_all (\<lambda>ms now old. (take_cell as_set PV_Set {||} (\<lambda>s. s |-| fset_of_list ms) old,
     container_reply as_set {||} (\<lambda>s. send_count (card (set ms \<inter> fset s))) old))"

definition sismember_spec :: key_spec where
  "sismember_spec = with_one (\<lambda>m now old. (old, container_reply as_set {||} (\<lambda>s rb. send_integer rb (if m |\<in>| s then 1 else 0)) old))"

definition hset_spec :: key_spec where
  "hset_spec args now old =
     (if (length args - 2) mod 2 \<noteq> 0 then None
      else with_all (\<lambda>as now old. (put_cell as_hash PV_Hash fmempty (\<lambda>m. m ++\<^sub>f fmap_of_list (rev (pairs_of as))) old,
        container_reply as_hash fmempty (\<lambda>m. send_count (card (fst ` set (pairs_of as) - fset (fmdom m)))) old)) args now old)"

definition hdel_spec :: key_spec where
  "hdel_spec = with_all (\<lambda>fs now old. (take_cell as_hash PV_Hash fmempty (fmdrop_fset (fset_of_list fs)) old,
     container_reply as_hash fmempty (\<lambda>m. send_count (card (set fs \<inter> fset (fmdom m)))) old))"

definition hget_spec :: key_spec where
  "hget_spec = with_one (\<lambda>f now old. (old, container_reply as_hash fmempty (\<lambda>m rb. send_opt rb (fmlookup m f)) old))"

definition store_specs :: "(bytes \<times> int \<times> key_spec) list" where
  "store_specs =
     [(''GET'', 2, get_spec), (''STRLEN'', 2, strlen_spec), (''SET'', - 3, set_spec), (''SETNX'', 3, setnx_spec),
      (''SETEX'', 4, setex_spec 1000), (''PSETEX'', 4, setex_spec 1), (''GETSET'', 3, getset_spec), (''GETDEL'', 2, getdel_spec),
      (''APPEND'', 3, append_spec), (''INCR'', 2, incr_spec 1), (''DECR'', 2, incr_spec (- 1)),
      (''INCRBY'', 3, incrby_spec (\<lambda>n. n)), (''DECRBY'', 3, incrby_spec (\<lambda>n. - n)),
      (''EXPIRE'', 3, expire_spec 1000), (''PEXPIRE'', 3, expire_spec 1), (''EXPIREAT'', 3, expireat_spec 1000),
      (''PEXPIREAT'', 3, expireat_spec 1), (''TTL'', 2, ttl_spec 1000), (''PTTL'', 2, ttl_spec 1), (''PERSIST'', 2, persist_spec),
      (''LPUSH'', - 3, push_spec True), (''RPUSH'', - 3, push_spec False), (''LPOP'', - 2, pop_spec True), (''RPOP'', - 2, pop_spec False),
      (''SADD'', - 3, sadd_spec), (''SREM'', - 3, srem_spec), (''SISMEMBER'', 3, sismember_spec),
      (''HSET'', - 4, hset_spec), (''HDEL'', - 3, hdel_spec), (''HGET'', 3, hget_spec)]"

subsection \<open>The handlers implement them\<close>

text \<open>A command that the registry lists with one key under an upper-case name.\<close>

definition listed :: "bytes \<Rightarrow> handler \<Rightarrow> int \<Rightarrow> bool" where
  "listed name h arity \<longleftrightarrow> (\<forall>rt. build_command_registry rt name = Some (keyed_entry (name, h, arity)))
     \<and> from_utf8 (ascii_upper name) = Some name \<and> classify_command name (keyed_entry (name, h, arity)) = SingleKey
     \<and> name \<notin> {''QUIT'', ''SELECT'', ''SAVE'', ''BGSAVE'', ''RESET''}"

lemma key_commandI:
  assumes "listed name h arity"
    and "\<And>ctx key x f. key_ready ctx key \<Longrightarrow> arg ctx 1 = Some key
      \<Longrightarrow> spec (cc_args ctx) (now_ms (slice ctx)) (cell_of ctx key) = Some (x, f) \<Longrightarrow> ends ctx key x f (h ctx)"
  shows "key_command name h arity spec"
  using assms by unfold_locales (auto simp: listed_def)

text \<open>The last registration of a name counts.\<close>

lemma foldl_lookup:
  "foldl (\<lambda>r c. register r (mk c)) reg cmds name = (case List.find (\<lambda>c. ce_name (mk c) = name) (rev cmds) of Some c \<Rightarrow> Some (mk c) | None \<Rightarrow> reg name)"
  by (induction cmds arbitrary: reg rule: rev_induct) (simp_all add: register_def)

lemma register_all_find:
  "register_all reg cmds name = (case List.find (\<lambda>c. fst c = name) (rev cmds) of Some c \<Rightarrow> Some (keyed_entry c) | None \<Rightarrow> reg name)"
proof -
  have "ce_name (keyed_entry c) = fst c" for c by (cases c) simp
  then show ?thesis by (simp add: register_all_def foldl_lookup)
qed

lemma register_generic_find:
  "register_generic reg name = (case List.find (\<lambda>c. fst c = name) (rev generic_commands) of Some c \<Rightarrow> Some (generic_entry c) | None \<Rightarrow> reg name)"
proof -
  have "ce_name (generic_entry c) = fst c" for c by (cases c) simp
  then show ?thesis by (simp add: register_generic_def foldl_lookup)
qed

lemmas command_table = build_command_registry_def register_zset_def register_hash_def register_set_def register_list_def
  register_string_def register_all_find register_generic_find zset_commands_def hash_commands_def set_commands_def list_commands_def
  string_commands_def generic_commands_def

lemma upper_names:
  "list_all (\<lambda>n. from_utf8 (ascii_upper n) = Some n \<and> n \<notin> {''QUIT'', ''SELECT'', ''SAVE'', ''BGSAVE'', ''RESET''})
    [''GET'', ''STRLEN'', ''SET'', ''SETNX'', ''SETEX'', ''PSETEX'', ''GETSET'', ''GETDEL'', ''APPEND'', ''INCR'', ''DECR'', ''INCRBY'', ''DECRBY'',
  ''EXPIRE'', ''PEXPIRE'', ''EXPIREAT'', ''PEXPIREAT'', ''TTL'', ''PTTL'', ''PERSIST'', ''LPUSH'', ''RPUSH'', ''LPOP'', ''RPOP'', ''SADD'', ''SREM'',
  ''SISMEMBER'', ''HSET'', ''HDEL'', ''HGET'']"
  by code_simp

lemma registered_strings:
  "build_command_registry rt ''GET'' = Some (keyed_entry (''GET'', cmd_get, 2))"
  "build_command_registry rt ''STRLEN'' = Some (keyed_entry (''STRLEN'', cmd_strlen, 2))"
  "build_command_registry rt ''SET'' = Some (keyed_entry (''SET'', cmd_set, - 3))"
  "build_command_registry rt ''SETNX'' = Some (keyed_entry (''SETNX'', cmd_setnx, 3))"
  "build_command_registry rt ''SETEX'' = Some (keyed_entry (''SETEX'', cmd_setex, 4))"
  "build_command_registry rt ''PSETEX'' = Some (keyed_entry (''PSETEX'', cmd_psetex, 4))"
  "build_command_registry rt ''GETSET'' = Some (keyed_entry (''GETSET'', cmd_getset, 3))"
  "build_command_registry rt ''GETDEL'' = Some (keyed_entry (''GETDEL'', cmd_getdel, 2))"
  "build_command_registry rt ''APPEND'' = Some (keyed_entry (''APPEND'', cmd_append, 3))"
  "build_command_registry rt ''INCR'' = Some (keyed_entry (''INCR'', cmd_incr, 2))"
  "build_command_registry rt ''DECR'' = Some (keyed_entry (''DECR'', cmd_decr, 2))"
  "build_command_registry rt ''INCRBY'' = Some (keyed_entry (''INCRBY'', cmd_incrby, 3))"
  "build_command_registry rt ''DECRBY'' = Some (keyed_entry (''DECRBY'', cmd_decrby, 3))"
  by (simp_all add: command_table)

lemma listed_strings:
  "listed ''GET'' cmd_get 2" "listed ''STRLEN'' cmd_strlen 2" "listed ''SET'' cmd_set (- 3)" "listed ''SETNX'' cmd_setnx 3"
  "listed ''SETEX'' cmd_setex 4" "listed ''PSETEX'' cmd_psetex 4" "listed ''GETSET'' cmd_getset 3" "listed ''GETDEL'' cmd_getdel 2"
  "listed ''APPEND'' cmd_append 3" "listed ''INCR'' cmd_incr 2" "listed ''DECR'' cmd_decr 2" "listed ''INCRBY'' cmd_incrby 3"
  "listed ''DECRBY'' cmd_decrby 3"
  using upper_names by (simp_all add: listed_def registered_strings classify_command_def)

lemma registered_expiry:
  "build_command_registry rt ''EXPIRE'' = Some (keyed_entry (''EXPIRE'', cmd_expire, 3))"
  "build_command_registry rt ''PEXPIRE'' = Some (keyed_entry (''PEXPIRE'', cmd_pexpire, 3))"
  "build_command_registry rt ''EXPIREAT'' = Some (keyed_entry (''EXPIREAT'', cmd_expireat, 3))"
  "build_command_registry rt ''PEXPIREAT'' = Some (keyed_entry (''PEXPIREAT'', cmd_pexpireat, 3))"
  "build_command_registry rt ''TTL'' = Some (keyed_entry (''TTL'', cmd_ttl, 2))"
  "build_command_registry rt ''PTTL'' = Some (keyed_entry (''PTTL'', cmd_pttl, 2))"
  "build_command_registry rt ''PERSIST'' = Some (keyed_entry (''PERSIST'', cmd_persist, 2))"
  by (simp_all add: command_table)

lemma listed_expiry:
  "listed ''EXPIRE'' cmd_expire 3" "listed ''PEXPIRE'' cmd_pexpire 3" "listed ''EXPIREAT'' cmd_expireat 3" "listed ''PEXPIREAT'' cmd_pexpireat 3"
  "listed ''TTL'' cmd_ttl 2" "listed ''PTTL'' cmd_pttl 2" "listed ''PERSIST'' cmd_persist 2"
  using upper_names by (simp_all add: listed_def registered_expiry classify_command_def)

lemma registered_containers:
  "build_command_registry rt ''LPUSH'' = Some (keyed_entry (''LPUSH'', cmd_lpush, - 3))"
  "build_command_registry rt ''RPUSH'' = Some (keyed_entry (''RPUSH'', cmd_rpush, - 3))"
  "build_command_registry rt ''LPOP'' = Some (keyed_entry (''LPOP'', cmd_lpop, - 2))"
  "build_command_registry rt ''RPOP'' = Some (keyed_entry (''RPOP'', cmd_rpop, - 2))"
  "build_command_registry rt ''SADD'' = Some (keyed_entry (''SADD'', cmd_sadd, - 3))"
  "build_command_registry rt ''SREM'' = Some (keyed_entry (''SREM'', cmd_srem, - 3))"
  "build_command_registry rt ''SISMEMBER'' = Some (keyed_entry (''SISMEMBER'', cmd_sismember, 3))"
  "build_command_registry rt ''HSET'' = Some (keyed_entry (''HSET'', cmd_hset, - 4))"
  "build_command_registry rt ''HDEL'' = Some (keyed_entry (''HDEL'', cmd_hdel, - 3))"
  "build_command_registry rt ''HGET'' = Some (keyed_entry (''HGET'', cmd_hget, 3))"
  by (simp_all add: command_table)

lemma listed_containers:
  "listed ''LPUSH'' cmd_lpush (- 3)" "listed ''RPUSH'' cmd_rpush (- 3)" "listed ''LPOP'' cmd_lpop (- 2)" "listed ''RPOP'' cmd_rpop (- 2)"
  "listed ''SADD'' cmd_sadd (- 3)" "listed ''SREM'' cmd_srem (- 3)" "listed ''SISMEMBER'' cmd_sismember 3" "listed ''HSET'' cmd_hset (- 4)"
  "listed ''HDEL'' cmd_hdel (- 3)" "listed ''HGET'' cmd_hget 3"
  using upper_names by (simp_all add: listed_def registered_containers classify_command_def)

lemma set_spec_ends:
  assumes "key_ready ctx key" and "arg ctx 1 = Some key" and "set_spec (cc_args ctx) (now_ms (slice ctx)) (cell_of ctx key) = Some (x, f)"
  shows "ends ctx key x f (cmd_set ctx)"
proof (cases "set_options ctx 3 set_opts_new")
  case (Inr so)
  then show ?thesis
    using ends_cmd_set [OF assms(1,2) _ Inr] assms(3) by (auto simp: set_spec_def bind_eq_Some_conv split: if_splits)
qed (use assms(3) in \<open>auto simp: set_spec_def bind_eq_Some_conv\<close>)

lemma pop_spec_ends:
  assumes "key_ready ctx key" and "arg ctx 1 = Some key" and "pop_spec front (cc_args ctx) (now_ms (slice ctx)) (cell_of ctx key) = Some (x, f)"
  shows "ends ctx key x f ((if front then cmd_lpop else cmd_rpop) ctx)"
  using ends_pop [OF assms(1,2), of front] assms(3) unfolding pop_spec_def args_ctx_eq by simp

text \<open>Every command of the table is an instance of the contract.\<close>

interpretation get_cmd: key_command "''GET''" cmd_get "2" "get_spec"
  by (rule key_commandI [OF listed_strings(1)]) (auto simp: get_spec_def intro!: ends_get)

interpretation strlen_cmd: key_command "''STRLEN''" cmd_strlen "2" "strlen_spec"
  by (rule key_commandI [OF listed_strings(2)]) (auto simp: strlen_spec_def intro!: ends_strlen)

interpretation set_cmd: key_command "''SET''" cmd_set "- 3" "set_spec"
  by (rule key_commandI [OF listed_strings(3)]) (rule set_spec_ends)

interpretation setnx_cmd: key_command "''SETNX''" cmd_setnx "3" "setnx_spec"
  by (rule key_commandI [OF listed_strings(4)]) (auto simp: setnx_spec_def with_one_def intro!: ends_setnx)

interpretation setex_cmd: key_command "''SETEX''" cmd_setex "4" "setex_spec 1000"
  by (rule key_commandI [OF listed_strings(5)]) (auto simp: setex_spec_def cmd_setex_def bind_eq_Some_conv intro!: ends_set_with_ttl)

interpretation psetex_cmd: key_command "''PSETEX''" cmd_psetex "4" "setex_spec 1"
  by (rule key_commandI [OF listed_strings(6)]) (auto simp: setex_spec_def cmd_psetex_def bind_eq_Some_conv intro!: ends_set_with_ttl [where scale = 1, simplified])

interpretation getset_cmd: key_command "''GETSET''" cmd_getset "3" "getset_spec"
  by (rule key_commandI [OF listed_strings(7)]) (auto simp: getset_spec_def with_one_def intro!: ends_getset)

interpretation getdel_cmd: key_command "''GETDEL''" cmd_getdel "2" "getdel_spec"
  by (rule key_commandI [OF listed_strings(8)]) (auto simp: getdel_spec_def intro!: ends_getdel)

interpretation append_cmd: key_command "''APPEND''" cmd_append "3" "append_spec"
  by (rule key_commandI [OF listed_strings(9)]) (auto simp: append_spec_def with_one_def intro!: ends_append)

interpretation incr_cmd: key_command "''INCR''" cmd_incr "2" "incr_spec 1"
  by (rule key_commandI [OF listed_strings(10)]) (auto simp: incr_spec_def cmd_incr_def intro!: ends_incr_by)

interpretation decr_cmd: key_command "''DECR''" cmd_decr "2" "(incr_spec (- 1))"
  by (rule key_commandI [OF listed_strings(11)]) (auto simp: incr_spec_def cmd_decr_def intro!: ends_incr_by)

interpretation incrby_cmd: key_command "''INCRBY''" cmd_incrby "3" "(incrby_spec (\<lambda>n. n))"
  by (rule key_commandI [OF listed_strings(12)]) (auto simp: incrby_spec_def with_int_def cmd_incrby_def intro!: ends_incr_by)

interpretation decrby_cmd: key_command "''DECRBY''" cmd_decrby "3" "(incrby_spec (\<lambda>n. - n))"
  by (rule key_commandI [OF listed_strings(13)]) (auto simp: incrby_spec_def with_int_def cmd_decrby_def intro!: ends_incr_by)

interpretation expire_cmd: key_command "''EXPIRE''" cmd_expire "3" "expire_spec 1000"
  by (rule key_commandI [OF listed_expiry(1)]) (auto simp: expire_spec_def with_int_def cmd_expire_def intro!: ends_set_expire_relative)

interpretation pexpire_cmd: key_command "''PEXPIRE''" cmd_pexpire "3" "expire_spec 1"
  by (rule key_commandI [OF listed_expiry(2)]) (auto simp: expire_spec_def with_int_def cmd_pexpire_def intro!: ends_set_expire_relative)

interpretation expireat_cmd: key_command "''EXPIREAT''" cmd_expireat "3" "expireat_spec 1000"
  by (rule key_commandI [OF listed_expiry(3)]) (auto simp: expireat_spec_def with_int_def cmd_expireat_def intro!: ends_set_expire_absolute)

interpretation pexpireat_cmd: key_command "''PEXPIREAT''" cmd_pexpireat "3" "expireat_spec 1"
  by (rule key_commandI [OF listed_expiry(4)]) (auto simp: expireat_spec_def with_int_def cmd_pexpireat_def intro!: ends_set_expire_absolute [where multiplier = 1, simplified])

interpretation ttl_cmd: key_command "''TTL''" cmd_ttl "2" "ttl_spec 1000"
  by (rule key_commandI [OF listed_expiry(5)]) (auto simp: ttl_spec_def cmd_ttl_def intro!: ends_rep_ttl)

interpretation pttl_cmd: key_command "''PTTL''" cmd_pttl "2" "ttl_spec 1"
  by (rule key_commandI [OF listed_expiry(6)]) (auto simp: ttl_spec_def cmd_pttl_def intro!: ends_rep_ttl)

interpretation persist_cmd: key_command "''PERSIST''" cmd_persist "2" "persist_spec"
  by (rule key_commandI [OF listed_expiry(7)]) (auto simp: persist_spec_def intro!: ends_persist)

interpretation lpush_cmd: key_command "''LPUSH''" cmd_lpush "- 3" "push_spec True"
  by (rule key_commandI [OF listed_containers(1)]) (auto simp: push_spec_def with_all_def intro!: ends_push [of _ _ _ True, simplified if_True])

interpretation rpush_cmd: key_command "''RPUSH''" cmd_rpush "- 3" "push_spec False"
  by (rule key_commandI [OF listed_containers(2)]) (auto simp: push_spec_def with_all_def intro!: ends_push [of _ _ _ False, simplified if_False])

interpretation lpop_cmd: key_command "''LPOP''" cmd_lpop "- 2" "pop_spec True"
  by (rule key_commandI [OF listed_containers(3)]) (rule pop_spec_ends [of _ _ True, unfolded if_True])

interpretation rpop_cmd: key_command "''RPOP''" cmd_rpop "- 2" "pop_spec False"
  by (rule key_commandI [OF listed_containers(4)]) (rule pop_spec_ends [of _ _ False, unfolded if_False])

interpretation sadd_cmd: key_command "''SADD''" cmd_sadd "- 3" "sadd_spec"
  by (rule key_commandI [OF listed_containers(5)]) (auto simp: sadd_spec_def with_all_def intro!: ends_sadd)

interpretation srem_cmd: key_command "''SREM''" cmd_srem "- 3" "srem_spec"
  by (rule key_commandI [OF listed_containers(6)]) (auto simp: srem_spec_def with_all_def intro!: ends_srem)

interpretation sismember_cmd: key_command "''SISMEMBER''" cmd_sismember "3" "sismember_spec"
  by (rule key_commandI [OF listed_containers(7)]) (auto simp: sismember_spec_def with_one_def intro!: ends_sismember)

interpretation hset_cmd: key_command "''HSET''" cmd_hset "- 4" "hset_spec"
  by (rule key_commandI [OF listed_containers(8)]) (auto simp: hset_spec_def with_all_def split: if_splits intro!: ends_hset)

interpretation hdel_cmd: key_command "''HDEL''" cmd_hdel "- 3" "hdel_spec"
  by (rule key_commandI [OF listed_containers(9)]) (auto simp: hdel_spec_def with_all_def intro!: ends_hdel)

interpretation hget_cmd: key_command "''HGET''" cmd_hget "3" "hget_spec"
  by (rule key_commandI [OF listed_containers(10)]) (auto simp: hget_spec_def with_one_def intro!: ends_hget)

lemmas key_commands =
    get_cmd.key_command_axioms strlen_cmd.key_command_axioms set_cmd.key_command_axioms setnx_cmd.key_command_axioms setex_cmd.key_command_axioms
    psetex_cmd.key_command_axioms getset_cmd.key_command_axioms getdel_cmd.key_command_axioms append_cmd.key_command_axioms incr_cmd.key_command_axioms
    decr_cmd.key_command_axioms incrby_cmd.key_command_axioms decrby_cmd.key_command_axioms expire_cmd.key_command_axioms
    pexpire_cmd.key_command_axioms expireat_cmd.key_command_axioms pexpireat_cmd.key_command_axioms ttl_cmd.key_command_axioms
    pttl_cmd.key_command_axioms persist_cmd.key_command_axioms lpush_cmd.key_command_axioms rpush_cmd.key_command_axioms lpop_cmd.key_command_axioms
    rpop_cmd.key_command_axioms sadd_cmd.key_command_axioms srem_cmd.key_command_axioms sismember_cmd.key_command_axioms hset_cmd.key_command_axioms
    hdel_cmd.key_command_axioms hget_cmd.key_command_axioms

lemma store_specs_hold: "(name, arity, spec) \<in> set store_specs \<Longrightarrow> \<exists>h. key_command name h arity spec"
  by (auto simp: store_specs_def intro: key_commands [THEN exI [where P = "\<lambda>h. key_command _ h _ _"]])

subsection \<open>The abstract store\<close>

type_synonym store = "nat \<times> bytes \<Rightarrow> cell"

text \<open>One command: look at the unexpired entry of the key, replace it and answer.\<close>

definition store_step ::
  "(nat \<Rightarrow> u64) \<Rightarrow> (i64 \<Rightarrow> bytes) \<Rightarrow> conn_context \<Rightarrow> resp_expr list \<Rightarrow> nat \<Rightarrow> store \<Rightarrow> (bytes \<times> store) option" where
  "store_step clock fmt conn args n m =
     (case args of
        R_String name # R_String key # rest \<Rightarrow>
          (case map_of store_specs name of
             None \<Rightarrow> None
           | Some (arity, spec) \<Rightarrow>
               if \<not> arity_ok arity args then None
               else
                 (let now = clock n; p = (unat (conn_db conn), key)
                  in map_option (\<lambda>(x, f). (buf (f (rb_new fmt [])), m(p := x))) (spec args now (unexpired_cell now (m p)))))
      | _ \<Rightarrow> None)"

text \<open>Commands one after the other, each at the next reading of the clock.\<close>

fun store_run ::
  "(nat \<Rightarrow> u64) \<Rightarrow> (i64 \<Rightarrow> bytes) \<Rightarrow> (conn_context \<times> resp_expr list) list \<Rightarrow> nat \<Rightarrow> store \<Rightarrow> (bytes list \<times> store) option" where
  "store_run clock fmt [] n m = Some ([], m)"
| "store_run clock fmt ((conn, args) # cmds) n m =
     (case store_step clock fmt conn args n m of
        None \<Rightarrow> None
      | Some (d, m1) \<Rightarrow> map_option (\<lambda>(ds, m2). (d # ds, m2)) (store_run clock fmt cmds (Suc n) m1))"

text \<open>Along the run, every command finds the shard of its key running, and the key fits its tables.\<close>

fun keys_open :: "server \<Rightarrow> (u32 \<times> conn_context \<times> resp_expr list) list \<Rightarrow> cluster \<Rightarrow> bool" where
  "keys_open sv [] cl = True"
| "keys_open sv ((self, conn, args) # cmds) cl =
     ((case args of _ # R_String key # _ \<Rightarrow> key_open sv (conn_db conn) key cl | _ \<Rightarrow> False)
      \<and> (case dispatch_command sv self args conn [] cl of None \<Rightarrow> True | Some (_, _, _, cl1) \<Rightarrow> keys_open sv cmds cl1))"

lemma store_stepE:
  assumes "store_step clock fmt conn args n m = Some (d, m1)"
  obtains name key rest arity spec x f where "args = R_String name # R_String key # rest" "(name, arity, spec) \<in> set store_specs"
    "arity_ok arity args" "spec args (clock n) (unexpired_cell (clock n) (m (unat (conn_db conn), key))) = Some (x, f)"
    "d = buf (f (rb_new fmt []))" "m1 = m((unat (conn_db conn), key) := x)"
proof -
  obtain name key rest where a: "args = R_String name # R_String key # rest"
    using assms by (auto simp: store_step_def split: list.splits resp_expr.splits)
  obtain arity spec where s: "map_of store_specs name = Some (arity, spec)"
    using assms a by (auto simp: store_step_def split: option.splits)
  then have r: "arity_ok arity args" "map_option (\<lambda>(x, f). (buf (f (rb_new fmt [])), m((unat (conn_db conn), key) := x)))
      (spec args (clock n) (unexpired_cell (clock n) (m (unat (conn_db conn), key)))) = Some (d, m1)"
    using assms a by (auto simp: store_step_def Let_def split: if_splits)
  then show thesis using that [OF a map_of_SomeD [OF s]] by auto
qed

lemma command_refines_step:
  assumes "server_ok sv" and "cluster_safe cl" and "None \<notin> set (cl_shards cl)"
    and "store_step (sv_clock sv) (sv_itoa sv) conn args (cl_reads cl) (cluster_abs sv cl) = Some (d, m)"
    and "case args of _ # R_String key # _ \<Rightarrow> key_open sv (conn_db conn) key cl | _ \<Rightarrow> False"
  shows "\<exists>cl'. dispatch_command sv self args conn [] cl = Some (True, conn, d, cl') \<and> cluster_abs sv cl' = m
    \<and> cluster_safe cl' \<and> None \<notin> set (cl_shards cl') \<and> cl_reads cl' = Suc (cl_reads cl)"
proof (rule store_stepE [OF assms(4)])
  fix name key rest arity spec x f
  assume a: "args = R_String name # R_String key # rest" "(name, arity, spec) \<in> set store_specs" "arity_ok arity args"
    "spec args (sv_clock sv (cl_reads cl)) (unexpired_cell (sv_clock sv (cl_reads cl)) (cluster_abs sv cl (unat (conn_db conn), key))) = Some (x, f)"
    and r: "d = buf (f (rb_new (sv_itoa sv) []))" "m = (cluster_abs sv cl)((unat (conn_db conn), key) := x)"
  obtain h where "key_command name h arity spec" using store_specs_hold [OF a(2)] by blast
  moreover have "key_open sv (conn_db conn) key cl" using assms(5) a(1) by simp
  ultimately show ?thesis using key_command.runs [of name h arity spec sv cl conn key args rest x f] assms(1-3) a r by blast
qed

subsection \<open>Properties\<close>



end
