(* ===== verification/Multi_Key.thy ===== *)
theory Multi_Key
  imports Client_View
begin

text \<open>
  Commands that read several keys: the connection's shard groups the keys by shard, executes its own group,
  sends the others to their shards in the order of a \<^verbatim>\<open>HashMap\<close>, and merges the replies. MGET and EXISTS are shown to
  answer what the one map of the cluster says, in the order of the request.
\<close>

subsection \<open>Grouping\<close>

text \<open>Groups of distinct shards, none empty, every item with the shard of its key.\<close>

definition grouped :: "server \<Rightarrow> ('a \<Rightarrow> resp_expr) \<Rightarrow> (u32 \<times> 'a list) list \<Rightarrow> bool" where
  "grouped sv key g \<longleftrightarrow> distinct (map fst g) \<and> (\<forall>(s, xs) \<in> set g. xs \<noteq> [] \<and> (\<forall>x \<in> set xs. shard_of sv (key x) = Some s))"

definition items_of :: "(u32 \<times> 'a list) list \<Rightarrow> 'a list" where
  "items_of g = concat (map snd g)"

lemma items_of_simps [simp]: "items_of [] = []" "items_of ((s, xs) # g) = xs @ items_of g"
  by (simp_all add: items_of_def)

lemma items_of_mset: "mset g = mset g' \<Longrightarrow> mset (items_of g) = mset (items_of g')"
  by (simp add: items_of_def mset_concat sum_mset_sum_list [symmetric])

lemma group_push_items: "mset (items_of (group_push s x g)) = add_mset x (mset (items_of g))"
  by (induction s x g rule: group_push.induct) auto

lemma group_push_keys: "fst ` set (group_push s x g) = insert s (fst ` set g)"
  by (induction s x g rule: group_push.induct) auto

lemma group_push_grouped:
  assumes "grouped sv key g" and "shard_of sv (key x) = Some s"
  shows "grouped sv key (group_push s x g)"
  using assms by (induction s x g rule: group_push.induct) (auto simp: grouped_def group_push_keys)

lemma group_by_total:
  assumes "grouped sv key g" and "\<forall>x \<in> set xs. shard_of sv (key x) \<noteq> None"
  shows "\<exists>g'. group_by sv key xs g = Some g' \<and> grouped sv key g' \<and> mset (items_of g') = mset (items_of g) + mset xs"
  using assms
proof (induction xs arbitrary: g)
  case (Cons x xs)
  obtain s where s: "shard_of sv (key x) = Some s" using Cons.prems(2) by auto
  from Cons.IH [OF group_push_grouped [OF Cons.prems(1) s]] Cons.prems(2) s show ?case by (auto simp: group_push_items)
qed simp

text \<open>The own group and the others in any order are all groups.\<close>

lemma filter_key: "distinct (map fst g) \<Longrightarrow> p \<in> set g \<Longrightarrow> filter (\<lambda>q. fst q = fst p) g = [p]"
proof (induction g)
  case (Cons q g)
  have "filter (\<lambda>r. fst r = fst q) g = []" using Cons.prems(1) by (auto simp: filter_empty_conv) (metis image_eqI fst_conv)
  then show ?case using Cons by (cases "p = q") (auto simp: image_iff)
qed simp

lemma remote_groups_mset:
  assumes "server_ok sv" and "distinct (map fst g)"
  shows "mset (remote_groups sv self cl g) = mset (filter (\<lambda>(s, _). s \<noteq> self) g)"
proof -
  let ?g = "filter (\<lambda>(s, _). s \<noteq> self) g"
  let ?F = "\<lambda>s. filter (\<lambda>(t, _). t = s) ?g"
  have d: "distinct (map fst ?g)" using assms(2) by (simp add: distinct_map_filter)
  have "mset (concat (map ?F l)) = sum_mset (image_mset (\<lambda>s. mset (?F s)) (mset l))" for l
    by (simp add: mset_concat sum_mset_sum_list [symmetric] comp_def)
  moreover have "mset (sv_order sv (cl_reads cl) (map fst ?g)) = mset (map fst ?g)" using assms(1) unfolding server_ok_def by blast
  ultimately have "mset (remote_groups sv self cl g) = mset (concat (map ?F (map fst ?g)))"
    unfolding remote_groups_def Let_def by (simp only:)
  also have "map ?F (map fst ?g) = map (\<lambda>p. [p]) ?g" using filter_key [OF d] by (simp add: case_prod_unfold)
  finally show ?thesis by simp
qed

lemma own_and_others:
  "distinct (map fst g) \<Longrightarrow>
    mset ((case map_of g self of None \<Rightarrow> [] | Some xs \<Rightarrow> [(self, xs)]) @ filter (\<lambda>(s, _). s \<noteq> self) g) = mset g"
proof (induction g)
  case (Cons p g)
  obtain s xs where p: "p = (s, xs)" by (cases p)
  show ?case
  proof (cases "s = self")
    case True
    have "self \<notin> fst ` set g" using Cons.prems True by (simp add: p)
    then have "filter (\<lambda>(t, _). t \<noteq> self) g = g" by (force simp: filter_id_conv)
    then show ?thesis using True by (simp add: p)
  qed (use Cons in \<open>simp add: p split: option.splits\<close>)
qed simp

subsection \<open>Tasks that only read\<close>

text \<open>\<open>reply xs\<close> is what the shard of the group \<open>xs\<close> answers, in every state of the cluster with \<open>I\<close>.\<close>

lemma fan_out_reads:
  assumes "\<And>sid xs cl. (sid, xs) \<in> set g \<Longrightarrow> I cl \<Longrightarrow> \<exists>cl'. exec_remote sv sid (mk xs) db cl = Some (Some (reply xs), cl') \<and> I cl'"
    and "I cl"
  shows "\<exists>cl'. fan_out sv mk db merge g acc cl = Some (foldl (\<lambda>a (sid, xs). merge a xs (Some (reply xs))) acc g, cl') \<and> I cl'"
  using assms
proof (induction g arbitrary: acc cl)
  case (Cons p g)
  obtain sid xs where p: "p = (sid, xs)" by (cases p)
  from Cons.prems(1) [of sid xs cl] Cons.prems(2) obtain cl1 where 1: "exec_remote sv sid (mk xs) db cl = Some (Some (reply xs), cl1)" "I cl1"
    by (auto simp: p)
  from Cons.IH [OF Cons.prems(1) 1(2), of "merge acc xs (Some (reply xs))"] 1(1) show ?case by (simp add: p)
qed simp

lemma run_groups_reads:
  assumes "server_ok sv" and "distinct (map fst g)" and "I cl"
    and "\<And>sid xs c cl. (sid, xs) \<in> set g \<Longrightarrow> I cl \<Longrightarrow> conn_db c = conn_db conn
      \<Longrightarrow> \<exists>cl'. exec_task sv (unat sid) (mk xs) c [] cl = Some (Some (c, reply xs), cl') \<and> I cl'"
  shows "\<exists>g' cl'. mset g' = mset g \<and> I cl'
    \<and> run_groups sv self mk merge g conn acc cl = Some (foldl (\<lambda>a (sid, xs). merge a xs (Some (reply xs))) acc g', conn, cl')"
proof -
  let ?f = "foldl (\<lambda>a (sid, xs). merge a xs (Some (reply xs)))"
  let ?own = "case map_of g self of None \<Rightarrow> [] | Some xs \<Rightarrow> [(self, xs)]"
  obtain cl1 where 1: "(case map_of g self of None \<Rightarrow> Some (acc, conn, cl)
      | Some xs \<Rightarrow> map_option (\<lambda>(conn', d, cl'). (merge acc xs (Some d), conn', cl')) (exec_local sv (unat self) (mk xs) conn [] cl))
        = Some (?f acc ?own, conn, cl1)" "I cl1"
  proof (cases "map_of g self")
    case (Some xs)
    from assms(4) [OF map_of_SomeD [OF Some] assms(3), of conn]
    obtain cl' where "exec_task sv (unat self) (mk xs) conn [] cl = Some (Some (conn, reply xs), cl')" "I cl'" by auto
    then show thesis using that [of cl'] Some by (simp add: exec_local_def)
  qed (use that assms(3) in simp)
  let ?r = "remote_groups sv self cl1 g"
  have m: "mset ?r = mset (filter (\<lambda>(s, _). s \<noteq> self) g)" by (rule remote_groups_mset [OF assms(1,2)])
  then have sub: "set ?r \<subseteq> set g" by (metis mset_eq_setD filter_is_subset)
  have t: "\<exists>cl'. exec_remote sv sid (mk xs) (conn_db conn) cl = Some (Some (reply xs), cl') \<and> I cl'" if "(sid, xs) \<in> set ?r" "I cl" for sid xs cl
    using assms(4) [OF subsetD [OF sub that(1)] that(2), of "\<lparr>conn_db = conn_db conn\<rparr>"] by (auto simp: exec_remote_def)
  from fan_out_reads [of ?r I sv mk "conn_db conn" reply cl1 merge "?f acc ?own"] t 1(2) obtain cl2
    where 2: "fan_out sv mk (conn_db conn) merge ?r (?f acc ?own) cl1 = Some (?f (?f acc ?own) ?r, cl2)" "I cl2" by blast
  have "mset (?own @ ?r) = mset g" using own_and_others [OF assms(2), of self] m by simp
  moreover have "run_groups sv self mk merge g conn acc cl = Some (?f acc (?own @ ?r), conn, cl2)"
    unfolding run_groups_def 1(1) by (simp add: 2(1))
  ultimately show ?thesis using 2(2) by blast
qed

subsection \<open>Shards that read keys\<close>

text \<open>All shards run with their tables in order; an entry does not expire while the command runs.\<close>

definition settled :: "cluster \<Rightarrow> bool" where
  "settled cl \<longleftrightarrow> (\<forall>x \<in> set (cl_shards cl). \<exists>sh. x = Some sh \<and> ds_inv (shard_slice sh))"

definition lasting :: "server \<Rightarrow> cell \<Rightarrow> bool" where
  "lasting sv x \<longleftrightarrow> (\<forall>n. unexpired_cell (sv_clock sv n) x = x)"

text \<open>There is a shard for every key.\<close>

definition spread :: "server \<Rightarrow> cluster \<Rightarrow> bool" where
  "spread sv cl \<longleftrightarrow> sv_shards sv \<noteq> 0 \<and> length (cl_shards cl) = unat (sv_shards sv)"

lemma spread_shard:
  assumes "spread sv cl"
  shows "\<exists>s. shard_of sv e = Some s \<and> unat s < length (cl_shards cl)"
  using assms shard_home [of "sv_shards sv" "key_bytes e"] by (auto simp: spread_def shard_of_def)

lemma find_lasting:
  assumes "ds_inv ds" and "unat i < NUM_DBS" and "unexpired_cell (now_ms ds) (ds_abs ds (unat i, key)) = ds_abs ds (unat i, key)"
  shows "ds_find ds i key = Some (map_option (\<lambda>(w, e). \<lparr>fr_value = w, has_expire = e \<noteq> None\<rparr>) (ds_abs ds (unat i, key)), ds)"
proof -
  let ?db = "dbs ds ! unat i" and ?pk = "prime_key_new key"
  have inv: "db_inv ?db" and len: "unat i < length (dbs ds)" using assms(1,2) by (simp_all add: ds_inv_def)
  have f: "tbl_find (prime ?db) ?pk = tbl_map (prime ?db) ?pk" "tbl_find (expire ?db) ?pk = tbl_map (expire ?db) ?pk"
    using dash.find_map [OF db_invD(1) [OF inv]] dash.find_map [OF db_invD(2) [OF inv]] by simp_all
  have abs: "ds_abs ds (unat i, key) = db_abs ?db key" using assms(2) by (simp add: ds_abs_def)
  have sub: "tbl_map (prime ?db) ?pk = None \<Longrightarrow> tbl_map (expire ?db) ?pk = None" using inv by (auto simp: db_inv_def)
  have "check_and_expire ?db ?pk (now_ms ds) = (False, ?db)"
    using assms(3) sub unfolding abs by (auto simp: check_and_expire_def f db_abs_def unexpired_cell_def expired_at_def split: option.splits if_splits)
  then have "db_find ?db ?pk (now_ms ds) = (map_option (\<lambda>(w, e). \<lparr>fr_value = w, has_expire = e \<noteq> None\<rparr>) (db_abs ?db key), ?db)"
    by (cases "tbl_map (prime ?db) ?pk") (auto simp: db_find_def f tbl_contains_def db_abs_def)
  then show ?thesis using len by (simp add: ds_find_def on_db_def abs)
qed

lemma key_args_eq: "cc_args ctx = R_String u # map R_String ks \<Longrightarrow> key_args ctx = Some ks"
proof -
  have c: "(\<And>j. j \<in> set js \<Longrightarrow> arg ctx j = Some (f j)) \<Longrightarrow> collect_args ctx js = Some (map f js)" for js f
    by (induction js) simp_all
  assume a: "cc_args ctx = R_String u # map R_String ks"
  have "collect_args ctx [1..<Suc (length ks)] = Some (map (\<lambda>j. ks ! (j - 1)) [1..<Suc (length ks)])"
    by (rule c) (auto simp: arg_def a nth_Cons')
  moreover have "map (\<lambda>j. ks ! (j - 1)) [1..<Suc (length ks)] = ks" by (rule nth_equalityI) (simp_all del: upt_Suc)
  ultimately show ?thesis by (simp add: key_args_def a del: upt_Suc)
qed

lemma argc_small: "length as < 32768 \<Longrightarrow> argc_i16 as = int (length as)"
  by (simp add: argc_i16_def signed_of_nat signed_take_bit_int_eq_self)

text \<open>
  A command whose handler answers from the entries of its keys and changes nothing: \<open>answer\<close> is the reply for
  the list of the entries.
\<close>

locale key_reader =
  fixes name :: bytes and h :: handler and answer :: "cell list \<Rightarrow> reply_builder \<Rightarrow> reply_builder"
  assumes registered: "build_command_registry rt name = Some (keyed_entry (name, h, - 2))"
    and upper: "from_utf8 (ascii_upper name) = Some name"
    and ordinary: "name \<notin> {''QUIT'', ''SELECT'', ''SAVE'', ''BGSAVE''}"
    and reads: "ds_inv (slice ctx) \<Longrightarrow> unat (ctx_db ctx) < NUM_DBS \<Longrightarrow> key_args ctx = Some ks
      \<Longrightarrow> (\<And>k. k \<in> set ks \<Longrightarrow> unexpired_cell (now_ms (slice ctx)) (ds_abs (slice ctx) (key_place ctx k)) = ds_abs (slice ctx) (key_place ctx k))
      \<Longrightarrow> h ctx = rep (answer (map (\<lambda>k. ds_abs (slice ctx) (key_place ctx k)) ks)) ctx"
begin

text \<open>The task of one shard.\<close>

lemma task:
  assumes "server_ok sv" and "settled cl" and "unat sid < length (cl_shards cl)" and "unat (conn_db conn) < NUM_DBS"
    and "\<And>k. k \<in> set ks \<Longrightarrow> shard_of sv (R_String k) = Some sid"
    and "\<And>k. k \<in> set ks \<Longrightarrow> lasting sv (cluster_abs sv cl (unat (conn_db conn), k))"
    and "ks \<noteq> []" and "length ks < 32767"
  shows "\<exists>cl'. exec_task sv (unat sid) (R_String name # map R_String ks) conn [] cl
      = Some (Some (conn, buf (answer (map (\<lambda>k. cluster_abs sv cl (unat (conn_db conn), k)) ks) (rb_new (sv_itoa sv) []))), cl')
    \<and> settled cl' \<and> cluster_abs sv cl' = cluster_abs sv cl \<and> length (cl_shards cl') = length (cl_shards cl)"
proof -
  let ?args = "R_String name # map R_String ks" and ?i = "unat sid"
  obtain sh where sh: "cl_shards cl ! ?i = Some sh" and inv: "ds_inv (shard_slice sh)"
    using assms(2,3) by (auto simp: settled_def dest!: bspec [OF _ nth_mem])
  let ?c = "task_ctx sv ?args conn [] cl sh"
  let ?w = "answer (map (\<lambda>k. cluster_abs sv cl (unat (conn_db conn), k)) ks) (rb_new (sv_itoa sv) [])"
  let ?cl = "after_task cl sid ?c"
  have abs: "cluster_abs sv cl (unat (conn_db conn), k) = ds_abs (slice ?c) (key_place ?c k)" if "k \<in> set ks" for k
    using assms(3) assms(5) [OF that] sh by (simp add: cluster_abs_def task_ctx_parts key_place_def)
  have m: "map (\<lambda>k. ds_abs (slice ?c) (key_place ?c k)) ks = map (\<lambda>k. cluster_abs sv cl (unat (conn_db conn), k)) ks"
    using abs by simp
  have now: "now_ms (slice ?c) = sv_clock sv (cl_reads cl)" by (simp add: task_ctx_parts update_time_def)
  have "h ?c = rep (answer (map (\<lambda>k. ds_abs (slice ?c) (key_place ?c k)) ks)) ?c"
  proof (rule reads)
    show "ds_inv (slice ?c)" using inv by (simp add: task_ctx_parts ds_inv_def update_time_def)
    show "key_args ?c = Some ks" by (rule key_args_eq) (rule task_ctx_parts(4))
    show "unexpired_cell (now_ms (slice ?c)) (ds_abs (slice ?c) (key_place ?c k)) = ds_abs (slice ?c) (key_place ?c k)" if "k \<in> set ks" for k
      using assms(6) [OF that] unfolding abs [OF that] now by (simp add: lasting_def)
  qed (simp add: task_ctx_parts assms(4))
  then have h: "h ?c = Some (?c\<lparr>cc_reply := ?w\<rparr>)" unfolding m by (simp add: rep_def task_ctx_parts)
  have ar: "arity_ok (- 2) ?args" using assms(7,8) by (cases ks) (simp_all add: arity_ok_def argc_small)
  have "exec_task sv ?i ?args conn [] cl = Some (Some (conn, buf ?w), ?cl)"
    using h upper ordinary ar registered assms(1,3) sh
    by (simp add: exec_task_def Let_def dispatch_def server_ok_def after_task_def task_ctx_def)
  moreover have "settled ?cl"
    using assms(2) inv by (auto simp: settled_def after_task_def task_ctx_def bump_commands_def engine_shard_update_time_def ds_inv_def update_time_def
        dest!: subsetD [OF set_update_subset_insert])
  moreover have "cluster_abs sv ?cl = cluster_abs sv cl"
  proof
    fix p
    have "ds_abs (shard_slice (cc_shard ?c)) p = ds_abs (shard_slice sh) p" by (simp add: slice_def [symmetric] task_ctx_parts)
    then show "cluster_abs sv ?cl p = cluster_abs sv cl p"
      using assms(3) sh by (auto simp: cluster_abs_def after_task_def nth_list_update_if split: option.split)
  qed
  ultimately show ?thesis by (auto simp: after_task_def)
qed

text \<open>All groups: the replies are merged in some order of the groups, and nothing changes.\<close>

lemma groups:
  assumes "server_ok sv" and "settled cl" and "spread sv cl" and "unat (conn_db conn) < NUM_DBS" and "grouped sv key g"
    and "\<And>x. x \<in> set (items_of g) \<Longrightarrow> \<exists>k. key x = R_String k \<and> lasting sv (cluster_abs sv cl (unat (conn_db conn), k))"
    and "length (items_of g) < 32767" and "\<And>xs. mk xs = R_String name # map key xs"
  shows "\<exists>g' cl'. mset g' = mset g \<and> cluster_abs sv cl' = cluster_abs sv cl
    \<and> run_groups sv self mk merge g conn acc cl = Some (foldl (\<lambda>a (sid, xs). merge a xs (Some (buf (answer
        (map (\<lambda>x. cluster_abs sv cl (unat (conn_db conn), key_bytes (key x))) xs) (rb_new (sv_itoa sv) []))))) acc g', conn, cl')"
proof -
  let ?I = "\<lambda>c. settled c \<and> cluster_abs sv c = cluster_abs sv cl \<and> length (cl_shards c) = length (cl_shards cl)"
  let ?reply = "\<lambda>xs. buf (answer (map (\<lambda>x. cluster_abs sv cl (unat (conn_db conn), key_bytes (key x))) xs) (rb_new (sv_itoa sv) []))"
  have "\<exists>cl'. exec_task sv (unat sid) (mk xs) c [] c1 = Some (Some (c, ?reply xs), cl') \<and> ?I cl'"
    if "(sid, xs) \<in> set g" "?I c1" "conn_db c = conn_db conn" for sid xs c c1
  proof -
    let ?ks = "map (\<lambda>x. key_bytes (key x)) xs"
    have sub: "set xs \<subseteq> set (items_of g)" using that(1) by (auto simp: items_of_def)
    have "length xs \<in> set (map (\<lambda>p. length (snd p)) g)" using that(1) by force
    then have le: "length xs \<le> length (items_of g)"
      using member_le_sum_list [of "length xs" "map (\<lambda>p. length (snd p)) g"] by (simp add: items_of_def length_concat comp_def)
    have k: "key x = R_String (key_bytes (key x)) \<and> lasting sv (cluster_abs sv cl (unat (conn_db conn), key_bytes (key x)))" if "x \<in> set xs" for x
      using assms(6) [OF subsetD [OF sub that]] by (auto simp: key_bytes_def)
    have sh: "shard_of sv (key x) = Some sid" if "x \<in> set xs" for x using assms(5) \<open>(sid, xs) \<in> set g\<close> that by (auto simp: grouped_def)
    have ne: "xs \<noteq> []" using assms(5) that(1) by (auto simp: grouped_def)
    have bound: "unat sid < length (cl_shards c1)"
      using ne sh [of "hd xs"] spread_shard [OF assms(3), of "key (hd xs)"] that(2) by auto
    have mk: "mk xs = R_String name # map R_String ?ks" using k by (simp add: assms(8))
    have "shard_of sv (R_String y) = Some sid" "lasting sv (cluster_abs sv c1 (unat (conn_db c), y))" if "y \<in> set ?ks" for y
      using that sh k \<open>?I c1\<close> \<open>conn_db c = conn_db conn\<close> by fastforce+
    from task [where ks = ?ks, OF assms(1) _ bound _ this] that(2,3) assms(4,7) ne le show ?thesis by (simp add: mk comp_def)
  qed
  moreover have "distinct (map fst g)" using assms(5) by (simp add: grouped_def)
  ultimately have "\<exists>g' cl'. mset g' = mset g \<and> ?I cl'
      \<and> run_groups sv self mk merge g conn acc cl = Some (foldl (\<lambda>a (sid, xs). merge a xs (Some (?reply xs))) acc g', conn, cl')"
    using assms(2) by (intro run_groups_reads [OF assms(1)]) simp_all
  then show ?thesis by blast
qed

end

subsection \<open>MGET and EXISTS\<close>

definition string_at :: "cell \<Rightarrow> bytes option" where
  "string_at x = (case x of Some (w, e) \<Rightarrow> if is_string w then Some (value_as_bytes w) else None | None \<Rightarrow> None)"

lemma mget_loop_reads:
  assumes "ds_inv (slice ctx)" and "unat (ctx_db ctx) < NUM_DBS"
    and "\<And>k. k \<in> set ks \<Longrightarrow> unexpired_cell (now_ms (slice ctx)) (ds_abs (slice ctx) (key_place ctx k)) = ds_abs (slice ctx) (key_place ctx k)"
  shows "mget_loop ks ctx = Some (ctx\<lparr>cc_reply := foldl send_opt (cc_reply ctx) (map (\<lambda>k. string_at (ds_abs (slice ctx) (key_place ctx k))) ks)\<rparr>)"
  using assms
proof (induction ks arbitrary: ctx)
  case (Cons k ks)
  let ?x = "ds_abs (slice ctx) (key_place ctx k)" and ?c = "\<lambda>rb. ctx\<lparr>cc_reply := rb\<rparr>"
  have f: "ds_find (slice ctx) (ctx_db ctx) k = Some (map_option (\<lambda>(w, e). \<lparr>fr_value = w, has_expire = e \<noteq> None\<rparr>) ?x, slice ctx)"
    using find_lasting [OF Cons.prems(1,2), of k] Cons.prems(3) [of k] by (simp add: key_place_def)
  have same: "set_slice (slice ctx) ctx = ctx" by (simp add: set_slice_def slice_def)
  have c: "slice (?c rb) = slice ctx" "ctx_db (?c rb) = ctx_db ctx" "key_place (?c rb) k' = key_place ctx k'" for rb k'
    by (simp_all add: slice_def ctx_db_def key_place_def)
  have "mget_loop (k # ks) ctx = mget_loop ks (?c (send_opt (cc_reply ctx) (string_at ?x)))"
    by (auto simp: on_slice_def f same string_at_def send_opt_def rep_bulk_def rep_def split: option.split)
  also have "\<dots> = Some (?c (foldl send_opt (send_opt (cc_reply ctx) (string_at ?x)) (map (\<lambda>k. string_at (ds_abs (slice ctx) (key_place ctx k))) ks)))"
    using Cons.IH [of "?c (send_opt (cc_reply ctx) (string_at ?x))"] Cons.prems by (simp add: c)
  finally show ?case by simp
qed simp

lemma count_reads:
  assumes "ds_inv ds" and "unat i < NUM_DBS"
    and "\<And>k. k \<in> set ks \<Longrightarrow> unexpired_cell (now_ms ds) (ds_abs ds (unat i, k)) = ds_abs ds (unat i, k)"
  shows "count_keys ds_exists i ks n ds = Some (n + of_nat (length (filter (\<lambda>k. ds_abs ds (unat i, k) \<noteq> None) ks)), ds)"
  using assms(3)
proof (induction ks arbitrary: n)
  case (Cons k ks)
  have "ds_exists ds i k = Some (ds_abs ds (unat i, k) \<noteq> None, ds)"
    using find_lasting [OF assms(1,2) Cons.prems [of k]] by (auto simp: ds_exists_def)
  then show ?case using Cons by auto
qed simp

definition mget_answer :: "cell list \<Rightarrow> reply_builder \<Rightarrow> reply_builder" where
  "mget_answer xs rb = foldl send_opt (send_array_len rb (length xs)) (map string_at xs)"

definition exists_answer :: "cell list \<Rightarrow> reply_builder \<Rightarrow> reply_builder" where
  "exists_answer xs rb = send_integer rb (of_nat (length (filter (\<lambda>x. x \<noteq> None) xs)))"

lemma mget_entry: "build_command_registry rt ''MGET'' = Some (keyed_entry (''MGET'', cmd_mget, - 2))"
  by (simp add: build_command_registry_def register_zset_def register_hash_def register_set_def register_list_def
      register_string_def register_all_def zset_commands_def hash_commands_def set_commands_def list_commands_def
      string_commands_def register_def)

lemma exists_entry: "build_command_registry rt ''EXISTS'' = Some (keyed_entry (''EXISTS'', cmd_exists, - 2))"
  by (simp add: build_command_registry_def register_zset_def register_hash_def register_set_def register_list_def
      register_string_def register_all_def zset_commands_def hash_commands_def set_commands_def list_commands_def
      string_commands_def register_generic_def generic_commands_def register_def)

interpretation mget: key_reader "''MGET''" cmd_mget mget_answer
proof
  show "build_command_registry rt ''MGET'' = Some (keyed_entry (''MGET'', cmd_mget, - 2))" for rt by (rule mget_entry)
  show "from_utf8 (ascii_upper ''MGET'') = Some ''MGET''" by code_simp
  show "cmd_mget ctx = rep (mget_answer (map (\<lambda>k. ds_abs (slice ctx) (key_place ctx k)) ks)) ctx"
    if "ds_inv (slice ctx)" "unat (ctx_db ctx) < NUM_DBS" "key_args ctx = Some ks"
      "\<And>k. k \<in> set ks \<Longrightarrow> unexpired_cell (now_ms (slice ctx)) (ds_abs (slice ctx) (key_place ctx k)) = ds_abs (slice ctx) (key_place ctx k)" for ctx ks
    using mget_loop_reads [of "ctx\<lparr>cc_reply := send_array_len (cc_reply ctx) (length ks)\<rparr>" ks] that
    by (simp add: cmd_mget_def rep_def mget_answer_def slice_def ctx_db_def key_place_def comp_def)
qed simp

interpretation exists: key_reader "''EXISTS''" cmd_exists exists_answer
proof
  show "build_command_registry rt ''EXISTS'' = Some (keyed_entry (''EXISTS'', cmd_exists, - 2))" for rt by (rule exists_entry)
  show "from_utf8 (ascii_upper ''EXISTS'') = Some ''EXISTS''" by code_simp
  show "cmd_exists ctx = rep (exists_answer (map (\<lambda>k. ds_abs (slice ctx) (key_place ctx k)) ks)) ctx"
    if "ds_inv (slice ctx)" "unat (ctx_db ctx) < NUM_DBS" "key_args ctx = Some ks"
      "\<And>k. k \<in> set ks \<Longrightarrow> unexpired_cell (now_ms (slice ctx)) (ds_abs (slice ctx) (key_place ctx k)) = ds_abs (slice ctx) (key_place ctx k)" for ctx ks
    using count_reads [OF that(1,2), of ks 0] that(3,4)
    by (simp add: cmd_exists_def on_slice_def rep_int_def rep_def exists_answer_def key_place_def set_slice_def slice_def filter_map comp_def)
qed simp

subsection \<open>Merging\<close>

lemma place_each:
  assumes "vs = pre @ map f xs" and "length pre = n"
  shows "foldl (\<lambda>rs (idx, pos, _). if idx < length vs then rs[pos := vs ! idx] else rs) rs (enumerate n xs)
    = foldl (\<lambda>rs x. rs[fst x := f x]) rs xs"
  using assms
proof (induction xs arbitrary: rs n pre)
  case (Cons x xs)
  from Cons.IH [of "pre @ [f x]" "Suc n" "rs[fst x := f x]"] Cons.prems show ?case by (cases x) (simp add: nth_append)
qed simp

lemma place_all:
  assumes "\<And>x. x \<in> set xs \<Longrightarrow> f x = v (fst x)" and "i < length rs"
  shows "foldl (\<lambda>rs x. rs[fst x := f x]) rs xs ! i = (if i \<in> fst ` set xs then v i else rs ! i)"
  using assms by (induction xs arbitrary: rs) (auto simp: nth_list_update)

lemma placed_length: "length (foldl (\<lambda>rs x. rs[fst x := f x]) rs xs) = length rs"
  by (induction xs arbitrary: rs) simp_all

lemma foldl_items: "foldl (\<lambda>a (s, xs). foldl u a xs) acc g = foldl u acc (items_of g)"
  by (induction g arbitrary: acc) auto
lemma enumerated: "x \<in> set (enumerate 0 (map R_String ks)) \<Longrightarrow> fst x < length ks \<and> snd x = R_String (ks ! fst x)"
  by (auto simp: in_set_enumerate_eq)

lemma placed_strings:
  assumes "itoa_ok f" and "mset (items_of g) = mset (enumerate 0 (map R_String ks))"
    and "\<forall>k \<in> set ks. \<forall>v. string_at (m k) = Some v \<longrightarrow> length v < 2 ^ 63"
  shows "foldl (\<lambda>a (sid, xs). place_values a xs (Some (buf (mget_answer (map (\<lambda>x. m (key_bytes (snd x))) xs) (rb_new f [])))))
      (replicate (length ks) None) g = map (\<lambda>k. string_at (m k)) ks"
proof -
  let ?f = "\<lambda>x :: nat \<times> resp_expr. string_at (m (key_bytes (snd x)))" and ?es = "enumerate 0 (map R_String ks)"
  let ?w = "\<lambda>xs :: (nat \<times> resp_expr) list. buf (mget_answer (map (\<lambda>x. m (key_bytes (snd x))) xs) (rb_new f []))"
  let ?u = "\<lambda>rs x. rs[fst x := ?f x]" and ?n = "replicate (length ks) None"
  note es = mset_eq_setD [OF assms(2)]
  have v: "?f x = string_at (m (ks ! fst x))" if "x \<in> set ?es" for x using enumerated [OF that] by (simp add: key_bytes_def)
  have "place_values a xs (Some (?w xs)) = foldl ?u a xs" if "(sid, xs) \<in> set g" for a sid xs
  proof -
    have "length w < 2 ^ 63" if "Some w \<in> set (map ?f xs)" for w
    proof -
      obtain x where x: "x \<in> set xs" "?f x = Some w" using \<open>Some w \<in> set (map ?f xs)\<close> by (metis (no_types, lifting) image_iff set_map)
      then have "x \<in> set ?es" using \<open>(sid, xs) \<in> set g\<close> es by (auto simp: items_of_def) (metis snd_conv UN_I)
      then show ?thesis using enumerated [of x] v [of x] x(2) assms(3) by auto
    qed
    then have "parse_resp_array (?w xs) = map ?f xs" using merge_array [OF assms(1), of "map ?f xs"] by (simp add: mget_answer_def comp_def)
    then show ?thesis using place_each [of "map ?f xs" "[]" ?f xs 0 a] by (simp add: place_values_def Let_def)
  qed
  then have "foldl (\<lambda>a (sid, xs). place_values a xs (Some (?w xs))) ?n g = foldl (\<lambda>a (sid, xs). foldl ?u a xs) ?n g"
    by (intro foldl_cong) auto
  also have "\<dots> = foldl ?u ?n (items_of g)" by (rule foldl_items)
  also have "\<dots> = map (\<lambda>k. string_at (m k)) ks"
  proof (rule nth_equalityI)
    fix i assume "i < length (foldl ?u ?n (items_of g))"
    then have i: "i < length ks" by (simp add: placed_length)
    then have "(i, R_String (ks ! i)) \<in> set ?es" by (simp add: in_set_enumerate_eq)
    then have "i \<in> fst ` set (items_of g)" unfolding es by force
    then show "foldl ?u ?n (items_of g) ! i = map (\<lambda>k. string_at (m k)) ks ! i"
      using place_all [of "items_of g" ?f "\<lambda>i. string_at (m (ks ! i))" i ?n] v es i by simp
  qed (simp add: placed_length)
  finally show ?thesis .
qed

lemma same_filter_length: "mset xs = mset ys \<Longrightarrow> length (filter P xs) = length (filter P ys)"
  by (metis mset_filter size_mset)

lemma counted_keys:
  assumes "itoa_ok f"
  shows "foldl (\<lambda>a (sid, xs). add_count a xs (Some (buf (exists_answer (map m xs) (rb_new f []))))) n g
    = n + of_nat (length (filter (\<lambda>x. m x \<noteq> None) (items_of g)))"
proof (induction g arbitrary: n)
  case (Cons p g)
  then show ?case
    using merge_int [OF assms] by (cases p) (simp add: add_count_def reply_count_def exists_answer_def filter_map comp_def)
qed simp

subsection \<open>Properties\<close>

text \<open>The shards run, and the entries of the keys do not expire while they are read.\<close>

definition reads_from :: "server \<Rightarrow> conn_context \<Rightarrow> bytes list \<Rightarrow> cluster \<Rightarrow> bool" where
  "reads_from sv conn ks cl \<longleftrightarrow> settled cl \<and> spread sv cl \<and> unat (conn_db conn) < NUM_DBS \<and> ks \<noteq> [] \<and> length ks < 32767
     \<and> (\<forall>k \<in> set ks. lasting sv (cluster_abs sv cl (unat (conn_db conn), k)))"

lemma reads_arity: "reads_from sv conn ks cl \<Longrightarrow> arity_ok (- 2) (R_String u # map R_String ks)"
  by (cases ks) (simp_all add: reads_from_def arity_ok_def argc_small)


text \<open>A cluster with one key, for the witnesses.\<close>

lemma demo_one:
  "\<exists>cl. dispatch_command demo_server 0 [R_String ''SET'', R_String ''k'', R_String ''5''] conn_context_new [] demo_cluster
      = Some (True, conn_context_new, ''+OK'' @ CRLF, cl)
    \<and> (\<forall>k. cluster_abs demo_server cl (0, k) = (if k = ''k'' then Some (PV_Integer 5, None) else None)) \<and> settled cl \<and> spread demo_server cl"
proof -
  have run: "None \<notin> set (cl_shards demo_cluster)" by (simp add: demo_cluster_def)
  obtain t sh c1 where hm: "home demo_server ''k'' demo_cluster t sh"
    and r: "dispatch_command demo_server 0 [R_String ''SET'', R_String ''k'', R_String ''5''] conn_context_new [] demo_cluster
      = Some (True, conn_context_new, ''+OK'' @ CRLF, after_task demo_cluster t c1)"
    and o: "outcome (task_ctx demo_server [R_String ''SET'', R_String ''k'', R_String ''5''] conn_context_new [] demo_cluster sh) ''k''
      (Some (from_bytes ''5'', None)) send_ok c1"
    using set_run [OF demo_server_ok demo_cluster_safe run demo_open [of "''k''"], of 0 "''5''" "[]"] by auto
  let ?cl = "after_task demo_cluster t c1"
  have five: "from_bytes ''5'' = PV_Integer 5" by code_simp
  have none: "cluster_abs demo_server demo_cluster (0, k) = None" for k
  proof -
    have "ds_abs (db_slice_new (\<lambda>_ _. 0)) (0, k) = None" by (simp add: ds_abs_def db_slice_new_def db_inv_new NUM_DBS_def)
    then show ?thesis by (auto simp: cluster_abs_def demo_cluster_def engine_shard_new_def nth_append less_Suc_eq numeral_2_eq_2 split: option.split)
  qed
  then have "\<forall>k. cluster_abs demo_server ?cl (0, k) = (if k = ''k'' then Some (PV_Integer 5, None) else None)"
    unfolding after_task_abs [OF hm o] by (simp add: five conn_context_new_def)
  moreover have "settled ?cl"
    using after_task_home(2) [OF hm o] ds_inv_new [of "\<lambda>_ _. 0"]
    by (auto simp: settled_def after_task_def demo_cluster_def engine_shard_new_def dest!: subsetD [OF set_update_subset_insert])
  moreover have "spread demo_server ?cl" by (simp add: spread_def after_task_def demo_cluster_def demo_server_def)
  ultimately show ?thesis using r by blast
qed

lemma demo_reads:
  assumes "\<forall>k. cluster_abs demo_server cl (0, k) = (if k = ''k'' then Some (PV_Integer 5, None) else None)" and "settled cl" and "spread demo_server cl"
  shows "reads_from demo_server conn_context_new [''k'', [], ''k''] cl"
  using assms by (auto simp: reads_from_def lasting_def unexpired_cell_def expired_at_def conn_context_new_def NUM_DBS_def)


end
