(* ===== verification/Spec2Isabelle.thy ===== *)
theory Spec2Isabelle
  imports Sharding Listener Store_Refinement Multi_Key
begin

text \<open>
  \<^bold>\<open>A verification library of ShrikeDB\<close>, a Redis-compatible in-memory store in Rust.

  \<^bold>\<open>The program.\<close> A server has a fixed number of shard threads. Each owns sixteen databases, every database
  two hash tables (keys with values, keys with deadlines), and serves the connections that the listener
  gives it. A connection reads bytes, parses RESP commands, and executes each command on its own shard, on
  another shard through that shard's task channel, or on several shards with the replies merged. Snapshots
  of all shards are written to an RDB file and loaded when the server starts.

  \<^bold>\<open>Theories and sources\<close> (paths under \<^verbatim>\<open>src/crates\<close>).

  \<^item> \<open>Shrike_Prelude\<close>, \<open>Rust_Std\<close>, \<open>Rust_Float\<close>, \<open>Btree_Map\<close>: bytes as \<open>char list\<close>, words of the widths of the program,
    the parts of Rust's standard library that the code calls (number parsing and printing, UTF-8, trimming,
    ASCII case, binary64 as bit patterns with order, addition and casts, ordered maps).
  \<^item> \<open>Dash_Bucket\<close>, \<open>Dash_Segment\<close>, \<open>Dash_Table\<close>: \<^verbatim>\<open>shrikedb-core/src/dash\<close>. Bitmaps and fingerprints are words,
    \<^verbatim>\<open>MaybeUninit\<close> slots are options, a panic is \<open>None\<close>. \<open>tbl_safe\<close> is what every operation keeps; \<open>tbl_inv\<close> adds that every
    stored key is found, which one deletion of the program breaks. \<open>kv_table\<close> is the interface of the
    table to the databases.
  \<^item> \<open>Compact_Obj\<close>: \<^verbatim>\<open>shrikedb-core/src/compact_obj.rs\<close>, keys and values. \<open>Sharding\<close>: \<^verbatim>\<open>shrikedb-server/src/sharding.rs\<close>.
  \<^item> \<open>Glob_Match\<close>, \<open>Db_Slice\<close>: \<^verbatim>\<open>db_slice.rs\<close>, \<^verbatim>\<open>db_table.rs\<close>, \<^verbatim>\<open>engine_shard.rs\<close>. \<open>db_abs\<close> is the abstract database, a map
    from keys to values with deadlines; what a lookup sees is the part that has not expired.
  \<^item> \<open>Reply_Builder\<close>, \<open>Resp_Parser\<close>: \<^verbatim>\<open>shrikedb-facade/src\<close>, the encoder and the incremental parser.
  \<^item> \<open>Command_Registry\<close>, \<open>Handler_Kit\<close>, \<open>String_Family\<close>, \<open>Generic_Family\<close>, \<open>List_Family\<close>, \<open>Set_Family\<close>, \<open>Hash_Family\<close>, \<open>Zset_Family\<close>:
    \<^verbatim>\<open>command_registry.rs\<close> and \<^verbatim>\<open>commands/\<close>. A handler is a function on the command context (arguments, connection, shard,
    reply buffer); its result \<open>None\<close> is a panic.
  \<^item> \<open>Service_Reply\<close>, \<open>Main_Service\<close>: \<^verbatim>\<open>main_service.rs\<close>, the command table, the classes of commands, the parsers of shard
    replies, and the service that dispatches from outside the shard threads.
  \<^item> \<open>Cluster\<close>: \<^verbatim>\<open>shard_thread.rs\<close>, the execution of one command over all shards. A cluster is the list of shard states;
    a shard whose thread has ended is \<open>None\<close>.
  \<^item> \<open>Rdb_Format\<close>, \<open>Rdb_Save\<close>, \<open>Rdb_Load\<close>, \<open>Snapshot\<close>: \<^verbatim>\<open>shrikedb-persistence/src\<close>. \<open>Persistence\<close>: control messages, timers, the shard set
    (\<^verbatim>\<open>engine_shard_set.rs\<close>), SAVE and the start of the server.
  \<^item> \<open>Handler_Rules\<close>: facts about all registered handlers at once. \<open>System\<close>: the cluster as a transition system over steps of
    single shards. \<open>Connection\<close>: the connection loops of \<^verbatim>\<open>shard_thread.rs\<close> and \<^verbatim>\<open>connection.rs\<close>.
    \<open>Listener\<close>: \<^verbatim>\<open>listener.rs\<close> and the settings in \<^verbatim>\<open>shrikedb-bin/src/main.rs\<close>.
  \<^item> \<open>Key_Space\<close>: a calculus for handlers that work on one key, with a rule per operation of \<^verbatim>\<open>db_slice.rs\<close> and per shape of
    the handlers. \<open>Key_Commands\<close>: specifications of commands over the entry of their key, and the proofs that the
    handlers implement them; \<open>Value_Commands\<close> does the same for the other string commands, sets and hashes.
    \<open>Client_View\<close>: all shards as one map, which commands from any connection read and update. \<open>Store_Refinement\<close>: an abstract
    store (a map from keys to values with deadlines, and one specification per command) that the whole cluster refines.
    \<open>Multi_Key\<close>: MGET and EXISTS, whose keys are grouped by shard and whose replies are merged.

  \<^bold>\<open>Interfaces.\<close> \<open>kv_table\<close> (the contract of a hash table, interpreted on the Dash table), \<open>btree_order\<close> (a comparison that orders
  the entries of a tree, interpreted on sorted-set entries without NaN), \<open>transition_system\<close> (invariants of reachable
  states, interpreted on the cluster), \<open>reply_dispatcher\<close> (a dispatcher that only appends to the reply buffer,
  interpreted on the dispatchers of the shard threads and of the asynchronous loop), \<open>key_command\<close> (a registered handler with one key
  that implements a specification, interpreted on thirty commands of the registry), \<open>key_reader\<close> (a handler that answers from the entries
  of its keys and changes nothing, interpreted on MGET and EXISTS).

  \<^bold>\<open>What is shown.\<close> The table refines a finite map on clean runs and is memory safe on all runs; databases behave as maps
  with deadlines; encoder, parser, snapshots and reply parsers are inverse to each other; the containers of the
  command families meet their documented results; every command appends one RESP value; a command with one key
  touches one shard, and neither the shard of the connection nor the front end changes its result; the connection loop
  is independent of how the network cuts the stream; every interleaving of shard steps keeps all tables safe; a save and
  a start with any number of shards keep what clients can read; SET with all its options, the INCR and EXPIRE families and
  pushes and pops of lists implement their specifications on every branch and return when the tables have room; a value
  stored through one connection is read through every other, and no increment is lost; any sequence of thirty commands
  with one key, over connections of any shards, has the replies and the effect of the abstract store; MGET and EXISTS
  over several shards answer from the one map, in the order of the request; and, at the end of this theory, a pipeline sent to a
  running server is answered one to one. Theorems also pin down the places where the code does not do what it means to.

  \<^bold>\<open>Parameters.\<close> What is outside the sources is an argument: the hashers of the tables, \<^verbatim>\<open>itoa\<close>, the decimal text of floats, the
  iteration orders of \<^verbatim>\<open>HashSet\<close> and \<^verbatim>\<open>HashMap\<close>, \<^verbatim>\<open>to_lowercase\<close> of names outside ASCII, the clock, the results of socket and file operations,
  environment variables. \<open>server_ok\<close>, \<open>runtime_ok\<close> and \<open>itoa_ok\<close> state what is assumed of them.

  \<^bold>\<open>Bounds.\<close> Loops are total functions with a measure or bounded by the data they run over; there is no fuel. Integers keep
  their width where the code's arithmetic can wrap. The limits of the parser (1024 * 1024 arguments, 512 MB strings) are those
  of the code.

  \<^bold>\<open>Not modelled.\<close> Thread, runtime and channel construction, channel capacities and back pressure; what a panicking handler on the
  connection's own shard leaves half done (the result is \<open>None\<close> and no step follows); logging; the order in which the runtime executes the
  tasks that the older accept loops spawn (\<open>Listener\<close> gives the tasks); unit tests. \<^verbatim>\<open>transaction.rs\<close>, \<^verbatim>\<open>intent_lock.rs\<close> and \<^verbatim>\<open>tx_queue.rs\<close> hold no code.
\<close>

subsection \<open>From the socket to the replies\<close>

text \<open>The commands of a pipeline that are executed: up to and including the first QUIT.\<close>

definition quits :: "bytes list \<Rightarrow> bool" where
  "quits cmd \<longleftrightarrow> (case cmd of [] \<Rightarrow> False | name # _ \<Rightarrow> ascii_upper name = ''QUIT'')"

fun until_quit :: "bytes list list \<Rightarrow> bytes list list" where
  "until_quit [] = []"
| "until_quit (cmd # cmds) = cmd # (if quits cmd then [] else until_quit cmds)"

lemma from_utf8_QUIT: "from_utf8 s = Some ''QUIT'' \<longleftrightarrow> s = ''QUIT''"
proof -
  have "from_utf8 ''QUIT'' = Some ''QUIT''" by code_simp
  then show ?thesis by (auto simp: from_utf8_def split: if_splits)
qed

lemma keep_alive_iff:
  assumes "dispatch_command sv self (map R_String cmd) ctx d cl = Some (keep, ctx', d', cl')"
  shows "keep \<longleftrightarrow> \<not> quits cmd"
proof (cases cmd)
  case (Cons name rest)
  have q: "from_utf8 (ascii_upper name) = Some ''QUIT'' \<longleftrightarrow> quits cmd" by (simp add: from_utf8_QUIT quits_def Cons)
  show ?thesis
  proof (cases "from_utf8 (ascii_upper name)")
    case (Some u)
    have "u = ''QUIT'' \<longleftrightarrow> quits cmd" using q Some by simp
    then show ?thesis
      using assms unfolding dispatch_command_named [OF _ Some, of "map R_String cmd" "map R_String rest", OF list.map(2) [of R_String name rest, folded Cons]]
      by (auto simp: still_open_def split: if_splits option.splits prod.splits)
  qed (use assms q Cons in \<open>auto simp: dispatch_command_def\<close>)
qed (use assms in \<open>simp add: dispatch_command_def quits_def\<close>)

lemma run_replies:
  assumes "server_ok sv" and "\<forall>cmd \<in> set cmds. name_ok (map R_String cmd)"
    and "run_commands (dispatch_command sv self) cmds ctx d cl = Some (keep, ctx', d', cl')"
  shows "\<exists>rs. d' = d @ concat rs \<and> length rs = length (until_quit cmds) \<and> (\<forall>r \<in> set rs. resp_value r) \<and> (shard_step sv)\<^sup>*\<^sup>* cl cl'"
  using assms(2,3)
proof (induction cmds arbitrary: ctx d cl)
  case (Cons cmd cmds)
  obtain k x d1 cl1 where 1: "dispatch_command sv self (map R_String cmd) ctx d cl = Some (k, x, d1, cl1)"
    using Cons.prems(2) by (auto split: option.splits)
  obtain r where r: "resp_value r" "d1 = d @ r"
    using command_one [OF assms(1) _ 1] Cons.prems(1) by (auto simp: one_more_def)
  have s: "(shard_step sv)\<^sup>*\<^sup>* cl cl1" by (rule dispatch_command_steps [OF 1])
  show ?case
  proof (cases "quits cmd")
    case True
    then show ?thesis using Cons.prems(2) 1 keep_alive_iff [OF 1] r s by (intro exI [of _ "[r]"]) auto
  next
    case False
    then have "run_commands (dispatch_command sv self) cmds x d1 cl1 = Some (keep, ctx', d', cl')"
      using Cons.prems(2) 1 keep_alive_iff [OF 1] by simp
    from Cons.IH [OF _ this] Cons.prems(1) obtain rs where "d' = d1 @ concat rs" "length rs = length (until_quit cmds)"
      "\<forall>r \<in> set rs. resp_value r" "(shard_step sv)\<^sup>*\<^sup>* cl1 cl'" by auto
    then show ?thesis using r s False by (intro exI [of _ "r # rs"]) (auto intro: rtranclp_trans)
  qed
qed simp



end
